(* ===== verification/Perf_Prelude.thy ===== *)
theory Perf_Prelude
  imports Main "HOL-Library.Word"
begin

text \<open>
  Shared ground of the development: the names of the C integer types, the simplification
  collections the component theories extend, and generic lemmas on lists and words.
\<close>

unbundle bit_operations_syntax

named_theorems heap_simps \<open>reading and updating the fields of a pointer heap\<close>
named_theorems frame_simps \<open>an update outside a structure leaves the structure alone\<close>

type_synonym u8 = "8 word"
type_synonym u16 = "16 word"
type_synonym u32 = "32 word"
type_synonym u64 = "64 word"
type_synonym addr = nat

subsection \<open>Results of C code\<close>

text \<open>
  What a run of the C code can do beside returning a value: each is an undefined behaviour of
  the language, a failed assertion, or a loop that never ends.
\<close>

datatype c_error =
    Null_Deref
  | Wild_Deref
  | Out_Of_Bounds
  | Uninit_Read
  | Bad_Shift
  | Int_Overflow
  | Aborted
  | Diverges

type_synonym 'a c_result = "c_error + 'a"

definition bnd :: "'e + 'a \<Rightarrow> ('a \<Rightarrow> 'e + 'b) \<Rightarrow> 'e + 'b" where
  "bnd x f = (case x of Inl e \<Rightarrow> Inl e | Inr a \<Rightarrow> f a)"

lemma bnd_simps [simp]: "bnd (Inl e) f = Inl e" "bnd (Inr a) f = f a"
  by (simp_all add: bnd_def)

lemma bnd_Inr_iff: "bnd x f = Inr b \<longleftrightarrow> (\<exists>a. x = Inr a \<and> f a = Inr b)"
  by (cases x) simp_all

lemma bnd_assoc: "bnd (bnd x f) g = bnd x (\<lambda>a. bnd (f a) g)"
  by (cases x) simp_all

lemma bnd_cong [fundef_cong]: "x = y \<Longrightarrow> (\<And>a. y = Inr a \<Longrightarrow> f a = g a) \<Longrightarrow> bnd x f = bnd y g"
  by (cases y) simp_all

text \<open>A loop that need not return, as the value of the call that runs it.\<close>

definition returns :: "'a option \<Rightarrow> 'a c_result" where
  "returns r = (case r of None \<Rightarrow> Inl Diverges | Some a \<Rightarrow> Inr a)"

lemma returns_simps [simp]: "returns None = Inl Diverges" "returns (Some a) = Inr a"
  by (simp_all add: returns_def)

text \<open>Arrays with their bounds, and unsigned 32-bit arithmetic on naturals.\<close>

definition rd :: "'a list \<Rightarrow> nat \<Rightarrow> 'a c_result" where
  "rd xs i = (if i < length xs then Inr (xs ! i) else Inl Out_Of_Bounds)"

definition wr :: "'a list \<Rightarrow> nat \<Rightarrow> 'a \<Rightarrow> 'a list c_result" where
  "wr xs i v = (if i < length xs then Inr (xs[i := v]) else Inl Out_Of_Bounds)"

lemma rd_in [simp]: "i < length xs \<Longrightarrow> rd xs i = Inr (xs ! i)"
  by (simp add: rd_def)

lemma wr_in [simp]: "i < length xs \<Longrightarrow> wr xs i v = Inr (xs[i := v])"
  by (simp add: wr_def)

lemma rd_first [simp]: "xs \<noteq> [] \<Longrightarrow> rd xs 0 = Inr (xs ! 0)"
  by (simp add: rd_def)

lemma wr_first [simp]: "xs \<noteq> [] \<Longrightarrow> wr xs 0 v = Inr (xs[0 := v])"
  by (simp add: wr_def)

definition memcpy :: "'a list \<Rightarrow> nat \<Rightarrow> 'a list \<Rightarrow> nat \<Rightarrow> nat \<Rightarrow> 'a list c_result" where
  "memcpy dst di src si n =
     (if di + n \<le> length dst \<and> si + n \<le> length src
      then Inr (take di dst @ take n (drop si src) @ drop (di + n) dst)
      else Inl Out_Of_Bounds)"

definition wrap32 :: "nat \<Rightarrow> nat" where
  "wrap32 n = n mod 2 ^ 32"

lemma wrap32_small [simp]: "n < 2 ^ 32 \<Longrightarrow> wrap32 n = n"
  by (simp add: wrap32_def)

text \<open>Error numbers of \<^verbatim>\<open>errno.h\<close> the sources return.\<close>

definition ENOENT :: int where "ENOENT = 2"
definition EIO :: int where "EIO = 5"
definition ENOMEM :: int where "ENOMEM = 12"
definition EINVAL :: int where "EINVAL = 22"
definition ERANGE :: int where "ERANGE = 34"

subsection \<open>Lists sorted by a key\<close>

definition sorted_by :: "('a \<Rightarrow> 'k::linorder) \<Rightarrow> 'a list \<Rightarrow> bool" where
  "sorted_by f xs \<longleftrightarrow> sorted (map f xs)"

lemma sorted_by_Nil [simp]: "sorted_by f []"
  by (simp add: sorted_by_def)

lemma sorted_by_Cons [simp]:
  "sorted_by f (x # xs) \<longleftrightarrow> (\<forall>y \<in> set xs. f x \<le> f y) \<and> sorted_by f xs"
  by (auto simp: sorted_by_def)

lemma sorted_by_append:
  "sorted_by f (xs @ ys) \<longleftrightarrow>
     sorted_by f xs \<and> sorted_by f ys \<and> (\<forall>x \<in> set xs. \<forall>y \<in> set ys. f x \<le> f y)"
  by (auto simp: sorted_by_def sorted_append)

lemma sorted_by_cong:
  "(\<And>x. x \<in> set xs \<Longrightarrow> f x = g x) \<Longrightarrow> sorted_by f xs = sorted_by g xs"
  by (simp add: sorted_by_def cong: map_cong)

text \<open>The position of a key in a sorted list is where the comparison changes.\<close>

lemma sorted_by_split:
  assumes "sorted_by f (xs @ ys)" and "xs = [] \<or> f (last xs) \<le> k" and "ys = [] \<or> k < f (hd ys)"
  shows "takeWhile (\<lambda>x. f x \<le> k) (xs @ ys) = xs"
    and "dropWhile (\<lambda>x. f x \<le> k) (xs @ ys) = ys"
proof -
  have le: "\<forall>x \<in> set xs. f x \<le> k"
  proof (cases "xs = []")
    case False
    then obtain zs z where "xs = zs @ [z]" by (metis append_butlast_last_id)
    with assms(1,2) show ?thesis by (auto simp: sorted_by_append intro: order_trans)
  qed simp
  then show "takeWhile (\<lambda>x. f x \<le> k) (xs @ ys) = xs"
    using assms(3) by (cases ys) (auto simp: takeWhile_append2)
  show "dropWhile (\<lambda>x. f x \<le> k) (xs @ ys) = ys"
    using le assms(3) by (cases ys) auto
qed

lemma sorted_by_insert_after:
  assumes "sorted_by f xs"
  shows "sorted_by f (takeWhile (\<lambda>x. f x \<le> f n) xs @ n # dropWhile (\<lambda>x. f x \<le> f n) xs)"
    (is "sorted_by f (?l @ n # ?r)")
proof -
  have split: "?l @ ?r = xs" by (rule takeWhile_dropWhile_id)
  have s: "sorted_by f (?l @ ?r)" using assms by (simp only: split)
  have hd: "?r = [] \<or> f n < f (hd ?r)"
    using hd_dropWhile [of "\<lambda>x. f x \<le> f n" xs] by (meson leI)
  have "\<forall>y \<in> set ?r. f n \<le> f y"
  proof (cases ?r)
    case Nil
    show ?thesis by (simp only: Nil) simp
  next
    case (Cons y ys)
    with hd have "f n < f y" by simp
    moreover have "sorted_by f (y # ys)" using s Cons by (simp add: sorted_by_append)
    ultimately show ?thesis using Cons by auto
  qed
  moreover have "\<forall>x \<in> set ?l. f x \<le> f n" by (auto dest: set_takeWhileD)
  moreover from s have "sorted_by f ?l" "sorted_by f ?r" by (simp_all only: sorted_by_append)
  ultimately show ?thesis by (auto simp only: sorted_by_append sorted_by_Cons set_simps
        intro: order_trans)
qed

lemma sorted_by_rev_drop:
  "sorted_by f ys \<Longrightarrow> dropWhile (\<lambda>a. t < f a) (rev ys) = rev (takeWhile (\<lambda>a. f a \<le> t) ys)"
proof (induction ys rule: rev_induct)
  case (snoc y ys)
  show ?case
  proof (cases "f y \<le> t")
    case True
    with snoc.prems have "\<forall>a \<in> set ys. f a \<le> t" by (auto simp: sorted_by_append intro: order_trans)
    with True show ?thesis by (simp add: takeWhile_append2)
  next
    case False
    then have "takeWhile (\<lambda>a. f a \<le> t) (ys @ [y]) = takeWhile (\<lambda>a. f a \<le> t) ys"
      by (simp add: takeWhile_tail)
    with False snoc show ?thesis by (simp add: sorted_by_append not_le)
  qed
qed simp

subsection \<open>Words\<close>

lemma u32_of_nat_eq_0: "n < 2 ^ 32 \<Longrightarrow> (of_nat n :: u32) = 0 \<longleftrightarrow> n = 0"
proof -
  assume "n < 2 ^ 32"
  then have "unat (of_nat n :: u32) = n" by (simp add: unat_of_nat)
  then show ?thesis by (cases "n = 0") auto
qed

lemma word_less_plus_1:
  fixes b :: "'a::len word"
  assumes "a \<le> b" "b \<noteq> -1"
  shows "a < b + 1"
proof -
  have "1 + b \<noteq> 0" using assms(2) by (metis add.commute eq_neg_iff_add_eq_0)
  then have "unat (1 + b) = Suc (unat b)" by (rule unatSuc)
  then show ?thesis using assms(1) by (simp add: word_less_nat_alt word_le_nat_alt add.commute)
qed

lemma unat_u8: "unat (w :: u8) < 256"
  using unsigned_less [of w, where 'a = nat] by simp

lemma unat_u64: "unat (w :: u64) < 2 ^ 64"
  using unsigned_less [of w, where 'a = nat] by simp

lemma unat_u32: "unat (w :: u32) < 2 ^ 32"
  using unsigned_less [of w, where 'a = nat] by simp

end
