(* ===== verification/Linux_List.thy ===== *)
theory Linux_List
  imports Perf_Prelude
begin

text \<open>
  The circular doubly linked list of \<^verbatim>\<open>src/tools/include/linux/list.h\<close>, at pointer level:
  a heap with one \<open>next\<close> and one \<open>prev\<close> link per address, the operations as the
  sequences of link updates of the source, and the abstraction of a list to the sequence
  of its entries (\<open>ring\<close>).
\<close>

subsection \<open>The heap and the operations\<close>

record lheap =
  nxt :: "addr \<Rightarrow> addr"
  prv :: "addr \<Rightarrow> addr"

definition set_next :: "addr \<Rightarrow> addr \<Rightarrow> lheap \<Rightarrow> lheap" where
  "set_next a b h = h\<lparr>nxt := (nxt h)(a := b)\<rparr>"

definition set_prev :: "addr \<Rightarrow> addr \<Rightarrow> lheap \<Rightarrow> lheap" where
  "set_prev a b h = h\<lparr>prv := (prv h)(a := b)\<rparr>"

lemma set_next_simps [heap_simps, simp]:
  "nxt (set_next a b h) = (nxt h)(a := b)" "prv (set_next a b h) = prv h"
  by (simp_all add: set_next_def)

lemma set_prev_simps [heap_simps, simp]:
  "prv (set_prev a b h) = (prv h)(a := b)" "nxt (set_prev a b h) = nxt h"
  by (simp_all add: set_prev_def)

definition LIST_POISON1 :: addr where "LIST_POISON1 = 256"
definition LIST_POISON2 :: addr where "LIST_POISON2 = 512"

definition INIT_LIST_HEAD :: "addr \<Rightarrow> lheap \<Rightarrow> lheap" where
  "INIT_LIST_HEAD l h = set_prev l l (set_next l l h)"

definition list_add_between :: "addr \<Rightarrow> addr \<Rightarrow> addr \<Rightarrow> lheap \<Rightarrow> lheap" where
  "list_add_between new prev next h =
     (let h = set_prev next new h;
          h = set_next new next h;
          h = set_prev new prev h
      in set_next prev new h)"

definition list_add :: "addr \<Rightarrow> addr \<Rightarrow> lheap \<Rightarrow> lheap" where
  "list_add new head h = list_add_between new head (nxt h head) h"

definition list_add_tail :: "addr \<Rightarrow> addr \<Rightarrow> lheap \<Rightarrow> lheap" where
  "list_add_tail new head h = list_add_between new (prv h head) head h"

definition list_del_between :: "addr \<Rightarrow> addr \<Rightarrow> lheap \<Rightarrow> lheap" where
  "list_del_between prev next h = set_next prev next (set_prev next prev h)"

definition list_del_entry :: "addr \<Rightarrow> lheap \<Rightarrow> lheap" where
  "list_del_entry entry h = list_del_between (prv h entry) (nxt h entry) h"

definition list_del :: "addr \<Rightarrow> lheap \<Rightarrow> lheap" where
  "list_del entry h =
     (let h = list_del_between (prv h entry) (nxt h entry) h;
          h = set_next entry LIST_POISON1 h
      in set_prev entry LIST_POISON2 h)"

definition list_del_init :: "addr \<Rightarrow> lheap \<Rightarrow> lheap" where
  "list_del_init entry h = INIT_LIST_HEAD entry (list_del_entry entry h)"

definition list_move :: "addr \<Rightarrow> addr \<Rightarrow> lheap \<Rightarrow> lheap" where
  "list_move l head h = list_add l head (list_del_entry l h)"

definition list_move_tail :: "addr \<Rightarrow> addr \<Rightarrow> lheap \<Rightarrow> lheap" where
  "list_move_tail l head h = list_add_tail l head (list_del_entry l h)"

definition list_empty :: "addr \<Rightarrow> lheap \<Rightarrow> bool" where
  "list_empty head h \<longleftrightarrow> nxt h head = head"

definition list_is_last :: "addr \<Rightarrow> addr \<Rightarrow> lheap \<Rightarrow> bool" where
  "list_is_last l head h \<longleftrightarrow> nxt h l = head"

definition list_is_singular :: "addr \<Rightarrow> lheap \<Rightarrow> bool" where
  "list_is_singular head h \<longleftrightarrow> \<not> list_empty head h \<and> nxt h head = prv h head"

definition list_replace :: "addr \<Rightarrow> addr \<Rightarrow> lheap \<Rightarrow> lheap" where
  "list_replace old new h =
     (let h = set_next new (nxt h old) h;
          h = set_prev (nxt h new) new h;
          h = set_prev new (prv h old) h
      in set_next (prv h new) new h)"

definition list_rotate_left :: "addr \<Rightarrow> lheap \<Rightarrow> lheap" where
  "list_rotate_left head h =
     (if \<not> list_empty head h then list_move_tail (nxt h head) head h else h)"

definition list_splice_between :: "addr \<Rightarrow> addr \<Rightarrow> addr \<Rightarrow> lheap \<Rightarrow> lheap" where
  "list_splice_between l prev next h =
     (let first = nxt h l;
          last = prv h l;
          h = set_prev first prev h;
          h = set_next prev first h;
          h = set_next last next h
      in set_prev next last h)"

definition list_splice :: "addr \<Rightarrow> addr \<Rightarrow> lheap \<Rightarrow> lheap" where
  "list_splice l head h =
     (if \<not> list_empty l h then list_splice_between l head (nxt h head) h else h)"

definition list_splice_tail :: "addr \<Rightarrow> addr \<Rightarrow> lheap \<Rightarrow> lheap" where
  "list_splice_tail l head h =
     (if \<not> list_empty l h then list_splice_between l (prv h head) head h else h)"

definition list_splice_init :: "addr \<Rightarrow> addr \<Rightarrow> lheap \<Rightarrow> lheap" where
  "list_splice_init l head h =
     (if \<not> list_empty l h
      then INIT_LIST_HEAD l (list_splice_between l head (nxt h head) h) else h)"

definition list_splice_tail_init :: "addr \<Rightarrow> addr \<Rightarrow> lheap \<Rightarrow> lheap" where
  "list_splice_tail_init l head h =
     (if \<not> list_empty l h
      then INIT_LIST_HEAD l (list_splice_between l (prv h head) head h) else h)"

subsection \<open>Segments and rings\<close>

text \<open>
  \<open>dseg h a xs b\<close>: from \<open>a\<close>, the \<open>next\<close> links run through \<open>xs\<close> to \<open>b\<close> and the \<open>prev\<close>
  links run back.  A list with head \<open>hd\<close> and entries \<open>xs\<close> is a segment from \<open>hd\<close> to \<open>hd\<close>.
\<close>

fun dseg :: "lheap \<Rightarrow> addr \<Rightarrow> addr list \<Rightarrow> addr \<Rightarrow> bool" where
  "dseg h a [] b \<longleftrightarrow> nxt h a = b \<and> prv h b = a"
| "dseg h a (x # xs) b \<longleftrightarrow> nxt h a = x \<and> prv h x = a \<and> dseg h x xs b"

definition ring :: "lheap \<Rightarrow> addr \<Rightarrow> addr list \<Rightarrow> bool" where
  "ring h head xs \<longleftrightarrow> dseg h head xs head \<and> distinct (head # xs)"

lemma dseg_append [simp]:
  "dseg h a (xs @ y # ys) b \<longleftrightarrow> dseg h a xs y \<and> dseg h y ys b"
  by (induction xs arbitrary: a) auto

lemma dseg_set_next [frame_simps]:
  "c \<noteq> a \<Longrightarrow> c \<notin> set xs \<Longrightarrow> dseg (set_next c v h) a xs b = dseg h a xs b"
  by (induction xs arbitrary: a) auto

lemma dseg_set_prev [frame_simps]:
  "c \<noteq> b \<Longrightarrow> c \<notin> set xs \<Longrightarrow> dseg (set_prev c v h) a xs b = dseg h a xs b"
  by (induction xs arbitrary: a) auto

lemma dseg_first: "dseg h a xs b \<Longrightarrow> nxt h a = hd (xs @ [b])"
  by (cases xs) auto

lemma dseg_last: "dseg h a xs b \<Longrightarrow> prv h b = last (a # xs)"
  by (induction xs arbitrary: a) auto

subsection \<open>Rings under the operations\<close>

text \<open>
  Two entries are neighbours of a ring when the ring splits between them; \<open>left_of\<close> and
  \<open>right_of\<close> name the neighbours, the head standing at both ends.
\<close>

abbreviation left_of :: "addr \<Rightarrow> addr list \<Rightarrow> addr" where
  "left_of head xs \<equiv> last (head # xs)"

abbreviation right_of :: "addr \<Rightarrow> addr list \<Rightarrow> addr" where
  "right_of head ys \<equiv> hd (ys @ [head])"

lemma dseg_link:
  assumes "dseg h a (xs @ ys) b" and "distinct (a # xs @ ys)" and "b \<notin> set (xs @ ys)"
    and "n \<notin> set (a # b # xs @ ys)"
  shows "dseg (list_add_between n (last (a # xs)) (hd (ys @ [b])) h) a (xs @ n # ys) b"
  using assms
proof (induction xs arbitrary: a)
  case Nil
  then show ?case
    by (cases ys) (auto simp: list_add_between_def Let_def frame_simps)
next
  case (Cons x xs)
  from Cons.prems have "dseg (list_add_between n (last (x # xs)) (hd (ys @ [b])) h) x (xs @ n # ys) b"
    by (intro Cons.IH) auto
  moreover have "nxt (list_add_between n (last (x # xs)) (hd (ys @ [b])) h) a = x"
    using Cons.prems by (auto simp: list_add_between_def Let_def dest: last_in_set split: if_splits)
  moreover have "prv (list_add_between n (last (x # xs)) (hd (ys @ [b])) h) x = a"
    using Cons.prems by (cases ys) (auto simp: list_add_between_def Let_def)
  ultimately show ?case by simp
qed

lemma ring_link:
  assumes "ring h head (xs @ ys)" and "n \<notin> set (head # xs @ ys)"
  shows "ring (list_add_between n (left_of head xs) (right_of head ys) h) head (xs @ n # ys)"
  using assms dseg_link [of h head xs ys head n] by (auto simp: ring_def)

lemma dseg_unlink:
  assumes "dseg h a (xs @ e # ys) b" and "distinct (a # xs @ e # ys)" and "b \<notin> set (xs @ e # ys)"
  shows "dseg (list_del_between (last (a # xs)) (hd (ys @ [b])) h) a (xs @ ys) b"
  using assms
proof (induction xs arbitrary: a)
  case Nil
  then show ?case by (cases ys) (auto simp: list_del_between_def frame_simps)
next
  case (Cons x xs)
  from Cons.prems have "dseg (list_del_between (last (x # xs)) (hd (ys @ [b])) h) x (xs @ ys) b"
    by (intro Cons.IH) auto
  moreover have "nxt (list_del_between (last (x # xs)) (hd (ys @ [b])) h) a = x"
    using Cons.prems by (auto simp: list_del_between_def dest: last_in_set split: if_splits)
  moreover have "prv (list_del_between (last (x # xs)) (hd (ys @ [b])) h) x = a"
    using Cons.prems by (cases ys) (auto simp: list_del_between_def)
  ultimately show ?case by simp
qed

lemma ring_unlink:
  assumes "ring h head (xs @ e # ys)"
  shows "ring (list_del_between (left_of head xs) (right_of head ys) h) head (xs @ ys)"
  using assms dseg_unlink [of h head xs e ys head] by (auto simp: ring_def)

text \<open>What a ring fixes of the heap: the neighbours of an entry and of the head.\<close>

lemma ring_neighbours:
  assumes "ring h head (xs @ e # ys)"
  shows "nxt h e = right_of head ys" and "prv h e = left_of head xs"
  using assms by (auto simp: ring_def dest: dseg_first dseg_last)

lemma ring_head:
  assumes "ring h head xs"
  shows "nxt h head = right_of head xs" and "prv h head = left_of head xs"
  using assms by (auto simp: ring_def dest: dseg_first dseg_last)

lemma ring_split: "ring h head xs \<Longrightarrow> e \<in> set xs \<Longrightarrow> \<exists>ys zs. xs = ys @ e # zs"
  by (rule split_list)

lemma ring_distinct: "ring h head xs \<Longrightarrow> distinct xs" "ring h head xs \<Longrightarrow> head \<notin> set xs"
  by (simp_all add: ring_def)

lemma list_empty_ring: "ring h head xs \<Longrightarrow> list_empty head h \<longleftrightarrow> xs = []"
  by (cases xs) (auto simp: ring_def list_empty_def)

lemma list_is_last_ring:
  "ring h head xs \<Longrightarrow> e \<in> set xs \<Longrightarrow> list_is_last e head h \<longleftrightarrow> e = last xs"
proof -
  assume r: "ring h head xs" and e: "e \<in> set xs"
  then obtain ys zs where xs: "xs = ys @ e # zs" by (blast dest: ring_split)
  from r have "distinct xs" "head \<notin> set xs" by (simp_all add: ring_def)
  with r xs show ?thesis
    by (cases zs) (auto simp: list_is_last_def ring_neighbours dest: last_in_set)
qed

lemma list_is_singular_ring:
  "ring h head xs \<Longrightarrow> list_is_singular head h \<longleftrightarrow> length xs = 1"
proof -
  assume r: "ring h head xs"
  then have "nxt h head = right_of head xs" "prv h head = left_of head xs" "distinct xs"
    by (simp_all add: ring_head ring_distinct)
  with r show ?thesis
    by (cases xs) (auto simp: list_is_singular_def list_empty_ring dest: last_in_set)
qed

lemma INIT_LIST_HEAD_ring [simp]: "ring (INIT_LIST_HEAD l h) l []"
  by (simp add: ring_def INIT_LIST_HEAD_def)

text \<open>Entries are inserted next to an anchor: the head or an entry.\<close>

lemma list_add_ring:
  "ring h head xs \<Longrightarrow> n \<notin> set (head # xs) \<Longrightarrow> ring (list_add n head h) head (n # xs)"
  using ring_link [of h head "[]" xs n] by (simp add: list_add_def ring_head)

lemma list_add_tail_ring:
  "ring h head xs \<Longrightarrow> n \<notin> set (head # xs) \<Longrightarrow> ring (list_add_tail n head h) head (xs @ [n])"
  using ring_link [of h head xs "[]" n] by (simp add: list_add_tail_def ring_head)

lemma list_add_after_ring:
  "ring h head (xs @ e # ys) \<Longrightarrow> n \<notin> set (head # xs @ e # ys) \<Longrightarrow>
     ring (list_add n e h) head (xs @ e # n # ys)"
  using ring_link [of h head "xs @ [e]" ys n] by (simp add: list_add_def ring_neighbours)

lemma list_add_before_ring:
  "ring h head (xs @ e # ys) \<Longrightarrow> n \<notin> set (head # xs @ e # ys) \<Longrightarrow>
     ring (list_add_tail n e h) head (xs @ n # e # ys)"
  using ring_link [of h head xs "e # ys" n] by (simp add: list_add_tail_def ring_neighbours)

lemma list_del_entry_ring:
  "ring h head (xs @ e # ys) \<Longrightarrow> ring (list_del_entry e h) head (xs @ ys)"
  using ring_unlink [of h head xs e ys] by (simp add: list_del_entry_def ring_neighbours)

lemma link_at_split:
  assumes "ring h head (pre @ post)"
  shows "list_add n (left_of head pre) h = list_add_between n (left_of head pre) (right_of head post) h"
    and "list_add_tail n (right_of head post) h =
           list_add_between n (left_of head pre) (right_of head post) h"
proof -
  have "nxt h (left_of head pre) = right_of head post"
    using assms ring_head(1) [of h head post] ring_neighbours(1) [of h head _ _ post]
    by (cases pre rule: rev_cases) auto
  then show "list_add n (left_of head pre) h =
      list_add_between n (left_of head pre) (right_of head post) h"
    by (simp only: list_add_def)
  have "prv h (right_of head post) = left_of head pre"
    using assms ring_head(2) [of h head pre] ring_neighbours(2) [of h head pre]
    by (cases post) auto
  then show "list_add_tail n (right_of head post) h =
      list_add_between n (left_of head pre) (right_of head post) h"
    by (simp only: list_add_tail_def)
qed

subsection \<open>Frame: rings that share no address\<close>

lemma ring_set_next [frame_simps]:
  "c \<notin> set (head # xs) \<Longrightarrow> ring (set_next c v h) head xs = ring h head xs"
  by (simp add: ring_def dseg_set_next)

lemma ring_set_prev [frame_simps]:
  "c \<notin> set (head # xs) \<Longrightarrow> ring (set_prev c v h) head xs = ring h head xs"
  by (simp add: ring_def dseg_set_prev)

lemma INIT_LIST_HEAD_frame [frame_simps]:
  "c \<notin> set (head # xs) \<Longrightarrow> ring (INIT_LIST_HEAD c h) head xs = ring h head xs"
  by (simp add: INIT_LIST_HEAD_def frame_simps)

lemma list_add_between_frame [frame_simps]:
  "n \<notin> set (head # xs) \<Longrightarrow> p \<notin> set (head # xs) \<Longrightarrow> q \<notin> set (head # xs) \<Longrightarrow>
     ring (list_add_between n p q h) head xs = ring h head xs"
  by (simp add: list_add_between_def Let_def frame_simps)

lemma list_del_between_frame [frame_simps]:
  "p \<notin> set (head # xs) \<Longrightarrow> q \<notin> set (head # xs) \<Longrightarrow>
     ring (list_del_between p q h) head xs = ring h head xs"
  by (simp add: list_del_between_def frame_simps)

abbreviation cells :: "addr \<Rightarrow> addr list \<Rightarrow> addr set" where
  "cells head xs \<equiv> set (head # xs)"

lemma right_of_cells: "right_of head ys \<in> cells head ys"
  by (cases ys) auto

lemma left_of_cells: "left_of head xs \<in> cells head xs"
  by (cases xs rule: rev_cases) auto

lemma list_add_other_ring:
  assumes "ring h head xs" and "cells head xs \<inter> cells head' ys = {}" and "ring h head' ys"
    and "n \<notin> cells head' ys" and "a \<in> cells head xs"
  shows "ring (list_add n a h) head' ys" and "ring (list_add_tail n a h) head' ys"
proof -
  have "nxt h a \<in> cells head xs \<and> prv h a \<in> cells head xs"
  proof (cases "a = head")
    case True
    with assms(1) right_of_cells [of xs head] left_of_cells [of head xs] show ?thesis
      by (simp add: ring_head)
  next
    case False
    with assms(5) obtain us vs where xs: "xs = us @ a # vs" by (auto dest: split_list)
    have "right_of head vs \<in> cells head vs" "left_of head us \<in> cells head us"
      by (rule right_of_cells, rule left_of_cells)
    with assms(1) xs show ?thesis by (auto simp: ring_neighbours)
  qed
  then have "nxt h a \<notin> cells head' ys" "prv h a \<notin> cells head' ys" "a \<notin> cells head' ys"
    using assms(2,5) by blast+
  with assms(3,4) show "ring (list_add n a h) head' ys" "ring (list_add_tail n a h) head' ys"
    unfolding list_add_def list_add_tail_def
    by (blast intro: list_add_between_frame [THEN iffD2])+
qed

lemma list_del_entry_other_ring:
  assumes "ring h head (xs @ e # ys)" and "cells head (xs @ e # ys) \<inter> cells head' zs = {}"
    and "ring h head' zs"
  shows "ring (list_del_entry e h) head' zs"
proof -
  have "right_of head ys \<in> cells head ys" "left_of head xs \<in> cells head xs"
    by (rule right_of_cells, rule left_of_cells)
  then have "right_of head ys \<notin> cells head' zs" "left_of head xs \<notin> cells head' zs"
    using assms(2) by auto
  with assms(1,3) show ?thesis
    by (auto simp only: list_del_entry_def ring_neighbours
        intro: list_del_between_frame [THEN iffD2])
qed

text \<open>\<open>list_del\<close> also poisons the links of the entry, which is in no list any more.\<close>

lemma list_del_ring:
  assumes "ring h head (xs @ e # ys)"
  shows "ring (list_del e h) head (xs @ ys)"
proof -
  have "e \<notin> cells head (xs @ ys)" using assms by (auto simp: ring_def)
  with list_del_entry_ring [OF assms] show ?thesis
    by (simp add: list_del_def list_del_entry_def Let_def ring_set_next ring_set_prev)
qed

lemma list_del_other_ring:
  assumes "ring h head (xs @ e # ys)" and "cells head (xs @ e # ys) \<inter> cells head' zs = {}"
    and "ring h head' zs"
  shows "ring (list_del e h) head' zs"
proof -
  have "e \<notin> cells head' zs" using assms(2) by auto
  with list_del_entry_other_ring [OF assms] show ?thesis
    by (simp add: list_del_def list_del_entry_def Let_def ring_set_next ring_set_prev)
qed

subsection \<open>Splicing\<close>

lemma dseg_retarget:
  assumes "dseg h a xs b" and "xs \<noteq> []" and "distinct (a # xs)" and "b \<notin> set xs"
    and "p \<notin> set xs" and "q \<notin> set xs"
    and "nxt h' p = hd xs" and "prv h' (hd xs) = p" and "nxt h' (last xs) = q" and "prv h' q = last xs"
    and "\<And>c. c \<in> set xs \<Longrightarrow> c \<noteq> last xs \<Longrightarrow> nxt h' c = nxt h c"
    and "\<And>c. c \<in> set xs \<Longrightarrow> c \<noteq> hd xs \<Longrightarrow> prv h' c = prv h c"
  shows "dseg h' p xs q"
  using assms
proof (induct xs arbitrary: a p)
  case Nil
  from Nil.prems(2) show ?case by simp
next
  case (Cons x xs)
  note p = Cons.prems
  show ?case 
  proof (cases "xs = []")
    case True
    with p(7-10) show ?thesis by simp
  next
    case False
    have seg: "dseg h x xs b" and x: "x \<notin> set xs" using p(1,3) by simp_all
    have lst: "last (x # xs) = last xs" and lin: "last xs \<in> set xs" and hin: "hd xs \<in> set xs"
      using False by simp_all
    have "x \<noteq> last (x # xs)" using x lin lst by metis
    then have 1: "nxt h' x = hd xs"
      using p(11) [of x] dseg_first [OF seg] False by simp
    have 2: "prv h' (hd xs) = x"
    proof -
      have "prv h (hd xs) = x" using seg False by (cases xs) simp_all
      moreover have "hd xs \<noteq> hd (x # xs)" using x hin by auto
      ultimately show ?thesis using p(12) [of "hd xs"] hin by simp
    qed
    have "dseg h' x xs q"
    proof (rule Cons.hyps [OF seg False _ _ x _ 1 2])
      show "distinct (x # xs)" "b \<notin> set xs" "q \<notin> set xs" using p(3,4,6) by simp_all
      show "nxt h' (last xs) = q" "prv h' q = last xs" using p(9,10) lst by simp_all
      show "nxt h' c = nxt h c" if "c \<in> set xs" "c \<noteq> last xs" for c
        using p(11) [of c] that lst by simp
      show "prv h' c = prv h c" if "c \<in> set xs" "c \<noteq> hd xs" for c
      proof -
        have "c \<noteq> hd (x # xs)" using that x by auto
        with that show ?thesis using p(12) [of c] by simp
      qed
    qed
    with p(7,8) show ?thesis by simp
  qed
qed

lemma list_splice_tail_ring:
  assumes l: "ring h l xs" and hd: "ring h head ys" and dis: "cells l xs \<inter> cells head ys = {}"
  shows "ring (list_splice_tail l head h) head (ys @ xs)"
proof (cases "xs = []")
  case True
  with l hd show ?thesis by (simp add: list_splice_tail_def list_empty_ring)
next
  case False
  let ?h = "list_splice_between l (prv h head) head h"
  have ends: "nxt h l = hd xs" "prv h l = last xs" "prv h head = left_of head ys"
    using ring_head [OF l] ring_head [OF hd] False by simp_all
  have mem: "hd xs \<in> set xs" "last xs \<in> set xs" using False by simp_all
  have left: "left_of head ys \<in> cells head ys" by (rule left_of_cells)
  have lo: "left_of head ys \<notin> set xs" "head \<notin> set xs"
    using dis left by (auto simp del: last.simps)
  have links: "nxt ?h = (nxt h)(left_of head ys := hd xs, last xs := head)"
    "prv ?h = (prv h)(hd xs := left_of head ys, head := last xs)"
    by (simp_all only: list_splice_between_def Let_def ends set_next_simps set_prev_simps)
  have "dseg ?h (left_of head ys) xs head"
  proof (rule dseg_retarget [of h l xs l])
    show "dseg h l xs l" "distinct (l # xs)" "l \<notin> set xs" using l by (simp_all add: ring_def)
    show "xs \<noteq> []" by (rule False)
    show "left_of head ys \<notin> set xs" "head \<notin> set xs" by (fact lo)+
    show "nxt ?h (left_of head ys) = hd xs" "nxt ?h (last xs) = head"
      "prv ?h (hd xs) = left_of head ys" "prv ?h head = last xs"
      using lo mem by (auto simp: links simp del: last.simps)
    show "\<And>c. c \<in> set xs \<Longrightarrow> c \<noteq> last xs \<Longrightarrow> nxt ?h c = nxt h c"
      "\<And>c. c \<in> set xs \<Longrightarrow> c \<noteq> hd xs \<Longrightarrow> prv ?h c = prv h c"
      using lo by (auto simp: links simp del: last.simps)
  qed
  moreover have "dseg ?h head zs z" if ys: "ys = zs @ [z]" for zs z
  proof -
    have d: "dseg h head zs z" "distinct (head # zs @ [z])"
      using hd ys by (simp_all add: ring_def)
    have ne: "hd xs \<noteq> z" "last xs \<noteq> head" "hd xs \<notin> set zs" "last xs \<notin> set zs"
      using dis mem ys by auto
    have "?h = set_prev head (last xs) (set_next (last xs) head (set_next z (hd xs) (set_prev (hd xs) z h)))"
      using ys by (simp add: list_splice_between_def Let_def ends)
    with d ne show ?thesis
      by (simp add: dseg_set_next dseg_set_prev)
  qed
  ultimately have "dseg ?h head (ys @ xs) head"
    by (cases ys rule: rev_cases) (auto simp del: dseg.simps)
  moreover have "distinct (head # ys @ xs)"
    using l hd dis by (auto simp: ring_def)
  moreover have "\<not> list_empty l h" using l False by (simp add: list_empty_ring)
  ultimately show ?thesis by (simp only: ring_def list_splice_tail_def if_True not_False_eq_True)
qed

subsection \<open>The contract clients rely on\<close>

text \<open>
  What users of the list need: a representation of the entries as a sequence, linking after an
  anchor, unlinking, and that both leave every other list alone.  Moving an entry from one list
  to another is derived from these laws only.
\<close>

locale entry_lists =
  fixes rep :: "'h \<Rightarrow> addr \<Rightarrow> addr list \<Rightarrow> bool"
    and link_after :: "addr \<Rightarrow> addr \<Rightarrow> 'h \<Rightarrow> 'h"
    and unlink :: "addr \<Rightarrow> 'h \<Rightarrow> 'h"
  assumes rep_distinct: "rep h head xs \<Longrightarrow> distinct (head # xs)"
    and link_head: "rep h head xs \<Longrightarrow> n \<notin> cells head xs \<Longrightarrow> rep (link_after n head h) head (n # xs)"
    and link_other: "rep h head xs \<Longrightarrow> rep h head' ys \<Longrightarrow> cells head xs \<inter> cells head' ys = {} \<Longrightarrow>
      n \<notin> cells head' ys \<Longrightarrow> a \<in> cells head xs \<Longrightarrow> rep (link_after n a h) head' ys"
    and unlink_entry: "rep h head (xs @ e # ys) \<Longrightarrow> rep (unlink e h) head (xs @ ys)"
    and unlink_other: "rep h head (xs @ e # ys) \<Longrightarrow> rep h head' zs \<Longrightarrow>
      cells head (xs @ e # ys) \<inter> cells head' zs = {} \<Longrightarrow> rep (unlink e h) head' zs"
begin

lemma move_front:
  assumes src: "rep h head (xs @ e # ys)" and dst: "rep h head' zs"
    and dis: "cells head (xs @ e # ys) \<inter> cells head' zs = {}"
  shows "rep (link_after e head' (unlink e h)) head (xs @ ys)"
    and "rep (link_after e head' (unlink e h)) head' (e # zs)"
proof -
  have src': "rep (unlink e h) head (xs @ ys)" using src by (rule unlink_entry)
  have dst': "rep (unlink e h) head' zs" using src dst dis by (rule unlink_other)
  have e: "e \<notin> cells head (xs @ ys)" using rep_distinct [OF src] by auto
  show "rep (link_after e head' (unlink e h)) head (xs @ ys)"
    by (rule link_other [OF dst' src']) (use dis e in auto)
  show "rep (link_after e head' (unlink e h)) head' (e # zs)"
    by (rule link_head [OF dst']) (use dis in auto)
qed

lemma move_front_other:
  assumes src: "rep h head (xs @ e # ys)" and dst: "rep h head' zs" and oth: "rep h head3 ws"
    and "cells head (xs @ e # ys) \<inter> cells head' zs = {}"
    and "cells head (xs @ e # ys) \<inter> cells head3 ws = {}" and "cells head' zs \<inter> cells head3 ws = {}"
  shows "rep (link_after e head' (unlink e h)) head3 ws"
proof (rule link_other)
  show "rep (unlink e h) head' zs" using src dst assms(4) by (rule unlink_other)
  show "rep (unlink e h) head3 ws" using src oth assms(5) by (rule unlink_other)
qed (use assms in auto)

end

interpretation ll: entry_lists ring list_add list_del_entry
proof (unfold_locales, goal_cases)
  case (1 h head xs) then show ?case by (simp add: ring_def)
next
  case (2 h head xs n) then show ?case by (rule list_add_ring)
next
  case (3 h head xs head' ys n a) then show ?case using list_add_other_ring(1) [of h head xs head' ys n a] by blast
next
  case (4 h head xs e ys) then show ?case by (rule list_del_entry_ring)
next
  case (5 h head xs e ys head' zs) then show ?case using list_del_entry_other_ring [of h head xs e ys head' zs] by blast
qed

lemmas list_move_ring = ll.move_front [folded list_move_def]
lemmas list_move_other_ring = ll.move_front_other [folded list_move_def]

lemma list_splice_tail_other_ring:
  assumes l: "ring h l xs" and hd: "ring h head ys" and oth: "ring h head' zs"
    and dis: "cells l xs \<inter> cells head' zs = {}" "cells head ys \<inter> cells head' zs = {}"
  shows "ring (list_splice_tail l head h) head' zs"
proof (cases "xs = []")
  case True
  with l oth show ?thesis by (simp add: list_splice_tail_def list_empty_ring)
next
  case False
  have ends: "nxt h l = hd xs" "prv h l = last xs" "prv h head = left_of head ys"
    using ring_head [OF l] ring_head [OF hd] False by simp_all
  have "hd xs \<in> cells l xs" "last xs \<in> cells l xs" using False by simp_all
  moreover have "left_of head ys \<in> cells head ys" by (rule left_of_cells)
  ultimately have "hd xs \<notin> cells head' zs" "last xs \<notin> cells head' zs" "left_of head ys \<notin> cells head' zs" "head \<notin> cells head' zs"
    using dis by (auto simp del: last.simps)
  then have "ring (list_splice_between l (prv h head) head h) head' zs"
    using oth unfolding list_splice_between_def Let_def ends by (simp only: ring_set_next ring_set_prev not_False_eq_True)
  then show ?thesis using l False by (simp add: list_splice_tail_def list_empty_ring)
qed

text \<open>A block of list heads initialised one after the other.\<close>

lemma fold_INIT_ring:
  "i < n \<Longrightarrow> ring (fold (\<lambda>i. INIT_LIST_HEAD (base + i)) [0..<n] h) (base + i) []"
proof (induction n)
  case (Suc n)
  then show ?case by (cases "i = n") (simp_all add: INIT_LIST_HEAD_frame)
qed simp

lemma fold_INIT_other_ring:
  "ring h head xs \<Longrightarrow> \<forall>c \<in> cells head xs. c < base \<Longrightarrow>
     ring (fold (\<lambda>i. INIT_LIST_HEAD (base + i)) [0..<n] h) head xs"
proof (induction n)
  case (Suc n)
  then have "base + n \<notin> cells head xs" by auto
  then show ?case using Suc by (simp add: INIT_LIST_HEAD_frame)
qed simp

end
