(* ===== verification/Ordered_Events.thy ===== *)
theory Ordered_Events
  imports Linux_List "HOL-Library.Multiset"
begin

text \<open>
  The queue that puts events in time order, \<^verbatim>\<open>src/tools/perf/util/ordered-events.c\<close>:
  its state, insertion, the slot allocator, flushing, and release.  The three lists of the
  queue are pointer lists of \<open>Linux_List\<close>; an \<open>ordered_event\<close> is named by the address of its
  \<open>list\<close> member.
\<close>

subsection \<open>State\<close>

record perf_event =
  header_size :: u16
  body :: "u8 list"

text \<open>A slot's \<open>event\<close> pointer: what \<open>malloc\<close> left there, or an event.\<close>

datatype event_ptr = Uninit | Ev perf_event

record ordered_event =
  timestamp :: u64
  file_offset :: u64
  event :: event_ptr

datatype oe_flush = OE_FLUSH__NONE | OE_FLUSH__FINAL | OE_FLUSH__ROUND | OE_FLUSH__HALF

text \<open>
  Memory: list links and slots by address, and the allocator.  \<open>malloc\<close> hands out fresh
  addresses above \<open>brk\<close> or fails, as the schedule \<open>oom\<close> of the run says; memory given
  back with \<open>free\<close> is not handed out again.
\<close>

record oe_mem =
  links :: lheap
  slots :: "addr \<Rightarrow> ordered_event"
  brk :: addr
  requests :: nat
  oom :: "nat \<Rightarrow> bool"

record ordered_events =
  last_flush :: u64
  next_flush :: u64
  max_timestamp :: u64
  max_alloc_size :: u64
  cur_alloc_size :: u64
  events :: addr
  cache :: addr
  to_free :: addr
  buffer :: "addr option"
  oe_last :: "addr option"
  buffer_idx :: nat
  nr_events :: u32
  last_flush_type :: oe_flush
  nr_unordered_events :: u32
  copy_on_queue :: bool
  mem :: oe_mem

abbreviation oe_links :: "ordered_events \<Rightarrow> lheap" where
  "oe_links oe \<equiv> links (mem oe)"

abbreviation ts_of :: "ordered_events \<Rightarrow> addr \<Rightarrow> u64" where
  "ts_of oe a \<equiv> timestamp (slots (mem oe) a)"

definition upd_links :: "(lheap \<Rightarrow> lheap) \<Rightarrow> ordered_events \<Rightarrow> ordered_events" where
  "upd_links f oe = oe\<lparr>mem := (mem oe)\<lparr>links := f (oe_links oe)\<rparr>\<rparr>"

definition upd_slot :: "addr \<Rightarrow> (ordered_event \<Rightarrow> ordered_event) \<Rightarrow> ordered_events \<Rightarrow> ordered_events" where
  "upd_slot a f oe =
     oe\<lparr>mem := (mem oe)\<lparr>slots := (slots (mem oe))(a := f (slots (mem oe) a))\<rparr>\<rparr>"

subsection \<open>Insertion in time order\<close>

datatype stop = At_Head | At addr

partial_function (option) walk_next ::
  "(addr \<Rightarrow> u64) \<Rightarrow> lheap \<Rightarrow> addr \<Rightarrow> u64 \<Rightarrow> addr \<Rightarrow> stop option" where
  "walk_next ts h head t lst =
     (if ts lst \<le> t
      then (if nxt h lst = head then Some At_Head else walk_next ts h head t (nxt h lst))
      else Some (At lst))"

partial_function (option) walk_prev ::
  "(addr \<Rightarrow> u64) \<Rightarrow> lheap \<Rightarrow> addr \<Rightarrow> u64 \<Rightarrow> addr \<Rightarrow> stop option" where
  "walk_prev ts h head t lst =
     (if ts lst > t
      then (if prv h lst = head then Some At_Head else walk_prev ts h head t (prv h lst))
      else Some (At lst))"

definition queue_event :: "ordered_events \<Rightarrow> addr \<Rightarrow> ordered_events c_result" where
  "queue_event oe new =
     (let lst = oe_last oe;
          t = ts_of oe new;
          oe = oe\<lparr>nr_events := nr_events oe + 1, oe_last := Some new\<rparr>
      in case lst of
           None \<Rightarrow> Inr ((upd_links (list_add new (events oe)) oe)\<lparr>max_timestamp := t\<rparr>)
         | Some l \<Rightarrow>
             if ts_of oe l \<le> t then
               (case walk_next (ts_of oe) (oe_links oe) (events oe) t l of
                  None \<Rightarrow> Inl Diverges
                | Some At_Head \<Rightarrow>
                    Inr ((upd_links (list_add_tail new (events oe)) oe)\<lparr>max_timestamp := t\<rparr>)
                | Some (At a) \<Rightarrow> Inr (upd_links (list_add_tail new a) oe))
             else
               (case walk_prev (ts_of oe) (oe_links oe) (events oe) t l of
                  None \<Rightarrow> Inl Diverges
                | Some At_Head \<Rightarrow> Inr (upd_links (list_add new (events oe)) oe)
                | Some (At a) \<Rightarrow> Inr (upd_links (list_add new a) oe)))"

subsection \<open>Slots and event copies\<close>

definition malloc :: "nat \<Rightarrow> oe_mem \<Rightarrow> addr option \<times> oe_mem" where
  "malloc n m =
     (let m' = m\<lparr>requests := Suc (requests m)\<rparr>
      in if oom m (requests m) then (None, m') else (Some (brk m), m'\<lparr>brk := brk m + n\<rparr>))"

definition dup_event_copy :: "ordered_events \<Rightarrow> perf_event \<Rightarrow> perf_event option \<times> ordered_events" where
  "dup_event_copy oe ev =
     (if cur_alloc_size oe < max_alloc_size oe then
        (case malloc 1 (mem oe) of
           (None, m) \<Rightarrow> (None, oe\<lparr>mem := m\<rparr>)
         | (Some _, m) \<Rightarrow>
             (Some ev, oe\<lparr>mem := m, cur_alloc_size := cur_alloc_size oe + ucast (header_size ev)\<rparr>))
      else (None, oe))"

definition dup_event :: "ordered_events \<Rightarrow> perf_event \<Rightarrow> perf_event option \<times> ordered_events" where
  "dup_event oe ev = (if copy_on_queue oe then dup_event_copy oe ev else (Some ev, oe))"

text \<open>
  An event pointer is either unset or the event it points to.  The \<open>free\<close> needs no more than that as long as the
  events queued are copies exactly when \<open>copy_on_queue\<close> is set, which is so when the flag changes only while no
  event is queued.
\<close>

definition free_dup_event :: "ordered_events \<Rightarrow> event_ptr \<Rightarrow> ordered_events c_result" where
  "free_dup_event oe p =
     (if copy_on_queue oe then
        (case p of
           Uninit \<Rightarrow> Inl Wild_Deref
         | Ev ev \<Rightarrow> Inr (oe\<lparr>cur_alloc_size := cur_alloc_size oe - ucast (header_size ev)\<rparr>))
      else Inr oe)"

definition sizeof_ordered_event :: nat where "sizeof_ordered_event = 40"

definition MAX_SAMPLE_BUFFER :: nat where
  "MAX_SAMPLE_BUFFER = 64 * 1024 div sizeof_ordered_event"

text \<open>A block of slots fresh from \<open>malloc\<close> has no event in any of them.\<close>

definition wipe_slots :: "addr \<Rightarrow> ordered_events \<Rightarrow> ordered_events" where
  "wipe_slots b oe =
     oe\<lparr>mem := (mem oe)\<lparr>slots := (\<lambda>a. if b \<le> a \<and> a < b + MAX_SAMPLE_BUFFER
        then (slots (mem oe) a)\<lparr>event := Uninit\<rparr> else slots (mem oe) a)\<rparr>\<rparr>"

text \<open>
  \<open>alloc_event\<close>: the slot comes from the cache, from the current block, or from a new block
  whose first slot holds it on \<open>to_free\<close>; the store through \<open>new\<close> at the end happens in every
  case.
\<close>

definition alloc_slot :: "ordered_events \<Rightarrow> perf_event \<Rightarrow> (bool \<times> addr option \<times> ordered_events) c_result" where
  "alloc_slot oe new_event =
     (if \<not> list_empty (cache oe) (oe_links oe) then
        (let new = nxt (oe_links oe) (cache oe)
         in Inr (True, Some new, upd_links (list_del new) oe))
      else case buffer oe of
        Some b \<Rightarrow>
          (let new = b + buffer_idx oe;
               oe = oe\<lparr>buffer_idx := Suc (buffer_idx oe)\<rparr>
           in Inr (True, Some new,
                if buffer_idx oe = MAX_SAMPLE_BUFFER then oe\<lparr>buffer := None\<rparr> else oe))
      | None \<Rightarrow>
          if cur_alloc_size oe < max_alloc_size oe then
            (case malloc MAX_SAMPLE_BUFFER (mem oe) of
               (None, m) \<Rightarrow>
                 (case free_dup_event (oe\<lparr>mem := m\<rparr>) (Ev new_event) of
                    Inl e \<Rightarrow> Inl e
                  | Inr oe \<Rightarrow> Inr (False, None, oe))
             | (Some b, m) \<Rightarrow>
                 (let oe = wipe_slots b (oe\<lparr>mem := m, buffer := Some b\<rparr>);
                      oe = oe\<lparr>cur_alloc_size := cur_alloc_size oe +
                             of_nat (MAX_SAMPLE_BUFFER * sizeof_ordered_event)\<rparr>;
                      oe = upd_links (list_add b (to_free oe)) oe;
                      oe = oe\<lparr>buffer_idx := 2\<rparr>
                  in Inr (True, Some (b + 1), oe)))
          else Inr (True, None, oe))"

definition alloc_event :: "ordered_events \<Rightarrow> perf_event \<Rightarrow> (addr option \<times> ordered_events) c_result" where
  "alloc_event oe ev =
     (case dup_event oe ev of
        (None, oe) \<Rightarrow> Inr (None, oe)
      | (Some new_event, oe) \<Rightarrow>
          (case alloc_slot oe new_event of
             Inl e \<Rightarrow> Inl e
           | Inr (False, _, oe) \<Rightarrow> Inr (None, oe)
           | Inr (True, None, oe) \<Rightarrow> Inl Null_Deref
           | Inr (True, Some new, oe) \<Rightarrow>
               Inr (Some new, upd_slot new (\<lambda>s. s\<lparr>event := Ev new_event\<rparr>) oe)))"

definition ordered_events__new_event ::
  "ordered_events \<Rightarrow> u64 \<Rightarrow> perf_event \<Rightarrow> (addr option \<times> ordered_events) c_result" where
  "ordered_events__new_event oe t ev =
     (case alloc_event oe ev of
        Inl e \<Rightarrow> Inl e
      | Inr (None, oe) \<Rightarrow> Inr (None, oe)
      | Inr (Some new, oe) \<Rightarrow>
          (case queue_event (upd_slot new (\<lambda>s. s\<lparr>timestamp := t\<rparr>) oe) new of
             Inl e \<Rightarrow> Inl e
           | Inr oe \<Rightarrow> Inr (Some new, oe)))"

subsection \<open>Delivery and flushing\<close>

definition ordered_events__delete :: "ordered_events \<Rightarrow> addr \<Rightarrow> ordered_events c_result" where
  "ordered_events__delete oe a =
     (let oe = upd_links (list_move a (cache oe)) oe;
          oe = oe\<lparr>nr_events := nr_events oe - 1\<rparr>
      in free_dup_event oe (event (slots (mem oe) a)))"

text \<open>
  The client: its state \<open>'c\<close>, the \<open>deliver\<close> callback and the poll of the volatile flag
  \<open>session_done\<close>.  The callback gets the event; it does not change the queue.
\<close>

record 'c client =
  deliver :: "'c \<Rightarrow> ordered_event \<Rightarrow> int \<times> 'c"
  session_done :: "'c \<Rightarrow> bool \<times> 'c"

datatype loop_exit = Completed | Returned int

partial_function (option) flush_loop ::
  "'c client \<Rightarrow> u64 \<Rightarrow> ordered_events \<Rightarrow> 'c \<Rightarrow> addr \<Rightarrow>
     (loop_exit \<times> ordered_events \<times> 'c) c_result option" where
  "flush_loop k limit oe c iter =
     (if iter = events oe then Some (Inr (Completed, oe, c))
      else if fst (session_done k c) then Some (Inr (Returned 0, oe, snd (session_done k c)))
      else if ts_of oe iter > limit then Some (Inr (Completed, oe, snd (session_done k c)))
      else
        (case deliver k (snd (session_done k c)) (slots (mem oe) iter) of
           (ret, c') \<Rightarrow>
             if ret \<noteq> 0 then Some (Inr (Returned ret, oe, c'))
             else
               (case ordered_events__delete oe iter of
                  Inl e \<Rightarrow> Some (Inl e)
                | Inr oe' \<Rightarrow>
                    flush_loop k limit (oe'\<lparr>last_flush := ts_of oe' iter\<rparr>) c'
                      (nxt (oe_links oe) iter))))"

definition do_ordered_events__flush ::
  "'c client \<Rightarrow> ordered_events \<Rightarrow> 'c \<Rightarrow> (int \<times> ordered_events \<times> 'c) c_result" where
  "do_ordered_events__flush k oe c =
     (let head = events oe;
          limit = next_flush oe;
          last_ts = (case oe_last oe of Some l \<Rightarrow> ts_of oe l | None \<Rightarrow> 0)
      in if limit = 0 then Inr (0, oe, c)
         else
           (case flush_loop k limit oe c (nxt (oe_links oe) head) of
              None \<Rightarrow> Inl Diverges
            | Some (Inl e) \<Rightarrow> Inl e
            | Some (Inr (Returned r, oe, c)) \<Rightarrow> Inr (r, oe, c)
            | Some (Inr (Completed, oe, c)) \<Rightarrow>
                Inr (0,
                  if list_empty head (oe_links oe) then oe\<lparr>oe_last := None\<rparr>
                  else if last_ts \<le> limit then oe\<lparr>oe_last := Some (prv (oe_links oe) head)\<rparr>
                  else oe, c)))"

definition set_next_flush :: "oe_flush \<Rightarrow> ordered_events \<Rightarrow> ordered_events option" where
  "set_next_flush how oe =
     (case how of
        OE_FLUSH__FINAL \<Rightarrow> Some (oe\<lparr>next_flush := - 1\<rparr>)
      | OE_FLUSH__HALF \<Rightarrow>
          (case oe_last oe of
             None \<Rightarrow> None
           | Some lst \<Rightarrow>
               if list_empty (events oe) (oe_links oe) then None
               else
                 (let first = nxt (oe_links oe) (events oe)
                  in Some (oe\<lparr>next_flush := ts_of oe first + (ts_of oe lst - ts_of oe first) div 2\<rparr>)))
      | _ \<Rightarrow> Some oe)"

definition ordered_events__flush ::
  "'c client \<Rightarrow> ordered_events \<Rightarrow> oe_flush \<Rightarrow> 'c \<Rightarrow> (int \<times> ordered_events \<times> 'c) c_result" where
  "ordered_events__flush k oe how c =
     (if nr_events oe = 0 then Inr (0, oe, c)
      else
        (case set_next_flush how oe of
           None \<Rightarrow> Inr (0, oe, c)
         | Some oe \<Rightarrow>
             (case do_ordered_events__flush k oe c of
                Inl e \<Rightarrow> Inl e
              | Inr (err, oe, c) \<Rightarrow>
                  Inr (err,
                    if err = 0
                    then (if how = OE_FLUSH__ROUND then oe\<lparr>next_flush := max_timestamp oe\<rparr> else oe)
                           \<lparr>last_flush_type := how\<rparr>
                    else oe, c))))"

definition ETIME :: int where "ETIME = 62"

definition ordered_events__queue ::
  "'c client \<Rightarrow> ordered_events \<Rightarrow> perf_event \<Rightarrow> u64 \<Rightarrow> u64 \<Rightarrow> 'c \<Rightarrow>
     (int \<times> ordered_events \<times> 'c) c_result" where
  "ordered_events__queue k oe ev t off c =
     (if t = 0 \<or> t = - 1 then Inr (- ETIME, oe, c)
      else
        (let oe = (if t < last_flush oe
                   then oe\<lparr>nr_unordered_events := nr_unordered_events oe + 1\<rparr> else oe);
             store = (\<lambda>a oe. upd_slot a (\<lambda>s. s\<lparr>file_offset := off\<rparr>) oe)
         in case ordered_events__new_event oe t ev of
              Inl e \<Rightarrow> Inl e
            | Inr (Some a, oe) \<Rightarrow> Inr (0, store a oe, c)
            | Inr (None, oe) \<Rightarrow>
                (case ordered_events__flush k oe OE_FLUSH__HALF c of
                   Inl e \<Rightarrow> Inl e
                 | Inr (_, oe, c) \<Rightarrow>
                     (case ordered_events__new_event oe t ev of
                        Inl e \<Rightarrow> Inl e
                      | Inr (Some a, oe) \<Rightarrow> Inr (0, store a oe, c)
                      | Inr (None, oe) \<Rightarrow> Inr (- ENOMEM, oe, c)))))"

subsection \<open>Set-up and release\<close>

definition ordered_events__init :: "ordered_events \<Rightarrow> ordered_events" where
  "ordered_events__init oe =
     (let oe = upd_links (INIT_LIST_HEAD (events oe)) oe;
          oe = upd_links (INIT_LIST_HEAD (cache oe)) oe;
          oe = upd_links (INIT_LIST_HEAD (to_free oe)) oe
      in oe\<lparr>max_alloc_size := - 1, cur_alloc_size := 0\<rparr>)"

partial_function (option) ordered_events__free :: "ordered_events \<Rightarrow> ordered_events c_result option" where
  "ordered_events__free oe =
     (if list_empty (to_free oe) (oe_links oe) then Some (Inr oe)
      else
        (case free_dup_event (upd_links (list_del (nxt (oe_links oe) (to_free oe))) oe)
                (event (slots (mem oe) (nxt (oe_links oe) (to_free oe)))) of
           Inl e \<Rightarrow> Some (Inl e)
         | Inr oe' \<Rightarrow> ordered_events__free oe'))"

definition ordered_events__reinit :: "ordered_events \<Rightarrow> ordered_events c_result" where
  "ordered_events__reinit oe =
     (case ordered_events__free oe of
        None \<Rightarrow> Inl Diverges
      | Some (Inl e) \<Rightarrow> Inl e
      | Some (Inr oe) \<Rightarrow>
          Inr (ordered_events__init
            (oe\<lparr>last_flush := 0, next_flush := 0, max_timestamp := 0, max_alloc_size := 0,
               cur_alloc_size := 0, buffer := None, oe_last := None, buffer_idx := 0,
               nr_events := 0, last_flush_type := OE_FLUSH__NONE, nr_unordered_events := 0,
               copy_on_queue := False\<rparr>)))"

definition ordered_events__set_alloc_size :: "ordered_events \<Rightarrow> u64 \<Rightarrow> ordered_events" where
  "ordered_events__set_alloc_size oe sz = oe\<lparr>max_alloc_size := sz\<rparr>"

definition ordered_events__set_copy_on_queue :: "ordered_events \<Rightarrow> bool \<Rightarrow> ordered_events" where
  "ordered_events__set_copy_on_queue oe copy = oe\<lparr>copy_on_queue := copy\<rparr>"

subsection \<open>Reading through the updates\<close>

lemma upd_links_simps [heap_simps, simp]:
  "oe_links (upd_links f oe) = f (oe_links oe)" "slots (mem (upd_links f oe)) = slots (mem oe)"
  "brk (mem (upd_links f oe)) = brk (mem oe)"
  "events (upd_links f oe) = events oe" "cache (upd_links f oe) = cache oe"
  "to_free (upd_links f oe) = to_free oe" "buffer (upd_links f oe) = buffer oe"
  "buffer_idx (upd_links f oe) = buffer_idx oe" "oe_last (upd_links f oe) = oe_last oe"
  "nr_events (upd_links f oe) = nr_events oe" "max_timestamp (upd_links f oe) = max_timestamp oe"
  "last_flush (upd_links f oe) = last_flush oe" "next_flush (upd_links f oe) = next_flush oe"
  "copy_on_queue (upd_links f oe) = copy_on_queue oe"
  "cur_alloc_size (upd_links f oe) = cur_alloc_size oe"
  "max_alloc_size (upd_links f oe) = max_alloc_size oe"
  "nr_unordered_events (upd_links f oe) = nr_unordered_events oe"
  "last_flush_type (upd_links f oe) = last_flush_type oe"
  by (simp_all add: upd_links_def)

lemma upd_slot_simps [heap_simps, simp]:
  "oe_links (upd_slot a f oe) = oe_links oe"
  "slots (mem (upd_slot a f oe)) = (slots (mem oe))(a := f (slots (mem oe) a))"
  "brk (mem (upd_slot a f oe)) = brk (mem oe)"
  "events (upd_slot a f oe) = events oe" "cache (upd_slot a f oe) = cache oe"
  "to_free (upd_slot a f oe) = to_free oe" "buffer (upd_slot a f oe) = buffer oe"
  "buffer_idx (upd_slot a f oe) = buffer_idx oe" "oe_last (upd_slot a f oe) = oe_last oe"
  "nr_events (upd_slot a f oe) = nr_events oe" "max_timestamp (upd_slot a f oe) = max_timestamp oe"
  "last_flush (upd_slot a f oe) = last_flush oe" "next_flush (upd_slot a f oe) = next_flush oe"
  "copy_on_queue (upd_slot a f oe) = copy_on_queue oe"
  "cur_alloc_size (upd_slot a f oe) = cur_alloc_size oe"
  "max_alloc_size (upd_slot a f oe) = max_alloc_size oe"
  "nr_unordered_events (upd_slot a f oe) = nr_unordered_events oe"
  "last_flush_type (upd_slot a f oe) = last_flush_type oe"
  by (simp_all add: upd_slot_def)

subsection \<open>The walks end at the insertion point\<close>

definition stop_at :: "addr list \<Rightarrow> stop" where
  "stop_at xs = (case xs of [] \<Rightarrow> At_Head | a # _ \<Rightarrow> At a)"

lemma walk_next_ring:
  "ring h head (ys @ l # zs) \<Longrightarrow>
     walk_next ts h head t l = Some (stop_at (dropWhile (\<lambda>a. ts a \<le> t) (l # zs)))"
proof (induction zs arbitrary: ys l)
  case Nil
  then show ?case by (simp add: walk_next.simps [of ts h head t l] ring_neighbours stop_at_def)
next
  case (Cons z zs)
  have n: "nxt h l = z" using ring_neighbours [OF Cons.prems] by simp
  have z: "z \<noteq> head" using Cons.prems by (auto simp: ring_def)
  have "ring h head ((ys @ [l]) @ z # zs)" using Cons.prems by simp
  from Cons.IH [OF this] n z show ?case
    by (simp add: walk_next.simps [of ts h head t l] stop_at_def)
qed

lemma walk_prev_ring:
  "ring h head (ys @ l # zs) \<Longrightarrow>
     walk_prev ts h head t l = Some (stop_at (dropWhile (\<lambda>a. t < ts a) (l # rev ys)))"
proof (induction ys arbitrary: zs l rule: rev_induct)
  case Nil
  then show ?case
    using ring_neighbours(2) [of h head "[]" l zs]
    by (simp add: walk_prev.simps [of ts h head t l] stop_at_def)
next
  case (snoc y ys)
  have n: "prv h l = y" using ring_neighbours [OF snoc.prems] by simp
  have y: "y \<noteq> head" using snoc.prems by (auto simp: ring_def)
  have "ring h head (ys @ y # l # zs)" using snoc.prems by simp
  from snoc.IH [OF this] n y show ?case
    by (simp add: walk_prev.simps [of ts h head t l] stop_at_def)
qed

subsection \<open>The invariant\<close>

text \<open>
  \<open>oe_store\<close>: the three lists hold \<open>xs\<close>, \<open>cs\<close> and \<open>fs\<close>, share no address, and none of
  their cells is in the unused part of the current block.  \<open>oe_order\<close>: what the queue promises
  of the events in it.
\<close>

definition oe_cells :: "ordered_events \<Rightarrow> addr list \<Rightarrow> addr list \<Rightarrow> addr list \<Rightarrow> addr list" where
  "oe_cells oe xs cs fs = [events oe, cache oe, to_free oe] @ xs @ cs @ fs"

definition in_block :: "ordered_events \<Rightarrow> addr \<Rightarrow> bool" where
  "in_block oe a \<longleftrightarrow>
     (\<exists>b. buffer oe = Some b \<and> b + buffer_idx oe \<le> a \<and> a < b + MAX_SAMPLE_BUFFER)"

lemma in_block_upd [simp]:
  "in_block (upd_links f oe) = in_block oe" "in_block (upd_slot n g oe) = in_block oe"
  by (simp_all add: in_block_def fun_eq_iff)

definition oe_store :: "ordered_events \<Rightarrow> addr list \<Rightarrow> addr list \<Rightarrow> addr list \<Rightarrow> bool" where
  "oe_store oe xs cs fs \<longleftrightarrow>
     ring (oe_links oe) (events oe) xs \<and> ring (oe_links oe) (cache oe) cs \<and>
     ring (oe_links oe) (to_free oe) fs \<and> distinct (oe_cells oe xs cs fs) \<and>
     (\<forall>a \<in> set (oe_cells oe xs cs fs). a < brk (mem oe) \<and> \<not> in_block oe a) \<and>
     (\<forall>b. buffer oe = Some b \<longrightarrow>
        buffer_idx oe < MAX_SAMPLE_BUFFER \<and> b + MAX_SAMPLE_BUFFER \<le> brk (mem oe))"

lemma oe_cells_disjoint:
  assumes "distinct (oe_cells oe xs cs fs)"
  shows "cells (events oe) xs \<inter> cells (cache oe) cs = {}"
    and "cells (events oe) xs \<inter> cells (to_free oe) fs = {}"
    and "cells (cache oe) cs \<inter> cells (to_free oe) fs = {}"
  using assms by (auto simp: oe_cells_def)

definition oe_order :: "ordered_events \<Rightarrow> addr list \<Rightarrow> bool" where
  "oe_order oe xs \<longleftrightarrow>
     sorted_by (ts_of oe) xs \<and> nr_events oe = of_nat (length xs) \<and>
     (case oe_last oe of None \<Rightarrow> xs = [] | Some l \<Rightarrow> l \<in> set xs) \<and>
     (xs \<noteq> [] \<longrightarrow> max_timestamp oe = ts_of oe (last xs)) \<and>
     (\<forall>a \<in> set xs. event (slots (mem oe) a) \<noteq> Uninit)"

definition oe_inv :: "ordered_events \<Rightarrow> addr list \<Rightarrow> addr list \<Rightarrow> addr list \<Rightarrow> bool" where
  "oe_inv oe xs cs fs \<longleftrightarrow> oe_store oe xs cs fs \<and> oe_order oe xs"

text \<open>Where a new event with timestamp \<open>t\<close> goes: behind every event not later than it.\<close>

definition insert_event :: "(addr \<Rightarrow> u64) \<Rightarrow> addr \<Rightarrow> addr list \<Rightarrow> addr list" where
  "insert_event ts n xs =
     takeWhile (\<lambda>a. ts a \<le> ts n) xs @ n # dropWhile (\<lambda>a. ts a \<le> ts n) xs"

text \<open>Every branch of \<open>queue_event\<close> links the new entry at the same place.\<close>

lemma queue_event_eq:
  fixes oe :: ordered_events and n :: addr and xs :: "addr list"
  assumes ring: "ring (oe_links oe) (events oe) xs" and sorted: "sorted_by (ts_of oe) xs"
    and lst: "case oe_last oe of None \<Rightarrow> xs = [] | Some l \<Rightarrow> l \<in> set xs"
  defines "pre \<equiv> takeWhile (\<lambda>a. ts_of oe a \<le> ts_of oe n) xs"
    and "post \<equiv> dropWhile (\<lambda>a. ts_of oe a \<le> ts_of oe n) xs"
  shows "queue_event oe n = Inr
    (upd_links (list_add_between n (left_of (events oe) pre) (right_of (events oe) post)) 
      (oe\<lparr>nr_events := nr_events oe + 1, oe_last := Some n,
         max_timestamp := if post = [] then ts_of oe n else max_timestamp oe\<rparr>))"
proof -
  have split: "xs = pre @ post" by (simp add: pre_def post_def)
  have ring': "ring (oe_links oe) (events oe) (pre @ post)" using ring split by simp
  note link = link_at_split [OF ring', of n]
  show ?thesis
  proof (cases "oe_last oe")
    case None
    with lst have "pre = []" "post = []" by (simp_all add: pre_def post_def)
    with None link(1) show ?thesis by (simp add: queue_event_def upd_links_def)
  next
    case (Some l)
    with lst obtain ys zs where xs: "xs = ys @ l # zs" by (auto dest: split_list)
    note walk = walk_next_ring [OF ring [unfolded xs], of "ts_of oe" "ts_of oe n"]
      walk_prev_ring [OF ring [unfolded xs], of "ts_of oe" "ts_of oe n"]
    show ?thesis
    proof (cases "ts_of oe l \<le> ts_of oe n")
      case True
      have "\<forall>a \<in> set ys. ts_of oe a \<le> ts_of oe n"
        using sorted xs True by (auto simp: sorted_by_append intro: order_trans)
      then have "dropWhile (\<lambda>a. ts_of oe a \<le> ts_of oe n) (l # zs) = post"
        by (simp add: post_def xs dropWhile_append2)
      with walk(1) have "walk_next (ts_of oe) (oe_links oe) (events oe) (ts_of oe n) l = Some (stop_at post)"
        by simp
      with Some True link(2) show ?thesis
        by (cases post) (auto simp: queue_event_def stop_at_def upd_links_def)
    next
      case False
      have gt: "\<forall>a \<in> set (l # zs). ts_of oe n < ts_of oe a"
        using sorted xs False by (auto simp: sorted_by_append intro: less_le_trans)
      have "dropWhile (\<lambda>a. ts_of oe n < ts_of oe a) (l # rev ys) =
          rev (takeWhile (\<lambda>a. ts_of oe a \<le> ts_of oe n) ys)"
        using sorted_by_rev_drop [of "ts_of oe" ys "ts_of oe n"] sorted xs gt
        by (simp add: sorted_by_append)
      also have "takeWhile (\<lambda>a. ts_of oe a \<le> ts_of oe n) ys = pre"
        using False by (simp add: pre_def xs takeWhile_tail)
      finally have *: "walk_prev (ts_of oe) (oe_links oe) (events oe) (ts_of oe n) l = Some (stop_at (rev pre))"
        using walk(2) by simp
      have "post \<noteq> []" using False by (auto simp: post_def xs dropWhile_append split: if_splits)
      with * Some False link(1) show ?thesis
        by (cases pre rule: rev_cases) (auto simp: queue_event_def stop_at_def upd_links_def)
    qed
  qed
qed

text \<open>Insertion keeps the invariant and is insertion in time order.\<close>

lemma insert_event_set: "set (insert_event ts n xs) = insert n (set xs)"
proof -
  have "set (insert_event ts n xs) = insert n
      (set (takeWhile (\<lambda>a. ts a \<le> ts n) xs @ dropWhile (\<lambda>a. ts a \<le> ts n) xs))"
    by (simp add: insert_event_def del: takeWhile_dropWhile_id)
  then show ?thesis by simp
qed

lemma insert_event_length: "length (insert_event ts n xs) = Suc (length xs)"
proof -
  have "length (insert_event ts n xs) =
      Suc (length (takeWhile (\<lambda>a. ts a \<le> ts n) xs @ dropWhile (\<lambda>a. ts a \<le> ts n) xs))"
    by (simp add: insert_event_def del: takeWhile_dropWhile_id)
  then show ?thesis by simp
qed

lemma insert_event_last:
  "last (insert_event ts n xs) = (if dropWhile (\<lambda>a. ts a \<le> ts n) xs = [] then n else last xs)"
proof -
  have "last xs = last (takeWhile (\<lambda>a. ts a \<le> ts n) xs @ dropWhile (\<lambda>a. ts a \<le> ts n) xs)"
    by (simp only: takeWhile_dropWhile_id)
  then show ?thesis by (simp add: insert_event_def del: takeWhile_dropWhile_id)
qed

lemma insert_event_sorted: "sorted_by ts xs \<Longrightarrow> sorted_by ts (insert_event ts n xs)"
  unfolding insert_event_def by (rule sorted_by_insert_after)

definition fresh_slot :: "ordered_events \<Rightarrow> addr list \<Rightarrow> addr list \<Rightarrow> addr list \<Rightarrow> addr \<Rightarrow> bool" where
  "fresh_slot oe xs cs fs n \<longleftrightarrow>
     n \<notin> set (oe_cells oe xs cs fs) \<and> n < brk (mem oe) \<and> \<not> in_block oe n \<and>
     event (slots (mem oe) n) \<noteq> Uninit"

lemma queue_event_store:
  assumes st: "oe_store oe xs cs fs" and fr: "fresh_slot oe xs cs fs n" and xs: "xs = pre @ post"
  shows "oe_store (upd_links (list_add_between n (left_of (events oe) pre) (right_of (events oe) post)) oe)
           (pre @ n # post) cs fs"
proof -
  let ?f = "list_add_between n (left_of (events oe) pre) (right_of (events oe) post)"
  have ring: "ring (oe_links oe) (events oe) (pre @ post)"
    and cs: "ring (oe_links oe) (cache oe) cs" and fs: "ring (oe_links oe) (to_free oe) fs"
    and dist: "distinct (oe_cells oe (pre @ post) cs fs)"
    using st xs by (auto simp: oe_store_def)
  have n: "n \<notin> set (oe_cells oe (pre @ post) cs fs)" using fr xs by (simp add: fresh_slot_def)
  have "left_of (events oe) pre \<in> cells (events oe) pre" "right_of (events oe) post \<in> cells (events oe) post"
    by (rule left_of_cells, rule right_of_cells)
  then have out: "left_of (events oe) pre \<notin> cells (cache oe) cs" "left_of (events oe) pre \<notin> cells (to_free oe) fs"
    "right_of (events oe) post \<notin> cells (cache oe) cs" "right_of (events oe) post \<notin> cells (to_free oe) fs"
    using oe_cells_disjoint(1,2) [OF dist] by (simp_all only: set_simps set_append) blast+
  have "ring (?f (oe_links oe)) (events oe) (pre @ n # post)"
    by (rule ring_link [OF ring]) (use n in \<open>auto simp: oe_cells_def\<close>)
  moreover have "ring (?f (oe_links oe)) (cache oe) cs"
    by (rule list_add_between_frame [THEN iffD2]) (use n out cs in \<open>auto simp: oe_cells_def simp del: last.simps\<close>)
  moreover have "ring (?f (oe_links oe)) (to_free oe) fs"
    by (rule list_add_between_frame [THEN iffD2]) (use n out fs in \<open>auto simp: oe_cells_def simp del: last.simps\<close>)
  moreover have "distinct (oe_cells oe (pre @ n # post) cs fs)"
    using dist n by (auto simp: oe_cells_def)
  ultimately show ?thesis
    using st fr xs by (simp add: oe_store_def oe_cells_def fresh_slot_def)
qed

lemma oe_store_fields [simp]:
  "oe_store (oe\<lparr>nr_events := n\<rparr>) = oe_store oe" "oe_store (oe\<lparr>oe_last := l\<rparr>) = oe_store oe"
  "oe_store (oe\<lparr>max_timestamp := t\<rparr>) = oe_store oe" "oe_store (oe\<lparr>last_flush := t\<rparr>) = oe_store oe"
  "oe_store (oe\<lparr>next_flush := t\<rparr>) = oe_store oe" "oe_store (oe\<lparr>cur_alloc_size := t\<rparr>) = oe_store oe"
  "oe_store (oe\<lparr>last_flush_type := y\<rparr>) = oe_store oe"
  "oe_store (oe\<lparr>nr_unordered_events := n\<rparr>) = oe_store oe"
  "oe_store (upd_slot a f oe) = oe_store oe"
  by (simp_all add: oe_store_def oe_cells_def in_block_def fun_eq_iff)

lemma queue_event_inv:
  assumes inv: "oe_inv oe xs cs fs" and fr: "fresh_slot oe xs cs fs n"
  shows "\<exists>oe'. queue_event oe n = Inr oe' \<and> oe_inv oe' (insert_event (ts_of oe) n xs) cs fs \<and>
     slots (mem oe') = slots (mem oe) \<and> next_flush oe' = next_flush oe \<and>
     last_flush oe' = last_flush oe \<and> copy_on_queue oe' = copy_on_queue oe"
proof -
  let ?pre = "takeWhile (\<lambda>a. ts_of oe a \<le> ts_of oe n) xs"
  let ?post = "dropWhile (\<lambda>a. ts_of oe a \<le> ts_of oe n) xs"
  let ?f = "list_add_between n (left_of (events oe) ?pre) (right_of (events oe) ?post)"
  let ?max = "if ?post = [] then ts_of oe n else max_timestamp oe"
  let ?oe = "upd_links ?f (oe\<lparr>nr_events := nr_events oe + 1, oe_last := Some n, max_timestamp := ?max\<rparr>)"
  have st: "oe_store oe xs cs fs" and ord: "oe_order oe xs" using inv by (simp_all add: oe_inv_def)
  have eq: "queue_event oe n = Inr ?oe"
    by (rule queue_event_eq) (use st ord in \<open>simp_all add: oe_store_def oe_order_def\<close>)
  have "oe_store (upd_links ?f oe) (insert_event (ts_of oe) n xs) cs fs"
    unfolding insert_event_def by (rule queue_event_store [OF st fr]) simp
  moreover have "?oe = (upd_links ?f oe)\<lparr>nr_events := nr_events oe + 1, oe_last := Some n, max_timestamp := ?max\<rparr>"
    by (simp add: upd_links_def)
  ultimately have "oe_store ?oe (insert_event (ts_of oe) n xs) cs fs" by simp
  moreover have "oe_order ?oe (insert_event (ts_of oe) n xs)"
    using ord fr
    by (auto simp: oe_order_def insert_event_set insert_event_length insert_event_last
        insert_event_sorted fresh_slot_def)
  ultimately show ?thesis using eq by (auto simp: oe_inv_def)
qed

text \<open>Allocation: the slot is fresh, the lists keep their entries up to the cache.\<close>

lemma malloc_cases:
  "malloc n m = (r, m') \<Longrightarrow>
     links m' = links m \<and> slots m' = slots m \<and> brk m \<le> brk m' \<and>
     (case r of None \<Rightarrow> brk m' = brk m | Some b \<Rightarrow> b = brk m \<and> brk m' = b + n)"
  by (auto simp: malloc_def Let_def split: if_splits)

lemma MAX_SAMPLE_BUFFER_eq: "MAX_SAMPLE_BUFFER = 1638"
  by (simp add: MAX_SAMPLE_BUFFER_def sizeof_ordered_event_def)

text \<open>What an allocation may change: memory and the allocation fields, never the queue.\<close>

definition same_queue :: "ordered_events \<Rightarrow> ordered_events \<Rightarrow> bool" where
  "same_queue oe oe' \<longleftrightarrow>
     events oe' = events oe \<and> cache oe' = cache oe \<and> to_free oe' = to_free oe \<and>
     oe_last oe' = oe_last oe \<and> nr_events oe' = nr_events oe \<and>
     max_timestamp oe' = max_timestamp oe \<and> last_flush oe' = last_flush oe \<and>
     next_flush oe' = next_flush oe \<and> copy_on_queue oe' = copy_on_queue oe \<and>
     max_alloc_size oe' = max_alloc_size oe"

lemma same_queue_refl [simp]: "same_queue oe oe"
  by (simp add: same_queue_def)

lemma same_queue_trans: "same_queue a b \<Longrightarrow> same_queue b c \<Longrightarrow> same_queue a c"
  by (simp add: same_queue_def)

lemma oe_order_same:
  assumes "oe_order oe xs" and "same_queue oe oe'"
    and "\<And>a. a \<in> set xs \<Longrightarrow> slots (mem oe') a = slots (mem oe) a"
  shows "oe_order oe' xs"
proof -
  have "sorted_by (ts_of oe') xs = sorted_by (ts_of oe) xs"
    by (rule sorted_by_cong) (simp add: assms(3))
  moreover have "xs \<noteq> [] \<Longrightarrow> slots (mem oe') (last xs) = slots (mem oe) (last xs)"
    by (rule assms(3)) simp
  ultimately show ?thesis
    using assms by (auto simp: oe_order_def same_queue_def)
qed

lemma oe_store_mem:
  assumes "oe_store oe xs cs fs" and "links m = oe_links oe" and "brk (mem oe) \<le> brk m"
  shows "oe_store (oe\<lparr>mem := m\<rparr>) xs cs fs"
proof -
  have "in_block (oe\<lparr>mem := m\<rparr>) = in_block oe" by (simp add: in_block_def fun_eq_iff)
  then show ?thesis
    using assms unfolding oe_store_def oe_cells_def by simp (meson less_le_trans le_trans)
qed

lemma dup_event_same:
  assumes "dup_event oe ev = (r, oe')" and "oe_store oe xs cs fs"
  shows "oe_store oe' xs cs fs" and "same_queue oe oe'" and "slots (mem oe') = slots (mem oe)"
    and "buffer oe' = buffer oe" and "oe_links oe' = oe_links oe" and "r \<noteq> None \<Longrightarrow> r = Some ev"
proof -
  have *: "oe_store oe' xs cs fs \<and> same_queue oe oe' \<and> slots (mem oe') = slots (mem oe) \<and>
      buffer oe' = buffer oe \<and> oe_links oe' = oe_links oe \<and> (r \<noteq> None \<longrightarrow> r = Some ev)"
  proof (cases "copy_on_queue oe \<and> cur_alloc_size oe < max_alloc_size oe")
    case True
    obtain q m where m: "malloc 1 (mem oe) = (q, m)" by fastforce
    have "links m = oe_links oe" "slots m = slots (mem oe)" "brk (mem oe) \<le> brk m"
      using malloc_cases [OF m] by simp_all
    moreover from this have "oe_store (oe\<lparr>mem := m\<rparr>) xs cs fs"
      using assms(2) by (intro oe_store_mem)
    moreover have "\<exists>z. oe' = oe\<lparr>mem := m\<rparr>\<lparr>cur_alloc_size := z\<rparr>" "r \<noteq> None \<longrightarrow> r = Some ev"
      using assms(1) True m by (auto simp: dup_event_def dup_event_copy_def split: option.splits
        intro: exI [of _ "cur_alloc_size oe"])
    ultimately show ?thesis
      by (auto simp: same_queue_def)
  next
    case False
    then have "oe' = oe \<and> (r \<noteq> None \<longrightarrow> r = Some ev)"
      using assms(1) by (auto simp: dup_event_def dup_event_copy_def split: if_splits)
    with assms(2) show ?thesis by simp
  qed
  show "oe_store oe' xs cs fs" "same_queue oe oe'" "slots (mem oe') = slots (mem oe)"
    "buffer oe' = buffer oe" "oe_links oe' = oe_links oe" "r \<noteq> None \<Longrightarrow> r = Some ev"
    using * by blast+
qed

text \<open>
  \<open>slot_given oe xs cs fs n oe'\<close>: a slot \<open>n\<close> outside every list was taken, the events are
  untouched, and the lists of \<open>oe'\<close> hold \<open>xs\<close>, \<open>cs\<close> and \<open>fs\<close>.
\<close>

definition slot_given ::
  "ordered_events \<Rightarrow> addr list \<Rightarrow> addr list \<Rightarrow> addr list \<Rightarrow> addr \<Rightarrow> ordered_events \<Rightarrow> bool" where
  "slot_given oe xs cs fs n oe' \<longleftrightarrow>
     oe_store oe' xs cs fs \<and> same_queue oe oe' \<and> n \<notin> set (oe_cells oe' xs cs fs) \<and>
     n < brk (mem oe') \<and> \<not> in_block oe' n \<and>
     (\<forall>a \<in> set xs. slots (mem oe') a = slots (mem oe) a)"

lemma slot_from_cache:
  assumes "oe_store oe xs (c # cs) fs"
  shows "slot_given oe xs cs fs c (upd_links (list_del c) oe)"
proof -
  have dist: "distinct (oe_cells oe xs (c # cs) fs)"
    and rings: "ring (oe_links oe) (events oe) xs" "ring (oe_links oe) (cache oe) ([] @ c # cs)"
      "ring (oe_links oe) (to_free oe) fs"
    using assms by (simp_all add: oe_store_def)
  note dis = oe_cells_disjoint [OF dist]
  have "ring (list_del c (oe_links oe)) (events oe) xs" "ring (list_del c (oe_links oe)) (to_free oe) fs"
    using dis list_del_other_ring [OF rings(2) _ rings(1)] list_del_other_ring [OF rings(2) _ rings(3)]
    by (simp_all add: Int_commute)
  moreover have "ring (list_del c (oe_links oe)) (cache oe) cs"
    using list_del_ring [OF rings(2)] by simp
  moreover have "distinct (oe_cells oe xs cs fs)" "c \<notin> set (oe_cells oe xs cs fs)"
    using dist by (auto simp: oe_cells_def)
  ultimately show ?thesis
    using assms by (simp add: slot_given_def oe_store_def oe_cells_def same_queue_def)
qed

lemma slot_from_block:
  assumes "oe_store oe xs cs fs" and "buffer oe = Some b"
    and "oe' = (let oe = oe\<lparr>buffer_idx := Suc (buffer_idx oe)\<rparr>
                in if buffer_idx oe = MAX_SAMPLE_BUFFER then oe\<lparr>buffer := None\<rparr> else oe)"
  shows "slot_given oe xs cs fs (b + buffer_idx oe) oe'"
proof -
  let ?n = "b + buffer_idx oe"
  have same: "mem oe' = mem oe" "same_queue oe oe'" "oe_cells oe' = oe_cells oe"
    using assms(3) by (auto simp: Let_def same_queue_def oe_cells_def fun_eq_iff)
  have blk: "in_block oe' a \<longleftrightarrow> in_block oe a \<and> a \<noteq> ?n" for a
    using assms by (auto simp: Let_def in_block_def oe_store_def)
  have idx: "buffer_idx oe < MAX_SAMPLE_BUFFER" "b + MAX_SAMPLE_BUFFER \<le> brk (mem oe)"
    using assms(1,2) by (simp_all add: oe_store_def)
  then have n: "in_block oe ?n" "?n < brk (mem oe)" using assms(2) by (simp_all add: in_block_def)
  then have "?n \<notin> set (oe_cells oe xs cs fs)" using assms(1) unfolding oe_store_def by blast
  moreover have "\<forall>b. buffer oe' = Some b \<longrightarrow>
      buffer_idx oe' < MAX_SAMPLE_BUFFER \<and> b + MAX_SAMPLE_BUFFER \<le> brk (mem oe)"
    using assms(2,3) idx by (auto simp: Let_def split: if_splits)
  moreover have "events oe' = events oe" "cache oe' = cache oe" "to_free oe' = to_free oe"
    using same(2) by (simp_all add: same_queue_def)
  ultimately show ?thesis
    using assms(1) same n by (simp add: slot_given_def oe_store_def blk)
qed

lemma slot_from_new_block:
  assumes st: "oe_store oe xs cs fs" and nb: "buffer oe = None" and m: "malloc MAX_SAMPLE_BUFFER (mem oe) = (Some b, m)"
    and oe': "oe' = (let oe = wipe_slots b (oe\<lparr>mem := m, buffer := Some b\<rparr>);
                      oe = oe\<lparr>cur_alloc_size := z\<rparr>;
                      oe = upd_links (list_add b (to_free oe)) oe
                  in oe\<lparr>buffer_idx := 2\<rparr>)"
  shows "slot_given oe xs cs (b # fs) (b + 1) oe'"
proof -
  have mm: "links m = oe_links oe" "slots m = slots (mem oe)" "b = brk (mem oe)"
      "brk m = b + MAX_SAMPLE_BUFFER"
    using malloc_cases [OF m] by simp_all
  have f: "oe_links oe' = list_add b (to_free oe) (oe_links oe)" "brk (mem oe') = b + MAX_SAMPLE_BUFFER"
      "buffer oe' = Some b" "buffer_idx oe' = 2" "same_queue oe oe'"
      "oe_cells oe' = oe_cells oe" "events oe' = events oe" "cache oe' = cache oe" "to_free oe' = to_free oe"
    using oe' mm by (auto simp: Let_def wipe_slots_def same_queue_def oe_cells_def fun_eq_iff)
  have low: "\<forall>a \<in> set (oe_cells oe xs cs fs). a < b"
    using st mm by (simp add: oe_store_def)
  have sl: "slots (mem oe') a = slots (mem oe) a" if "a < b" for a
    using oe' mm that by (simp add: Let_def wipe_slots_def)
  have rings: "ring (oe_links oe) (events oe) xs" "ring (oe_links oe) (cache oe) cs"
      "ring (oe_links oe) (to_free oe) fs" and dist: "distinct (oe_cells oe xs cs fs)"
    using st by (simp_all add: oe_store_def)
  note dis = oe_cells_disjoint [OF dist]
  have b: "b \<notin> cells (to_free oe) fs" "b \<notin> cells (events oe) xs" "b \<notin> cells (cache oe) cs"
    using low by (auto simp: oe_cells_def)
  have "ring (oe_links oe') (to_free oe) (b # fs)"
    unfolding f by (rule list_add_ring [OF rings(3) b(1)])
  moreover have "ring (oe_links oe') (events oe) xs"
    unfolding f by (rule list_add_other_ring [OF rings(3) _ rings(1) b(2)]) (use dis in auto)
  moreover have "ring (oe_links oe') (cache oe) cs"
    unfolding f by (rule list_add_other_ring [OF rings(3) _ rings(2) b(3)]) (use dis in auto)
  moreover have "distinct (oe_cells oe xs cs (b # fs))"
    using dist b by (auto simp: oe_cells_def)
  moreover have "set (oe_cells oe xs cs (b # fs)) \<subseteq> {a. a \<le> b}"
    using low by (auto simp: oe_cells_def intro: less_imp_le)
  moreover from this have "\<forall>a \<in> set (oe_cells oe xs cs (b # fs)). a < b + MAX_SAMPLE_BUFFER \<and> \<not> in_block oe' a"
    using f by (fastforce simp: in_block_def MAX_SAMPLE_BUFFER_eq)
  ultimately have "oe_store oe' xs cs (b # fs)"
    using f by (simp add: oe_store_def MAX_SAMPLE_BUFFER_eq)
  moreover have "\<forall>a \<in> set xs. slots (mem oe') a = slots (mem oe) a"
    using low sl by (auto simp: oe_cells_def)
  moreover have "b + 1 \<notin> set (oe_cells oe xs cs (b # fs))"
    using \<open>set (oe_cells oe xs cs (b # fs)) \<subseteq> {a. a \<le> b}\<close> by auto
  moreover have "\<not> in_block oe' (b + 1)" using f by (simp add: in_block_def)
  ultimately show ?thesis
    using f by (simp add: slot_given_def MAX_SAMPLE_BUFFER_eq)
qed


lemma alloc_slot_cases:
  assumes st: "oe_store oe xs cs fs" and r: "alloc_slot oe ev = r"
  shows "(\<exists>n oe' cs' fs'. r = Inr (True, Some n, oe') \<and> slot_given oe xs cs' fs' n oe') \<or>
    (\<exists>oe'. r = Inr (False, None, oe') \<and> oe_store oe' xs cs fs \<and> same_queue oe oe' \<and>
       slots (mem oe') = slots (mem oe)) \<or>
    (r = Inr (True, None, oe) \<and> cs = [] \<and> buffer oe = None \<and> max_alloc_size oe \<le> cur_alloc_size oe)"
proof (cases cs)
  case (Cons c cs')
  then have "ring (oe_links oe) (cache oe) (c # cs')" using st by (simp add: oe_store_def)
  then have "nxt (oe_links oe) (cache oe) = c" "\<not> list_empty (cache oe) (oe_links oe)"
    by (simp_all add: ring_head list_empty_ring)
  with r have "r = Inr (True, Some c, upd_links (list_del c) oe)"
    by (simp add: alloc_slot_def Let_def)
  with slot_from_cache [OF st [unfolded Cons]] show ?thesis by blast
next
  case Nil
  then have "ring (oe_links oe) (cache oe) []" using st by (simp add: oe_store_def)
  then have empty: "list_empty (cache oe) (oe_links oe)" by (simp add: list_empty_ring)
  show ?thesis
  proof (cases "buffer oe")
    case (Some b)
    then have "\<exists>oe'. r = Inr (True, Some (b + buffer_idx oe), oe') \<and>
        slot_given oe xs cs fs (b + buffer_idx oe) oe'"
      using r empty slot_from_block [OF st Some refl]
      by (simp add: alloc_slot_def Let_def) blast
    then show ?thesis by blast
  next
    case None
    show ?thesis
    proof (cases "cur_alloc_size oe < max_alloc_size oe")
      case True
      obtain q m where m: "malloc MAX_SAMPLE_BUFFER (mem oe) = (q, m)" by fastforce
      show ?thesis
      proof (cases q)
        case None
        have "links m = oe_links oe" "slots m = slots (mem oe)" "brk (mem oe) \<le> brk m"
          using malloc_cases [OF m] by simp_all
        moreover from this have "oe_store (oe\<lparr>mem := m\<rparr>) xs cs fs"
          using st by (intro oe_store_mem)
        moreover have "r = Inr (False, None, oe\<lparr>mem := m\<rparr>\<lparr>cur_alloc_size :=
            cur_alloc_size oe - (if copy_on_queue oe then ucast (header_size ev) else 0)\<rparr>)"
          using r empty \<open>buffer oe = None\<close> True m \<open>q = None\<close>
          by (auto simp: alloc_slot_def free_dup_event_def)
        ultimately show ?thesis by (auto simp: same_queue_def)
      next
        case (Some b)
        with r empty \<open>buffer oe = None\<close> True m
          slot_from_new_block [OF st \<open>buffer oe = None\<close> m [unfolded Some] refl]
        show ?thesis by (simp add: alloc_slot_def Let_def) blast
      qed
    next
      case False
      with r empty None Nil show ?thesis by (simp add: alloc_slot_def not_less)
    qed
  qed
qed

text \<open>
  The outcomes of \<open>ordered_events__new_event\<close>.  The store through a null pointer happens when
  there is no cached slot, no block, and no allowance left for a new block.
\<close>

definition no_slot_left :: "ordered_events \<Rightarrow> perf_event \<Rightarrow> bool" where
  "no_slot_left oe ev \<longleftrightarrow>
     list_empty (cache oe) (oe_links oe) \<and> buffer oe = None \<and> fst (dup_event oe ev) \<noteq> None \<and>
     max_alloc_size oe \<le> cur_alloc_size (snd (dup_event oe ev))"

lemma new_event_cases:
  assumes inv: "oe_inv oe xs cs fs" and r: "ordered_events__new_event oe t ev = r"
  shows "(\<exists>n oe' cs' fs'. r = Inr (Some n, oe') \<and> n \<notin> set xs \<and>
      (\<forall>a \<in> set xs. slots (mem oe') a = slots (mem oe) a) \<and>
      timestamp (slots (mem oe') n) = t \<and> event (slots (mem oe') n) = Ev ev \<and>
      next_flush oe' = next_flush oe \<and> last_flush oe' = last_flush oe \<and>
      copy_on_queue oe' = copy_on_queue oe \<and>
      oe_inv oe' (insert_event (ts_of oe') n xs) cs' fs') \<or>
    (\<exists>oe'. r = Inr (None, oe') \<and> oe_inv oe' xs cs fs \<and> same_queue oe oe' \<and>
       slots (mem oe') = slots (mem oe)) \<or>
    r = Inl Null_Deref \<and> no_slot_left oe ev"
proof -
  have st: "oe_store oe xs cs fs" and ord: "oe_order oe xs" using inv by (simp_all add: oe_inv_def)
  obtain q oe1 where d: "dup_event oe ev = (q, oe1)" by fastforce
  note same1 = dup_event_same [OF d st]
  have ord1: "oe_order oe1 xs" using oe_order_same [OF ord same1(2)] same1(3) by simp
  show ?thesis
  proof (cases q)
    case None
    with d r have "r = Inr (None, oe1)" by (simp add: ordered_events__new_event_def alloc_event_def)
    with same1 ord1 show ?thesis by (auto simp: oe_inv_def)
  next
    case (Some e)
    then have q: "q = Some ev" using same1(6) by simp
    from alloc_slot_cases [OF same1(1) refl, of ev] show ?thesis
    proof (elim disjE exE conjE)
      fix n oe2 cs' fs'
      assume a: "alloc_slot oe1 ev = Inr (True, Some n, oe2)" and g: "slot_given oe1 xs cs' fs' n oe2"
      let ?oe3 = "upd_slot n (\<lambda>s. s\<lparr>timestamp := t\<rparr>) (upd_slot n (\<lambda>s. s\<lparr>event := Ev ev\<rparr>) oe2)"
      have n: "n \<notin> set xs" using g by (auto simp: slot_given_def oe_cells_def)
      have sq: "same_queue oe1 ?oe3" using g by (simp add: slot_given_def same_queue_def)
      have sl: "\<And>a. a \<in> set xs \<Longrightarrow> slots (mem ?oe3) a = slots (mem oe1) a"
        using g n by (auto simp: slot_given_def)
      have "oe_inv ?oe3 xs cs' fs'"
        using g oe_order_same [OF ord1 sq sl] by (simp add: oe_inv_def slot_given_def)
      moreover have "fresh_slot ?oe3 xs cs' fs' n"
        using g by (simp add: fresh_slot_def slot_given_def oe_cells_def)
      ultimately obtain oe4 where o4: "queue_event ?oe3 n = Inr oe4"
        "oe_inv oe4 (insert_event (ts_of ?oe3) n xs) cs' fs'" "slots (mem oe4) = slots (mem ?oe3)"
        "next_flush oe4 = next_flush ?oe3" "last_flush oe4 = last_flush ?oe3"
        "copy_on_queue oe4 = copy_on_queue ?oe3"
        using queue_event_inv by blast
      show ?thesis
      proof (intro disjI1 exI conjI)
        show "r = Inr (Some n, oe4)"
          using r d q a o4(1) by (simp add: ordered_events__new_event_def alloc_event_def)
        show "n \<notin> set xs" by (rule n)
        show "\<forall>a \<in> set xs. slots (mem oe4) a = slots (mem oe) a"
          using sl same1(3) by (simp only: o4(3)) simp
        show "timestamp (slots (mem oe4) n) = t" "event (slots (mem oe4) n) = Ev ev"
          using o4(3) by simp_all
        show "next_flush oe4 = next_flush oe" "last_flush oe4 = last_flush oe"
          "copy_on_queue oe4 = copy_on_queue oe"
          using o4(4-6) sq same1(2) by (simp_all add: same_queue_def)
        show "oe_inv oe4 (insert_event (ts_of oe4) n xs) cs' fs'"
          using o4(2) by (simp only: o4(3))
      qed
    next
      fix oe2
      assume "alloc_slot oe1 ev = Inr (False, None, oe2)" and s: "oe_store oe2 xs cs fs"
        "same_queue oe1 oe2" "slots (mem oe2) = slots (mem oe1)"
      then have "r = Inr (None, oe2)"
        using r d q by (simp add: ordered_events__new_event_def alloc_event_def)
      moreover have "oe_inv oe2 xs cs fs"
        using s oe_order_same [OF ord1 s(2)] by (simp add: oe_inv_def)
      ultimately show ?thesis using s same1 by (auto intro: same_queue_trans)
    next
      assume a: "alloc_slot oe1 ev = Inr (True, None, oe1)" and cs: "cs = []" and nb: "buffer oe1 = None"
        and sz: "max_alloc_size oe1 \<le> cur_alloc_size oe1"
      have "ring (oe_links oe) (cache oe) []" using st cs by (simp add: oe_store_def)
      then have "list_empty (cache oe) (oe_links oe)" by (simp add: list_empty_ring)
      moreover have "max_alloc_size oe1 = max_alloc_size oe" "buffer oe = None"
        using same1(2,4) nb by (simp_all add: same_queue_def)
      ultimately have "no_slot_left oe ev"
        using d q sz by (simp add: no_slot_left_def)
      moreover have "r = Inl Null_Deref"
        using r d q a by (simp add: ordered_events__new_event_def alloc_event_def)
      ultimately show ?thesis by blast
    qed
  qed
qed


subsection \<open>Flushing refines delivery of a prefix\<close>

text \<open>
  What the loop does to the client, on the plain sequence of events: the exit, how many events
  were delivered, and the client's state.
\<close>

fun deliver_prefix :: "'c client \<Rightarrow> u64 \<Rightarrow> ordered_event list \<Rightarrow> 'c \<Rightarrow> loop_exit \<times> nat \<times> 'c" where
  "deliver_prefix k limit [] c = (Completed, 0, c)"
| "deliver_prefix k limit (e # es) c =
     (let (d, c) = session_done k c
      in if d then (Returned 0, 0, c)
         else if timestamp e > limit then (Completed, 0, c)
         else
           (let (ret, c) = deliver k c e
            in if ret \<noteq> 0 then (Returned ret, 0, c)
               else (let (x, n, c) = deliver_prefix k limit es c in (x, Suc n, c))))"

lemma deliver_prefix_le: "fst (snd (deliver_prefix k limit es c)) \<le> length es"
  by (induction k limit es c rule: deliver_prefix.induct) (auto simp: Let_def split: prod.splits)

text \<open>What flushing leaves alone.\<close>

definition same_setup :: "ordered_events \<Rightarrow> ordered_events \<Rightarrow> bool" where
  "same_setup oe oe' \<longleftrightarrow>
     events oe' = events oe \<and> cache oe' = cache oe \<and> to_free oe' = to_free oe \<and>
     oe_last oe' = oe_last oe \<and> max_timestamp oe' = max_timestamp oe \<and>
     next_flush oe' = next_flush oe \<and> copy_on_queue oe' = copy_on_queue oe \<and>
     nr_unordered_events oe' = nr_unordered_events oe \<and>
     max_alloc_size oe' = max_alloc_size oe \<and> slots (mem oe') = slots (mem oe)"

lemma same_setup_trans: "same_setup a b \<Longrightarrow> same_setup b c \<Longrightarrow> same_setup a c"
  by (simp add: same_setup_def)

lemma delete_first:
  assumes st: "oe_store oe (a # xs) cs fs" and ev: "event (slots (mem oe) a) \<noteq> Uninit"
  obtains oe' where "ordered_events__delete oe a = Inr oe'" "oe_store oe' xs (a # cs) fs"
    "same_setup oe oe'" "nr_events oe' = nr_events oe - 1" "last_flush oe' = last_flush oe"
proof -
  obtain e where e: "event (slots (mem oe) a) = Ev e" using ev by (cases "event (slots (mem oe) a)") auto
  let ?oe = "upd_links (list_move a (cache oe)) oe"
  have dist: "distinct (oe_cells oe (a # xs) cs fs)"
    and rings: "ring (oe_links oe) (events oe) ([] @ a # xs)" "ring (oe_links oe) (cache oe) cs"
      "ring (oe_links oe) (to_free oe) fs"
    using st by (simp_all add: oe_store_def)
  have d: "cells (events oe) ([] @ a # xs) \<inter> cells (cache oe) cs = {}"
    "cells (events oe) ([] @ a # xs) \<inter> cells (to_free oe) fs = {}"
    "cells (cache oe) cs \<inter> cells (to_free oe) fs = {}"
    using oe_cells_disjoint [OF dist] by simp_all
  have "ring (oe_links ?oe) (events oe) xs" "ring (oe_links ?oe) (cache oe) (a # cs)"
    using list_move_ring [OF rings(1,2) d(1)] by simp_all
  moreover have "ring (oe_links ?oe) (to_free oe) fs"
    using list_move_other_ring [OF rings d] by simp
  moreover have "distinct (oe_cells oe xs (a # cs) fs)" "set (oe_cells oe xs (a # cs) fs) = set (oe_cells oe (a # xs) cs fs)"
    using dist by (auto simp: oe_cells_def)
  ultimately have "oe_store ?oe xs (a # cs) fs"
    using st by (simp add: oe_store_def oe_cells_def)
  then have "oe_store (?oe\<lparr>nr_events := nr_events oe - 1\<rparr>\<lparr>cur_alloc_size := z\<rparr>) xs (a # cs) fs" for z
    by simp
  moreover have "ordered_events__delete oe a = Inr (?oe\<lparr>nr_events := nr_events oe - 1\<rparr>
      \<lparr>cur_alloc_size := cur_alloc_size oe - (if copy_on_queue oe then ucast (header_size e) else 0)\<rparr>)"
    using e by (simp add: ordered_events__delete_def free_dup_event_def Let_def upd_links_def)
  ultimately show ?thesis
    using that by (simp add: same_setup_def)
qed

lemma flush_loop_refines:
  assumes "oe_store oe xs cs fs" and "\<forall>a \<in> set xs. event (slots (mem oe) a) \<noteq> Uninit"
    and "deliver_prefix k limit (map (slots (mem oe)) xs) c = (x, n, c')"
  shows "\<exists>oe'. flush_loop k limit oe c (right_of (events oe) xs) = Some (Inr (x, oe', c')) \<and>
    oe_store oe' (drop n xs) (rev (take n xs) @ cs) fs \<and> same_setup oe oe' \<and>
    nr_events oe' = nr_events oe - of_nat n \<and>
    last_flush oe' = (if n = 0 then last_flush oe else ts_of oe (xs ! (n - 1)))"
  using assms
proof (induction xs arbitrary: oe cs c n)
  case Nil
  then have "flush_loop k limit oe c (right_of (events oe) []) = Some (Inr (Completed, oe, c))"
    by (simp add: flush_loop.simps [of k limit oe _ "events oe"])
  with Nil show ?case by (simp add: same_setup_def)
next
  case (Cons a xs)
  let ?s = "slots (mem oe) a"
  have a: "a \<noteq> events oe" and nx: "nxt (oe_links oe) a = right_of (events oe) xs"
  proof -
    have "ring (oe_links oe) (events oe) ([] @ a # xs)" using Cons.prems(1) by (simp add: oe_store_def)
    then show "a \<noteq> events oe" "nxt (oe_links oe) a = right_of (events oe) xs"
      by (simp add: ring_def, rule ring_neighbours(1))
  qed
  obtain d c1 where sd: "session_done k c = (d, c1)" by fastforce
  obtain ret c2 where dl: "deliver k c1 ?s = (ret, c2)" by fastforce
  note step = flush_loop.simps [of k limit oe c a]
  show ?case
  proof (cases "d \<or> limit < timestamp ?s \<or> ret \<noteq> 0")
    case True
    then have n: "n = 0" using Cons.prems(3) sd dl by (auto simp: Let_def split: if_splits)
    have "flush_loop k limit oe c (right_of (events oe) (a # xs)) = Some (Inr (x, oe, c'))"
      using True Cons.prems(3) sd dl a by (auto simp: step Let_def split: if_splits)
    with n Cons.prems(1) show ?thesis by (auto simp: same_setup_def)
  next
    case False
    obtain n' where n: "n = Suc n'" and rest: "deliver_prefix k limit (map (slots (mem oe)) xs) c2 = (x, n', c')"
      using False Cons.prems(3) sd dl by (auto simp: Let_def split: prod.splits)
    obtain oe1 where oe1: "ordered_events__delete oe a = Inr oe1" "oe_store oe1 xs (a # cs) fs"
        "same_setup oe oe1" "nr_events oe1 = nr_events oe - 1" "last_flush oe1 = last_flush oe"
      using delete_first [OF Cons.prems(1)] Cons.prems(2) by auto
    let ?oe2 = "oe1\<lparr>last_flush := ts_of oe1 a\<rparr>"
    have s: "slots (mem oe1) = slots (mem oe)" "events oe1 = events oe"
      using oe1(3) by (simp_all add: same_setup_def)
    have "\<exists>oe'. flush_loop k limit ?oe2 c2 (right_of (events ?oe2) xs) = Some (Inr (x, oe', c')) \<and>
        oe_store oe' (drop n' xs) (rev (take n' xs) @ a # cs) fs \<and> same_setup ?oe2 oe' \<and>
        nr_events oe' = nr_events ?oe2 - of_nat n' \<and>
        last_flush oe' = (if n' = 0 then last_flush ?oe2 else ts_of ?oe2 (xs ! (n' - 1)))"
      by (rule Cons.IH) (use oe1 Cons.prems(2) rest s in simp_all)
    then obtain oe' where oe': "flush_loop k limit ?oe2 c2 (right_of (events oe) xs) = Some (Inr (x, oe', c'))"
      "oe_store oe' (drop n' xs) (rev (take n' xs) @ a # cs) fs" "same_setup ?oe2 oe'"
      "nr_events oe' = nr_events oe1 - of_nat n'"
      "last_flush oe' = (if n' = 0 then ts_of oe a else ts_of oe (xs ! (n' - 1)))"
      using s by auto
    have "flush_loop k limit oe c a = Some (Inr (x, oe', c'))"
      using False sd dl a nx oe1(1) oe'(1) by (simp add: step)
    moreover have "same_setup oe oe'"
      using oe1(3) oe'(3) by (simp add: same_setup_def)
    ultimately show ?thesis
      using oe' n oe1(4) by (auto simp: nth_Cons' algebra_simps)
  qed
qed

lemma oe_inv_fields [simp]:
  "oe_inv (oe\<lparr>next_flush := t\<rparr>) = oe_inv oe" "oe_inv (oe\<lparr>last_flush := t\<rparr>) = oe_inv oe"
  "oe_inv (oe\<lparr>last_flush_type := y\<rparr>) = oe_inv oe" "oe_inv (oe\<lparr>nr_unordered_events := n\<rparr>) = oe_inv oe"
  by (simp_all add: oe_inv_def oe_order_def fun_eq_iff)

lemma deliver_prefix_Completed:
  "deliver_prefix k limit es c = (Completed, n, c') \<Longrightarrow>
     n = length (takeWhile (\<lambda>e. timestamp e \<le> limit) es)"
proof (induction es arbitrary: c n)
  case (Cons e es)
  obtain d c1 where sd: "session_done k c = (d, c1)" by fastforce
  obtain ret c2 where dl: "deliver k c1 e = (ret, c2)" by fastforce
  show ?case
  proof (cases "timestamp e \<le> limit")
    case True
    with Cons.prems sd dl obtain n' where "n = Suc n'" "deliver_prefix k limit es c2 = (Completed, n', c')"
      by (auto simp: Let_def split: if_splits prod.splits)
    with Cons.IH True show ?thesis by simp
  next
    case False
    with Cons.prems sd dl show ?thesis by (auto simp: Let_def split: if_splits)
  qed
qed simp

text \<open>
  \<open>flushed limit oe xs cs fs n oe'\<close>: the events up to \<open>limit\<close> are gone to the cache, and the
  invariant holds again for the others.
\<close>

definition flushed ::
  "u64 \<Rightarrow> ordered_events \<Rightarrow> addr list \<Rightarrow> addr list \<Rightarrow> addr list \<Rightarrow> ordered_events \<Rightarrow> bool" where
  "flushed limit oe xs cs fs oe' \<longleftrightarrow>
     (let del = takeWhile (\<lambda>a. ts_of oe a \<le> limit) xs
      in oe_inv oe' (dropWhile (\<lambda>a. ts_of oe a \<le> limit) xs) (rev del @ cs) fs \<and>
         slots (mem oe') = slots (mem oe) \<and>
         last_flush oe' = (if del = [] then last_flush oe else ts_of oe (last del)) \<and>
         max_timestamp oe' = max_timestamp oe \<and> nr_unordered_events oe' = nr_unordered_events oe)"

lemma takeWhile_map_length:
  "length (takeWhile P (map f xs)) = length (takeWhile (\<lambda>x. P (f x)) xs)"
  by (induction xs) auto

lemma do_flush_completed:
  assumes inv: "oe_inv oe xs cs fs" and nz: "next_flush oe \<noteq> 0"
    and dp: "deliver_prefix k (next_flush oe) (map (slots (mem oe)) xs) c = (Completed, n, c')"
  shows "\<exists>oe'. do_ordered_events__flush k oe c = Inr (0, oe', c') \<and>
    flushed (next_flush oe) oe xs cs fs oe' \<and> next_flush oe' = next_flush oe"
proof -
  let ?limit = "next_flush oe"
  let ?P = "\<lambda>a. ts_of oe a \<le> ?limit"
  have st: "oe_store oe xs cs fs" and ord: "oe_order oe xs" using inv by (simp_all add: oe_inv_def)
  have ev: "\<forall>a \<in> set xs. event (slots (mem oe) a) \<noteq> Uninit" and srt: "sorted_by (ts_of oe) xs"
    and nr: "nr_events oe = of_nat (length xs)"
    and lst: "case oe_last oe of None \<Rightarrow> xs = [] | Some l \<Rightarrow> l \<in> set xs"
    and mx: "xs \<noteq> [] \<longrightarrow> max_timestamp oe = ts_of oe (last xs)"
    using ord by (simp_all add: oe_order_def)
  have n: "n = length (takeWhile ?P xs)"
    using deliver_prefix_Completed [OF dp] by (simp add: takeWhile_map_length)
  have tk: "take n xs = takeWhile ?P xs" and dr: "drop n xs = dropWhile ?P xs"
    by (simp_all only: n takeWhile_eq_take [symmetric] dropWhile_eq_drop [symmetric])
  obtain oe1 where oe1: "flush_loop k ?limit oe c (right_of (events oe) xs) = Some (Inr (Completed, oe1, c'))"
    "oe_store oe1 (dropWhile ?P xs) (rev (takeWhile ?P xs) @ cs) fs" "same_setup oe oe1"
    "nr_events oe1 = nr_events oe - of_nat n"
    "last_flush oe1 = (if n = 0 then last_flush oe else ts_of oe (xs ! (n - 1)))"
    using flush_loop_refines [OF st ev dp] tk dr by auto
  have s: "slots (mem oe1) = slots (mem oe)" "events oe1 = events oe" "oe_last oe1 = oe_last oe"
    "max_timestamp oe1 = max_timestamp oe" "next_flush oe1 = ?limit"
    "nr_unordered_events oe1 = nr_unordered_events oe"
    using oe1(3) by (simp_all add: same_setup_def)
  have first: "nxt (oe_links oe) (events oe) = right_of (events oe) xs"
    using st by (intro ring_head) (simp add: oe_store_def)
  have ring1: "ring (oe_links oe1) (events oe) (dropWhile ?P xs)"
    using oe1(2) s by (simp add: oe_store_def)
  define last_ts where "last_ts = (case oe_last oe of Some l \<Rightarrow> ts_of oe l | None \<Rightarrow> 0)"
  define oe2 where "oe2 = (if list_empty (events oe) (oe_links oe1) then oe1\<lparr>oe_last := None\<rparr>
      else if last_ts \<le> ?limit then oe1\<lparr>oe_last := Some (prv (oe_links oe1) (events oe))\<rparr> else oe1)"
  have run: "do_ordered_events__flush k oe c = Inr (0, oe2, c')"
    using nz oe1(1) first by (simp add: do_ordered_events__flush_def Let_def oe2_def last_ts_def)
  have mem2: "mem oe2 = mem oe1" "nr_events oe2 = nr_events oe1" "max_timestamp oe2 = max_timestamp oe1"
    "last_flush oe2 = last_flush oe1" "next_flush oe2 = next_flush oe1"
    "nr_unordered_events oe2 = nr_unordered_events oe1"
    by (simp_all add: oe2_def)
  have store2: "oe_store oe2 (dropWhile ?P xs) (rev (takeWhile ?P xs) @ cs) fs"
    using oe1(2) by (simp add: oe2_def)
  have last2: "case oe_last oe2 of None \<Rightarrow> dropWhile ?P xs = [] | Some l \<Rightarrow> l \<in> set (dropWhile ?P xs)"
  proof (cases "dropWhile ?P xs = []")
    case True
    with list_empty_ring [OF ring1] show ?thesis by (simp add: oe2_def)
  next
    case False
    then have ne: "\<not> list_empty (events oe) (oe_links oe1)" using list_empty_ring [OF ring1] by simp
    obtain l where l: "oe_last oe = Some l" "l \<in> set xs"
      using lst False by (cases "oe_last oe") auto
    show ?thesis
    proof (cases "last_ts \<le> ?limit")
      case True
      have "prv (oe_links oe1) (events oe) = last (dropWhile ?P xs)"
        using ring_head(2) [OF ring1] False by (simp only: last_ConsR not_False_eq_True)
      moreover have "last (dropWhile ?P xs) \<in> set (dropWhile ?P xs)" using False by (rule last_in_set)
      ultimately show ?thesis using ne True by (simp add: oe2_def)
    next
      case nle: False
      then have "\<not> ?P l" by (simp add: last_ts_def l)
      with l(2) have "l \<in> set (dropWhile ?P xs)"
        by (metis Un_iff set_append set_takeWhileD takeWhile_dropWhile_id)
      with ne nle l s show ?thesis by (simp add: oe2_def)
    qed
  qed
  have nle: "n \<le> length xs" using n length_takeWhile_le by metis
  have "length (dropWhile ?P xs) = length xs - n" using dr by (metis length_drop)
  then have nr2: "nr_events oe2 = of_nat (length (dropWhile ?P xs))"
    using nle mem2(2) oe1(4) nr by (simp add: of_nat_diff)
  have "sorted_by (ts_of oe) (takeWhile ?P xs @ dropWhile ?P xs)" using srt by simp
  then have srt2: "sorted_by (ts_of oe2) (dropWhile ?P xs)"
    using mem2(1) s(1) by (simp only: sorted_by_append)
  have mx2: "dropWhile ?P xs \<noteq> [] \<longrightarrow> max_timestamp oe2 = ts_of oe2 (last (dropWhile ?P xs))"
    using mx mem2 s by (metis dropWhile.simps(1) last_appendR takeWhile_dropWhile_id)
  have ev2: "\<forall>a \<in> set (dropWhile ?P xs). event (slots (mem oe2) a) \<noteq> Uninit"
    using ev mem2(1) s(1) by (auto dest: set_dropWhileD)
  have "oe_inv oe2 (dropWhile ?P xs) (rev (takeWhile ?P xs) @ cs) fs"
    unfolding oe_inv_def oe_order_def using store2 srt2 nr2 last2 mx2 ev2 by blast
  moreover have "last_flush oe2 = (if takeWhile ?P xs = [] then last_flush oe else ts_of oe (last (takeWhile ?P xs)))"
  proof (cases "n = 0")
    case True
    with n mem2(4) oe1(5) show ?thesis by simp
  next
    case False
    then have ne: "takeWhile ?P xs \<noteq> []" using n by auto
    have "last (take n xs) = xs ! (n - 1)" using False nle by (subst last_conv_nth) auto
    then have "last (takeWhile ?P xs) = xs ! (n - 1)" by (simp only: tk)
    then show ?thesis using ne False mem2(4) oe1(5) by simp
  qed
  ultimately have "flushed ?limit oe xs cs fs oe2"
    using mem2 s by (simp add: flushed_def)
  with run mem2(5) s(5) show ?thesis by auto
qed

lemma set_next_flush_only: "set_next_flush how oe = Some oe1 \<Longrightarrow> oe1 = oe\<lparr>next_flush := next_flush oe1\<rparr>"
  by (auto simp: set_next_flush_def Let_def split: oe_flush.splits option.splits if_splits)

lemma flush_completed:
  assumes inv: "oe_inv oe xs cs fs" and nr: "nr_events oe \<noteq> 0"
    and how: "set_next_flush how oe = Some oe1" and nz: "next_flush oe1 \<noteq> 0"
    and dp: "deliver_prefix k (next_flush oe1) (map (slots (mem oe)) xs) c = (Completed, n, c')"
  shows "\<exists>oe'. ordered_events__flush k oe how c = Inr (0, oe', c') \<and>
    flushed (next_flush oe1) oe xs cs fs oe' \<and> last_flush_type oe' = how \<and>
    next_flush oe' = (if how = OE_FLUSH__ROUND then max_timestamp oe else next_flush oe1)"
proof -
  obtain t where t: "oe1 = oe\<lparr>next_flush := t\<rparr>" using set_next_flush_only [OF how] by (rule that)
  have inv1: "oe_inv oe1 xs cs fs" using inv t by simp
  have dp1: "deliver_prefix k (next_flush oe1) (map (slots (mem oe1)) xs) c = (Completed, n, c')"
    using dp t by simp
  obtain oe2 where oe2: "do_ordered_events__flush k oe1 c = Inr (0, oe2, c')"
      "flushed (next_flush oe1) oe1 xs cs fs oe2" "next_flush oe2 = next_flush oe1"
    using do_flush_completed [OF inv1 nz dp1] by auto
  have fl: "flushed (next_flush oe1) oe xs cs fs oe2" using oe2(2) t by (simp add: flushed_def Let_def)
  then have "max_timestamp oe2 = max_timestamp oe" by (simp add: flushed_def Let_def)
  moreover have "ordered_events__flush k oe how c = Inr (0,
      (if how = OE_FLUSH__ROUND then oe2\<lparr>next_flush := max_timestamp oe2\<rparr> else oe2)\<lparr>last_flush_type := how\<rparr>, c')"
    using nr how oe2(1) by (simp add: ordered_events__flush_def)
  ultimately show ?thesis using fl oe2(3) by (auto simp: flushed_def Let_def)
qed

subsection \<open>Runs of the queue\<close>

text \<open>
  A client that logs what it is given and never asks to stop.  A run is a sequence of calls on
  an initialised queue; \<open>acc\<close> collects the events the queue has accepted, \<open>log\<close> the events it
  has delivered, and \<open>ordered\<close> says that no accepted event was older than the last event
  delivered before it.
\<close>

definition log_client :: "ordered_event list client" where
  "log_client = \<lparr>deliver = (\<lambda>log e. (0, log @ [e])), session_done = (\<lambda>log. (False, log))\<rparr>"

definition zeroed :: "ordered_events \<Rightarrow> bool" where
  "zeroed oe \<longleftrightarrow>
     last_flush oe = 0 \<and> next_flush oe = 0 \<and> max_timestamp oe = 0 \<and> buffer oe = None \<and>
     oe_last oe = None \<and> nr_events oe = 0 \<and> distinct [events oe, cache oe, to_free oe] \<and>
     events oe < brk (mem oe) \<and> cache oe < brk (mem oe) \<and> to_free oe < brk (mem oe)"

inductive oe_run :: "bool \<Rightarrow> ordered_event list \<Rightarrow> ordered_events \<Rightarrow> ordered_event list \<Rightarrow> bool" where
  start: "zeroed oe \<Longrightarrow> oe_run True [] (ordered_events__init oe) []"
| alloc_size: "oe_run b acc oe log \<Longrightarrow> oe_run b acc (ordered_events__set_alloc_size oe sz) log"
| copy: "oe_run b acc oe log \<Longrightarrow> list_empty (events oe) (oe_links oe) \<Longrightarrow>
     oe_run b acc (ordered_events__set_copy_on_queue oe y) log"
| queued: "oe_run b acc oe log \<Longrightarrow>
     ordered_events__queue log_client oe ev t off log = Inr (0, oe', log') \<Longrightarrow>
     oe_run (b \<and> last_flush oe' \<le> t)
       (acc @ [\<lparr>timestamp = t, file_offset = off, event = Ev ev\<rparr>]) oe' log'"
| rejected: "oe_run b acc oe log \<Longrightarrow>
     ordered_events__queue log_client oe ev t off log = Inr (r, oe', log') \<Longrightarrow> r \<noteq> 0 \<Longrightarrow>
     oe_run b acc oe' log'"
| flush: "oe_run b acc oe log \<Longrightarrow>
     ordered_events__flush log_client oe how log = Inr (r, oe', log') \<Longrightarrow> oe_run b acc oe' log'"

definition run_inv :: "bool \<Rightarrow> ordered_event list \<Rightarrow> ordered_events \<Rightarrow> ordered_event list \<Rightarrow> addr list \<Rightarrow> bool" where
  "run_inv b acc oe log xs \<longleftrightarrow>
     mset (log @ map (slots (mem oe)) xs) = mset acc \<and>
     (b \<longrightarrow> sorted_by timestamp log \<and> (\<forall>e \<in> set log. timestamp e \<le> last_flush oe) \<and>
        (\<forall>a \<in> set xs. last_flush oe \<le> ts_of oe a))"

lemma deliver_prefix_log:
  "deliver_prefix log_client limit es log =
     (Completed, length (takeWhile (\<lambda>e. timestamp e \<le> limit) es),
      log @ takeWhile (\<lambda>e. timestamp e \<le> limit) es)"
  by (induction es arbitrary: log) (simp_all add: log_client_def not_less not_le)

lemma oe_inv_config [simp]:
  "oe_inv (oe\<lparr>max_alloc_size := sz\<rparr>) = oe_inv oe" "oe_inv (oe\<lparr>copy_on_queue := y\<rparr>) = oe_inv oe"
  by (simp_all add: oe_inv_def oe_order_def oe_store_def oe_cells_def in_block_def fun_eq_iff)

lemma oe_inv_file_offset [simp]:
  "oe_inv (upd_slot a (\<lambda>s. s\<lparr>file_offset := off\<rparr>) oe) = oe_inv oe"
proof -
  have "ts_of (upd_slot a (\<lambda>s. s\<lparr>file_offset := off\<rparr>) oe) b = ts_of oe b"
    "event (slots (mem (upd_slot a (\<lambda>s. s\<lparr>file_offset := off\<rparr>) oe)) b) = event (slots (mem oe) b)" for b
    by simp_all
  then show ?thesis
    by (simp add: oe_inv_def oe_order_def fun_eq_iff del: upd_slot_simps(2) cong: sorted_by_cong)
qed

lemma zeroed_inv: "zeroed oe \<Longrightarrow> oe_inv (ordered_events__init oe) [] [] []"
  by (simp add: zeroed_def oe_inv_def oe_order_def oe_store_def oe_cells_def in_block_def
      ordered_events__init_def Let_def frame_simps)

text \<open>Flushing in a run: nothing happens, or a prefix of the queue goes to the log.\<close>

lemma flush_log_cases:
  assumes inv: "oe_inv oe xs cs fs" and fl: "ordered_events__flush log_client oe how log = Inr (r, oe', log')"
  shows "(oe_inv oe' xs cs fs \<and> slots (mem oe') = slots (mem oe) \<and> last_flush oe' = last_flush oe \<and>
        log' = log \<and> max_timestamp oe' = max_timestamp oe) \<or>
    (\<exists>limit. flushed limit oe xs cs fs oe' \<and>
        log' = log @ map (slots (mem oe)) (takeWhile (\<lambda>a. ts_of oe a \<le> limit) xs))"
proof (cases "nr_events oe = 0 \<or> set_next_flush how oe = None")
  case True
  then have "oe' = oe" "log' = log"
    using fl by (auto simp: ordered_events__flush_def split: if_splits)
  with inv show ?thesis by simp
next
  case False
  then obtain oe1 where oe1: "set_next_flush how oe = Some oe1" and nr: "nr_events oe \<noteq> 0" by auto
  show ?thesis
  proof (cases "next_flush oe1 = 0")
    case True
    have "oe1 = oe\<lparr>next_flush := next_flush oe1\<rparr>"
      using oe1 by (auto simp: set_next_flush_def Let_def split: oe_flush.splits option.splits if_splits)
    then have "\<exists>t y. oe' = oe\<lparr>next_flush := t\<rparr>\<lparr>last_flush_type := y\<rparr>" "log' = log"
      using fl nr oe1 True
      by (auto simp: ordered_events__flush_def do_ordered_events__flush_def split: if_splits)
    with inv show ?thesis by auto
  next
    case nz: False
    let ?l = "next_flush oe1"
    have tw: "takeWhile (\<lambda>e. timestamp e \<le> ?l) (map (slots (mem oe)) xs) =
        map (slots (mem oe)) (takeWhile (\<lambda>a. ts_of oe a \<le> ?l) xs)"
      by (simp add: takeWhile_map comp_def)
    show ?thesis
      using flush_completed [OF inv nr oe1 nz deliver_prefix_log, of log] fl tw by auto
  qed
qed


lemma flush_run_inv:
  assumes inv: "oe_inv oe xs cs fs" and ri: "run_inv b acc oe log xs"
    and fl: "ordered_events__flush log_client oe how log = Inr (r, oe', log')"
  shows "\<exists>xs' cs'. oe_inv oe' xs' cs' fs \<and> run_inv b acc oe' log' xs'"
  using flush_log_cases [OF inv fl]
proof (elim disjE exE conjE)
  fix limit
  let ?P = "\<lambda>a. ts_of oe a \<le> limit"
  assume f: "flushed limit oe xs cs fs oe'" and log': "log' = log @ map (slots (mem oe)) (takeWhile ?P xs)"
  have s: "slots (mem oe') = slots (mem oe)" and inv': "oe_inv oe' (dropWhile ?P xs) (rev (takeWhile ?P xs) @ cs) fs"
    and lf: "last_flush oe' = (if takeWhile ?P xs = [] then last_flush oe else ts_of oe (last (takeWhile ?P xs)))"
    using f by (simp_all add: flushed_def Let_def)
  have "map (slots (mem oe)) xs = map (slots (mem oe)) (takeWhile ?P xs) @ map (slots (mem oe)) (dropWhile ?P xs)"
    by (simp flip: map_append)
  then have m: "mset (log' @ map (slots (mem oe')) (dropWhile ?P xs)) = mset acc"
    using ri s log' by (simp add: run_inv_def)
  have srt: "sorted_by (ts_of oe) (takeWhile ?P xs @ dropWhile ?P xs)"
    using inv by (simp add: oe_inv_def oe_order_def)
  have up: "last_flush oe \<le> last_flush oe' \<and> (\<forall>a \<in> set (takeWhile ?P xs). ts_of oe a \<le> last_flush oe') \<and>
      (\<forall>a \<in> set (dropWhile ?P xs). last_flush oe' \<le> ts_of oe a)"
    if "\<forall>a \<in> set xs. last_flush oe \<le> ts_of oe a"
  proof (cases "takeWhile ?P xs" rule: rev_cases)
    case Nil
    with that lf show ?thesis by (auto dest: set_dropWhileD)
  next
    case (snoc ys y)
    have "y \<in> set xs" using snoc by (metis in_set_conv_decomp set_takeWhileD)
    moreover have "sorted_by (ts_of oe) ((ys @ [y]) @ dropWhile ?P xs)" using srt snoc by simp
    ultimately show ?thesis using that lf snoc by (auto simp: sorted_by_append)
  qed
  have "b \<longrightarrow> sorted_by timestamp log' \<and> (\<forall>e \<in> set log'. timestamp e \<le> last_flush oe') \<and>
      (\<forall>a \<in> set (dropWhile ?P xs). last_flush oe' \<le> ts_of oe' a)"
  proof
    assume b
    with ri have h: "sorted_by timestamp log" "\<forall>e \<in> set log. timestamp e \<le> last_flush oe"
      "\<forall>a \<in> set xs. last_flush oe \<le> ts_of oe a" by (simp_all add: run_inv_def)
    have "sorted_by timestamp (map (slots (mem oe)) (takeWhile ?P xs))"
      using srt by (simp add: sorted_by_def comp_def sorted_append del: takeWhile_dropWhile_id)
    moreover have "\<forall>e \<in> set log. \<forall>a \<in> set (takeWhile ?P xs). timestamp e \<le> ts_of oe a"
      using h by (meson order_trans set_takeWhileD)
    ultimately show "sorted_by timestamp log' \<and> (\<forall>e \<in> set log'. timestamp e \<le> last_flush oe') \<and>
      (\<forall>a \<in> set (dropWhile ?P xs). last_flush oe' \<le> ts_of oe' a)"
      using h up s log' by (auto simp: sorted_by_append intro: order_trans)
  qed
  with m inv' show ?thesis by (auto simp: run_inv_def)
next
  assume "oe_inv oe' xs cs fs" "slots (mem oe') = slots (mem oe)" "last_flush oe' = last_flush oe" "log' = log"
  with ri show ?thesis by (auto simp: run_inv_def)
qed

lemma insert_event_mset: "mset (map f (insert_event ts n xs)) = add_mset (f n) (mset (map f xs))"
proof -
  have "mset (map f xs) = mset (map f (takeWhile (\<lambda>a. ts a \<le> ts n) xs @ dropWhile (\<lambda>a. ts a \<le> ts n) xs))"
    by (simp only: takeWhile_dropWhile_id)
  then show ?thesis by (simp add: insert_event_def del: takeWhile_dropWhile_id)
qed

lemma new_event_run_inv:
  fixes off :: u64
  assumes inv: "oe_inv oe xs cs fs" and ri: "run_inv b acc oe log xs"
    and ne: "ordered_events__new_event oe t ev = Inr (Some n, oe1)"
  defines "oe' \<equiv> upd_slot n (\<lambda>s. s\<lparr>file_offset := off\<rparr>) oe1"
  shows "\<exists>xs' cs' fs'. oe_inv oe' xs' cs' fs' \<and>
    run_inv (b \<and> last_flush oe' \<le> t) (acc @ [\<lparr>timestamp = t, file_offset = off, event = Ev ev\<rparr>]) oe' log xs'"
proof -
  from new_event_cases [OF inv ne] obtain cs' fs' where h: "n \<notin> set xs"
    "\<forall>a \<in> set xs. slots (mem oe1) a = slots (mem oe) a" "timestamp (slots (mem oe1) n) = t"
    "event (slots (mem oe1) n) = Ev ev" "last_flush oe1 = last_flush oe"
    "oe_inv oe1 (insert_event (ts_of oe1) n xs) cs' fs'"
    by auto
  let ?xs = "insert_event (ts_of oe1) n xs"
  have sn: "slots (mem oe') n = \<lparr>timestamp = t, file_offset = off, event = Ev ev\<rparr>"
    using h by (simp add: oe'_def)
  have sx: "slots (mem oe') a = slots (mem oe) a" if "a \<in> set xs" for a
    using h that by (auto simp: oe'_def)
  then have mx: "map (slots (mem oe')) xs = map (slots (mem oe)) xs" by simp
  have "mset (map (slots (mem oe')) ?xs) =
      add_mset \<lparr>timestamp = t, file_offset = off, event = Ev ev\<rparr> (mset (map (slots (mem oe)) xs))"
    by (simp only: insert_event_mset sn mx)
  with ri have "mset (log @ map (slots (mem oe')) ?xs) =
      mset (acc @ [\<lparr>timestamp = t, file_offset = off, event = Ev ev\<rparr>])"
    by (simp add: run_inv_def del: mset_map)
  moreover have "last_flush oe' = last_flush oe" using h by (simp add: oe'_def)
  moreover have "oe_inv oe' ?xs cs' fs'" using h by (simp add: oe'_def)
  ultimately show ?thesis
    using ri sn sx by (intro exI conjI) (auto simp: run_inv_def insert_event_set)
qed

text \<open>A rejected call leaves a good state as well.\<close>

lemma queue_run_inv:
  assumes inv: "oe_inv oe xs cs fs" and ri: "run_inv b acc oe log xs"
    and q: "ordered_events__queue log_client oe ev t off log = Inr (r, oe', log')"
  shows "\<exists>xs' cs' fs'. oe_inv oe' xs' cs' fs' \<and>
    (if r = 0
     then run_inv (b \<and> last_flush oe' \<le> t)
            (acc @ [\<lparr>timestamp = t, file_offset = off, event = Ev ev\<rparr>]) oe' log' xs'
     else run_inv b acc oe' log' xs')"
proof (cases "t = 0 \<or> t = - 1")
  case True
  with q have "r = - ETIME" "oe' = oe" "log' = log" by (auto simp: ordered_events__queue_def)
  with inv ri show ?thesis by (auto simp: ETIME_def)
next
  case False
  define oe0 where "oe0 = (if t < last_flush oe
    then oe\<lparr>nr_unordered_events := nr_unordered_events oe + 1\<rparr> else oe)"
  have inv0: "oe_inv oe0 xs cs fs" and ri0: "run_inv b acc oe0 log xs"
    using inv ri by (simp_all add: oe0_def run_inv_def)
  from new_event_cases [OF inv0 refl, of t ev] consider
      (ok) n oe1 where "ordered_events__new_event oe0 t ev = Inr (Some n, oe1)"
    | (full) oe1 where "ordered_events__new_event oe0 t ev = Inr (None, oe1)" "oe_inv oe1 xs cs fs"
        "same_queue oe0 oe1" "slots (mem oe1) = slots (mem oe0)"
    | (crash) "ordered_events__new_event oe0 t ev = Inl Null_Deref"
    by blast
  then show ?thesis
  proof cases
    case ok
    with q False have "r = 0" "oe' = upd_slot n (\<lambda>s. s\<lparr>file_offset := off\<rparr>) oe1" "log' = log"
      by (simp_all add: ordered_events__queue_def Let_def oe0_def [symmetric])
    with new_event_run_inv [OF inv0 ri0 ok, of off] show ?thesis by auto
  next
    case crash
    with q False show ?thesis by (simp add: ordered_events__queue_def Let_def oe0_def [symmetric])
  next
    case full
    have ri1: "run_inv b acc oe1 log xs" using ri0 full(3,4) by (simp add: run_inv_def same_queue_def)
    from q False full(1) obtain r1 oe2 log2
      where fl: "ordered_events__flush log_client oe1 OE_FLUSH__HALF log = Inr (r1, oe2, log2)"
      by (auto simp: ordered_events__queue_def Let_def oe0_def [symmetric] split: sum.splits)
    obtain xs2 cs2 where inv2: "oe_inv oe2 xs2 cs2 fs" and ri2: "run_inv b acc oe2 log2 xs2"
      using flush_run_inv [OF full(2) ri1 fl] by blast
    note q' = q [unfolded ordered_events__queue_def Let_def oe0_def [symmetric]]
    from new_event_cases [OF inv2 refl, of t ev] consider
        (ok2) n oe3 where "ordered_events__new_event oe2 t ev = Inr (Some n, oe3)"
      | (full2) oe3 where "ordered_events__new_event oe2 t ev = Inr (None, oe3)" "oe_inv oe3 xs2 cs2 fs"
          "same_queue oe2 oe3" "slots (mem oe3) = slots (mem oe2)"
      | (crash2) "ordered_events__new_event oe2 t ev = Inl Null_Deref"
      by blast
    then show ?thesis
    proof cases
      case ok2
      with q' False full(1) fl have "r = 0" "oe' = upd_slot n (\<lambda>s. s\<lparr>file_offset := off\<rparr>) oe3" "log' = log2"
        by simp_all
      with new_event_run_inv [OF inv2 ri2 ok2, of off] show ?thesis by auto
    next
      case full2
      with q' False full(1) fl have "r = - ENOMEM" "oe' = oe3" "log' = log2" by simp_all
      with full2 ri2 show ?thesis by (auto simp: run_inv_def same_queue_def ENOMEM_def)
    next
      case crash2
      with q' False full(1) fl show ?thesis by simp
    qed
  qed
qed

lemma oe_run_inv: "oe_run b acc oe log \<Longrightarrow> \<exists>xs cs fs. oe_inv oe xs cs fs \<and> run_inv b acc oe log xs"
proof (induction rule: oe_run.induct)
  case (start oe)
  have "run_inv True [] (ordered_events__init oe) [] []" by (simp add: run_inv_def)
  with zeroed_inv [OF start] show ?case by blast
next
  case (alloc_size b acc oe log sz)
  then show ?case by (auto simp: ordered_events__set_alloc_size_def run_inv_def)
next
  case (copy b acc oe log y)
  then show ?case by (auto simp: ordered_events__set_copy_on_queue_def run_inv_def)
next
  case (queued b acc oe log ev t off oe' log')
  then obtain xs cs fs where "oe_inv oe xs cs fs" "run_inv b acc oe log xs" by blast
  from queue_run_inv [OF this queued.hyps(2)] show ?case by simp
next
  case (rejected b acc oe log ev t off r oe' log')
  then obtain xs cs fs where "oe_inv oe xs cs fs" "run_inv b acc oe log xs" by blast
  from queue_run_inv [OF this rejected.hyps(2)] rejected.hyps(3) show ?case by simp
next
  case (flush b acc oe log how r oe' log')
  then obtain xs cs fs where "oe_inv oe xs cs fs" "run_inv b acc oe log xs" by blast
  from flush_run_inv [OF this flush.hyps(2)] show ?case by blast
qed

subsection \<open>Rounds\<close>

text \<open>
  \<^verbatim>\<open>process_finished_round\<close> of \<^verbatim>\<open>session.c\<close> flushes with \<open>OE_FLUSH__ROUND\<close> after each pass over
  the per-cpu buffers.  \<open>pass_run past cur oe log\<close>: the timestamps of the finished passes, of
  the current pass, and the state they led to; no call ran out of memory.
\<close>

inductive pass_run :: "u64 list list \<Rightarrow> u64 list \<Rightarrow> ordered_event list \<Rightarrow> ordered_events \<Rightarrow> ordered_event list \<Rightarrow> bool" where
  start: "zeroed oe \<Longrightarrow> pass_run [] [] [] (ordered_events__init oe) []"
| event: "pass_run past cur acc oe log \<Longrightarrow>
     ordered_events__new_event oe t ev = Inr (Some n, oe1) \<Longrightarrow>
     ordered_events__queue log_client oe ev t off log = Inr (0, oe', log) \<Longrightarrow>
     pass_run past (cur @ [t]) (acc @ [\<lparr>timestamp = t, file_offset = off, event = Ev ev\<rparr>]) oe' log"
| finished_round: "pass_run past cur acc oe log \<Longrightarrow>
     ordered_events__flush log_client oe OE_FLUSH__ROUND log = Inr (r, oe', log') \<Longrightarrow>
     pass_run (past @ [cur]) [] acc oe' log'"

text \<open>
  What the kernel side provides: an event read in one pass is not older than the events of the
  pass before the previous one.
\<close>

definition separated :: "u64 list list \<Rightarrow> bool" where
  "separated ps \<longleftrightarrow>
     (\<forall>i j. i + 2 \<le> j \<longrightarrow> j < length ps \<longrightarrow> (\<forall>a \<in> set (ps ! i). \<forall>b \<in> set (ps ! j). a \<le> b))"

lemma separated_shorter:
  assumes "separated (past @ [cur @ [t]])"
  shows "separated (past @ [cur])"
  unfolding separated_def
proof (intro allI impI ballI)
  fix i j a b
  assume h: "i + 2 \<le> j" "j < length (past @ [cur])" "a \<in> set ((past @ [cur]) ! i)" "b \<in> set ((past @ [cur]) ! j)"
  then have "a \<in> set ((past @ [cur @ [t]]) ! i)" "b \<in> set ((past @ [cur @ [t]]) ! j)"
    by (auto simp: nth_append nth_Cons')
  with h(1,2) assms show "a \<le> b" by (auto simp: separated_def)
qed

lemma separated_prefix:
  assumes "separated (ps @ [q])"
  shows "separated ps"
  unfolding separated_def
proof (intro allI impI ballI)
  fix i j a b
  assume h: "i + 2 \<le> j" "j < length ps" "a \<in> set (ps ! i)" "b \<in> set (ps ! j)"
  then have "a \<in> set ((ps @ [q]) ! i)" "b \<in> set ((ps @ [q]) ! j)" "j < length (ps @ [q])"
    by (simp_all add: nth_append)
  with h(1) assms show "a \<le> b" unfolding separated_def by blast
qed

lemma separated_new:
  assumes "separated (past @ [cur @ [t]])" and "s \<in> set (concat (butlast past))"
  shows "s \<le> t"
proof -
  obtain i where i: "i < length (butlast past)" "s \<in> set (butlast past ! i)"
    using assms(2) by (metis UN_E in_set_conv_nth set_concat)
  then have "i < length past" by simp
  with i have "s \<in> set ((past @ [cur @ [t]]) ! i)" by (simp add: nth_append nth_butlast)
  moreover have "i + 2 \<le> length past" using i(1) by simp
  moreover have "t \<in> set ((past @ [cur @ [t]]) ! length past)" by simp
  ultimately show ?thesis using assms(1) by (auto simp: separated_def)
qed

definition pass_inv :: "u64 list list \<Rightarrow> u64 list \<Rightarrow> ordered_event list \<Rightarrow> ordered_events \<Rightarrow> bool" where
  "pass_inv past cur acc oe \<longleftrightarrow>
     map timestamp acc = concat past @ cur \<and>
     (next_flush oe = 0 \<or> (\<exists>s \<in> set (concat past). next_flush oe \<le> s)) \<and>
     (last_flush oe = 0 \<or> (\<exists>s \<in> set (concat (butlast past)). last_flush oe \<le> s))"

lemma pass_run_ordered:
  assumes "pass_run past cur acc oe log" and "separated (past @ [cur])"
  shows "oe_run True acc oe log \<and> pass_inv past cur acc oe"
  using assms
proof (induction rule: pass_run.induct)
  case (start oe)
  then have "pass_inv [] [] [] (ordered_events__init oe)"
    by (simp add: pass_inv_def ordered_events__init_def Let_def zeroed_def)
  with start show ?case by (blast intro: oe_run.start)
next
  case (event past cur acc oe log t ev n oe1 off oe')
  from event.IH separated_shorter [OF event.prems] have run: "oe_run True acc oe log"
    and pi: "pass_inv past cur acc oe" by blast+
  from oe_run_inv [OF run] obtain xs cs fs where inv: "oe_inv oe xs cs fs" by blast
  have lf: "last_flush oe \<le> t"
    using pi separated_new [OF event.prems] by (force simp: pass_inv_def)
  have nf: "next_flush oe1 = next_flush oe" "last_flush oe1 = last_flush oe"
    using new_event_cases [OF inv event.hyps(2)] by auto
  have "oe' = upd_slot n (\<lambda>s. s\<lparr>file_offset := off\<rparr>) oe1"
    using event.hyps(2,3) lf
    by (auto simp: ordered_events__queue_def Let_def ETIME_def split: if_splits)
  then have nf': "next_flush oe' = next_flush oe" "last_flush oe' = last_flush oe" using nf by simp_all
  have "oe_run (True \<and> last_flush oe' \<le> t) (acc @ [\<lparr>timestamp = t, file_offset = off, event = Ev ev\<rparr>]) oe' log"
    by (rule oe_run.queued [OF run event.hyps(3)])
  moreover have "pass_inv past (cur @ [t]) (acc @ [\<lparr>timestamp = t, file_offset = off, event = Ev ev\<rparr>]) oe'"
    using pi nf' by (simp add: pass_inv_def)
  ultimately show ?case using lf nf' by simp
next
  case (finished_round past cur acc oe log r oe' log')
  have "separated (past @ [cur])"
    using finished_round.prems by (rule separated_prefix)
  with finished_round.IH have run: "oe_run True acc oe log" and pi: "pass_inv past cur acc oe" by blast+
  from oe_run_inv [OF run] obtain xs cs fs where inv: "oe_inv oe xs cs fs" and ri: "run_inv True acc oe log xs"
    by blast
  have run': "oe_run True acc oe' log'" by (rule oe_run.flush [OF run finished_round.hyps(2)])
  have lw: "last_flush oe = 0 \<or> (\<exists>s \<in> set (concat past). last_flush oe \<le> s)"
    using pi unfolding pass_inv_def set_concat by (meson UN_iff in_set_butlastD)
  show ?case
  proof (cases "nr_events oe = 0")
    case True
    then have "oe' = oe" using finished_round.hyps(2) by (auto simp: ordered_events__flush_def)
    with run' pi lw show ?thesis by (auto simp: pass_inv_def)
  next
    case nr: False
    then have xs: "xs \<noteq> []" using inv by (auto simp: oe_inv_def oe_order_def)
    have "slots (mem oe) (last xs) \<in> set (log @ map (slots (mem oe)) xs)" using xs by simp
    also have "\<dots> = set acc" using ri unfolding run_inv_def by (metis set_mset_mset)
    finally have "ts_of oe (last xs) \<in> set (map timestamp acc)" by simp
    then have mx: "max_timestamp oe \<in> set (concat past @ cur)"
      using inv xs pi by (simp add: oe_inv_def oe_order_def pass_inv_def del: set_map)
    show ?thesis
    proof (cases "next_flush oe = 0")
      case True
      then have "last_flush oe' = last_flush oe" "next_flush oe' = max_timestamp oe"
        using finished_round.hyps(2) nr
        by (auto simp: ordered_events__flush_def set_next_flush_def do_ordered_events__flush_def)
      with run' pi mx lw show ?thesis by (auto simp: pass_inv_def)
    next
      case nz: False
      have set: "set_next_flush OE_FLUSH__ROUND oe = Some oe" by (simp add: set_next_flush_def)
      have f: "flushed (next_flush oe) oe xs cs fs oe'" "next_flush oe' = max_timestamp oe"
        using flush_completed [OF inv nr set nz deliver_prefix_log, of log] finished_round.hyps(2) by auto
      have "last_flush oe' \<le> next_flush oe \<or> last_flush oe' = last_flush oe"
      proof (cases "takeWhile (\<lambda>a. ts_of oe a \<le> next_flush oe) xs = []")
        case False
        then have "ts_of oe (last (takeWhile (\<lambda>a. ts_of oe a \<le> next_flush oe) xs)) \<le> next_flush oe"
          using last_in_set set_takeWhileD by metis
        with False f(1) show ?thesis by (simp add: flushed_def Let_def)
      qed (use f(1) in \<open>simp add: flushed_def Let_def\<close>)
      moreover obtain s where "s \<in> set (concat past)" "next_flush oe \<le> s"
        using pi nz by (auto simp: pass_inv_def)
      ultimately have "last_flush oe' = 0 \<or> (\<exists>s \<in> set (concat past). last_flush oe' \<le> s)"
        using lw by (metis order_trans)
      with run' pi mx f(2) show ?thesis by (auto simp: pass_inv_def)
    qed
  qed
qed


subsection \<open>A concrete queue\<close>

text \<open>A queue as \<open>zalloc\<close> leaves it, with room to allocate, for concrete runs.\<close>

definition blank_slot :: ordered_event where
  "blank_slot = \<lparr>timestamp = 0, file_offset = 0, event = Uninit\<rparr>"

definition blank_oe :: ordered_events where
  "blank_oe =
     \<lparr>last_flush = 0, next_flush = 0, max_timestamp = 0, max_alloc_size = 0, cur_alloc_size = 0,
      events = 1, cache = 2, to_free = 3, buffer = None, oe_last = None, buffer_idx = 0,
      nr_events = 0, last_flush_type = OE_FLUSH__NONE, nr_unordered_events = 0,
      copy_on_queue = False,
      mem = \<lparr>links = \<lparr>nxt = (\<lambda>_. 0), prv = (\<lambda>_. 0)\<rparr>, slots = (\<lambda>_. blank_slot), brk = 4,
             requests = 0, oom = (\<lambda>_. False)\<rparr>\<rparr>"

definition small_event :: perf_event where
  "small_event = \<lparr>header_size = 8, body = []\<rparr>"

definition after_queue :: "u64 \<Rightarrow> ordered_events \<times> ordered_event list \<Rightarrow> ordered_events \<times> ordered_event list" where
  "after_queue t = (\<lambda>(oe, log).
     case ordered_events__queue log_client oe small_event t 0 log of
       Inr (_, oe, log) \<Rightarrow> (oe, log) | Inl _ \<Rightarrow> (oe, log))"

definition after_flush :: "oe_flush \<Rightarrow> ordered_events \<times> ordered_event list \<Rightarrow> ordered_events \<times> ordered_event list" where
  "after_flush how = (\<lambda>(oe, log).
     case ordered_events__flush log_client oe how log of
       Inr (_, oe, log) \<Rightarrow> (oe, log) | Inl _ \<Rightarrow> (oe, log))"

lemma zeroed_blank: "zeroed blank_oe"
  by (simp add: zeroed_def blank_oe_def)

lemma u64_all_ones: "(- 1 :: u64) = 0xFFFFFFFFFFFFFFFF"
  by simp

lemmas oe_eval =
  blank_oe_def blank_slot_def small_event_def log_client_def ordered_events__init_def
  ordered_events__queue_def ordered_events__new_event_def alloc_event_def alloc_slot_def
  dup_event_def dup_event_copy_def malloc_def queue_event_def walk_next.simps walk_prev.simps
  upd_links_def upd_slot_def wipe_slots_def MAX_SAMPLE_BUFFER_eq sizeof_ordered_event_def
  list_empty_def INIT_LIST_HEAD_def list_add_def list_add_tail_def list_add_between_def
  list_del_def list_del_between_def list_del_entry_def list_move_def set_next_def set_prev_def
  ordered_events__flush_def do_ordered_events__flush_def flush_loop.simps set_next_flush_def
  ordered_events__delete_def free_dup_event_def Let_def u64_all_ones after_queue_def after_flush_def

definition oe_start :: "ordered_events \<times> ordered_event list" where
  "oe_start = (ordered_events__init blank_oe, [])"


lemma free_empties:
  assumes "ring (oe_links oe) (to_free oe) fs" and "\<not> copy_on_queue oe"
  shows "\<exists>oe'. ordered_events__free oe = Some (Inr oe') \<and> ring (oe_links oe') (to_free oe') []"
  using assms
proof (induction fs arbitrary: oe)
  case Nil
  then have "ordered_events__free oe = Some (Inr oe)"
    using list_empty_ring by (simp add: ordered_events__free.simps [of oe])
  with Nil show ?case by blast
next
  case (Cons f fs)
  have ring: "ring (oe_links oe) (to_free oe) ([] @ f # fs)" using Cons.prems by simp
  have first: "nxt (oe_links oe) (to_free oe) = f" "\<not> list_empty (to_free oe) (oe_links oe)"
    using ring_head(1) [OF ring] list_empty_ring [OF ring] by simp_all
  have "\<exists>oe'. ordered_events__free (upd_links (list_del f) oe) = Some (Inr oe') \<and>
      ring (oe_links oe') (to_free oe') []"
    by (rule Cons.IH) (use list_del_ring [OF ring] Cons.prems in simp_all)
  then show ?case
    using first Cons.prems by (simp add: ordered_events__free.simps [of oe] free_dup_event_def)
qed

subsection \<open>A flush that is cut short\<close>

text \<open>
  When \<open>deliver\<close> fails, or the session is done, in the middle of a flush, the loop returns without the assignment to
  \<open>last\<close> at the end of \<open>__ordered_events__flush\<close>.  The events before that point are on the cache by then.  If
  \<open>last\<close> was one of them it still points there, to a slot that is no longer queued: the condition
  that the runs above put on the client.
\<close>

lemma cut_flush_keeps_last:
  assumes inv: "oe_inv oe xs cs fs" and nr: "nr_events oe \<noteq> 0"
    and how: "set_next_flush how oe = Some oe1" and nz: "next_flush oe1 \<noteq> 0"
    and dp: "deliver_prefix k (next_flush oe1) (map (slots (mem oe)) xs) c = (Returned r, n, c')"
    and l: "oe_last oe = Some l" "l \<in> set (take n xs)"
  shows "\<exists>oe'. ordered_events__flush k oe how c = Inr (r, oe', c') \<and> oe_last oe' = Some l \<and>
    ring (oe_links oe') (events oe') (drop n xs) \<and> l \<notin> set (drop n xs) \<and>
    ring (oe_links oe') (cache oe') (rev (take n xs) @ cs) \<and> l \<in> set (rev (take n xs) @ cs)"
proof -
  obtain t where t: "oe1 = oe\<lparr>next_flush := t\<rparr>" using set_next_flush_only [OF how] by (rule that)
  have inv1: "oe_inv oe1 xs cs fs" using inv t by simp
  have st: "oe_store oe1 xs cs fs" "\<forall>a \<in> set xs. event (slots (mem oe1) a) \<noteq> Uninit"
    using inv1 by (simp_all add: oe_inv_def oe_order_def)
  have first: "nxt (oe_links oe1) (events oe1) = right_of (events oe1) xs"
    using st(1) by (simp add: oe_store_def ring_head(1))
  have dp1: "deliver_prefix k (next_flush oe1) (map (slots (mem oe1)) xs) c = (Returned r, n, c')" using dp t by simp
  from flush_loop_refines [OF st dp1] obtain oe2 where
    f: "flush_loop k (next_flush oe1) oe1 c (right_of (events oe1) xs) = Some (Inr (Returned r, oe2, c'))"
    "oe_store oe2 (drop n xs) (rev (take n xs) @ cs) fs" "same_setup oe1 oe2" by blast
  have "distinct xs" using st(1) by (auto simp: oe_store_def dest: ring_distinct)
  then have "l \<notin> set (drop n xs)" using l(2) set_take_disj_set_drop_if_distinct [of xs n n] by auto
  moreover have "oe_last oe2 = Some l" using f(3) l(1) t by (simp add: same_setup_def)
  moreover have "do_ordered_events__flush k oe1 c = Inr (r, oe2, c')" using nz f(1) first by (simp add: do_ordered_events__flush_def Let_def)
  ultimately show ?thesis using nr how f(2) l(2) by (simp add: ordered_events__flush_def oe_store_def)
qed

subsection \<open>What the queue guarantees\<close>

text \<open>
  Claim C1.  Passes that end with a round flush deliver in time order: if every event read in a
  pass is at least as late as all events of the pass before the previous one (the assumption
  stated at \<^verbatim>\<open>process_finished_round\<close>) and every delivery succeeds, the sequence of delivered events is sorted by timestamp.
\<close>

theorem rounds_deliver_in_time_order:
  assumes "pass_run past cur acc oe log" and "separated (past @ [cur])"
  shows "sorted_by timestamp log"
proof -
  have "oe_run True acc oe log" using pass_run_ordered [OF assms] by blast
  then obtain xs cs fs where "run_inv True acc oe log xs" using oe_run_inv by blast
  then show ?thesis by (simp add: run_inv_def)
qed

abbreviation demo_event :: "u64 \<Rightarrow> ordered_event" where
  "demo_event t \<equiv> \<lparr>timestamp = t, file_offset = 0, event = Ev small_event\<rparr>"

text \<open>Two passes, 7 and 5, then 6 and 9; the second round flush delivers 5, 6 and 7; then 8.\<close>

definition demo_1 :: "ordered_events \<times> ordered_event list" where
  "demo_1 = after_queue 5 (after_queue 7 oe_start)"

definition demo_2 :: "ordered_events \<times> ordered_event list" where
  "demo_2 = after_flush OE_FLUSH__ROUND demo_1"

definition demo_3 :: "ordered_events \<times> ordered_event list" where
  "demo_3 = after_queue 9 (after_queue 6 demo_2)"

definition demo_4 :: "ordered_events \<times> ordered_event list" where
  "demo_4 = after_queue 8 (after_flush OE_FLUSH__ROUND demo_3)"

lemmas demo_eval = oe_eval oe_start_def demo_1_def demo_2_def demo_3_def demo_4_def

lemma demo_pass_1: "pass_run [] [7, 5] [demo_event 7, demo_event 5] (fst demo_1) []"
proof -
  have 0: "pass_run [] [] [] (fst oe_start) []"
    using pass_run.start [OF zeroed_blank] by (simp add: oe_start_def)
  have 1: "pass_run [] ([] @ [7]) ([] @ [demo_event 7]) (fst (after_queue 7 oe_start)) []"
    by (rule pass_run.event [OF 0]) (simp_all add: demo_eval)
  have "pass_run [] ([7] @ [5]) ([demo_event 7] @ [demo_event 5]) (fst demo_1) []"
    by (rule pass_run.event [OF 1 [unfolded append_Nil]]) (simp_all add: demo_eval)
  then show ?thesis by simp
qed

lemma demo_pass_2:
  "pass_run [[7, 5]] [6, 9] [demo_event 7, demo_event 5, demo_event 6, demo_event 9] (fst demo_3) []"
proof -
  have 2: "pass_run ([] @ [[7, 5]]) [] [demo_event 7, demo_event 5] (fst demo_2) []"
    by (rule pass_run.finished_round [OF demo_pass_1]) (simp add: demo_eval)
  have 3: "pass_run [[7, 5]] ([] @ [6]) ([demo_event 7, demo_event 5] @ [demo_event 6])
      (fst (after_queue 6 demo_2)) []"
    by (rule pass_run.event [OF 2 [unfolded append_Nil]]) (simp_all add: demo_eval)
  have "pass_run [[7, 5]] ([6] @ [9]) ([demo_event 7, demo_event 5, demo_event 6] @ [demo_event 9])
      (fst demo_3) []"
    by (rule pass_run.event [OF 3 [unfolded append_Nil append_Cons]]) (simp_all add: demo_eval)
  then show ?thesis by simp
qed

lemma demo_pass_3:
  "pass_run [[7, 5], [6, 9]] [8] (map demo_event [7, 5, 6, 9, 8]) (fst demo_4) (map demo_event [5, 6, 7])"
proof -
  have 4: "pass_run ([[7, 5]] @ [[6, 9]]) [] [demo_event 7, demo_event 5, demo_event 6, demo_event 9]
      (fst (after_flush OE_FLUSH__ROUND demo_3)) (map demo_event [5, 6, 7])"
    by (rule pass_run.finished_round [OF demo_pass_2]) (simp add: demo_eval)
  have "pass_run [[7, 5], [6, 9]] ([] @ [8])
      ([demo_event 7, demo_event 5, demo_event 6, demo_event 9] @ [demo_event 8])
      (fst demo_4) (map demo_event [5, 6, 7])"
    by (rule pass_run.event [OF 4 [unfolded append_Nil append_Cons]]) (simp_all add: demo_eval)
  then show ?thesis by simp
qed

lemma demo_separated: "separated ([[7, 5], [6, 9]] @ [[8]])"
  by (auto simp: separated_def nth_Cons' split: if_splits)

theorem rounds_deliver_in_time_order_witness:
  "pass_run [[7, 5], [6, 9]] [8] (map demo_event [7, 5, 6, 9, 8]) (fst demo_4) (map demo_event [5, 6, 7]) \<and>
   separated ([[7, 5], [6, 9]] @ [[8]]) \<and> sorted_by timestamp (map demo_event [5, 6, 7])"
  using rounds_deliver_in_time_order [OF demo_pass_3 demo_separated] demo_pass_3 demo_separated by blast

text \<open>
  Claim C14.  Take any sequence of calls with a \<open>deliver\<close> callback that always returns 0 and a session that is not
  done, where \<open>copy_on_queue\<close> is changed only while no event is queued.  Whatever allocations fail, the queue is then well
  formed: the three lists are proper and disjoint, the queued events are sorted by timestamp,
  \<open>nr_events\<close> counts them, \<open>last\<close> is one of them or null when there is none, and
  \<open>max_timestamp\<close> is the latest of them.
\<close>

theorem queue_stays_well_formed:
  assumes "oe_run b acc oe log"
  shows "\<exists>xs cs fs. oe_inv oe xs cs fs"
  using oe_run_inv [OF assms] by blast

lemma demo_run: "oe_run True [demo_event 7, demo_event 5] (fst demo_1) []"
  using pass_run_ordered [OF demo_pass_1] by (simp add: separated_def)

theorem queue_stays_well_formed_witness:
  "oe_run True [demo_event 7, demo_event 5] (fst demo_1) [] \<and> (\<exists>xs cs fs. oe_inv (fst demo_1) xs cs fs)"
  using queue_stays_well_formed [OF demo_run] demo_run by blast

text \<open>
  Claim C15.  Nothing is lost and nothing is delivered twice: after any sequence of calls with a \<open>deliver\<close> callback
  that always returns 0 and a session that is not done, where \<open>copy_on_queue\<close> is changed only while no event is queued
  and fewer than $2^{32}$ events were accepted, a final flush returns 0, empties the queue, and what has then been delivered is exactly what the queue accepted.
\<close>

theorem final_flush_delivers_accepted:
  assumes run: "oe_run b acc oe log" and len: "length acc < 2 ^ 32"
  shows "\<exists>oe' log'. ordered_events__flush log_client oe OE_FLUSH__FINAL log = Inr (0, oe', log') \<and>
     mset log' = mset acc \<and> nr_events oe' = 0"
proof -
  obtain xs cs fs where inv: "oe_inv oe xs cs fs" and ri: "run_inv b acc oe log xs"
    using oe_run_inv [OF run] by blast
  have m: "mset log + mset (map (slots (mem oe)) xs) = mset acc" using ri by (simp add: run_inv_def)
  then have "length log + length xs = length acc" by (metis length_map size_mset size_union)
  then have small: "length xs < 2 ^ 32" using len by simp
  show ?thesis
  proof (cases "xs = []")
    case True
    with inv have "nr_events oe = 0" by (simp add: oe_inv_def oe_order_def)
    with True m show ?thesis by (simp add: ordered_events__flush_def)
  next
    case False
    have nr: "nr_events oe \<noteq> 0"
      using inv False u32_of_nat_eq_0 [OF small] by (simp add: oe_inv_def oe_order_def)
    have set: "set_next_flush OE_FLUSH__FINAL oe = Some (oe\<lparr>next_flush := - 1\<rparr>)"
      by (simp add: set_next_flush_def)
    have all: "ts_of oe a \<le> - 1" for a by (rule word_n1_ge)
    then have tw: "takeWhile (\<lambda>a. ts_of oe a \<le> - 1) xs = xs" "dropWhile (\<lambda>a. ts_of oe a \<le> - 1) xs = []"
      by (induction xs) simp_all
    have "deliver_prefix log_client (- 1) (map (slots (mem oe)) xs) log =
        (Completed, length xs, log @ map (slots (mem oe)) xs)"
      using all by (simp add: deliver_prefix_log takeWhile_map comp_def takeWhile_eq_all_conv [THEN iffD2])
    then have dp: "deliver_prefix log_client (next_flush (oe\<lparr>next_flush := - 1\<rparr>)) (map (slots (mem oe)) xs) log =
        (Completed, length xs, log @ map (slots (mem oe)) xs)" by simp
    obtain oe' where "ordered_events__flush log_client oe OE_FLUSH__FINAL log =
          Inr (0, oe', log @ map (slots (mem oe)) xs)" "flushed (- 1) oe xs cs fs oe'"
      using flush_completed [OF inv nr set _ dp] by auto
    moreover from this(2) have "nr_events oe' = 0"
      unfolding flushed_def Let_def tw oe_inv_def oe_order_def by simp
    ultimately show ?thesis using m by auto
  qed
qed

theorem final_flush_delivers_accepted_witness:
  "oe_run True [demo_event 7, demo_event 5] (fst demo_1) [] \<and>
   length [demo_event 7, demo_event 5] < 2 ^ 32 \<and>
   (\<exists>oe' log'. ordered_events__flush log_client (fst demo_1) OE_FLUSH__FINAL [] = Inr (0, oe', log') \<and>
      mset log' = mset [demo_event 7, demo_event 5] \<and> nr_events oe' = 0)"
  using final_flush_delivers_accepted [OF demo_run] demo_run by simp

text \<open>
  Claim C16.  \<open>queue_event\<close> returns and links the new entry behind every queued event that is
  not later than it, and in front of the others, whatever entry the search starts from; so
  events with equal timestamps stay in arrival order.
\<close>

theorem queue_event_inserts_in_order:
  assumes "oe_inv oe xs cs fs" and "fresh_slot oe xs cs fs n"
  shows "\<exists>oe'. queue_event oe n = Inr oe' \<and> oe_inv oe' (insert_event (ts_of oe) n xs) cs fs"
  using queue_event_inv [OF assms] by blast

text \<open>The slot at address 9, filled in and taken from below the break.\<close>

definition one_slot :: ordered_events where
  "one_slot = upd_slot 9 (\<lambda>s. s\<lparr>timestamp := 6, event := Ev small_event\<rparr>)
     ((fst oe_start)\<lparr>mem := (mem (fst oe_start))\<lparr>brk := 10\<rparr>\<rparr>)"

theorem queue_event_inserts_in_order_witness:
  "oe_inv one_slot [] [] [] \<and> fresh_slot one_slot [] [] [] 9 \<and>
   (\<exists>oe'. queue_event one_slot 9 = Inr oe' \<and> oe_inv oe' (insert_event (ts_of one_slot) 9 []) [] [])"
proof -
  have 1: "oe_inv one_slot [] [] []"
    by (simp add: one_slot_def oe_inv_def oe_order_def oe_store_def oe_cells_def in_block_def
        ring_def oe_start_def oe_eval)
  have 2: "fresh_slot one_slot [] [] [] 9"
    by (simp add: one_slot_def fresh_slot_def oe_cells_def in_block_def oe_start_def oe_eval)
  show ?thesis using queue_event_inserts_in_order [OF 1 2] 1 2 by blast
qed

text \<open>
  Claim C31.  When the cache is empty, there is no block, and the copy of the event has used up
  the allowance, \<open>alloc_event\<close> reports that the limit is reached and then stores through
  the null pointer.
\<close>

theorem alloc_limit_stores_through_null:
  assumes "no_slot_left oe ev"
  shows "alloc_event oe ev = Inl Null_Deref"
proof -
  obtain oe1 where d: "dup_event oe ev = (Some ev, oe1)"
    and s: "cache oe1 = cache oe" "oe_links oe1 = oe_links oe" "buffer oe1 = buffer oe"
      "max_alloc_size oe1 = max_alloc_size oe"
    using assms
    by (cases "dup_event oe ev")
      (auto simp: no_slot_left_def dup_event_def dup_event_copy_def malloc_def Let_def
        split: if_splits option.splits)
  with assms have "alloc_slot oe1 ev = Inr (True, None, oe1)"
    by (simp add: no_slot_left_def alloc_slot_def not_less [symmetric])
  with d show ?thesis by (simp add: alloc_event_def)
qed

theorem alloc_limit_stores_through_null_witness:
  "no_slot_left (ordered_events__set_alloc_size (fst oe_start) 0) small_event \<and>
   alloc_event (ordered_events__set_alloc_size (fst oe_start) 0) small_event = Inl Null_Deref"
proof -
  have "no_slot_left (ordered_events__set_alloc_size (fst oe_start) 0) small_event"
    by (simp add: no_slot_left_def ordered_events__set_alloc_size_def oe_start_def oe_eval)
  from alloc_limit_stores_through_null [OF this] this show ?thesis by blast
qed

text \<open>
  \<open>ordered_events__free\<close> ends and leaves no block behind when events are not copied.
\<close>

theorem free_releases_all_blocks:
  assumes "ring (oe_links oe) (to_free oe) fs" and "\<not> copy_on_queue oe"
  shows "\<exists>oe'. ordered_events__free oe = Some (Inr oe') \<and> list_empty (to_free oe') (oe_links oe')"
  using free_empties [OF assms] by (auto simp: list_empty_ring)

theorem free_releases_all_blocks_witness:
  "ring (oe_links (fst demo_1)) (to_free (fst demo_1)) [4] \<and> \<not> copy_on_queue (fst demo_1) \<and>
   (\<exists>oe'. ordered_events__free (fst demo_1) = Some (Inr oe') \<and> list_empty (to_free oe') (oe_links oe'))"
proof -
  have 1: "ring (oe_links (fst demo_1)) (to_free (fst demo_1)) [4]" by (simp add: demo_eval ring_def)
  have 2: "\<not> copy_on_queue (fst demo_1)" by (simp add: demo_eval)
  show ?thesis using free_releases_all_blocks [OF 1 2] 1 2 by blast
qed

text \<open>
  With \<open>copy_on_queue\<close> set, \<open>ordered_events__free\<close> hands the event pointer of the
  first slot of each block to \<open>free_dup_event\<close>; that slot only links the block, its event
  pointer was never set, and reading the size behind it is a wild access.
\<close>

theorem free_reads_unset_event_pointer:
  assumes "ring (oe_links oe) (to_free oe) (f # fs)" and "event (slots (mem oe) f) = Uninit"
    and "copy_on_queue oe"
  shows "ordered_events__free oe = Some (Inl Wild_Deref)"
  using assms ring_head(1) [OF assms(1)] list_empty_ring [OF assms(1)]
  by (simp add: ordered_events__free.simps [of oe] free_dup_event_def)

definition demo_copy :: ordered_events where
  "demo_copy = fst (after_queue 7 (ordered_events__set_copy_on_queue (fst oe_start) True, []))"

theorem free_reads_unset_event_pointer_witness:
  "ring (oe_links demo_copy) (to_free demo_copy) [5] \<and> event (slots (mem demo_copy) 5) = Uninit \<and>
   copy_on_queue demo_copy \<and> ordered_events__free demo_copy = Some (Inl Wild_Deref)"
proof -
  note e = demo_copy_def ordered_events__set_copy_on_queue_def demo_eval
  have 1: "ring (oe_links demo_copy) (to_free demo_copy) [5]" by (simp add: e ring_def)
  have 2: "event (slots (mem demo_copy) 5) = Uninit" by (simp add: e)
  have 3: "copy_on_queue demo_copy" by (simp add: e)
  show ?thesis using free_reads_unset_event_pointer [OF 1 2 3] 1 2 3 by blast
qed

end
