(* ===== verification/Auxtrace_Heap.thy ===== *)
theory Auxtrace_Heap
  imports Perf_Prelude "HOL-Library.Multiset"
begin

text \<open>
  The heap that sorts the AUX area trace queues by time,
  \<^verbatim>\<open>src/tools/perf/util/auxtrace.c\<close> (\<open>auxtrace_heapify\<close>, \<open>auxtrace_heap__add\<close>,
  \<open>auxtrace_heap__pop\<close>, \<open>auxtrace_heap__free\<close>), its contract as a priority queue, and its
  client \<open>intel_pt_process_queues\<close> of \<^verbatim>\<open>src/tools/perf/util/intel-pt.c\<close>.
  Positions and sizes are the code's \<open>unsigned int\<close> values as naturals, with the
  wrap-around of every increment and shift written out.
\<close>

subsection \<open>The code\<close>

record auxtrace_heap_item =
  queue_nr :: u32
  ordinal :: u64

record auxtrace_heap =
  heap_array :: "auxtrace_heap_item list"
  heap_cnt :: nat
  heap_sz :: nat

definition AUXTRACE_INIT_NR_QUEUES :: nat where
  "AUXTRACE_INIT_NR_QUEUES = 32"

fun auxtrace_heapify ::
  "auxtrace_heap_item list \<Rightarrow> nat \<Rightarrow> u32 \<Rightarrow> u64 \<Rightarrow> auxtrace_heap_item list c_result" where
  "auxtrace_heapify a pos q t =
     (if pos \<noteq> 0 then
        (let parent = (pos - 1) div 2
         in bnd (rd a parent) (\<lambda>p.
              if ordinal p \<le> t then wr a pos \<lparr>queue_nr = q, ordinal = t\<rparr>
              else bnd (wr a pos p) (\<lambda>a. auxtrace_heapify a parent q t)))
      else wr a pos \<lparr>queue_nr = q, ordinal = t\<rparr>)"

declare auxtrace_heapify.simps [simp del]

partial_function (option) double_past :: "nat \<Rightarrow> nat \<Rightarrow> nat option" where
  "double_past sz n = (if sz \<le> n then double_past (wrap32 (2 * sz)) n else Some sz)"

text \<open>
  \<open>realloc\<close> fails, or keeps the old items and leaves \<open>g i\<close> in the cells it adds.
\<close>

definition realloc_items ::
  "(nat \<Rightarrow> 'a) option \<Rightarrow> 'a list \<Rightarrow> nat \<Rightarrow> 'a list option" where
  "realloc_items mem a sz =
     (case mem of None \<Rightarrow> None | Some g \<Rightarrow> Some (take sz a @ map g [length a..<sz]))"

definition auxtrace_heap__add ::
  "(nat \<Rightarrow> auxtrace_heap_item) option \<Rightarrow> auxtrace_heap \<Rightarrow> u32 \<Rightarrow> u64 \<Rightarrow> (int \<times> auxtrace_heap) c_result" where
  "auxtrace_heap__add mem h q t =
     bnd (if heap_sz h \<le> unat q then
            bnd (returns (double_past AUXTRACE_INIT_NR_QUEUES (unat q))) (\<lambda>sz.
              case realloc_items mem (heap_array h) sz of
                None \<Rightarrow> Inr (- ENOMEM, h)
              | Some a \<Rightarrow> Inr (0, h\<lparr>heap_array := a, heap_sz := sz\<rparr>))
          else Inr (0, h)) (\<lambda>(err, h).
       if err \<noteq> 0 then Inr (err, h)
       else bnd (auxtrace_heapify (heap_array h) (heap_cnt h) q t) (\<lambda>a.
              Inr (0, h\<lparr>heap_array := a, heap_cnt := wrap32 (heap_cnt h + 1)\<rparr>)))"

definition auxtrace_heap__free :: "auxtrace_heap \<Rightarrow> auxtrace_heap" where
  "auxtrace_heap__free h = h\<lparr>heap_array := [], heap_cnt := 0, heap_sz := 0\<rparr>"

text \<open>
  The loop of \<open>auxtrace_heap__pop\<close>: it returns from the function after filling the hole from
  an only child (\<open>None\<close>), or breaks with the hole at a position that has no child.
\<close>

partial_function (option) pop_loop ::
  "nat \<Rightarrow> auxtrace_heap_item list \<Rightarrow> nat \<Rightarrow> (auxtrace_heap_item list \<times> nat option) c_result option" where
  "pop_loop cnt a pos =
     (let left = wrap32 (wrap32 (2 * pos) + 1)
      in if cnt \<le> left then Some (Inr (a, Some pos))
         else let right = wrap32 (left + 1)
         in if cnt \<le> right then
              Some (bnd (rd a left) (\<lambda>l. bnd (wr a pos l) (\<lambda>a. Inr (a, None))))
            else case bnd (rd a left) (\<lambda>l. bnd (rd a right) (\<lambda>r.
                     if ordinal l < ordinal r then bnd (wr a pos l) (\<lambda>a. Inr (a, left))
                     else bnd (wr a pos r) (\<lambda>a. Inr (a, right)))) of
                   Inl e \<Rightarrow> Some (Inl e)
                 | Inr (a, pos) \<Rightarrow> pop_loop cnt a pos)"

definition auxtrace_heap__pop :: "auxtrace_heap \<Rightarrow> auxtrace_heap c_result" where
  "auxtrace_heap__pop h =
     (let cnt = heap_cnt h
      in if cnt = 0 then Inr h
         else let h = h\<lparr>heap_cnt := cnt - 1\<rparr>
         in bnd (bnd (returns (pop_loop cnt (heap_array h) 0)) id) (\<lambda>(a, stop).
              case stop of
                None \<Rightarrow> Inr (h\<lparr>heap_array := a\<rparr>)
              | Some pos \<Rightarrow>
                  bnd (rd a (cnt - 1)) (\<lambda>l.
                    bnd (auxtrace_heapify a pos (queue_nr l) (ordinal l)) (\<lambda>a.
                      Inr (h\<lparr>heap_array := a\<rparr>)))))"

subsection \<open>Heap order\<close>

definition parent :: "nat \<Rightarrow> nat" where
  "parent i = (i - 1) div 2"

definition heap_ok :: "auxtrace_heap_item list \<Rightarrow> nat \<Rightarrow> bool" where
  "heap_ok a n \<longleftrightarrow> n \<le> length a \<and>
     (\<forall>i < n. 0 < i \<longrightarrow> ordinal (a ! parent i) \<le> ordinal (a ! i))"

lemma parent_less [simp]: "0 < i \<Longrightarrow> parent i < i"
  by (auto simp: parent_def)

lemma parent_eq_iff: "0 < i \<Longrightarrow> parent i = j \<longleftrightarrow> i = 2 * j + 1 \<or> i = 2 * j + 2"
  by (auto simp: parent_def)

lemma heap_ok_top: "heap_ok a n \<Longrightarrow> i < n \<Longrightarrow> ordinal (a ! 0) \<le> ordinal (a ! i)"
proof (induction i rule: less_induct)
  case (less i)
  show ?case
  proof (cases "i = 0")
    case False
    then have "ordinal (a ! 0) \<le> ordinal (a ! parent i)"
      using less parent_less [of i] by (metis less_trans neq0_conv)
    also have "\<dots> \<le> ordinal (a ! i)" using less.prems False by (auto simp: heap_ok_def)
    finally show ?thesis .
  qed simp
qed

text \<open>
  Sifting up: with the new item in the hole at \<open>pos\<close>, the heap order holds except perhaps
  between \<open>pos\<close> and its parent, and the parent of \<open>pos\<close> is in order with the children of \<open>pos\<close>.
\<close>

definition hole_up :: "auxtrace_heap_item list \<Rightarrow> nat \<Rightarrow> nat \<Rightarrow> auxtrace_heap_item \<Rightarrow> bool" where
  "hole_up a n pos x \<longleftrightarrow> pos < n \<and> n \<le> length a \<and>
     (\<forall>i < n. 0 < i \<longrightarrow> i \<noteq> pos \<longrightarrow> ordinal (a[pos := x] ! parent i) \<le> ordinal (a[pos := x] ! i)) \<and>
     (\<forall>i < n. 0 < i \<longrightarrow> parent i = pos \<longrightarrow> 0 < pos \<longrightarrow> ordinal (a ! parent pos) \<le> ordinal (a ! i))"

lemma hole_up_step:
  assumes h: "hole_up a n pos x" and pos: "0 < pos" and gt: "ordinal x < ordinal (a ! parent pos)"
  shows "hole_up (a[pos := a ! parent pos]) n (parent pos) x"
proof -
  let ?p = "parent pos" and ?b = "a[pos := a ! parent pos]"
  have len: "pos < n" "n \<le> length a" "?p < pos" using h pos by (auto simp: hole_up_def)
  have edge: "ordinal (a[pos := x] ! parent i) \<le> ordinal (a[pos := x] ! i)"
    if "i < n" "0 < i" "i \<noteq> pos" for i using h that by (auto simp: hole_up_def)
  have kids: "ordinal (a ! ?p) \<le> ordinal (a ! i)" if "i < n" "0 < i" "parent i = pos" for i
    using h pos that by (auto simp: hole_up_def)
  have "ordinal (?b[?p := x] ! parent i) \<le> ordinal (?b[?p := x] ! i)"
    if i: "i < n" "0 < i" "i \<noteq> ?p" for i
  proof -
    have "parent i < i" "i < length a" using i len by auto
    consider "i = pos" | "parent i = pos" | "parent i = ?p" "i \<noteq> pos" | "parent i \<noteq> pos" "parent i \<noteq> ?p" "i \<noteq> pos"
      by blast
    then show ?thesis
    proof cases
      case 1 then show ?thesis using len gt by (simp add: nth_list_update)
    next
      case 2 then show ?thesis using kids [OF i(1,2) 2] i len \<open>parent i < i\<close> by (auto simp: nth_list_update)
    next
      case 3 then show ?thesis
        using edge [OF i(1,2)] i len gt \<open>i < length a\<close> by (auto simp: nth_list_update)
    next
      case 4 then show ?thesis using edge [OF i(1,2)] i \<open>i < length a\<close> by (auto simp: nth_list_update)
    qed
  qed
  moreover have "ordinal (?b ! parent ?p) \<le> ordinal (?b ! i)"
    if i: "i < n" "0 < i" "parent i = ?p" "0 < ?p" for i
  proof -
    have lt: "parent ?p < ?p" using i by simp
    have pp: "ordinal (a ! parent ?p) \<le> ordinal (a ! ?p)"
      using edge [of ?p] i len lt by (auto simp: nth_list_update split: if_splits)
    have l: "?b ! parent ?p = a ! parent ?p" using lt len by simp
    show ?thesis
    proof (cases "i = pos")
      case True then show ?thesis using pp l len by simp
    next
      case False
      then have "ordinal (a ! ?p) \<le> ordinal (a ! i)" using edge [OF i(1,2)] i(3) len by simp
      then show ?thesis using pp l False by (simp add: order_trans [OF pp])
    qed
  qed
  ultimately show ?thesis using len by (simp add: hole_up_def)
qed

lemma heapify_ok:
  assumes "hole_up a n pos \<lparr>queue_nr = q, ordinal = t\<rparr>"
  shows "\<exists>a'. auxtrace_heapify a pos q t = Inr a' \<and> heap_ok a' n \<and> length a' = length a \<and>
     mset (take n a') = mset (take n (a[pos := \<lparr>queue_nr = q, ordinal = t\<rparr>]))"
  using assms
proof (induction a pos q t rule: auxtrace_heapify.induct)
  case (1 a pos q t)
  let ?x = "\<lparr>queue_nr = q, ordinal = t\<rparr>"
  have len: "pos < n" "n \<le> length a" using 1(2) by (auto simp: hole_up_def)
  show ?case
  proof (cases "pos \<noteq> 0 \<and> t < ordinal (a ! parent pos)")
    case False
    then have "auxtrace_heapify a pos q t = Inr (a[pos := ?x])"
      using len by (cases "a = []") (subst auxtrace_heapify.simps, auto simp: parent_def Let_def)+
    moreover have "heap_ok (a[pos := ?x]) n"
      unfolding heap_ok_def
    proof (intro conjI allI impI)
      fix i assume i: "i < n" "0 < i"
      show "ordinal (a[pos := ?x] ! parent i) \<le> ordinal (a[pos := ?x] ! i)"
      proof (cases "i = pos")
        case True
        then have "parent pos \<noteq> pos" using i less_imp_neq [OF parent_less, of pos] by simp
        then show ?thesis using True False i len by simp
      next
        case False then show ?thesis using 1(2) i by (simp add: hole_up_def)
      qed
    qed (use len in simp)
    ultimately show ?thesis by simp
  next
    case True
    let ?a = "a[pos := a ! parent pos]"
    have p: "parent pos < pos" using True by simp
    have up: "hole_up ?a n (parent pos) ?x" using hole_up_step [OF 1(2)] True by simp
    have "auxtrace_heapify a pos q t = auxtrace_heapify ?a (parent pos) q t"
      using True len by (subst auxtrace_heapify.simps) (auto simp: parent_def Let_def)
    moreover obtain a' where "auxtrace_heapify ?a (parent pos) q t = Inr a'" "heap_ok a' n" "length a' = length a"
      "mset (take n a') = mset (take n (?a[parent pos := ?x]))"
      using 1(1) [OF _ refl, of "a ! parent pos" ?a] up True len by (auto simp: parent_def not_le)
    moreover have "mset (take n (?a[parent pos := ?x])) = mset (take n (a[pos := ?x]))"
    proof -
      have "take n (?a[parent pos := ?x]) =
          (let b = take n (a[pos := ?x]) in b[pos := b ! parent pos, parent pos := b ! pos])"
        using len p by (auto simp: Let_def take_update_swap nth_list_update)
      then show ?thesis using len p mset_swap [of "parent pos" "take n (a[pos := ?x])" pos] by (simp add: Let_def)
    qed
    ultimately show ?thesis by simp
  qed
qed

lemma heapify_push:
  assumes ok: "heap_ok a n" and n: "n < length a"
  shows "\<exists>a'. auxtrace_heapify a n q t = Inr a' \<and> heap_ok a' (Suc n) \<and> length a' = length a \<and>
     mset (take (Suc n) a') = add_mset \<lparr>queue_nr = q, ordinal = t\<rparr> (mset (take n a))"
proof -
  let ?x = "\<lparr>queue_nr = q, ordinal = t\<rparr>"
  have "hole_up a (Suc n) n ?x"
    unfolding hole_up_def
  proof (intro conjI allI impI)
    fix i assume i: "i < Suc n" "0 < i" "i \<noteq> n"
    then have "parent i \<noteq> n" "i < n" using less_trans [OF parent_less, of i n] by auto
    then show "ordinal (a[n := ?x] ! parent i) \<le> ordinal (a[n := ?x] ! i)"
      using ok i by (auto simp: heap_ok_def)
  next
    fix i assume "i < Suc n" "0 < i" "parent i = n" "0 < n"
    then show "ordinal (a ! parent n) \<le> ordinal (a ! i)" using parent_less [of i] by simp
  qed (use n in auto)
  then show ?thesis using heapify_ok [of a "Suc n" n q t] n by (auto simp: take_Suc_conv_app_nth)
qed

text \<open>
  Sifting the hole down: between the others the heap order holds, the parent of the hole is
  in order with the children of the hole, and the hole still shows the item last moved up.
\<close>

definition hole_down :: "auxtrace_heap_item list \<Rightarrow> nat \<Rightarrow> nat \<Rightarrow> auxtrace_heap_item multiset \<Rightarrow> bool" where
  "hole_down a n pos M \<longleftrightarrow> pos < n \<and> n \<le> length a \<and>
     (\<forall>i < n. 0 < i \<longrightarrow> i \<noteq> pos \<longrightarrow> parent i \<noteq> pos \<longrightarrow> ordinal (a ! parent i) \<le> ordinal (a ! i)) \<and>
     (\<forall>i < n. 0 < i \<longrightarrow> parent i = pos \<longrightarrow> 0 < pos \<longrightarrow> ordinal (a ! parent pos) \<le> ordinal (a ! i)) \<and>
     (0 < pos \<longrightarrow> a ! parent pos = a ! pos) \<and>
     mset (take n a) = add_mset (a ! pos) M"

lemma mset_take_update:
  assumes "i < n" "n \<le> length a" "mset (take n a) = add_mset (a ! i) M"
  shows "mset (take n (a[i := x])) = add_mset x M"
  using assms by (simp add: take_update_swap mset_update)

lemma hole_down_step:
  assumes h: "hole_down a n pos M" and c: "0 < c" "c < n" "parent c = pos"
    and least: "\<And>i. i < n \<Longrightarrow> 0 < i \<Longrightarrow> parent i = pos \<Longrightarrow> ordinal (a ! c) \<le> ordinal (a ! i)"
  shows "hole_down (a[pos := a ! c]) n c M"
proof -
  let ?b = "a[pos := a ! c]"
  have pos: "pos < c" using c parent_less [of c] by simp
  have len: "pos < n" "n \<le> length a" using h by (auto simp: hole_down_def)
  have edge: "ordinal (a ! parent i) \<le> ordinal (a ! i)" if "i < n" "0 < i" "i \<noteq> pos" "parent i \<noteq> pos" for i
    using h that by (auto simp: hole_down_def)
  have "ordinal (?b ! parent i) \<le> ordinal (?b ! i)" if i: "i < n" "0 < i" "i \<noteq> c" "parent i \<noteq> c" for i
  proof -
    have ii: "parent i \<noteq> i" using i less_imp_neq [OF parent_less, of i] by simp
    consider "i = pos" | "parent i = pos" "i \<noteq> pos" | "i \<noteq> pos" "parent i \<noteq> pos" by blast
    then show ?thesis
    proof cases
      case 1 then show ?thesis using h c i ii len by (auto simp: hole_down_def)
    next
      case 2 then show ?thesis using least [OF i(1,2)] len by simp
    next
      case 3 then show ?thesis using edge i by simp
    qed
  qed
  moreover have "ordinal (?b ! parent c) \<le> ordinal (?b ! i)" if i: "i < n" "0 < i" "parent i = c" for i
  proof -
    have "i \<noteq> pos" "parent i \<noteq> pos" using i pos parent_less [of i] by auto
    then show ?thesis using edge [OF i(1,2)] i c len by simp
  qed
  moreover have "mset (take n ?b) = add_mset (?b ! c) M"
    using h mset_take_update [of pos n a M "a ! c"] pos by (simp add: hole_down_def)
  ultimately show ?thesis using c len pos by (simp add: hole_down_def)
qed

lemma hole_down_start:
  "heap_ok a n \<Longrightarrow> 0 < n \<Longrightarrow> hole_down a n 0 (mset (take n a) - {#a ! 0#})"
  by (auto simp: hole_down_def heap_ok_def in_set_conv_nth intro!: insert_DiffM [symmetric] exI [of _ 0])

definition popped :: "auxtrace_heap_item list \<Rightarrow> nat \<Rightarrow> auxtrace_heap_item multiset \<Rightarrow> auxtrace_heap_item list \<Rightarrow> bool" where
  "popped a n M a' \<longleftrightarrow> heap_ok a' (n - 1) \<and> length a' = length a \<and> mset (take (n - 1) a') = M"

lemma take_last: "0 < n \<Longrightarrow> n \<le> length a \<Longrightarrow> mset (take n a) = add_mset (a ! (n - 1)) (mset (take (n - 1) a))"
  by (cases n) (simp_all add: take_Suc_conv_app_nth)


lemma pop_loop_stop:
  assumes h: "hole_down a n pos M" and n: "n \<le> 2 ^ 31"
  shows "n \<le> 2 * pos + 1 \<Longrightarrow> pop_loop n a pos = Some (Inr (a, Some pos))"
    and "n = 2 * pos + 2 \<Longrightarrow> pop_loop n a pos = Some (Inr (a[pos := a ! (2 * pos + 1)], None))"
    and "2 * pos + 2 < n \<Longrightarrow>
      c = (if ordinal (a ! (2 * pos + 1)) < ordinal (a ! (2 * pos + 2)) then 2 * pos + 1 else 2 * pos + 2) \<Longrightarrow>
      pop_loop n a pos = pop_loop n (a[pos := a ! c]) c"
proof -
  have len: "pos < n" "n \<le> length a" using h by (auto simp: hole_down_def)
  have w [simp]: "wrap32 (2 * pos) = 2 * pos" "wrap32 (2 * pos + 1) = 2 * pos + 1"
    using len n by simp_all
  have w2: "2 * pos + 2 \<le> n \<Longrightarrow> wrap32 (2 * pos + 2) = 2 * pos + 2" using n by simp
  show "n \<le> 2 * pos + 1 \<Longrightarrow> pop_loop n a pos = Some (Inr (a, Some pos))"
    by (subst pop_loop.simps) (simp add: Let_def del: One_nat_def)
  show "n = 2 * pos + 2 \<Longrightarrow> pop_loop n a pos = Some (Inr (a[pos := a ! (2 * pos + 1)], None))"
    using len w2 by (subst pop_loop.simps) (simp add: Let_def del: One_nat_def)
  show "2 * pos + 2 < n \<Longrightarrow>
      c = (if ordinal (a ! (2 * pos + 1)) < ordinal (a ! (2 * pos + 2)) then 2 * pos + 1 else 2 * pos + 2) \<Longrightarrow>
      pop_loop n a pos = pop_loop n (a[pos := a ! c]) c"
    using len w2 by (subst pop_loop.simps) (simp add: Let_def del: One_nat_def)
qed

lemma hole_down_only_child:
  assumes h: "hole_down a n pos M" and n: "n = 2 * pos + 2"
  shows "popped a n M (a[pos := a ! (2 * pos + 1)])"
proof -
  let ?c = "2 * pos + 1"
  have d: "hole_down (a[pos := a ! ?c]) n ?c M"
    by (rule hole_down_step [OF h]) (use n in \<open>auto simp: parent_eq_iff\<close>)
  then have "heap_ok (a[pos := a ! ?c]) (n - 1)"
    using n by (auto simp: hole_down_def heap_ok_def parent_eq_iff)
  moreover have "mset (take (n - 1) (a[pos := a ! ?c])) = M"
    using d n take_last [of n "a[pos := a ! ?c]"] by (simp add: hole_down_def)
  ultimately show ?thesis by (simp add: popped_def)
qed

lemma pop_loop_ok:
  assumes "hole_down a n pos M" and "n \<le> 2 ^ 31"
  shows "\<exists>a'. length a' = length a \<and>
     (pop_loop n a pos = Some (Inr (a', None)) \<and> popped a n M a' \<or>
      (\<exists>p. pop_loop n a pos = Some (Inr (a', Some p)) \<and> hole_down a' n p M \<and> n \<le> 2 * p + 1))"
  using assms
proof (induction "n - pos" arbitrary: a pos rule: less_induct)
  case less
  have len: "pos < n" using less(2) by (auto simp: hole_down_def)
  consider "n \<le> 2 * pos + 1" | "n = 2 * pos + 2" | "2 * pos + 2 < n" by linarith
  then show ?case
  proof cases
    case 1 then show ?thesis using less(2) pop_loop_stop(1) [OF less(2,3)] by blast
  next
    case 2 then show ?thesis using pop_loop_stop(2) [OF less(2,3)] hole_down_only_child [OF less(2)] by auto
  next
    case 3
    define c where "c = (if ordinal (a ! (2 * pos + 1)) < ordinal (a ! (2 * pos + 2)) then 2 * pos + 1 else 2 * pos + 2)"
    have c: "0 < c" "c < n" "parent c = pos" "pos < c" using 3 by (auto simp: c_def parent_def)
    have "hole_down (a[pos := a ! c]) n c M"
      by (rule hole_down_step [OF less(2)]) (use c in \<open>auto simp: parent_eq_iff c_def\<close>)
    from less(1) [OF _ this less(3)] c len show ?thesis
      by (simp add: pop_loop_stop(3) [OF less(2,3) 3 c_def] popped_def)
  qed
qed

lemma heapify_leaf:
  assumes h: "hole_down a n pos M" and leaf: "n \<le> 2 * pos + 1"
  shows "\<exists>a'. auxtrace_heapify a pos (queue_nr (a ! (n - 1))) (ordinal (a ! (n - 1))) = Inr a' \<and> popped a n M a'"
proof -
  let ?x = "a ! (n - 1)"
  have x: "\<lparr>queue_nr = queue_nr y, ordinal = ordinal y\<rparr> = y" for y :: auxtrace_heap_item by simp
  have len: "pos < n" "n \<le> length a" using h by (auto simp: hole_down_def)
  have ms: "mset (take n a) = add_mset (a ! pos) M" using h by (simp add: hole_down_def)
  have edge: "ordinal (a ! parent i) \<le> ordinal (a ! i)" if "i < n" "0 < i" "i \<noteq> pos" for i
    using h that leaf by (auto simp: hole_down_def parent_eq_iff)
  show ?thesis
  proof (cases "pos = n - 1")
    case True
    have "auxtrace_heapify a pos (queue_nr ?x) (ordinal ?x) = Inr a"
    proof (cases "pos = 0")
      case False
      then have "a ! ((pos - 1) div 2) = a ! pos" using h by (simp add: hole_down_def parent_def)
      then show ?thesis using len True False by (subst auxtrace_heapify.simps) (simp add: Let_def x)
    qed (use len True in \<open>subst auxtrace_heapify.simps, auto simp: x wr_def\<close>)
    moreover have "popped a n M a"
      using edge len ms True take_last [of n a] by (auto simp: popped_def heap_ok_def)
    ultimately show ?thesis by blast
  next
    case False
    then have "pos < n - 1" using len by simp
    moreover have "hole_up a (n - 1) pos ?x"
      unfolding hole_up_def
    proof (intro conjI allI impI)
      fix i assume i: "i < n - 1" "0 < i" "i \<noteq> pos"
      then have "parent i \<noteq> pos" using leaf by (auto simp: parent_eq_iff)
      then show "ordinal (a[pos := ?x] ! parent i) \<le> ordinal (a[pos := ?x] ! i)" using edge i by simp
    next
      fix i assume "i < n - 1" "0 < i" "parent i = pos"
      then show "ordinal (a ! parent pos) \<le> ordinal (a ! i)" using leaf by (auto simp: parent_eq_iff)
    qed (use \<open>pos < n - 1\<close> len in auto)
    moreover have "mset (take (n - 1) (a[pos := ?x])) = M"
    proof -
      have "add_mset ?x (mset (take (n - 1) a)) = add_mset (a ! pos) M" using ms take_last [of n a] len by simp
      moreover have "a ! pos \<in># mset (take (n - 1) a)"
        using \<open>pos < n - 1\<close> len by (auto simp: in_set_conv_nth intro!: exI [of _ pos])
      then obtain T where "mset (take (n - 1) a) = add_mset (a ! pos) T" by (blast dest: multi_member_split)
      ultimately show ?thesis using mset_take_update [of pos "n - 1" a T ?x] \<open>pos < n - 1\<close> len
        by (simp add: add_mset_commute)
    qed
    ultimately show ?thesis
      using heapify_ok [of a "n - 1" pos "queue_nr ?x" "ordinal ?x"] unfolding x by (auto simp: popped_def)
  qed
qed


subsection \<open>The invariant and the contract\<close>

abbreviation heap_items :: "auxtrace_heap \<Rightarrow> auxtrace_heap_item list" where
  "heap_items h \<equiv> take (heap_cnt h) (heap_array h)"

definition heap_inv :: "auxtrace_heap \<Rightarrow> bool" where
  "heap_inv h \<longleftrightarrow> heap_cnt h \<le> heap_sz h \<and> heap_sz h = length (heap_array h) \<and> heap_sz h \<le> 2 ^ 31 \<and>
     heap_ok (heap_array h) (heap_cnt h) \<and> distinct (map queue_nr (heap_items h)) \<and>
     (\<forall>x \<in> set (heap_items h). unat (queue_nr x) < heap_sz h)"

definition items :: "auxtrace_heap \<Rightarrow> auxtrace_heap_item multiset" where
  "items h = mset (heap_items h)"

lemma double_past_ok:
  "n < 2 ^ 31 \<Longrightarrow> k \<le> 31 \<Longrightarrow> \<exists>m. k \<le> m \<and> m \<le> 31 \<and> double_past (2 ^ k) n = Some (2 ^ m) \<and> n < 2 ^ m"
proof (induction "31 - k" arbitrary: k)
  case 0
  then have "k = 31" by simp
  with 0 show ?case by (auto intro!: exI [of _ 31] simp: double_past.simps)
next
  case (Suc j)
  show ?case
  proof (cases "n < 2 ^ k")
    case True
    then show ?thesis using Suc.prems by (auto intro!: exI [of _ k] simp: double_past.simps)
  next
    case False
    have "k < 31" using Suc by simp
    then have "(2::nat) ^ Suc k < 2 ^ 32" by (intro power_strict_increasing) auto
    then have "wrap32 (2 * 2 ^ k) = 2 ^ Suc k" by (simp add: wrap32_def)
    then have "double_past (2 ^ k) n = double_past (2 ^ Suc k) n" using False by (simp add: double_past.simps [of "2 ^ k"])
    moreover have "\<exists>m. Suc k \<le> m \<and> m \<le> 31 \<and> double_past (2 ^ Suc k) n = Some (2 ^ m) \<and> n < 2 ^ m"
      using Suc(1) [of "Suc k"] Suc(2) Suc.prems(1) \<open>k < 31\<close> by simp
    ultimately show ?thesis by (auto dest: Suc_leD)
  qed
qed

lemma double_past_init:
  assumes "n < 2 ^ 31"
  obtains sz where "double_past AUXTRACE_INIT_NR_QUEUES n = Some sz" "n < sz" "sz \<le> 2 ^ 31"
proof -
  obtain m where m: "m \<le> 31" "double_past (2 ^ 5) n = Some (2 ^ m)" "n < 2 ^ m"
    using double_past_ok [OF assms, of 5] by auto
  then have "(2::nat) ^ m \<le> 2 ^ 31" by (intro power_increasing) auto
  with m that show thesis by (simp add: AUXTRACE_INIT_NR_QUEUES_def)
qed

lemma room_for_queue:
  assumes "heap_inv h" "unat q < heap_sz h" "q \<notin> queue_nr ` set (heap_items h)"
  shows "heap_cnt h < heap_sz h"
proof -
  let ?qs = "map (unat \<circ> queue_nr) (heap_items h)"
  have "distinct ?qs" using assms(1) by (simp add: heap_inv_def distinct_map inj_on_def unsigned_word_eqI)
  then have "distinct (unat q # ?qs)" using assms(3) by (auto dest!: unsigned_word_eqI)
  moreover have "set (unat q # ?qs) \<subseteq> {..<heap_sz h}" using assms(1,2) by (auto simp: heap_inv_def)
  ultimately have "length (unat q # ?qs) \<le> heap_sz h"
    by (metis card_lessThan card_mono distinct_card finite_lessThan)
  then show ?thesis using assms(1) by (simp add: heap_inv_def)
qed

lemma push_inv:
  assumes h: "heap_inv h" and q: "unat q < heap_sz h" "q \<notin> queue_nr ` set_mset (items h)"
  shows "\<exists>a. auxtrace_heapify (heap_array h) (heap_cnt h) q t = Inr a \<and>
     (let h' = h\<lparr>heap_array := a, heap_cnt := wrap32 (heap_cnt h + 1)\<rparr>
      in heap_inv h' \<and> items h' = add_mset \<lparr>queue_nr = q, ordinal = t\<rparr> (items h))"
proof -
  have room: "heap_cnt h < heap_sz h" using room_for_queue [OF h] q by (simp add: items_def)
  obtain a where a: "auxtrace_heapify (heap_array h) (heap_cnt h) q t = Inr a" "heap_ok a (Suc (heap_cnt h))"
    "length a = length (heap_array h)"
    "mset (take (Suc (heap_cnt h)) a) = add_mset \<lparr>queue_nr = q, ordinal = t\<rparr> (items h)"
    using heapify_push [of "heap_array h" "heap_cnt h" q t] h room by (auto simp: heap_inv_def items_def)
  have w: "wrap32 (heap_cnt h + 1) = Suc (heap_cnt h)" using h room by (simp add: heap_inv_def)
  have "mset (map queue_nr (take (Suc (heap_cnt h)) a)) = mset (map queue_nr (\<lparr>queue_nr = q, ordinal = t\<rparr> # heap_items h))"
    using a(4) by (simp add: items_def)
  from mset_eq_imp_distinct_iff [OF this] have "distinct (map queue_nr (take (Suc (heap_cnt h)) a))" using h q by (auto simp: heap_inv_def items_def)
  moreover have "set (take (Suc (heap_cnt h)) a) = insert \<lparr>queue_nr = q, ordinal = t\<rparr> (set (heap_items h))"
    using arg_cong [OF a(4), of set_mset] by (simp add: items_def)
  ultimately show ?thesis using a w h q room by (auto simp: heap_inv_def items_def Let_def)
qed

lemma heap_add_ok:
  assumes h: "heap_inv h" and q: "unat q < 2 ^ 31" "q \<notin> queue_nr ` set_mset (items h)"
  shows "\<exists>h'. auxtrace_heap__add (Some g) h q t = Inr (0, h') \<and> heap_inv h' \<and>
     items h' = add_mset \<lparr>queue_nr = q, ordinal = t\<rparr> (items h)"
proof (cases "heap_sz h \<le> unat q")
  case False
  then show ?thesis using push_inv [OF h _ q(2), of t] by (auto simp: auxtrace_heap__add_def Let_def)
next
  case True
  obtain sz where sz: "double_past AUXTRACE_INIT_NR_QUEUES (unat q) = Some sz" "unat q < sz" "sz \<le> 2 ^ 31"
    using double_past_init [OF q(1)] by blast
  let ?a = "heap_array h @ map g [length (heap_array h)..<sz]"
  let ?h = "h\<lparr>heap_array := ?a, heap_sz := sz\<rparr>"
  have len: "heap_cnt h \<le> length (heap_array h)" "length (heap_array h) \<le> sz"
    using h sz True by (auto simp: heap_inv_def)
  have "realloc_items (Some g) (heap_array h) sz = Some ?a" using len by (simp add: realloc_items_def)
  moreover have "heap_inv ?h"
  proof -
    have "?a ! parent i = heap_array h ! parent i" if "i < heap_cnt h" "0 < i" for i
      using that len less_trans [OF parent_less, of i "length (heap_array h)"] by (simp add: nth_append)
    then show ?thesis using h len sz True by (auto simp: heap_inv_def heap_ok_def nth_append)
  qed
  moreover have "items ?h = items h" using len by (simp add: items_def)
  ultimately show ?thesis
    using push_inv [of ?h q t] sz q True by (auto simp: auxtrace_heap__add_def Let_def)
qed

lemma heap_pop_ok:
  assumes h: "heap_inv h" and ne: "heap_cnt h \<noteq> 0"
  shows "\<exists>h'. auxtrace_heap__pop h = Inr h' \<and> heap_inv h' \<and> items h' = items h - {#heap_array h ! 0#}"
proof -
  let ?a = "heap_array h" and ?n = "heap_cnt h" and ?M = "items h - {#heap_array h ! 0#}"
  have n: "heap_ok ?a ?n" "?n \<le> 2 ^ 31" "?n \<le> length ?a" using h by (auto simp: heap_inv_def)
  have "hole_down ?a ?n 0 ?M" using hole_down_start [OF n(1)] ne by (simp add: items_def)
  from pop_loop_ok [OF this n(2)]
  have "\<exists>a. auxtrace_heap__pop h = Inr (h\<lparr>heap_cnt := ?n - 1, heap_array := a\<rparr>) \<and> popped ?a ?n ?M a"
  proof (elim exE conjE disjE)
    fix a assume "pop_loop ?n ?a 0 = Some (Inr (a, None))" "popped ?a ?n ?M a"
    then show ?thesis using ne by (intro exI [of _ a]) (simp add: auxtrace_heap__pop_def Let_def)
  next
    fix a p assume l: "length a = length ?a" "pop_loop ?n ?a 0 = Some (Inr (a, Some p))" "hole_down a ?n p ?M" "?n \<le> 2 * p + 1"
    obtain a' where "auxtrace_heapify a p (queue_nr (a ! (?n - 1))) (ordinal (a ! (?n - 1))) = Inr a'" "popped a ?n ?M a'"
      using heapify_leaf [OF l(3,4)] by blast
    then show ?thesis using l ne n by (intro exI [of _ a']) (simp add: auxtrace_heap__pop_def Let_def popped_def)
  qed
  then obtain a where a: "auxtrace_heap__pop h = Inr (h\<lparr>heap_cnt := ?n - 1, heap_array := a\<rparr>)" "popped ?a ?n ?M a" by blast
  let ?h = "h\<lparr>heap_cnt := ?n - 1, heap_array := a\<rparr>"
  have it: "items ?h = ?M" using a(2) by (simp add: items_def popped_def)
  have "add_mset (?a ! 0) (items ?h) = items h"
    using it \<open>hole_down ?a ?n 0 ?M\<close> by (simp add: hole_down_def items_def)
  then have "mset (map queue_nr (?a ! 0 # heap_items ?h)) = mset (map queue_nr (heap_items h))"
    by (metis items_def mset.simps(2) mset_map)
  from mset_eq_imp_distinct_iff [OF this] have "distinct (map queue_nr (heap_items ?h))"
    using h by (simp add: heap_inv_def)
  moreover have "set (heap_items ?h) \<subseteq> set (heap_items h)"
    using arg_cong [OF it, of set_mset] set_mset_mono [of ?M "items h"] by (simp add: items_def)
  ultimately have "heap_inv ?h" using h a(2) by (auto simp: heap_inv_def popped_def)
  then show ?thesis using a(1) it by blast
qed

subsection \<open>The contract of a time-ordered queue of queues\<close>

locale ordinal_queue =
  fixes inv :: "'h \<Rightarrow> bool"
    and content :: "'h \<Rightarrow> auxtrace_heap_item multiset"
    and top :: "'h \<Rightarrow> auxtrace_heap_item"
    and pop :: "'h \<Rightarrow> 'h c_result"
    and add :: "'h \<Rightarrow> u32 \<Rightarrow> u64 \<Rightarrow> (int \<times> 'h) c_result"
  assumes top_in: "inv h \<Longrightarrow> content h \<noteq> {#} \<Longrightarrow> top h \<in># content h"
    and top_least: "inv h \<Longrightarrow> x \<in># content h \<Longrightarrow> ordinal (top h) \<le> ordinal x"
    and pop_ok: "inv h \<Longrightarrow> content h \<noteq> {#} \<Longrightarrow>
      \<exists>h'. pop h = Inr h' \<and> inv h' \<and> content h' = content h - {#top h#}"
    and queue_once: "inv h \<Longrightarrow> content h = add_mset x M \<Longrightarrow>
      queue_nr x \<notin> queue_nr ` set_mset M \<and> unat (queue_nr x) < 2 ^ 31"
    and add_ok: "inv h \<Longrightarrow> unat q < 2 ^ 31 \<Longrightarrow> q \<notin> queue_nr ` set_mset (content h) \<Longrightarrow>
      \<exists>h'. add h q t = Inr (0, h') \<and> inv h' \<and> content h' = add_mset \<lparr>queue_nr = q, ordinal = t\<rparr> (content h)"
begin

lemma top_eqI: "inv h \<Longrightarrow> content h \<noteq> {#} \<Longrightarrow> content h = add_mset (top h) (content h - {#top h#})"
  using top_in by simp

lemma put_back:
  assumes h: "inv h" "content h \<noteq> {#}" and p: "pop h = Inr h1"
  shows "\<exists>h2. add h1 (queue_nr (top h)) t = Inr (0, h2) \<and> inv h2 \<and>
     content h2 = add_mset \<lparr>queue_nr = queue_nr (top h), ordinal = t\<rparr> (content h - {#top h#})"
proof -
  have "inv h1" "content h1 = content h - {#top h#}" using pop_ok [OF h] p by auto
  moreover have "queue_nr (top h) \<notin> queue_nr ` set_mset (content h - {#top h#}) \<and> unat (queue_nr (top h)) < 2 ^ 31"
    using queue_once [OF h(1) top_eqI [OF h]] .
  ultimately show ?thesis using add_ok [of h1 "queue_nr (top h)" t] by simp
qed

lemma top_later:
  assumes "inv h" "inv h'" "content h' \<noteq> {#}"
    and sub: "content h' = content h - {#top h#} \<or>
      (content h' = add_mset \<lparr>queue_nr = q, ordinal = t\<rparr> (content h - {#top h#}) \<and> ordinal (top h) \<le> t)"
  shows "ordinal (top h) \<le> ordinal (top h')"
proof -
  have "top h' \<in># content h'" using top_in assms by blast
  then have "top h' \<in># content h \<or> top h' = \<lparr>queue_nr = q, ordinal = t\<rparr> \<and> ordinal (top h) \<le> t"
    using sub in_diffD [of "top h'" "content h" "{#top h#}"] by auto
  then show ?thesis using top_least [OF assms(1)] by auto
qed

text \<open>Taking the top until nothing is left gives the items in the order of their ordinals.\<close>

lemma drain:
  assumes "inv h"
  shows "\<exists>xs. (\<exists>hs. length hs = length xs \<and>
     (\<forall>i < length xs. xs ! i = top ((h # hs) ! i) \<and> pop ((h # hs) ! i) = Inr (hs ! i)) \<and>
     content (last (h # hs)) = {#}) \<and> mset xs = content h \<and> sorted_by ordinal xs"
  using assms
proof (induction "size (content h)" arbitrary: h)
  case 0
  then show ?case by (intro exI [of _ "[]"]) auto
next
  case (Suc n)
  have ne: "content h \<noteq> {#}" using Suc(2) by auto
  obtain h' where h': "pop h = Inr h'" "inv h'" "content h' = content h - {#top h#}"
    using pop_ok [OF Suc(3) ne] by blast
  have "n = size (content h')" using Suc(2) h' top_in [OF Suc(3) ne] by (simp add: size_Diff_singleton)
  from Suc(1) [OF this h'(2)] obtain xs hs where x: "length hs = length xs"
    "\<forall>i < length xs. xs ! i = top ((h' # hs) ! i) \<and> pop ((h' # hs) ! i) = Inr (hs ! i)"
    "content (last (h' # hs)) = {#}" "mset xs = content h'" "sorted_by ordinal xs" by blast
  have "\<forall>y \<in> set xs. ordinal (top h) \<le> ordinal y"
    using x(4) h'(3) top_least [OF Suc(3)] by (metis in_diffD set_mset_mset)
  moreover have "mset (top h # xs) = content h" using x(4) h'(3) top_eqI [OF Suc(3) ne] by simp
  ultimately show ?case
    using x h'(1) by (intro exI [of _ "top h # xs"] conjI exI [of _ "h' # hs"])
      (auto simp: less_Suc_eq_0_disj nth_Cons')
qed

end

lemma heap_items_Nil: "heap_inv h \<Longrightarrow> items h = {#} \<longleftrightarrow> heap_cnt h = 0"
  by (auto simp: items_def heap_inv_def)

interpretation hp: ordinal_queue heap_inv items "\<lambda>h. heap_array h ! 0" auxtrace_heap__pop "auxtrace_heap__add (Some g)"
  for g
proof (unfold_locales, goal_cases)
  case (1 h)
  then show ?case by (auto simp: items_def heap_inv_def in_set_conv_nth intro!: exI [of _ 0])
next
  case (2 h x)
  then show ?case using heap_ok_top [of "heap_array h" "heap_cnt h"]
    by (auto simp: items_def heap_inv_def in_set_conv_nth)
next
  case (3 h)
  then show ?case using heap_pop_ok [of h] heap_items_Nil [of h] by simp
next
  case (4 h x M)
  then have "mset (map queue_nr (heap_items h)) = add_mset (queue_nr x) (image_mset queue_nr M)" by (simp add: items_def)
  moreover have d: "distinct (map queue_nr (heap_items h))" using 4(1) by (simp add: heap_inv_def)
  ultimately have "count (add_mset (queue_nr x) (image_mset queue_nr M)) (queue_nr x) \<le> 1"
    using distinct_count_atmost_1 by (metis One_nat_def le_numeral_extra(4) zero_le)
  then have "queue_nr x \<notin># image_mset queue_nr M" by (simp only: not_in_iff count_add_mset) simp
  moreover have "x \<in> set (heap_items h)" using 4(2) by (metis items_def set_mset_mset union_single_eq_member)
  ultimately show ?case using 4(1) by (fastforce simp: heap_inv_def)
next
  case (5 h q t)
  then show ?case by (rule heap_add_ok)
qed

subsection \<open>Decoding the queues in time order\<close>

text \<open>
  The loop of \<open>intel_pt_process_queues\<close>.  The decoder of a queue is the parameter
  \<open>run queue_nr limit\<close>, which stands for \<open>intel_pt_set_pid_tid_cpu\<close> and \<open>intel_pt_run_decoder\<close>
  and works on the decoders' state: it gives the return value and what it left in \<open>ts\<close>.
\<close>

record 's intel_pt =
  pt_heap :: auxtrace_heap
  pt_on_heap :: "u32 \<Rightarrow> bool"
  pt_dec :: 's

type_synonym 's decoder = "u32 \<Rightarrow> u64 \<Rightarrow> 's \<Rightarrow> int \<times> u64 \<times> 's"

datatype 'a turn = Return int 'a | Continue 'a

definition run_limit :: "u64 \<Rightarrow> auxtrace_heap \<Rightarrow> u64 c_result" where
  "run_limit timestamp h =
     (if heap_cnt h \<noteq> 0
      then bnd (rd (heap_array h) 0) (\<lambda>n.
             let ts = ordinal n + 1 in Inr (if timestamp < ts then timestamp else ts))
      else Inr timestamp)"

definition pt_turn ::
  "'s decoder \<Rightarrow> (nat \<Rightarrow> auxtrace_heap_item) option \<Rightarrow> u64 \<Rightarrow> 's intel_pt \<Rightarrow> 's intel_pt turn c_result" where
  "pt_turn run memory timestamp pt =
     (if heap_cnt (pt_heap pt) = 0 then Inr (Return 0 pt)
      else bnd (rd (heap_array (pt_heap pt)) 0) (\<lambda>first.
        if timestamp \<le> ordinal first then Inr (Return 0 pt)
        else bnd (auxtrace_heap__pop (pt_heap pt)) (\<lambda>h.
          bnd (run_limit timestamp h) (\<lambda>limit.
            case run (queue_nr first) limit (pt_dec pt) of (ret, ts, d) \<Rightarrow>
              let pt = pt\<lparr>pt_heap := h, pt_dec := d\<rparr>
              in if ret < 0 then
                   bnd (auxtrace_heap__add memory h (queue_nr first) ts) (\<lambda>(_, h).
                     Inr (Return ret (pt\<lparr>pt_heap := h\<rparr>)))
                 else if ret = 0 then
                   bnd (auxtrace_heap__add memory h (queue_nr first) ts) (\<lambda>(err, h).
                     if err < 0 then Inr (Return err (pt\<lparr>pt_heap := h\<rparr>))
                     else Inr (Continue (pt\<lparr>pt_heap := h\<rparr>)))
                 else Inr (Continue (pt\<lparr>pt_on_heap := (pt_on_heap pt)(queue_nr first := False)\<rparr>))))))"

partial_function (option) intel_pt_process_queues ::
  "'s decoder \<Rightarrow> (nat \<Rightarrow> auxtrace_heap_item) option \<Rightarrow> u64 \<Rightarrow> 's intel_pt \<Rightarrow> (int \<times> 's intel_pt) c_result option" where
  "intel_pt_process_queues run memory timestamp pt =
     (case pt_turn run memory timestamp pt of
        Inl e \<Rightarrow> Some (Inl e)
      | Inr (Return ret pt) \<Rightarrow> Some (Inr (ret, pt))
      | Inr (Continue pt) \<Rightarrow> intel_pt_process_queues run memory timestamp pt)"

text \<open>
  What the loop relies on: \<open>intel_pt_run_decoder\<close> returns 0 only when the time of the queue
  has reached the limit, and then leaves that time in \<open>ts\<close>; no trace reaches the largest
  time value, at which the limit would wrap to 0.
\<close>

definition decoder_ok :: "'s decoder \<Rightarrow> bool" where
  "decoder_ok run \<longleftrightarrow> (\<forall>q limit d ts d'. run q limit d = (0, ts, d') \<longrightarrow> limit \<le> ts \<and> ts \<noteq> -1)"

definition pt_inv :: "'s intel_pt \<Rightarrow> bool" where
  "pt_inv pt \<longleftrightarrow> heap_inv (pt_heap pt) \<and>
     (\<forall>q. pt_on_heap pt q \<longleftrightarrow> q \<in> queue_nr ` set_mset (items (pt_heap pt)))"

definition timed :: "'s intel_pt \<Rightarrow> bool" where
  "timed pt \<longleftrightarrow> (\<forall>x \<in># items (pt_heap pt). ordinal x \<noteq> -1)"

definition pt_weight :: "'s intel_pt \<Rightarrow> nat" where
  "pt_weight pt = (\<Sum>x \<in># items (pt_heap pt). 2 ^ 64 - unat (ordinal x))"

abbreviation earliest :: "'s intel_pt \<Rightarrow> auxtrace_heap_item" where
  "earliest pt \<equiv> heap_array (pt_heap pt) ! 0"

lemma heap_pop_sz: "auxtrace_heap__pop h = Inr h' \<Longrightarrow> heap_sz h' = heap_sz h"
  by (auto simp: auxtrace_heap__pop_def Let_def bnd_Inr_iff split: if_splits option.splits prod.splits)

lemma heap_add_no_realloc:
  "unat q < heap_sz h \<Longrightarrow> auxtrace_heap__add memory h q t = auxtrace_heap__add (Some g) h q t"
  by (simp add: auxtrace_heap__add_def)

lemma put_first_back:
  assumes h: "heap_inv h" "heap_cnt h \<noteq> 0" and p: "auxtrace_heap__pop h = Inr h1"
  shows "\<exists>h2. auxtrace_heap__add memory h1 (queue_nr (heap_array h ! 0)) t = Inr (0, h2) \<and> heap_inv h2 \<and>
     items h2 = add_mset \<lparr>queue_nr = queue_nr (heap_array h ! 0), ordinal = t\<rparr> (items h - {#heap_array h ! 0#})"
proof -
  have "heap_array h ! 0 \<in> set (heap_items h)" using hp.top_in [OF h(1)] heap_items_Nil [OF h(1)] h(2) by (simp add: items_def)
  then have "unat (queue_nr (heap_array h ! 0)) < heap_sz h1"
    using h(1) heap_pop_sz [OF p] by (auto simp: heap_inv_def)
  then show ?thesis
    using hp.put_back [OF h(1) _ p, of undefined t] heap_items_Nil [OF h(1)] h(2)
      heap_add_no_realloc [of _ h1 memory t undefined] by simp
qed

lemma run_limit_ok:
  assumes h: "heap_inv h" "heap_cnt h \<noteq> 0" "ordinal (heap_array h ! 0) < timestamp"
    and t: "\<forall>x \<in># items h. ordinal x \<noteq> -1" and p: "auxtrace_heap__pop h = Inr h1"
  shows "\<exists>limit. run_limit timestamp h1 = Inr limit \<and> ordinal (heap_array h ! 0) < limit \<and> limit \<le> timestamp"
proof -
  have h1: "heap_inv h1" "items h1 = items h - {#heap_array h ! 0#}"
    using hp.pop_ok [OF h(1)] heap_items_Nil [OF h(1)] h(2) p by auto
  show ?thesis
  proof (cases "heap_cnt h1 = 0")
    case True then show ?thesis using h(3) by (simp add: run_limit_def)
  next
    case False
    then have "heap_array h1 ! 0 \<in># items h1" "heap_array h1 \<noteq> []"
      using hp.top_in [OF h1(1)] heap_items_Nil [OF h1(1)] h1(1) by (auto simp: heap_inv_def)
    then have m: "heap_array h1 ! 0 \<in># items h" using h1(2) by (simp add: in_diffD)
    then have "ordinal (heap_array h ! 0) \<le> ordinal (heap_array h1 ! 0)" "ordinal (heap_array h1 ! 0) \<noteq> -1"
      using hp.top_least [OF h(1)] t by auto
    then have "ordinal (heap_array h ! 0) < ordinal (heap_array h1 ! 0) + 1"
      by (rule word_less_plus_1)
    then show ?thesis using False h(3) \<open>heap_array h1 \<noteq> []\<close> by (auto simp: run_limit_def Let_def)
  qed
qed


lemma pt_turn_cases:
  assumes d: "decoder_ok run" and pt: "pt_inv pt" "timed pt"
  shows "(\<exists>ret pt'. pt_turn run memory timestamp pt = Inr (Return ret pt') \<and> pt_inv pt' \<and>
       (ret = 0 \<and> pt' = pt \<and> (\<forall>x \<in># items (pt_heap pt). timestamp \<le> ordinal x) \<or> ret < 0)) \<or>
    (\<exists>pt'. pt_turn run memory timestamp pt = Inr (Continue pt') \<and> pt_inv pt' \<and> timed pt' \<and>
       pt_weight pt' < pt_weight pt \<and>
       (heap_cnt (pt_heap pt') \<noteq> 0 \<longrightarrow> ordinal (earliest pt) \<le> ordinal (earliest pt')))"
proof (cases "heap_cnt (pt_heap pt) = 0 \<or> timestamp \<le> ordinal (earliest pt)")
  case True
  have "heap_inv (pt_heap pt)" using pt by (simp add: pt_inv_def)
  then have "\<forall>x \<in># items (pt_heap pt). timestamp \<le> ordinal x"
    using True hp.top_least [of "pt_heap pt"] heap_items_Nil [of "pt_heap pt"] by (auto intro: order_trans)
  moreover have "pt_turn run memory timestamp pt = Inr (Return 0 pt)"
    using True \<open>heap_inv (pt_heap pt)\<close> by (auto simp: pt_turn_def heap_inv_def rd_def)
  ultimately show ?thesis using pt by simp
next
  case False
  let ?h = "pt_heap pt" and ?f = "earliest pt"
  have h: "heap_inv ?h" "heap_cnt ?h \<noteq> 0" "items ?h \<noteq> {#}" "ordinal ?f < timestamp" "heap_array ?h \<noteq> []"
    using pt False heap_items_Nil [of ?h] by (auto simp: pt_inv_def heap_inv_def)
  obtain h1 where h1: "auxtrace_heap__pop ?h = Inr h1" "heap_inv h1" "items h1 = items ?h - {#?f#}"
    using hp.pop_ok [OF h(1,3)] by blast
  have split: "items ?h = add_mset ?f (items h1)" using hp.top_eqI [OF h(1,3)] h1(3) by simp
  have once: "queue_nr ?f \<notin> queue_nr ` set_mset (items h1)" using hp.queue_once [OF h(1) split] by blast
  have tm: "\<forall>x \<in># items h1. ordinal x \<noteq> -1" using pt(2) split by (simp add: timed_def)
  obtain limit where l: "run_limit timestamp h1 = Inr limit" "ordinal ?f < limit"
    using run_limit_ok [OF h(1,2,4) _ h1(1)] pt(2) by (auto simp: timed_def)
  obtain ret ts s where r: "run (queue_nr ?f) limit (pt_dec pt) = (ret, ts, s)" by (metis prod_cases3)
  obtain h2 where h2: "auxtrace_heap__add memory h1 (queue_nr ?f) ts = Inr (0, h2)" "heap_inv h2"
    "items h2 = add_mset \<lparr>queue_nr = queue_nr ?f, ordinal = ts\<rparr> (items h1)"
    using put_first_back [OF h(1,2) h1(1)] h1(3) by metis
  let ?pt = "pt\<lparr>pt_heap := h2, pt_dec := s\<rparr>"
  have put: "pt_inv ?pt" using pt(1) h2 split by (auto simp: pt_inv_def)
  note turn = pt_turn_def [of run memory timestamp pt] h h1(1) l(1) r
  consider "ret < 0" | "ret = 0" | "0 < ret" by linarith
  then show ?thesis
  proof cases
    case 1
    then have "pt_turn run memory timestamp pt = Inr (Return ret ?pt)" using turn h2(1) by simp
    then show ?thesis using put 1 by blast
  next
    case 2
    then have go: "pt_turn run memory timestamp pt = Inr (Continue ?pt)" using turn h2(1) by simp
    have "limit \<le> ts \<and> ts \<noteq> -1" using d r 2 unfolding decoder_ok_def by blast
    then have ts: "ordinal ?f < ts" "ts \<noteq> -1" using l(2) by auto
    have "pt_weight ?pt < pt_weight pt"
      using ts(1) unat_u64 [of ts] by (simp add: pt_weight_def h2 split word_less_nat_alt)
    moreover have "heap_cnt h2 \<noteq> 0 \<longrightarrow> ordinal ?f \<le> ordinal (heap_array h2 ! 0)"
      using hp.top_later [OF h(1) h2(2)] h2 h1(3) ts heap_items_Nil [OF h2(2)] by (auto simp: less_imp_le)
    ultimately show ?thesis using go put ts(2) tm h2 by (intro disjI2 exI [of _ ?pt]) (simp add: timed_def)
  next
    case 3
    let ?pt = "pt\<lparr>pt_heap := h1, pt_dec := s, pt_on_heap := (pt_on_heap pt)(queue_nr ?f := False)\<rparr>"
    have go: "pt_turn run memory timestamp pt = Inr (Continue ?pt)" using 3 turn by simp
    have "pt_inv ?pt" using pt(1) h1(2) split once by (auto simp: pt_inv_def)
    moreover have "pt_weight ?pt < pt_weight pt"
      using unat_u64 [of "ordinal ?f"] by (simp add: pt_weight_def split)
    moreover have "heap_cnt h1 \<noteq> 0 \<longrightarrow> ordinal ?f \<le> ordinal (heap_array h1 ! 0)"
      using hp.top_later [OF h(1) h1(2)] h1(3) heap_items_Nil [OF h1(2)] by auto
    ultimately show ?thesis using go tm by (intro disjI2 exI [of _ ?pt]) (simp add: timed_def)
  qed
qed


inductive pt_reach ::
  "'s decoder \<Rightarrow> (nat \<Rightarrow> auxtrace_heap_item) option \<Rightarrow> u64 \<Rightarrow> 's intel_pt \<Rightarrow> 's intel_pt \<Rightarrow> bool"
  for run memory timestamp where
  start: "pt_reach run memory timestamp pt pt"
| turn: "pt_reach run memory timestamp pt pt1 \<Longrightarrow> pt_turn run memory timestamp pt1 = Inr (Continue pt2) \<Longrightarrow>
    pt_reach run memory timestamp pt pt2"

lemma pt_turn_Continue:
  assumes "decoder_ok run" "pt_inv pt" "timed pt" "pt_turn run memory timestamp pt = Inr (Continue pt')"
  shows "pt_inv pt' \<and> timed pt' \<and> heap_cnt (pt_heap pt) \<noteq> 0 \<and>
    (heap_cnt (pt_heap pt') \<noteq> 0 \<longrightarrow> ordinal (earliest pt) \<le> ordinal (earliest pt'))"
proof -
  have "heap_cnt (pt_heap pt) \<noteq> 0" using assms(4) by (intro notI) (simp add: pt_turn_def)
  then show ?thesis using pt_turn_cases [OF assms(1-3), of memory timestamp] assms(4) by auto
qed

lemma pt_reach_ordered:
  assumes "pt_reach run memory timestamp pt pt'" "decoder_ok run" "pt_inv pt" "timed pt"
  shows "pt_inv pt' \<and> timed pt' \<and> (heap_cnt (pt_heap pt') \<noteq> 0 \<longrightarrow>
     heap_cnt (pt_heap pt) \<noteq> 0 \<and> ordinal (earliest pt) \<le> ordinal (earliest pt'))"
  using assms
proof (induction rule: pt_reach.induct)
  case (start pt)
  then show ?case by simp
next
  case (turn pt pt1 pt2)
  then show ?case using pt_turn_Continue [of run pt1 memory timestamp pt2] by (meson order_trans)
qed

lemma process_queues_returns:
  assumes "decoder_ok run" "pt_inv pt" "timed pt"
  shows "\<exists>ret pt'. intel_pt_process_queues run memory timestamp pt = Some (Inr (ret, pt')) \<and> pt_inv pt' \<and>
     (ret = 0 \<and> (\<forall>x \<in># items (pt_heap pt'). timestamp \<le> ordinal x) \<or> ret < 0)"
  using assms(2,3)
proof (induction "pt_weight pt" arbitrary: pt rule: less_induct)
  case less
  from pt_turn_cases [OF assms(1) less(2,3), of memory timestamp] show ?case
  proof (elim disjE exE conjE, goal_cases)
    case (1 ret pt') then show ?thesis by (subst intel_pt_process_queues.simps) simp
  next
    case (2 ret pt') then show ?thesis by (subst intel_pt_process_queues.simps) simp
  next
    case (3 pt') then show ?thesis using less(1) [of pt'] by (subst intel_pt_process_queues.simps) simp
  qed
qed

subsection \<open>A concrete decoder\<close>

text \<open>
  For the examples: each queue is the list of the times at which its decoder stops.
\<close>

definition replay :: "(u32 \<Rightarrow> u64 list) decoder" where
  "replay q limit d =
     (case dropWhile (\<lambda>t. t < limit) (filter (\<lambda>t. t \<noteq> -1) (d q)) of
        [] \<Rightarrow> (1, limit, d(q := []))
      | t # ts \<Rightarrow> (0, t, d(q := t # ts)))"

lemma replay_ok: "decoder_ok replay"
  unfolding decoder_ok_def
proof (intro allI impI)
  fix q limit d ts d' assume "replay q limit d = (0, ts, d')"
  then obtain rest where r: "dropWhile (\<lambda>t. t < limit) (filter (\<lambda>t. t \<noteq> -1) (d q)) = ts # rest"
    by (auto simp: replay_def split: list.splits)
  then have "\<not> ts < limit" by (metis hd_dropWhile list.discI list.sel(1))
  moreover have "ts \<in> set (filter (\<lambda>t. t \<noteq> -1) (d q))" using r by (metis list.set_intros(1) set_dropWhileD)
  ultimately show "limit \<le> ts \<and> ts \<noteq> -1" by auto
qed

definition no_heap :: auxtrace_heap where
  "no_heap = \<lparr>heap_array = [], heap_cnt = 0, heap_sz = 0\<rparr>"

lemma no_heap_inv: "heap_inv no_heap" "items no_heap = {#}"
  by (simp_all add: no_heap_def heap_inv_def heap_ok_def items_def)


definition item :: "u32 \<Rightarrow> u64 \<Rightarrow> auxtrace_heap_item" where
  "item q t = \<lparr>queue_nr = q, ordinal = t\<rparr>"

definition three_queues :: auxtrace_heap where
  "three_queues = \<lparr>heap_array = [item 2 10, item 0 25, item 1 40], heap_cnt = 3, heap_sz = 3\<rparr>"

definition three_decoders :: "(u32 \<Rightarrow> u64 list) intel_pt" where
  "three_decoders = \<lparr>pt_heap = three_queues, pt_on_heap = (\<lambda>q. q < 3),
     pt_dec = (\<lambda>q. if q = 2 then [10, 12, 30] else if q = 0 then [25, 45] else [40])\<rparr>"

lemma three_queues_inv: "heap_inv three_queues"
proof -
  have "parent i = 0" if "0 < i" "i < 3" for i using that by (auto simp: parent_def)
  then have "heap_ok [item 2 10, item 0 25, item 1 40] 3"
    by (auto simp: heap_ok_def item_def less_Suc_eq numeral_3_eq_3)
  then show ?thesis by (simp add: heap_inv_def three_queues_def item_def)
qed

lemma three_queues_items: "items three_queues = {#item 2 10, item 0 25, item 1 40#}"
  by (simp add: items_def three_queues_def)

lemma three_decoders_ok: "pt_inv three_decoders" "timed three_decoders"
proof -
  have "q < 3 \<longleftrightarrow> q = 0 \<or> q = 1 \<or> q = 2" for q :: u32
  proof -
    have "q < 3 \<longleftrightarrow> unat q < 3" by (simp add: word_less_nat_alt)
    also have "\<dots> \<longleftrightarrow> unat q = 0 \<or> unat q = 1 \<or> unat q = 2" by auto
    finally show ?thesis by (simp add: word_unat_eq_iff)
  qed
  then show "pt_inv three_decoders"
    by (auto simp: pt_inv_def three_decoders_def three_queues_inv three_queues_items item_def)
  show "timed three_decoders" by (simp add: timed_def three_decoders_def three_queues_items item_def)
qed

lemmas heap_eval =
  auxtrace_heap__pop_def auxtrace_heap__add_def auxtrace_heapify.simps pop_loop.simps double_past.simps
  realloc_items_def AUXTRACE_INIT_NR_QUEUES_def rd_def wr_def wrap32_def item_def three_queues_def

lemmas pt_eval =
  heap_eval three_decoders_def pt_turn_def run_limit_def replay_def intel_pt_process_queues.simps

subsection \<open>What the heap and its client guarantee\<close>

text \<open>
  Claim C11.  Popping a heap until it is empty takes the queues in the order of their ordinals:
  every \<open>auxtrace_heap__pop\<close> returns without leaving the array, the items at the top form a
  sequence sorted by ordinal, and they are exactly the items that were on the heap.
\<close>

theorem heap_drains_in_order:
  assumes "heap_inv h"
  shows "\<exists>xs hs. length hs = length xs \<and>
     (\<forall>i < length xs. xs ! i = heap_array ((h # hs) ! i) ! 0 \<and> auxtrace_heap__pop ((h # hs) ! i) = Inr (hs ! i)) \<and>
     items (last (h # hs)) = {#} \<and> mset xs = items h \<and> sorted_by ordinal xs"
  using hp.drain [OF assms] by blast

theorem heap_drains_in_order_witness:
  "heap_inv three_queues \<and> (\<exists>xs. mset xs = {#item 2 10, item 0 25, item 1 40#} \<and> sorted_by ordinal xs) \<and>
   auxtrace_heap__pop three_queues =
     Inr \<lparr>heap_array = [item 0 25, item 1 40, item 1 40], heap_cnt = 2, heap_sz = 3\<rparr>"
proof (intro conjI)
  show "\<exists>xs. mset xs = {#item 2 10, item 0 25, item 1 40#} \<and> sorted_by ordinal xs"
    using heap_drains_in_order [OF three_queues_inv] unfolding three_queues_items by blast
  show "auxtrace_heap__pop three_queues =
     Inr \<lparr>heap_array = [item 0 25, item 1 40, item 1 40], heap_cnt = 2, heap_sz = 3\<rparr>"
    by (simp add: heap_eval Let_def)
qed (rule three_queues_inv)

text \<open>
  Adding a queue that is not on the heap, with a number below \<open>2 ^ 31\<close>, never writes
  outside the array although the array is sized by the queue number and not by the count: the
  heap stays a heap with the new item, or \<open>realloc\<close> fails and the heap is as before.
\<close>

theorem heap_add_in_bounds:
  assumes "heap_inv h" "unat q < 2 ^ 31" "q \<notin> queue_nr ` set_mset (items h)"
  shows "\<exists>ret h'. auxtrace_heap__add memory h q t = Inr (ret, h') \<and> heap_inv h' \<and>
     (ret = 0 \<and> items h' = add_mset \<lparr>queue_nr = q, ordinal = t\<rparr> (items h) \<or>
      ret = - ENOMEM \<and> h' = h \<and> memory = None)"
proof (cases "memory = None \<and> heap_sz h \<le> unat q")
  case True
  obtain sz where "double_past AUXTRACE_INIT_NR_QUEUES (unat q) = Some sz" using double_past_init [OF assms(2)] by blast
  then have "auxtrace_heap__add memory h q t = Inr (- ENOMEM, h)"
    using True by (simp add: auxtrace_heap__add_def realloc_items_def ENOMEM_def)
  then show ?thesis using True assms(1) by simp
next
  case False
  then have "\<exists>g. auxtrace_heap__add memory h q t = auxtrace_heap__add (Some g) h q t"
    using heap_add_no_realloc [of q h memory t] by (cases memory) auto
  then show ?thesis using heap_add_ok [OF assms, of _ t] by metis
qed

theorem heap_add_in_bounds_witness:
  "\<exists>h'. auxtrace_heap__add (Some (\<lambda>_. item 0 0)) three_queues 7 20 = Inr (0, h') \<and> heap_inv h' \<and>
     heap_cnt h' = 4 \<and> items h' = {#item 7 20, item 2 10, item 0 25, item 1 40#}"
proof -
  obtain h' where h': "auxtrace_heap__add (Some (\<lambda>_. item 0 0)) three_queues 7 20 = Inr (0, h')" "heap_inv h'"
    "items h' = {#item 7 20, item 2 10, item 0 25, item 1 40#}"
    using heap_add_in_bounds [OF three_queues_inv, of 7 "Some (\<lambda>_. item 0 0)" 20]
    by (auto simp: three_queues_items item_def)
  moreover have "heap_cnt h' = size (items h')" using h'(2) by (simp add: items_def heap_inv_def)
  ultimately show ?thesis by simp
qed

text \<open>
  Claim C20.  The queues are decoded in time order: between any two turns of the loop of
  \<open>intel_pt_process_queues\<close> the earliest ordinal on the heap never goes back, and the heap and
  the \<open>on_heap\<close> flags agree throughout.
\<close>

theorem queues_decoded_in_time_order:
  assumes "pt_reach run memory timestamp pt pt'" "decoder_ok run" "pt_inv pt" "timed pt"
  shows "pt_inv pt' \<and> (heap_cnt (pt_heap pt') \<noteq> 0 \<longrightarrow>
     heap_cnt (pt_heap pt) \<noteq> 0 \<and> ordinal (earliest pt) \<le> ordinal (earliest pt'))"
  using pt_reach_ordered [OF assms] by blast

definition after_turn :: "(u32 \<Rightarrow> u64 list) intel_pt \<Rightarrow> (u32 \<Rightarrow> u64 list) intel_pt" where
  "after_turn pt = (case pt_turn replay None 28 pt of Inr (Continue pt') \<Rightarrow> pt' | _ \<Rightarrow> pt)"

theorem queues_decoded_in_time_order_witness:
  "ordinal (earliest three_decoders) = 10 \<and> ordinal (earliest (after_turn three_decoders)) = 25 \<and>
   ordinal (earliest three_decoders) \<le> ordinal (earliest (after_turn three_decoders))"
proof -
  have "pt_turn replay None 28 three_decoders = Inr (Continue (after_turn three_decoders))"
    by (simp add: pt_eval after_turn_def Let_def)
  then have "pt_reach replay None 28 three_decoders (after_turn three_decoders)"
    by (rule pt_reach.turn [OF pt_reach.start])
  from queues_decoded_in_time_order [OF this replay_ok three_decoders_ok]
  show ?thesis by (simp add: pt_eval after_turn_def Let_def)
qed

text \<open>
  Claim C19.  \<open>intel_pt_process_queues\<close> returns: when the decoders keep their contract the loop
  ends with 0, and then no queue on the heap is before the timestamp, or with the error of a
  decoder; either way the heap is intact.
\<close>

theorem pt_process_queues_returns:
  assumes "decoder_ok run" "pt_inv pt" "timed pt"
  shows "\<exists>ret pt'. intel_pt_process_queues run memory timestamp pt = Some (Inr (ret, pt')) \<and> pt_inv pt' \<and>
     (ret = 0 \<and> (\<forall>x \<in># items (pt_heap pt'). timestamp \<le> ordinal x) \<or> ret < 0)"
  by (rule process_queues_returns [OF assms])

theorem pt_process_queues_returns_witness:
  "\<exists>pt. intel_pt_process_queues replay None 28 three_decoders = Some (Inr (0, pt)) \<and> pt_inv pt \<and>
     map ordinal (heap_items (pt_heap pt)) = [30, 40, 45] \<and> map queue_nr (heap_items (pt_heap pt)) = [2, 1, 0]"
proof -
  have "\<exists>pt. intel_pt_process_queues replay None 28 three_decoders = Some (Inr (0, pt)) \<and>
     map ordinal (heap_items (pt_heap pt)) = [30, 40, 45] \<and> map queue_nr (heap_items (pt_heap pt)) = [2, 1, 0]"
    by (simp add: pt_eval Let_def)
  then show ?thesis
    using pt_process_queues_returns [OF replay_ok three_decoders_ok, of None 28] by auto
qed

end
