(* ===== verification/Auxtrace_Queues.thy ===== *)
theory Auxtrace_Queues
  imports Linux_List Auxtrace_Heap
begin

text \<open>
  The queues of AUX area trace buffers, \<^verbatim>\<open>src/tools/perf/util/auxtrace.c\<close>: the
  array of queues and its growth, adding the buffer of an event (mapped, copied from a pipe, or
  split on 32-bit machines), walking a queue, and release.  The buffer lists are pointer lists
  of \<open>Linux_List\<close>; a buffer is named by the address of its \<open>list\<close> member and a queue by
  the address of its \<open>head\<close>.
\<close>

subsection \<open>State\<close>

text \<open>Pointers to trace data are 64-bit values with 0 for \<open>NULL\<close>.\<close>

record auxtrace_buffer =
  b_size :: u64
  b_pid :: int
  b_tid :: int
  b_cpu :: int
  b_data :: u64
  b_data_offset :: u64
  b_mmap_addr :: u64
  b_mmap_size :: u64
  b_data_needs_freeing :: bool
  b_consecutive :: bool
  b_offset :: u64
  b_reference :: u64
  b_buffer_nr :: u64
  b_use_size :: u64
  b_use_data :: u64

record auxtrace_queue =
  q_head :: addr
  q_tid :: int
  q_cpu :: int
  q_set :: bool
  q_priv :: u64

text \<open>
  Memory: list links, buffers, an allocator that hands out fresh addresses or fails as the
  schedule of the run says, and what was given back, in order: mappings with \<open>munmap\<close>, data with
  \<open>zfree\<close> and buffers with \<open>free\<close>.  \<open>bits_per_long\<close> is the \<open>BITS_PER_LONG\<close> of the build.
\<close>

datatype aux_release =
    Munmap u64 u64
  | Free_Data u64
  | Free_Buffer addr

record aux_mem =
  am_links :: lheap
  am_bufs :: "addr \<Rightarrow> auxtrace_buffer"
  am_brk :: addr
  am_requests :: nat
  am_oom :: "nat \<Rightarrow> bool"
  am_released :: "aux_release list"
  bits_per_long :: nat

record auxtrace_queues =
  queue_array :: "auxtrace_queue list option"
  nr_queues :: nat
  new_data :: bool
  populated :: bool
  next_buffer_nr :: u64
  qs_mem :: aux_mem

definition aux_malloc :: "nat \<Rightarrow> aux_mem \<Rightarrow> addr option \<times> aux_mem" where
  "aux_malloc n m =
     (let m' = m\<lparr>am_requests := Suc (am_requests m)\<rparr>
      in if am_oom m (am_requests m) then (None, m') else (Some (am_brk m), m'\<lparr>am_brk := am_brk m + n\<rparr>))"

abbreviation qs_links :: "auxtrace_queues \<Rightarrow> lheap" where
  "qs_links qs \<equiv> am_links (qs_mem qs)"

abbreviation buf_at :: "auxtrace_queues \<Rightarrow> addr \<Rightarrow> auxtrace_buffer" where
  "buf_at qs b \<equiv> am_bufs (qs_mem qs) b"

definition upd_buf :: "addr \<Rightarrow> (auxtrace_buffer \<Rightarrow> auxtrace_buffer) \<Rightarrow> auxtrace_queues \<Rightarrow> auxtrace_queues" where
  "upd_buf b f qs = qs\<lparr>qs_mem := (qs_mem qs)\<lparr>am_bufs := (am_bufs (qs_mem qs))(b := f (buf_at qs b))\<rparr>\<rparr>"

definition upd_qlinks :: "(lheap \<Rightarrow> lheap) \<Rightarrow> auxtrace_queues \<Rightarrow> auxtrace_queues" where
  "upd_qlinks f qs = qs\<lparr>qs_mem := (qs_mem qs)\<lparr>am_links := f (qs_links qs)\<rparr>\<rparr>"

subsection \<open>The array of queues\<close>

text \<open>Three words, two \<open>int\<close> and a \<open>bool\<close> that is padded to a word.\<close>

definition sizeof_auxtrace_queue :: "nat \<Rightarrow> nat" where
  "sizeof_auxtrace_queue bits = (if bits = 32 then 24 else 40)"

definition auxtrace_alloc_queue_array :: "nat \<Rightarrow> aux_mem \<Rightarrow> auxtrace_queue list option \<times> aux_mem" where
  "auxtrace_alloc_queue_array nr m =
     (if (2 ^ 32 - 1) div sizeof_auxtrace_queue (bits_per_long m) < nr then (None, m)
      else case aux_malloc nr m of
             (None, m) \<Rightarrow> (None, m)
           | (Some base, m) \<Rightarrow>
               (Some (map (\<lambda>i. \<lparr>q_head = base + i, q_tid = 0, q_cpu = 0, q_set = False, q_priv = 0\<rparr>) [0..<nr]),
                m\<lparr>am_links := fold (\<lambda>i. INIT_LIST_HEAD (base + i)) [0..<nr] (am_links m)\<rparr>))"

definition auxtrace_queues__init :: "auxtrace_queues \<Rightarrow> int \<times> auxtrace_queues" where
  "auxtrace_queues__init qs =
     (case auxtrace_alloc_queue_array AUXTRACE_INIT_NR_QUEUES (qs_mem qs) of (a, m) \<Rightarrow>
        (if a = None then - ENOMEM else 0,
         qs\<lparr>nr_queues := AUXTRACE_INIT_NR_QUEUES, queue_array := a, qs_mem := m\<rparr>))"

partial_function (option) double_until :: "nat \<Rightarrow> nat \<Rightarrow> nat option" where
  "double_until nr new_nr =
     (if nr \<noteq> 0 \<and> nr < new_nr then double_until (wrap32 (2 * nr)) new_nr else Some nr)"

text \<open>The loop that moves the lists to the new array; of the other members only \<open>priv\<close> is copied.\<close>

fun splice_queues ::
  "nat list \<Rightarrow> auxtrace_queue list option \<Rightarrow> auxtrace_queue list \<Rightarrow> lheap \<Rightarrow> (auxtrace_queue list \<times> lheap) c_result" where
  "splice_queues [] old new l = Inr (new, l)"
| "splice_queues (i # is) old new l =
     (case old of
        None \<Rightarrow> Inl Null_Deref
      | Some qs \<Rightarrow>
          bnd (rd qs i) (\<lambda>q. bnd (rd new i) (\<lambda>n.
            splice_queues is old (new[i := n\<lparr>q_priv := q_priv q\<rparr>]) (list_splice_tail (q_head q) (q_head n) l))))"

definition auxtrace_queues__grow :: "auxtrace_queues \<Rightarrow> nat \<Rightarrow> (int \<times> auxtrace_queues) c_result" where
  "auxtrace_queues__grow qs new_nr_queues =
     (let nr = (if nr_queues qs = 0 then AUXTRACE_INIT_NR_QUEUES else nr_queues qs)
      in bnd (returns (double_until nr new_nr_queues)) (\<lambda>nr.
           if nr < nr_queues qs \<or> nr < new_nr_queues then Inr (- EINVAL, qs)
           else case auxtrace_alloc_queue_array nr (qs_mem qs) of
                  (None, m) \<Rightarrow> Inr (- ENOMEM, qs\<lparr>qs_mem := m\<rparr>)
                | (Some a, m) \<Rightarrow>
                    bnd (splice_queues [0..<nr_queues qs] (queue_array qs) a (am_links m)) (\<lambda>(a, l).
                      Inr (0, qs\<lparr>nr_queues := nr, queue_array := Some a, qs_mem := m\<lparr>am_links := l\<rparr>\<rparr>))))"

subsection \<open>Adding buffers\<close>

definition queue_at :: "auxtrace_queues \<Rightarrow> nat \<Rightarrow> auxtrace_queue c_result" where
  "queue_at qs idx = (case queue_array qs of None \<Rightarrow> Inl Null_Deref | Some a \<Rightarrow> rd a idx)"

definition set_queue :: "nat \<Rightarrow> auxtrace_queue \<Rightarrow> auxtrace_queues \<Rightarrow> auxtrace_queues" where
  "set_queue idx q qs = qs\<lparr>queue_array := map_option (\<lambda>a. a[idx := q]) (queue_array qs)\<rparr>"

definition auxtrace_queues__add_buffer :: "auxtrace_queues \<Rightarrow> u32 \<Rightarrow> addr \<Rightarrow> (int \<times> auxtrace_queues) c_result" where
  "auxtrace_queues__add_buffer qs idx b =
     bnd (if nr_queues qs \<le> unat idx then auxtrace_queues__grow qs (unat (idx + 1)) else Inr (0, qs)) (\<lambda>(err, qs).
       if err \<noteq> 0 then Inr (err, qs)
       else bnd (queue_at qs (unat idx)) (\<lambda>q.
         let buf = buf_at qs b;
             conflict = (q_set q \<and> (b_cpu buf \<noteq> q_cpu q \<or> b_tid buf \<noteq> q_tid q));
             q = (if q_set q then q else q\<lparr>q_set := True, q_tid := b_tid buf, q_cpu := b_cpu buf\<rparr>)
         in if conflict then Inr (- EINVAL, qs)
            else let qs = set_queue (unat idx) q qs;
                     qs = upd_buf b (\<lambda>buf. buf\<lparr>b_buffer_nr := next_buffer_nr qs\<rparr>) qs;
                     qs = qs\<lparr>next_buffer_nr := next_buffer_nr qs + 1\<rparr>;
                     qs = upd_qlinks (list_add_tail b (q_head q)) qs
                 in Inr (0, qs\<lparr>new_data := True, populated := True\<rparr>)))"

definition BUFFER_LIMIT_FOR_32_BIT :: u64 where
  "BUFFER_LIMIT_FOR_32_BIT = 32 * 1024 * 1024"

text \<open>
  \<open>auxtrace_buffer__put_data\<close> gives back a mapping; \<open>drop_data\<close> also what was allocated, where
  freeing the null pointer does nothing.
\<close>

definition auxtrace_buffer__put_data :: "addr \<Rightarrow> aux_mem \<Rightarrow> aux_mem" where
  "auxtrace_buffer__put_data b m =
     (let buf = am_bufs m b
      in if b_data buf = 0 \<or> b_mmap_addr buf = 0 then m
         else m\<lparr>am_released := am_released m @ [Munmap (b_mmap_addr buf) (b_mmap_size buf)],
                am_bufs := (am_bufs m)(b := buf\<lparr>b_mmap_addr := 0, b_mmap_size := 0, b_data := 0, b_use_data := 0\<rparr>)\<rparr>)"

text \<open>
  \<open>mmap_ret len offset\<close> is the address \<open>mmap\<close> returns, if it does not fail, for \<open>len\<close> bytes of the
  file from \<open>offset\<close>.
\<close>

definition auxtrace_buffer__get_data ::
  "u64 \<Rightarrow> (u64 \<Rightarrow> u64 \<Rightarrow> u64 option) \<Rightarrow> auxtrace_buffer \<Rightarrow> u64 \<times> auxtrace_buffer" where
  "auxtrace_buffer__get_data page_size mmap_ret buf =
     (let adj = b_data_offset buf AND (page_size - 1);
          sz = b_size buf + adj;
          file_offset = b_data_offset buf - adj
      in if b_data buf \<noteq> 0 then (b_data buf, buf)
         else case mmap_ret sz file_offset of
                None \<Rightarrow> (0, buf)
              | Some a \<Rightarrow> (a + adj, buf\<lparr>b_mmap_addr := a, b_mmap_size := sz, b_data := a + adj\<rparr>))"

definition auxtrace_buffer__drop_data :: "addr \<Rightarrow> aux_mem \<Rightarrow> aux_mem" where
  "auxtrace_buffer__drop_data b m =
     (let m = auxtrace_buffer__put_data b m; buf = am_bufs m b
      in if b_data_needs_freeing buf
         then m\<lparr>am_released := am_released m @ (if b_data buf = 0 then [] else [Free_Data (b_data buf)]),
                am_bufs := (am_bufs m)(b := buf\<lparr>b_data_needs_freeing := False, b_data := 0, b_use_data := 0, b_size := 0\<rparr>)\<rparr>
         else m)"

definition auxtrace_buffer__free :: "addr \<Rightarrow> auxtrace_queues \<Rightarrow> auxtrace_queues" where
  "auxtrace_buffer__free b qs =
     (let m = auxtrace_buffer__drop_data b (qs_mem qs)
      in qs\<lparr>qs_mem := m\<lparr>am_released := am_released m @ [Free_Buffer b]\<rparr>\<rparr>)"

partial_function (option) split_loop ::
  "u32 \<Rightarrow> addr \<Rightarrow> u64 \<Rightarrow> bool \<Rightarrow> auxtrace_queues \<Rightarrow> (int \<times> u64 \<times> bool \<times> auxtrace_queues) c_result option" where
  "split_loop idx buffer sz consecutive qs =
     (if BUFFER_LIMIT_FOR_32_BIT < sz then
        (case aux_malloc 1 (qs_mem qs) of
           (None, m) \<Rightarrow> Some (Inr (- ENOMEM, sz, consecutive, qs\<lparr>qs_mem := m\<rparr>))
         | (Some b, m) \<Rightarrow>
             let qs = qs\<lparr>qs_mem := m\<rparr>;
                 qs = upd_buf b (\<lambda>_. (buf_at qs buffer)\<lparr>b_size := BUFFER_LIMIT_FOR_32_BIT, b_consecutive := consecutive\<rparr>) qs
             in case auxtrace_queues__add_buffer qs idx b of
                  Inl e \<Rightarrow> Some (Inl e)
                | Inr (err, qs) \<Rightarrow>
                    if err \<noteq> 0 then Some (Inr (err, sz, consecutive, auxtrace_buffer__free b qs))
                    else split_loop idx buffer (sz - BUFFER_LIMIT_FOR_32_BIT) True
                           (upd_buf buffer (\<lambda>buf. buf\<lparr>b_data_offset := b_data_offset buf + BUFFER_LIMIT_FOR_32_BIT\<rparr>) qs))
      else Some (Inr (0, sz, consecutive, qs)))"

definition auxtrace_queues__split_buffer :: "auxtrace_queues \<Rightarrow> u32 \<Rightarrow> addr \<Rightarrow> (int \<times> auxtrace_queues) c_result" where
  "auxtrace_queues__split_buffer qs idx buffer =
     bnd (bnd (returns (split_loop idx buffer (b_size (buf_at qs buffer)) False qs)) id) (\<lambda>(err, sz, consecutive, qs).
       if err \<noteq> 0 then Inr (err, qs)
       else Inr (0, upd_buf buffer (\<lambda>buf. buf\<lparr>b_size := sz, b_consecutive := consecutive\<rparr>) qs))"

text \<open>
  What the functions use of the session: whether the file is mapped in one piece, whether it is a
  pipe, and what \<open>readn\<close> returns for a count.
\<close>

record aux_session =
  one_mmap :: bool
  one_mmap_offset :: u64
  one_mmap_addr :: u64
  is_pipe :: bool
  readn_ret :: "u64 \<Rightarrow> int"

definition SSIZE_MAX :: u64 where
  "SSIZE_MAX = 0x7fffffffffffffff"

definition auxtrace_copy_data :: "u64 \<Rightarrow> aux_session \<Rightarrow> aux_mem \<Rightarrow> u64 \<times> aux_mem" where
  "auxtrace_copy_data sz s m =
     (if SSIZE_MAX < sz then (0, m)
      else case aux_malloc 1 m of
             (None, m) \<Rightarrow> (0, m)
           | (Some p, m) \<Rightarrow> if readn_ret s sz \<noteq> uint sz then (0, m) else (of_nat p, m))"

definition auxtrace_queues__add_event_buffer ::
  "auxtrace_queues \<Rightarrow> aux_session \<Rightarrow> u32 \<Rightarrow> addr \<Rightarrow> (int \<times> auxtrace_queues) c_result" where
  "auxtrace_queues__add_event_buffer qs s idx buffer =
     (if one_mmap s then
        auxtrace_queues__add_buffer
          (upd_buf buffer (\<lambda>buf. buf\<lparr>b_data := b_data_offset buf - one_mmap_offset s + one_mmap_addr s\<rparr>) qs) idx buffer
      else if is_pipe s then
        (case auxtrace_copy_data (b_size (buf_at qs buffer)) s (qs_mem qs) of (p, m) \<Rightarrow>
           let qs = upd_buf buffer (\<lambda>buf. buf\<lparr>b_data := p\<rparr>) (qs\<lparr>qs_mem := m\<rparr>)
           in if p = 0 then Inr (- ENOMEM, qs)
              else auxtrace_queues__add_buffer (upd_buf buffer (\<lambda>buf. buf\<lparr>b_data_needs_freeing := True\<rparr>) qs) idx buffer)
      else if bits_per_long (qs_mem qs) = 32 \<and> BUFFER_LIMIT_FOR_32_BIT < b_size (buf_at qs buffer) then
        bnd (auxtrace_queues__split_buffer qs idx buffer) (\<lambda>(err, qs).
          if err \<noteq> 0 then Inr (err, qs) else auxtrace_queues__add_buffer qs idx buffer)
      else auxtrace_queues__add_buffer qs idx buffer)"

record auxtrace_event =
  ev_size :: u64
  ev_offset :: u64
  ev_reference :: u64
  ev_idx :: u32
  ev_tid :: int
  ev_cpu :: int

definition zero_buffer :: auxtrace_buffer where
  "zero_buffer = \<lparr>b_size = 0, b_pid = 0, b_tid = 0, b_cpu = 0, b_data = 0, b_data_offset = 0,
     b_mmap_addr = 0, b_mmap_size = 0, b_data_needs_freeing = False, b_consecutive = False,
     b_offset = 0, b_reference = 0, b_buffer_nr = 0, b_use_size = 0, b_use_data = 0\<rparr>"

definition event_buffer :: "auxtrace_event \<Rightarrow> u64 \<Rightarrow> auxtrace_buffer" where
  "event_buffer ev data_offset =
     zero_buffer\<lparr>b_pid := -1, b_tid := ev_tid ev, b_cpu := ev_cpu ev, b_data_offset := data_offset,
       b_offset := ev_offset ev, b_reference := ev_reference ev, b_size := ev_size ev\<rparr>"

text \<open>The third component is what \<open>buffer_ptr\<close> is set to.\<close>

definition auxtrace_queues__add_event ::
  "auxtrace_queues \<Rightarrow> aux_session \<Rightarrow> auxtrace_event \<Rightarrow> u64 \<Rightarrow> (int \<times> auxtrace_queues \<times> addr option) c_result" where
  "auxtrace_queues__add_event qs s ev data_offset =
     (case aux_malloc 1 (qs_mem qs) of
        (None, m) \<Rightarrow> Inr (- ENOMEM, qs\<lparr>qs_mem := m\<rparr>, None)
      | (Some b, m) \<Rightarrow>
          bnd (auxtrace_queues__add_event_buffer (upd_buf b (\<lambda>_. event_buffer ev data_offset) (qs\<lparr>qs_mem := m\<rparr>))
                 s (ev_idx ev) b) (\<lambda>(err, qs).
            if err \<noteq> 0 then Inr (err, auxtrace_buffer__free b qs, None) else Inr (0, qs, Some b)))"

subsection \<open>Walking and releasing\<close>

definition auxtrace_buffer__next :: "auxtrace_queue \<Rightarrow> addr option \<Rightarrow> lheap \<Rightarrow> addr option" where
  "auxtrace_buffer__next q buffer l =
     (case buffer of
        Some b \<Rightarrow> if list_is_last b (q_head q) l then None else Some (nxt l b)
      | None \<Rightarrow> if list_empty (q_head q) l then None else Some (nxt l (q_head q)))"

partial_function (option) free_queue :: "addr \<Rightarrow> auxtrace_queues \<Rightarrow> auxtrace_queues option" where
  "free_queue head qs =
     (if \<not> list_empty head (qs_links qs)
      then let b = nxt (qs_links qs) head
           in free_queue head (auxtrace_buffer__free b (upd_qlinks (list_del b) qs))
      else Some qs)"

fun free_queues :: "nat list \<Rightarrow> auxtrace_queues \<Rightarrow> auxtrace_queues c_result" where
  "free_queues [] qs = Inr qs"
| "free_queues (i # is) qs =
     bnd (queue_at qs i) (\<lambda>q. bnd (returns (free_queue (q_head q) qs)) (free_queues is))"

definition auxtrace_queues__free :: "auxtrace_queues \<Rightarrow> auxtrace_queues c_result" where
  "auxtrace_queues__free qs =
     bnd (free_queues [0..<nr_queues qs] qs) (\<lambda>qs. Inr (qs\<lparr>queue_array := None, nr_queues := 0\<rparr>))"

subsection \<open>The invariant\<close>

text \<open>
  \<open>bufs i\<close> are the buffers of queue \<open>i\<close>, in order.  The lists are proper, share no address, and
  lie in allocated memory; the array has a power of two of queues.
\<close>

definition queue_lists :: "lheap \<Rightarrow> auxtrace_queue list \<Rightarrow> (nat \<Rightarrow> addr list) \<Rightarrow> bool" where
  "queue_lists l a bufs \<longleftrightarrow>
     (\<forall>i < length a. ring l (q_head (a ! i)) (bufs i)) \<and>
     (\<forall>i < length a. \<forall>j < length a. i \<noteq> j \<longrightarrow>
        cells (q_head (a ! i)) (bufs i) \<inter> cells (q_head (a ! j)) (bufs j) = {}) \<and>
     (\<forall>i \<ge> length a. bufs i = [])"

definition below :: "addr \<Rightarrow> auxtrace_queue list \<Rightarrow> (nat \<Rightarrow> addr list) \<Rightarrow> bool" where
  "below brk a bufs \<longleftrightarrow> (\<forall>i < length a. \<forall>c \<in> cells (q_head (a ! i)) (bufs i). c < brk)"

definition qs_inv :: "auxtrace_queues \<Rightarrow> (nat \<Rightarrow> addr list) \<Rightarrow> bool" where
  "qs_inv qs bufs \<longleftrightarrow> (\<exists>a k. queue_array qs = Some a \<and> length a = nr_queues qs \<and>
     nr_queues qs = 2 ^ k \<and> k < 32 \<and> queue_lists (qs_links qs) a bufs \<and> below (am_brk (qs_mem qs)) a bufs)"

lemma qs_invE:
  assumes "qs_inv qs bufs"
  obtains a k where "queue_array qs = Some a" "length a = nr_queues qs" "nr_queues qs = 2 ^ k" "k < 32"
    "queue_lists (qs_links qs) a bufs" "below (am_brk (qs_mem qs)) a bufs"
  using assms by (auto simp: qs_inv_def)

lemma upd_buf_simps [simp]:
  "queue_array (upd_buf b f qs) = queue_array qs" "nr_queues (upd_buf b f qs) = nr_queues qs"
  "qs_links (upd_buf b f qs) = qs_links qs" "am_brk (qs_mem (upd_buf b f qs)) = am_brk (qs_mem qs)"
  "next_buffer_nr (upd_buf b f qs) = next_buffer_nr qs" "new_data (upd_buf b f qs) = new_data qs"
  "am_oom (qs_mem (upd_buf b f qs)) = am_oom (qs_mem qs)" "am_requests (qs_mem (upd_buf b f qs)) = am_requests (qs_mem qs)"
  "buf_at (upd_buf b f qs) c = (if c = b then f (buf_at qs b) else buf_at qs c)"
  by (simp_all add: upd_buf_def)

text \<open>What freeing a buffer has to give back: its mapping if it has one, the data it owns, and the buffer.\<close>

definition buffer_release :: "addr \<Rightarrow> auxtrace_buffer \<Rightarrow> aux_release list" where
  "buffer_release b buf =
     (if b_data buf \<noteq> 0 \<and> b_mmap_addr buf \<noteq> 0 then [Munmap (b_mmap_addr buf) (b_mmap_size buf)]
      else if b_data buf \<noteq> 0 \<and> b_data_needs_freeing buf then [Free_Data (b_data buf)]
      else []) @ [Free_Buffer b]"

lemma buffer_free_simps [simp]:
  "queue_array (auxtrace_buffer__free b qs) = queue_array qs" "nr_queues (auxtrace_buffer__free b qs) = nr_queues qs"
  "qs_links (auxtrace_buffer__free b qs) = qs_links qs" "am_brk (qs_mem (auxtrace_buffer__free b qs)) = am_brk (qs_mem qs)"
  "next_buffer_nr (auxtrace_buffer__free b qs) = next_buffer_nr qs"
  "am_released (qs_mem (auxtrace_buffer__free b qs)) = am_released (qs_mem qs) @ buffer_release b (buf_at qs b)"
  "c \<noteq> b \<Longrightarrow> buf_at (auxtrace_buffer__free b qs) c = buf_at qs c"
  "b_data_needs_freeing (buf_at (auxtrace_buffer__free b qs) b) = False"
  by (simp_all add: auxtrace_buffer__free_def auxtrace_buffer__drop_data_def auxtrace_buffer__put_data_def buffer_release_def Let_def)

lemma upd_qlinks_simps [simp]:
  "queue_array (upd_qlinks f qs) = queue_array qs" "nr_queues (upd_qlinks f qs) = nr_queues qs"
  "qs_links (upd_qlinks f qs) = f (qs_links qs)" "am_brk (qs_mem (upd_qlinks f qs)) = am_brk (qs_mem qs)"
  "next_buffer_nr (upd_qlinks f qs) = next_buffer_nr qs" "buf_at (upd_qlinks f qs) c = buf_at qs c"
  "am_released (qs_mem (upd_qlinks f qs)) = am_released (qs_mem qs)"
  by (simp_all add: upd_qlinks_def)

lemma set_queue_simps [simp]:
  "queue_array (set_queue i q qs) = map_option (\<lambda>a. a[i := q]) (queue_array qs)"
  "nr_queues (set_queue i q qs) = nr_queues qs" "qs_mem (set_queue i q qs) = qs_mem qs"
  "next_buffer_nr (set_queue i q qs) = next_buffer_nr qs"
  by (simp_all add: set_queue_def)

lemma qs_inv_upd_buf [simp]:
  "qs_inv (upd_buf b f qs) bufs = qs_inv qs bufs" "qs_inv (auxtrace_buffer__free b qs) bufs = qs_inv qs bufs"
  by (simp_all add: qs_inv_def)

lemma aux_malloc_cases:
  "(\<exists>m'. aux_malloc n m = (None, m') \<and> am_links m' = am_links m \<and> am_bufs m' = am_bufs m \<and> am_brk m' = am_brk m \<and> am_oom m' = am_oom m) \<or>
   (\<exists>m'. aux_malloc n m = (Some (am_brk m), m') \<and> am_links m' = am_links m \<and> am_bufs m' = am_bufs m \<and>
      am_brk m' = am_brk m + n \<and> am_oom m' = am_oom m)"
  by (simp add: aux_malloc_def Let_def)

subsection \<open>Growth\<close>

lemma double_until_ok:
  "k < 32 \<Longrightarrow> \<exists>m. double_until (2 ^ k) n = Some m \<and> (m = 0 \<or> (\<exists>j. k \<le> j \<and> j < 32 \<and> m = 2 ^ j \<and> n \<le> m))"
proof (induction "32 - k" arbitrary: k)
  case (Suc d)
  show ?case
  proof (cases "n \<le> 2 ^ k")
    case True
    then show ?thesis using Suc.prems by (subst double_until.simps) auto
  next
    case False
    show ?thesis
    proof (cases "k = 31")
      case True
      then have "double_until (2 ^ k) n = double_until 0 n"
        using False by (subst double_until.simps) (simp add: wrap32_def)
      then show ?thesis by (simp add: double_until.simps)
    next
      case k: False
      then have "k < 31" using Suc.prems by simp
      then have "(2::nat) ^ Suc k < 2 ^ 32" by (intro power_strict_increasing) auto
      then have "double_until (2 ^ k) n = double_until (2 ^ Suc k) n"
        using False by (subst double_until.simps) (simp add: wrap32_def)
      moreover have d: "d = 32 - Suc k" "Suc k < 32" using Suc(2) \<open>k < 31\<close> by simp_all
      obtain m where "double_until (2 ^ Suc k) n = Some m"
        "m = 0 \<or> (\<exists>j. Suc k \<le> j \<and> j < 32 \<and> m = 2 ^ j \<and> n \<le> m)"
        using Suc(1) [of "Suc k", OF d] \<open>k < 31\<close> by blast
      ultimately show ?thesis by (auto dest: Suc_leD intro: exI [of _ m])
    qed
  qed
qed simp

lemma splice_queues_append:
  "splice_queues (is @ js) old new l = bnd (splice_queues is old new l) (\<lambda>(new, l). splice_queues js old new l)"
  by (induction "is" arbitrary: new l) (auto simp: bnd_def split: option.splits sum.splits)

definition moved :: "auxtrace_queue list \<Rightarrow> nat \<Rightarrow> auxtrace_queue list \<Rightarrow> auxtrace_queue list" where
  "moved a k new = map (\<lambda>i. if i < k then (new ! i)\<lparr>q_priv := q_priv (a ! i)\<rparr> else new ! i) [0..<length new]"

lemma moved_simps [simp]:
  "length (moved a k new) = length new"
  "i < length new \<Longrightarrow> q_head (moved a k new ! i) = q_head (new ! i)"
  "i < length new \<Longrightarrow> q_set (moved a k new ! i) = q_set (new ! i)"
  "moved a 0 new = new"
  by (simp_all add: moved_def map_nth)

lemma moved_step:
  "k < length new \<Longrightarrow> (moved a k new)[k := (moved a k new ! k)\<lparr>q_priv := q_priv (a ! k)\<rparr>] = moved a (Suc k) new"
  by (rule nth_equalityI) (auto simp: moved_def nth_list_update)

lemma splice_queues_ok:
  assumes old: "queue_lists l a bufs" and len: "length a \<le> length new"
    and fresh: "\<forall>i < length new. ring l (q_head (new ! i)) []" "inj_on (\<lambda>i. q_head (new ! i)) {..<length new}"
      "\<forall>i < length new. \<forall>j < length a. q_head (new ! i) \<notin> cells (q_head (a ! j)) (bufs j)"
    and k: "k \<le> length a"
  shows "\<exists>l'. splice_queues [0..<k] (Some a) new l = Inr (moved a k new, l') \<and>
     (\<forall>i < length new. ring l' (q_head (new ! i)) (if i < k then bufs i else [])) \<and>
     (\<forall>i < length a. k \<le> i \<longrightarrow> ring l' (q_head (a ! i)) (bufs i))"
  using k
proof (induction k)
  case 0
  then show ?case using old fresh(1) by (auto simp: queue_lists_def)
next
  case (Suc k)
  then obtain l' where l': "splice_queues [0..<k] (Some a) new l = Inr (moved a k new, l')"
    "\<forall>i < length new. ring l' (q_head (new ! i)) (if i < k then bufs i else [])"
    "\<forall>i < length a. k \<le> i \<longrightarrow> ring l' (q_head (a ! i)) (bufs i)" by auto
  let ?l = "list_splice_tail (q_head (a ! k)) (q_head (new ! k)) l'"
  have kl: "k < length a" "k < length new" using Suc.prems len by auto
  have run: "splice_queues [0..<Suc k] (Some a) new l = Inr (moved a (Suc k) new, ?l)"
    using l'(1) kl moved_step [of k new a] by (simp add: splice_queues_append)
  have src: "ring l' (q_head (a ! k)) (bufs k)" and dst: "ring l' (q_head (new ! k)) []"
    using l'(2,3) kl by auto
  have other: "cells (q_head (a ! i)) (bufs i) \<inter> cells (q_head (a ! j)) (bufs j) = {}" if "i < length a" "j < length a" "i \<noteq> j" for i j
    using old that by (auto simp: queue_lists_def)
  have heads: "q_head (new ! i) \<noteq> q_head (new ! j)" if "i < length new" "j < length new" "i \<noteq> j" for i j
    using fresh(2) that by (auto simp: inj_on_def)
  have "ring ?l (q_head (new ! i)) (if i < Suc k then bufs i else [])" if i: "i < length new" for i
  proof (cases "i = k")
    case True
    then show ?thesis using list_splice_tail_ring [OF src dst] fresh(3) kl by auto
  next
    case False
    have r: "ring l' (q_head (new ! i)) (if i < k then bufs i else [])" using l'(2) i by simp
    have "cells (q_head (a ! k)) (bufs k) \<inter> cells (q_head (new ! i)) (if i < k then bufs i else []) = {}"
      using other [of k i] fresh(3) i kl False by auto
    moreover have "cells (q_head (new ! k)) [] \<inter> cells (q_head (new ! i)) (if i < k then bufs i else []) = {}"
      using fresh(3) heads [of k i] i kl False by auto
    ultimately have "ring ?l (q_head (new ! i)) (if i < k then bufs i else [])"
      by (rule list_splice_tail_other_ring [OF src dst r])
    then show ?thesis using False by (simp add: less_Suc_eq)
  qed
  moreover have "ring ?l (q_head (a ! i)) (bufs i)" if i: "i < length a" "Suc k \<le> i" for i
    by (rule list_splice_tail_other_ring [OF src dst]) (use l'(3) other [of k i] fresh(3) i kl in auto)
  ultimately show ?case using run by blast
qed


definition new_array :: "addr \<Rightarrow> nat \<Rightarrow> auxtrace_queue list" where
  "new_array base nr = map (\<lambda>i. \<lparr>q_head = base + i, q_tid = 0, q_cpu = 0, q_set = False, q_priv = 0\<rparr>) [0..<nr]"

lemma new_array_simps [simp]:
  "length (new_array base nr) = nr" "i < nr \<Longrightarrow> q_head (new_array base nr ! i) = base + i"
  "i < nr \<Longrightarrow> \<not> q_set (new_array base nr ! i)"
  by (simp_all add: new_array_def)

lemma alloc_queue_array_cases:
  "(\<exists>m'. auxtrace_alloc_queue_array nr m = (None, m') \<and> am_links m' = am_links m \<and> am_bufs m' = am_bufs m \<and> am_brk m' = am_brk m) \<or>
   (\<exists>m'. auxtrace_alloc_queue_array nr m = (Some (new_array (am_brk m) nr), m') \<and>
      am_links m' = fold (\<lambda>i. INIT_LIST_HEAD (am_brk m + i)) [0..<nr] (am_links m) \<and> am_bufs m' = am_bufs m \<and>
      am_brk m' = am_brk m + nr)"
  using aux_malloc_cases [of nr m] by (auto simp: auxtrace_alloc_queue_array_def new_array_def)

lemma grow_lists:
  assumes old: "queue_lists l a bufs" "below brk a bufs" and nr: "length a \<le> nr"
  shows "\<exists>l'. splice_queues [0..<length a] (Some a) (new_array brk nr) (fold (\<lambda>i. INIT_LIST_HEAD (brk + i)) [0..<nr] l) =
       Inr (moved a (length a) (new_array brk nr), l') \<and>
     queue_lists l' (moved a (length a) (new_array brk nr)) bufs \<and> below (brk + nr) (moved a (length a) (new_array brk nr)) bufs"
proof -
  let ?new = "new_array brk nr" and ?l = "fold (\<lambda>i. INIT_LIST_HEAD (brk + i)) [0..<nr] l"
  have low: "c < brk" if "c \<in> cells (q_head (a ! j)) (bufs j)" "j < length a" for c j
    using old(2) that unfolding below_def by blast
  have q: "queue_lists ?l a bufs"
    using old(1) fold_INIT_other_ring low unfolding queue_lists_def by blast
  have "\<exists>l'. splice_queues [0..<length a] (Some a) ?new ?l = Inr (moved a (length a) ?new, l') \<and>
     (\<forall>i < length ?new. ring l' (q_head (?new ! i)) (if i < length a then bufs i else [])) \<and>
     (\<forall>i < length a. length a \<le> i \<longrightarrow> ring l' (q_head (a ! i)) (bufs i))"
  proof (rule splice_queues_ok [OF q])
    show "\<forall>i < length ?new. \<forall>j < length a. q_head (?new ! i) \<notin> cells (q_head (a ! j)) (bufs j)"
      using low by fastforce
  qed (use nr fold_INIT_ring in \<open>auto simp: inj_on_def\<close>)
  then obtain l' where l': "splice_queues [0..<length a] (Some a) ?new ?l = Inr (moved a (length a) ?new, l')"
    "\<forall>i < nr. ring l' (brk + i) (if i < length a then bufs i else [])" by auto
  have nil: "bufs i = []" if "length a \<le> i" for i using old(1) that by (simp add: queue_lists_def)
  have b: "c < brk" if "c \<in> set (bufs i)" for c i using low [of c i] nil [of i] that by (cases "i < length a") auto
  have dj: "set (bufs i) \<inter> set (bufs j) = {}" if "i \<noteq> j" for i j
    using old(1) nil [of i] nil [of j] that unfolding queue_lists_def by (cases "i < length a"; cases "j < length a") auto
  have "queue_lists l' (moved a (length a) ?new) bufs"
    unfolding queue_lists_def
  proof (intro conjI allI impI)
    fix i assume "i < length (moved a (length a) ?new)"
    then show "ring l' (q_head (moved a (length a) ?new ! i)) (bufs i)" using l'(2) nil [of i] by (auto split: if_splits)
  next
    fix i j assume ij: "i < length (moved a (length a) ?new)" "j < length (moved a (length a) ?new)" "i \<noteq> j"
    then show "cells (q_head (moved a (length a) ?new ! i)) (bufs i) \<inter> cells (q_head (moved a (length a) ?new ! j)) (bufs j) = {}"
      using dj [OF ij(3)] b [of "brk + i" j] b [of "brk + j" i] by auto
  qed (use nil nr in auto)
  moreover have "below (brk + nr) (moved a (length a) ?new) bufs"
    using b by (fastforce simp: below_def)
  ultimately show ?thesis using l'(1) by blast
qed

definition same_bufs :: "auxtrace_queues \<Rightarrow> auxtrace_queues \<Rightarrow> bool" where
  "same_bufs qs qs' \<longleftrightarrow> am_bufs (qs_mem qs') = am_bufs (qs_mem qs) \<and> next_buffer_nr qs' = next_buffer_nr qs \<and>
     am_brk (qs_mem qs) \<le> am_brk (qs_mem qs')"

lemma grow_ok:
  assumes inv: "qs_inv qs bufs"
  shows "\<exists>err qs'. auxtrace_queues__grow qs n = Inr (err, qs') \<and> qs_inv qs' bufs \<and> same_bufs qs qs' \<and>
     (err < 0 \<and> queue_array qs' = queue_array qs \<and> nr_queues qs' = nr_queues qs \<or>
      err = 0 \<and> n \<le> nr_queues qs' \<and> nr_queues qs \<le> nr_queues qs' \<and> (\<exists>a. queue_array qs' = Some a \<and>
        (\<forall>q \<in> set a. \<not> q_set q \<and> am_brk (qs_mem qs) \<le> q_head q)))"
proof -
  from inv obtain a k where a: "queue_array qs = Some a" "length a = nr_queues qs" "nr_queues qs = 2 ^ k" "k < 32"
    "queue_lists (qs_links qs) a bufs" "below (am_brk (qs_mem qs)) a bufs" by (rule qs_invE)
  obtain m where m: "double_until (nr_queues qs) n = Some m" "m = 0 \<or> (\<exists>j. k \<le> j \<and> j < 32 \<and> m = 2 ^ j \<and> n \<le> m)"
    using double_until_ok [OF a(4), of n] a(3) by auto
  have nz: "nr_queues qs \<noteq> 0" using a(3) by simp
  consider "m = 0" | j where "k \<le> j" "j < 32" "m = 2 ^ j" "n \<le> m" using m(2) by blast
  then show ?thesis
  proof cases
    case 1
    then have "auxtrace_queues__grow qs n = Inr (- EINVAL, qs)"
      using m(1) nz by (simp add: auxtrace_queues__grow_def Let_def)
    then show ?thesis using inv by (auto simp: same_bufs_def EINVAL_def)
  next
    case 2
    have le: "nr_queues qs \<le> m" using 2 a(3) by (simp add: power_increasing)
    have fits: "\<not> (m < nr_queues qs \<or> m < n)" using le 2(4) by simp
    from alloc_queue_array_cases [of m "qs_mem qs"] show ?thesis
    proof (elim disjE exE conjE)
      fix m' assume "auxtrace_alloc_queue_array m (qs_mem qs) = (None, m')" "am_links m' = qs_links qs"
        "am_bufs m' = am_bufs (qs_mem qs)" "am_brk m' = am_brk (qs_mem qs)"
      moreover from this have "auxtrace_queues__grow qs n = Inr (- ENOMEM, qs\<lparr>qs_mem := m'\<rparr>)"
        using m(1) nz fits by (simp add: auxtrace_queues__grow_def Let_def)
      ultimately show ?thesis using inv by (auto simp: same_bufs_def ENOMEM_def qs_inv_def)
    next
      fix m' assume al: "auxtrace_alloc_queue_array m (qs_mem qs) = (Some (new_array (am_brk (qs_mem qs)) m), m')"
        "am_links m' = fold (\<lambda>i. INIT_LIST_HEAD (am_brk (qs_mem qs) + i)) [0..<m] (qs_links qs)"
        "am_bufs m' = am_bufs (qs_mem qs)" "am_brk m' = am_brk (qs_mem qs) + m"
      let ?a = "moved a (length a) (new_array (am_brk (qs_mem qs)) m)"
      obtain l' where l': "splice_queues [0..<length a] (Some a) (new_array (am_brk (qs_mem qs)) m) (am_links m') = Inr (?a, l')"
        "queue_lists l' ?a bufs" "below (am_brk (qs_mem qs) + m) ?a bufs"
        using grow_lists [OF a(5,6), of m] le a(2) al(2) by auto
      let ?qs = "qs\<lparr>nr_queues := m, queue_array := Some ?a, qs_mem := m'\<lparr>am_links := l'\<rparr>\<rparr>"
      have "auxtrace_queues__grow qs n = Inr (0, ?qs)"
        using m(1) nz fits al(1) l'(1) a(1,2) by (simp add: auxtrace_queues__grow_def Let_def)
      moreover have "qs_inv ?qs bufs" using l' al 2 by (auto simp: qs_inv_def)
      moreover have "\<forall>q \<in> set ?a. \<not> q_set q \<and> am_brk (qs_mem qs) \<le> q_head q"
        by (auto simp: in_set_conv_nth)
      ultimately show ?thesis using al le 2(4) by (intro exI [of _ 0] exI [of _ ?qs]) (simp add: same_bufs_def)
    qed
  qed
qed

subsection \<open>Adding a buffer\<close>

definition unlinked :: "auxtrace_queues \<Rightarrow> (nat \<Rightarrow> addr list) \<Rightarrow> addr \<Rightarrow> bool" where
  "unlinked qs bufs b \<longleftrightarrow> b < am_brk (qs_mem qs) \<and> (\<forall>i. b \<notin> set (bufs i)) \<and>
     (\<forall>a. queue_array qs = Some a \<longrightarrow> b \<notin> q_head ` set a)"

lemma queue_lists_add:
  assumes l: "queue_lists l a bufs" and i: "i < length a" and q: "q_head q = q_head (a ! i)"
    and b: "\<forall>i. b \<notin> set (bufs i)" "b \<notin> q_head ` set a"
  shows "queue_lists (list_add_tail b (q_head q) l) (a[i := q]) (bufs(i := bufs i @ [b]))"
proof -
  have hd: "q_head (a[i := q] ! j) = q_head (a ! j)" if "j < length a" for j
    using q that by (cases "i = j") auto
  have bh: "b \<noteq> q_head (a ! j)" if "j < length a" for j using b(2) that by force
  have ri: "ring l (q_head q) (bufs i)" using l i q by (simp add: queue_lists_def)
  have dj: "cells (q_head (a ! j)) (bufs j) \<inter> cells (q_head (a ! k)) (bufs k) = {}" if "j < length a" "k < length a" "j \<noteq> k" for j k
    using l that by (simp add: queue_lists_def)
  have "ring (list_add_tail b (q_head q) l) (q_head (a ! j)) ((bufs(i := bufs i @ [b])) j)" if j: "j < length a" for j
  proof (cases "j = i")
    case True
    then show ?thesis using list_add_tail_ring [OF ri] b(1) bh [OF i] q by simp
  next
    case False
    have "ring (list_add_tail b (q_head q) l) (q_head (a ! j)) (bufs j)"
    proof (rule list_add_other_ring(2) [OF ri])
      show "cells (q_head q) (bufs i) \<inter> cells (q_head (a ! j)) (bufs j) = {}" using dj [OF i j] False q by simp
      show "ring l (q_head (a ! j)) (bufs j)" using l j by (simp add: queue_lists_def)
    qed (use b(1) bh [OF j] in auto)
    then show ?thesis using False by simp
  qed
  moreover have "cells (q_head (a ! j)) ((bufs(i := bufs i @ [b])) j) \<inter> cells (q_head (a ! k)) ((bufs(i := bufs i @ [b])) k) = {}"
    if "j < length a" "k < length a" "j \<noteq> k" for j k
    using dj [OF that] b(1) bh [OF that(1)] bh [OF that(2)] that by (auto simp: Int_Un_distrib Int_Un_distrib2)
  moreover have "\<forall>j \<ge> length a. (bufs(i := bufs i @ [b])) j = []" using l i by (auto simp: queue_lists_def)
  ultimately show ?thesis using hd by (simp add: queue_lists_def)
qed

definition conflict :: "auxtrace_queue \<Rightarrow> auxtrace_buffer \<Rightarrow> bool" where
  "conflict q buf \<longleftrightarrow> q_set q \<and> (b_cpu buf \<noteq> q_cpu q \<or> b_tid buf \<noteq> q_tid q)"

definition dedicated_to :: "auxtrace_buffer \<Rightarrow> auxtrace_queue \<Rightarrow> auxtrace_queue" where
  "dedicated_to buf q = q\<lparr>q_set := True, q_tid := b_tid buf, q_cpu := b_cpu buf\<rparr>"

definition buffer_added :: "auxtrace_queues \<Rightarrow> addr \<Rightarrow> auxtrace_queues \<Rightarrow> bool" where
  "buffer_added qs b qs' \<longleftrightarrow>
     am_bufs (qs_mem qs') = (am_bufs (qs_mem qs))(b := (buf_at qs b)\<lparr>b_buffer_nr := next_buffer_nr qs\<rparr>) \<and>
     next_buffer_nr qs' = next_buffer_nr qs + 1 \<and> new_data qs' \<and> populated qs' \<and>
     am_brk (qs_mem qs) \<le> am_brk (qs_mem qs')"

lemma add_buffer_present:
  assumes inv: "qs_inv qs bufs" and a: "queue_array qs = Some a" and i: "unat idx < nr_queues qs"
  shows "conflict (a ! unat idx) (buf_at qs b) \<Longrightarrow> auxtrace_queues__add_buffer qs idx b = Inr (- EINVAL, qs)"
    and "\<not> conflict (a ! unat idx) (buf_at qs b) \<Longrightarrow> unlinked qs bufs b \<Longrightarrow>
      \<exists>qs'. auxtrace_queues__add_buffer qs idx b = Inr (0, qs') \<and>
        qs_inv qs' (bufs(unat idx := bufs (unat idx) @ [b])) \<and> buffer_added qs b qs' \<and>
        nr_queues qs' = nr_queues qs \<and> queue_array qs' = Some (a[unat idx := dedicated_to (buf_at qs b) (a ! unat idx)])"
proof -
  let ?i = "unat idx" and ?q = "a ! unat idx" and ?d = "dedicated_to (buf_at qs b) (a ! unat idx)"
  obtain k where k: "length a = nr_queues qs" "nr_queues qs = 2 ^ k" "k < 32"
    "queue_lists (qs_links qs) a bufs" "below (am_brk (qs_mem qs)) a bufs"
    using inv a by (auto simp: qs_inv_def)
  have at: "queue_at qs ?i = Inr ?q" using a i k(1) by (simp add: queue_at_def)
  show "conflict ?q (buf_at qs b) \<Longrightarrow> auxtrace_queues__add_buffer qs idx b = Inr (- EINVAL, qs)"
    using i at by (auto simp: auxtrace_queues__add_buffer_def conflict_def Let_def)
  assume nc: "\<not> conflict ?q (buf_at qs b)" and b: "unlinked qs bufs b"
  let ?upd = "if q_set ?q then ?q else ?q\<lparr>q_set := True, q_tid := b_tid (buf_at qs b), q_cpu := b_cpu (buf_at qs b)\<rparr>"
  have d: "?upd = ?d" using nc by (auto simp: conflict_def dedicated_to_def)
  let ?qs1 = "upd_buf b (\<lambda>buf. buf\<lparr>b_buffer_nr := next_buffer_nr (set_queue ?i ?d qs)\<rparr>) (set_queue ?i ?d qs)"
  let ?qs = "(upd_qlinks (list_add_tail b (q_head ?d)) (?qs1\<lparr>next_buffer_nr := next_buffer_nr ?qs1 + 1\<rparr>))\<lparr>new_data := True, populated := True\<rparr>"
  have run: "auxtrace_queues__add_buffer qs idx b = Inr (0, ?qs)"
    using i at nc d by (auto simp: auxtrace_queues__add_buffer_def conflict_def Let_def)
  have ql: "queue_lists (list_add_tail b (q_head ?d) (qs_links qs)) (a[?i := ?d]) (bufs(?i := bufs ?i @ [b]))"
    by (rule queue_lists_add [OF k(4)]) (use i k(1) a b in \<open>auto simp: unlinked_def dedicated_to_def\<close>)
  have "below (am_brk (qs_mem qs)) (a[?i := ?d]) (bufs(?i := bufs ?i @ [b]))"
    using k(5) b by (auto simp: below_def unlinked_def nth_list_update dedicated_to_def)
  then have "qs_inv ?qs (bufs(?i := bufs ?i @ [b]))" using ql a k by (simp add: qs_inv_def)
  moreover have "buffer_added qs b ?qs"
    by (simp add: buffer_added_def fun_eq_iff upd_buf_def upd_qlinks_def)
  ultimately show "\<exists>qs'. auxtrace_queues__add_buffer qs idx b = Inr (0, qs') \<and>
        qs_inv qs' (bufs(?i := bufs ?i @ [b])) \<and> buffer_added qs b qs' \<and>
        nr_queues qs' = nr_queues qs \<and> queue_array qs' = Some (a[?i := ?d])"
    using run a by (intro exI [of _ ?qs]) simp
qed

lemma add_buffer_grow:
  assumes "nr_queues qs \<le> unat idx" "auxtrace_queues__grow qs (unat (idx + 1)) = Inr (err, qs1)" "unat idx < nr_queues qs1"
  shows "auxtrace_queues__add_buffer qs idx b = (if err \<noteq> 0 then Inr (err, qs1) else auxtrace_queues__add_buffer qs1 idx b)"
  using assms by (simp add: auxtrace_queues__add_buffer_def)

lemma unlinked_kept:
  assumes "queue_array qs = Some a" "queue_array qs' = Some (a[i := dedicated_to buf (a ! i)])" "buffer_added qs b qs'"
    "unlinked qs bufs c" "c \<noteq> b"
  shows "unlinked qs' (bufs(i := bufs i @ [b])) c"
proof -
  have "map q_head (a[i := dedicated_to buf (a ! i)]) = map q_head a"
  proof (rule nth_equalityI)
    fix j assume "j < length (map q_head (a[i := dedicated_to buf (a ! i)]))"
    then show "map q_head (a[i := dedicated_to buf (a ! i)]) ! j = map q_head a ! j"
      by (cases "i = j") (simp_all add: dedicated_to_def)
  qed simp
  from arg_cong [OF this, of set] have "q_head ` set (a[i := dedicated_to buf (a ! i)]) = q_head ` set a" by simp
  then show ?thesis using assms by (auto simp: unlinked_def buffer_added_def)
qed

lemma add_buffer_cases:
  assumes inv: "qs_inv qs bufs" and b: "unlinked qs bufs b" and idx: "idx \<noteq> -1"
  shows "\<exists>err qs'. auxtrace_queues__add_buffer qs idx b = Inr (err, qs') \<and>
     (err = 0 \<and> qs_inv qs' (bufs(unat idx := bufs (unat idx) @ [b])) \<and> buffer_added qs b qs' \<and>
        (\<forall>c. unlinked qs bufs c \<longrightarrow> c \<noteq> b \<longrightarrow> unlinked qs' (bufs(unat idx := bufs (unat idx) @ [b])) c) \<or>
      err < 0 \<and> qs_inv qs' bufs \<and> same_bufs qs qs' \<and> queue_array qs' = queue_array qs \<and> nr_queues qs' = nr_queues qs)"
proof (cases "unat idx < nr_queues qs")
  case True
  obtain a where a: "queue_array qs = Some a" using inv by (auto simp: qs_inv_def)
  show ?thesis
  proof (cases "conflict (a ! unat idx) (buf_at qs b)")
    case True
    then show ?thesis using add_buffer_present(1) [OF inv a \<open>unat idx < nr_queues qs\<close>] inv
      by (intro exI [of _ "- EINVAL"] exI [of _ qs]) (simp add: same_bufs_def EINVAL_def)
  next
    case False
    then show ?thesis using add_buffer_present(2) [OF inv a True False b] unlinked_kept [OF a] by blast
  qed
next
  case False
  have "1 + idx \<noteq> 0" using idx by (metis add.commute eq_neg_iff_add_eq_0)
  then have succ: "unat (idx + 1) = Suc (unat idx)" using unatSuc [of idx] by (simp add: add.commute)
  obtain err qs1 where g: "auxtrace_queues__grow qs (unat (idx + 1)) = Inr (err, qs1)" "qs_inv qs1 bufs" "same_bufs qs qs1"
    "err < 0 \<and> queue_array qs1 = queue_array qs \<and> nr_queues qs1 = nr_queues qs \<or>
     err = 0 \<and> unat (idx + 1) \<le> nr_queues qs1 \<and> nr_queues qs \<le> nr_queues qs1 \<and> (\<exists>a. queue_array qs1 = Some a \<and>
        (\<forall>q \<in> set a. \<not> q_set q \<and> am_brk (qs_mem qs) \<le> q_head q))"
    using grow_ok [OF inv] by metis
  from g(4) show ?thesis
  proof (elim disjE exE conjE)
    assume "err < 0" "queue_array qs1 = queue_array qs" "nr_queues qs1 = nr_queues qs"
    moreover from this have "auxtrace_queues__add_buffer qs idx b = Inr (err, qs1)"
      using False g(1) by (simp add: auxtrace_queues__add_buffer_def)
    ultimately show ?thesis using g(2,3) by auto
  next
    fix a assume e: "err = 0" "unat (idx + 1) \<le> nr_queues qs1"
      and a: "queue_array qs1 = Some a" "\<forall>q \<in> set a. \<not> q_set q \<and> am_brk (qs_mem qs) \<le> q_head q"
    have i: "unat idx < nr_queues qs1" using e(2) succ by simp
    then have "unat idx < length a" using g(2) a(1) by (auto simp: qs_inv_def)
    then have "\<not> conflict (a ! unat idx) (buf_at qs1 b)" using a(2) by (simp add: conflict_def)
    moreover have "unlinked qs1 bufs b" using b a g(3) by (fastforce simp: unlinked_def same_bufs_def)
    ultimately obtain qs' where "auxtrace_queues__add_buffer qs1 idx b = Inr (0, qs')"
      "qs_inv qs' (bufs(unat idx := bufs (unat idx) @ [b]))" "buffer_added qs1 b qs'"
      "queue_array qs' = Some (a[unat idx := dedicated_to (buf_at qs1 b) (a ! unat idx)])"
      using add_buffer_present(2) [OF g(2) a(1) i] by blast
    moreover have "unlinked qs1 bufs c" if "unlinked qs bufs c" for c
      using that a g(3) by (fastforce simp: unlinked_def same_bufs_def)
    then have "unlinked qs' (bufs(unat idx := bufs (unat idx) @ [b])) c" if "unlinked qs bufs c" "c \<noteq> b" for c
      using unlinked_kept [OF a(1) calculation(4,3)] that by blast
    moreover from calculation have "buffer_added qs b qs'" using g(3) by (simp add: buffer_added_def same_bufs_def)
    ultimately show ?thesis using add_buffer_grow [OF _ g(1) i] False e(1) by auto
  qed
qed

subsection \<open>Adding the buffer of an event\<close>

definition plain :: "auxtrace_queues \<Rightarrow> auxtrace_event \<Rightarrow> bool" where
  "plain qs ev \<longleftrightarrow> bits_per_long (qs_mem qs) \<noteq> 32 \<or> ev_size ev \<le> BUFFER_LIMIT_FOR_32_BIT"

text \<open>What a queued buffer says about the event it came from.\<close>

definition describes :: "auxtrace_event \<Rightarrow> u64 \<Rightarrow> u64 \<Rightarrow> auxtrace_buffer \<Rightarrow> bool" where
  "describes ev data_offset nr buf \<longleftrightarrow>
     b_size buf = ev_size ev \<and> b_tid buf = ev_tid ev \<and> b_cpu buf = ev_cpu ev \<and> b_pid buf = -1 \<and>
     b_data_offset buf = data_offset \<and> b_offset buf = ev_offset ev \<and> b_reference buf = ev_reference ev \<and>
     \<not> b_consecutive buf \<and> b_buffer_nr buf = nr"

lemma qs_inv_mem:
  "qs_inv qs bufs \<Longrightarrow> am_links m = qs_links qs \<Longrightarrow> am_brk (qs_mem qs) \<le> am_brk m \<Longrightarrow> qs_inv (qs\<lparr>qs_mem := m\<rparr>) bufs"
  by (fastforce simp: qs_inv_def below_def)

lemma unlinked_fresh:
  assumes "qs_inv qs bufs" "am_brk (qs_mem qs) \<le> b" "b < am_brk m"
  shows "unlinked (qs\<lparr>qs_mem := m\<rparr>) bufs b"
proof -
  obtain a where a: "queue_array qs = Some a" "queue_lists (qs_links qs) a bufs" "below (am_brk (qs_mem qs)) a bufs"
    using assms(1) by (auto simp: qs_inv_def)
  have "c < am_brk (qs_mem qs)" if "c \<in> set (bufs i)" for c i
    using a that by (cases "i < length a") (auto simp: below_def queue_lists_def)
  moreover have "q_head q < am_brk (qs_mem qs)" if "q \<in> set a" for q
    using a(3) that by (auto simp: below_def in_set_conv_nth)
  ultimately show ?thesis using assms a(1) by (fastforce simp: unlinked_def)
qed

lemma unlinked_upd_buf [simp]: "unlinked (upd_buf b f qs) bufs c = unlinked qs bufs c"
  by (simp add: unlinked_def)

lemma copy_data_mem:
  "\<exists>p m'. auxtrace_copy_data sz s m = (p, m') \<and> am_links m' = am_links m \<and> am_bufs m' = am_bufs m \<and> am_brk m \<le> am_brk m'"
  using aux_malloc_cases [of 1 m] by (auto simp: auxtrace_copy_data_def)

lemma unlinked_mem: "unlinked qs bufs b \<Longrightarrow> am_brk (qs_mem qs) \<le> am_brk m \<Longrightarrow> unlinked (qs\<lparr>qs_mem := m\<rparr>) bufs b"
  by (simp add: unlinked_def)

text \<open>One call of \<open>add_event_buffer\<close> without a split: the buffer gets its data and is queued.\<close>

definition data_only :: "auxtrace_queues \<Rightarrow> addr \<Rightarrow> auxtrace_queues \<Rightarrow> bool" where
  "data_only qs b qs' \<longleftrightarrow> 
     (buf_at qs' b)\<lparr>b_data := 0, b_data_needs_freeing := False\<rparr> = (buf_at qs b)\<lparr>b_data := 0, b_data_needs_freeing := False\<rparr> \<and>
     (\<forall>c. c \<noteq> b \<longrightarrow> buf_at qs' c = buf_at qs c) \<and> next_buffer_nr qs' = next_buffer_nr qs \<and>
     am_brk (qs_mem qs) \<le> am_brk (qs_mem qs')"

lemma data_only_upd:
  "am_bufs m = am_bufs (qs_mem qs) \<Longrightarrow> am_brk (qs_mem qs) \<le> am_brk m \<Longrightarrow>
     data_only qs b (upd_buf b (\<lambda>buf. buf\<lparr>b_data_needs_freeing := f\<rparr>) (upd_buf b (\<lambda>buf. buf\<lparr>b_data := d\<rparr>) (qs\<lparr>qs_mem := m\<rparr>)))"
  "am_bufs m = am_bufs (qs_mem qs) \<Longrightarrow> am_brk (qs_mem qs) \<le> am_brk m \<Longrightarrow>
     data_only qs b (upd_buf b (\<lambda>buf. buf\<lparr>b_data := d\<rparr>) (qs\<lparr>qs_mem := m\<rparr>))"
  "data_only qs b (upd_buf b (\<lambda>buf. buf\<lparr>b_data := g buf\<rparr>) qs)"
  "data_only qs b qs"
  by (simp_all add: data_only_def)

lemma add_event_buffer_plain:
  assumes inv: "qs_inv qs bufs" and b: "unlinked qs bufs b"
    and p: "bits_per_long (qs_mem qs) \<noteq> 32 \<or> b_size (buf_at qs b) \<le> BUFFER_LIMIT_FOR_32_BIT"
  shows "\<exists>qs1. qs_inv qs1 bufs \<and> unlinked qs1 bufs b \<and> data_only qs b qs1 \<and>
     queue_array qs1 = queue_array qs \<and> nr_queues qs1 = nr_queues qs \<and>
     (auxtrace_queues__add_event_buffer qs s idx b = auxtrace_queues__add_buffer qs1 idx b \<or>
      auxtrace_queues__add_event_buffer qs s idx b = Inr (- ENOMEM, qs1))"
proof -
  obtain d m where m: "auxtrace_copy_data (b_size (buf_at qs b)) s (qs_mem qs) = (d, m)" "am_links m = qs_links qs"
    "am_bufs m = am_bufs (qs_mem qs)" "am_brk (qs_mem qs) \<le> am_brk m"
    using copy_data_mem [of "b_size (buf_at qs b)" s "qs_mem qs"] by auto
  note inv' = qs_inv_mem [OF inv m(2,4)] and b' = unlinked_mem [OF b m(4)]
  consider "one_mmap s" | "\<not> one_mmap s" "is_pipe s" "d = 0" | "\<not> one_mmap s" "is_pipe s" "d \<noteq> 0" | "\<not> one_mmap s" "\<not> is_pipe s" by blast
  then show ?thesis
  proof cases
    case 1
    let ?g = "\<lambda>buf. b_data_offset buf - one_mmap_offset s + one_mmap_addr s"
    show ?thesis using 1 inv b data_only_upd(3) [of qs b ?g]
      by (intro exI [of _ "upd_buf b (\<lambda>buf. buf\<lparr>b_data := ?g buf\<rparr>) qs"]) (simp add: auxtrace_queues__add_event_buffer_def)
  next
    case 2
    then show ?thesis using inv' b' m data_only_upd(2) [OF m(3,4), of b d]
      by (intro exI [of _ "upd_buf b (\<lambda>buf. buf\<lparr>b_data := d\<rparr>) (qs\<lparr>qs_mem := m\<rparr>)"])
        (simp add: auxtrace_queues__add_event_buffer_def Let_def)
  next
    case 3
    then show ?thesis using inv' b' m data_only_upd(1) [OF m(3,4), of b True d]
      by (intro exI [of _ "upd_buf b (\<lambda>buf. buf\<lparr>b_data_needs_freeing := True\<rparr>) (upd_buf b (\<lambda>buf. buf\<lparr>b_data := d\<rparr>) (qs\<lparr>qs_mem := m\<rparr>))"])
        (simp add: auxtrace_queues__add_event_buffer_def Let_def)
  next
    case 4
    then show ?thesis using inv b p data_only_upd(4) [of qs b]
      by (intro exI [of _ qs]) (auto simp: auxtrace_queues__add_event_buffer_def)
  qed
qed

definition event_queued :: "auxtrace_queues \<Rightarrow> auxtrace_event \<Rightarrow> u64 \<Rightarrow> addr \<Rightarrow> auxtrace_queues \<Rightarrow> bool" where
  "event_queued qs ev data_offset b qs' \<longleftrightarrow> describes ev data_offset (next_buffer_nr qs) (buf_at qs' b) \<and>
     next_buffer_nr qs' = next_buffer_nr qs + 1 \<and> (\<forall>c < am_brk (qs_mem qs). buf_at qs' c = buf_at qs c) \<and>
     am_brk (qs_mem qs) \<le> b"

lemma add_event_cases:
  assumes inv: "qs_inv qs bufs" and ev: "ev_idx ev \<noteq> -1" "plain qs ev"
  shows "(\<exists>qs' b. auxtrace_queues__add_event qs s ev off = Inr (0, qs', Some b) \<and>
       qs_inv qs' (bufs(unat (ev_idx ev) := bufs (unat (ev_idx ev)) @ [b])) \<and> event_queued qs ev off b qs') \<or>
    (\<exists>err qs'. auxtrace_queues__add_event qs s ev off = Inr (err, qs', None) \<and> err < 0 \<and> qs_inv qs' bufs \<and>
       next_buffer_nr qs' = next_buffer_nr qs \<and> (\<forall>c < am_brk (qs_mem qs). buf_at qs' c = buf_at qs c))"
  using aux_malloc_cases [of 1 "qs_mem qs"]
proof (elim disjE exE conjE)
  fix m assume m: "aux_malloc 1 (qs_mem qs) = (None, m)" "am_links m = qs_links qs" "am_bufs m = am_bufs (qs_mem qs)" "am_brk m = am_brk (qs_mem qs)"
  then show ?thesis using qs_inv_mem [OF inv m(2)] by (auto simp: auxtrace_queues__add_event_def ENOMEM_def)
next
  fix m let ?b = "am_brk (qs_mem qs)"
  assume m: "aux_malloc 1 (qs_mem qs) = (Some ?b, m)" "am_links m = qs_links qs" "am_bufs m = am_bufs (qs_mem qs)" "am_brk m = am_brk (qs_mem qs) + 1"
  let ?qs = "upd_buf ?b (\<lambda>_. event_buffer ev off) (qs\<lparr>qs_mem := m\<rparr>)"
  have inv0: "qs_inv ?qs bufs" "unlinked ?qs bufs ?b"
    using qs_inv_mem [OF inv m(2)] unlinked_fresh [OF inv, of ?b m] m(4) by auto
  have "bits_per_long m = bits_per_long (qs_mem qs)" using m(1) by (auto simp: aux_malloc_def Let_def split: if_splits)
  then have "bits_per_long (qs_mem ?qs) \<noteq> 32 \<or> b_size (buf_at ?qs ?b) \<le> BUFFER_LIMIT_FOR_32_BIT"
    using ev(2) by (simp add: plain_def event_buffer_def upd_buf_def)
  from add_event_buffer_plain [OF inv0 this, of s "ev_idx ev"] obtain qs1 where
    q: "qs_inv qs1 bufs" "unlinked qs1 bufs ?b" "data_only ?qs ?b qs1" and
    r: "auxtrace_queues__add_event_buffer ?qs s (ev_idx ev) ?b = auxtrace_queues__add_buffer qs1 (ev_idx ev) ?b \<or>
        auxtrace_queues__add_event_buffer ?qs s (ev_idx ev) ?b = Inr (- ENOMEM, qs1)" by blast
  have keep: "buf_at qs1 c = buf_at qs c" if "c < ?b" for c using q(3) that m(3) by (simp add: data_only_def)
  have nr: "next_buffer_nr qs1 = next_buffer_nr qs" using q(3) by (simp add: data_only_def)
  have desc: "describes ev off (next_buffer_nr qs) ((buf_at qs1 ?b)\<lparr>b_buffer_nr := next_buffer_nr qs\<rparr>)"
    using q(3) by (cases "buf_at qs1 ?b") (simp add: data_only_def describes_def event_buffer_def zero_buffer_def)
  obtain err qs' where ab: "auxtrace_queues__add_event_buffer ?qs s (ev_idx ev) ?b = Inr (err, qs')"
    "err = 0 \<and> qs_inv qs' (bufs(unat (ev_idx ev) := bufs (unat (ev_idx ev)) @ [?b])) \<and> buffer_added qs1 ?b qs' \<or>
     err < 0 \<and> qs_inv qs' bufs \<and> same_bufs qs1 qs'"
    using r add_buffer_cases [OF q(1,2) ev(1)] q(1) by (fastforce simp: same_bufs_def ENOMEM_def)
  from ab(2) show ?thesis
  proof (elim disjE conjE)
    assume e: "err = 0" "qs_inv qs' (bufs(unat (ev_idx ev) := bufs (unat (ev_idx ev)) @ [?b]))" "buffer_added qs1 ?b qs'"
    then have "event_queued qs ev off ?b qs'"
      using desc keep nr by (simp add: event_queued_def buffer_added_def)
    then show ?thesis using ab(1) e m(1) by (auto simp: auxtrace_queues__add_event_def)
  next
    assume "err < 0" "qs_inv qs' bufs" "same_bufs qs1 qs'"
    then show ?thesis using ab(1) m(1) keep nr
      by (intro disjI2 exI [of _ err] exI [of _ "auxtrace_buffer__free ?b qs'"])
        (simp add: auxtrace_queues__add_event_def same_bufs_def)
  qed
qed

subsection \<open>Runs\<close>

inductive aq_run :: "(auxtrace_event \<times> u64) list \<Rightarrow> auxtrace_queues \<Rightarrow> bool" where
  init: "auxtrace_queues__init qs0 = (0, qs) \<Longrightarrow> next_buffer_nr qs0 = 0 \<Longrightarrow> aq_run [] qs"
| queued: "aq_run log qs \<Longrightarrow> plain qs ev \<Longrightarrow> ev_idx ev \<noteq> -1 \<Longrightarrow>
    auxtrace_queues__add_event qs s ev off = Inr (0, qs', p) \<Longrightarrow> aq_run (log @ [(ev, off)]) qs'"
| refused: "aq_run log qs \<Longrightarrow> plain qs ev \<Longrightarrow> ev_idx ev \<noteq> -1 \<Longrightarrow>
    auxtrace_queues__add_event qs s ev off = Inr (err, qs', p) \<Longrightarrow> err \<noteq> 0 \<Longrightarrow> aq_run log qs'"

text \<open>The events of queue \<open>i\<close> among those accepted, each with its place in the order of acceptance.\<close>

definition accepted_for :: "nat \<Rightarrow> (auxtrace_event \<times> u64) list \<Rightarrow> (nat \<times> auxtrace_event \<times> u64) list" where
  "accepted_for i log = filter (\<lambda>(k, ev, off). unat (ev_idx ev) = i) (enumerate 0 log)"

definition holds :: "(nat \<times> auxtrace_event \<times> u64) list \<Rightarrow> auxtrace_queues \<Rightarrow> addr list \<Rightarrow> bool" where
  "holds es qs bs \<longleftrightarrow> list_all2 (\<lambda>(k, ev, off) b. describes ev off (of_nat k) (buf_at qs b)) es bs"

lemma accepted_for_snoc:
  "accepted_for i (log @ [(ev, off)]) =
     accepted_for i log @ (if unat (ev_idx ev) = i then [(length log, ev, off)] else [])"
  by (simp add: accepted_for_def enumerate_append_eq)

lemma holds_keep:
  assumes "holds es qs bs" "\<forall>b \<in> set bs. buf_at qs' b = buf_at qs b"
  shows "holds es qs' bs"
  using assms unfolding holds_def by (auto simp: list_all2_conv_all_nth)

lemma bufs_below:
  assumes "qs_inv qs bufs" "b \<in> set (bufs i)"
  shows "b < am_brk (qs_mem qs)"
proof -
  obtain a where a: "queue_lists (qs_links qs) a bufs" "below (am_brk (qs_mem qs)) a bufs"
    using assms(1) by (auto simp: qs_inv_def)
  then show ?thesis using assms(2) by (cases "i < length a") (auto simp: queue_lists_def below_def)
qed

lemma init_inv:
  assumes "auxtrace_queues__init qs0 = (0, qs)"
  shows "qs_inv qs (\<lambda>_. [])" and "next_buffer_nr qs = next_buffer_nr qs0"
proof -
  let ?m = "qs_mem qs0" and ?a = "new_array (am_brk (qs_mem qs0)) 32"
  from alloc_queue_array_cases [of 32 ?m] obtain m' where
    m': "auxtrace_alloc_queue_array 32 ?m = (Some ?a, m')" "am_links m' = fold (\<lambda>i. INIT_LIST_HEAD (am_brk ?m + i)) [0..<32] (am_links ?m)"
      "am_brk m' = am_brk ?m + 32"
    using assms by (auto simp: auxtrace_queues__init_def AUXTRACE_INIT_NR_QUEUES_def ENOMEM_def)
  have qs: "qs = qs0\<lparr>nr_queues := 32, queue_array := Some ?a, qs_mem := m'\<rparr>"
    using assms m'(1) by (simp add: auxtrace_queues__init_def AUXTRACE_INIT_NR_QUEUES_def)
  have "queue_lists (am_links m') ?a (\<lambda>_. [])"
    using fold_INIT_ring [of _ 32 "am_brk ?m" "am_links ?m"] m'(2) by (auto simp: queue_lists_def)
  then show "qs_inv qs (\<lambda>_. [])"
    using qs m'(3) unfolding qs_inv_def by (intro exI [of _ ?a] exI [of _ 5]) (simp add: below_def)
  show "next_buffer_nr qs = next_buffer_nr qs0" using qs by simp
qed

lemma aq_run_holds:
  assumes "aq_run log qs"
  shows "\<exists>bufs. qs_inv qs bufs \<and> next_buffer_nr qs = of_nat (length log) \<and>
     (\<forall>i. holds (accepted_for i log) qs (bufs i))"
  using assms
proof (induction rule: aq_run.induct)
  case (init qs0 qs)
  then show ?case using init_inv [OF init(1)]
    by (intro exI [of _ "\<lambda>_. []"]) (simp add: holds_def accepted_for_def)
next
  case (queued log qs ev s off qs' p)
  then obtain bufs where b: "qs_inv qs bufs" "next_buffer_nr qs = of_nat (length log)" "\<forall>i. holds (accepted_for i log) qs (bufs i)" by blast
  obtain b where e: "qs_inv qs' (bufs(unat (ev_idx ev) := bufs (unat (ev_idx ev)) @ [b]))" "event_queued qs ev off b qs'"
    using add_event_cases [OF b(1) queued(3,2), of s off] queued(4) by auto
  have keep: "holds (accepted_for i log) qs' (bufs i)" for i
    using holds_keep [of _ qs "bufs i" qs'] b(3) bufs_below [OF b(1)] e(2) by (simp add: event_queued_def)
  have "describes ev off (of_nat (length log)) (buf_at qs' b)" using e(2) b(2) by (simp add: event_queued_def)
  then have "holds (accepted_for i (log @ [(ev, off)])) qs' ((bufs(unat (ev_idx ev) := bufs (unat (ev_idx ev)) @ [b])) i)" for i
    using keep [of i] by (auto simp: accepted_for_snoc holds_def intro: list_all2_appendI)
  then show ?case using e b(2) by (intro exI conjI) (auto simp: event_queued_def add.commute)
next
  case (refused log qs ev s off err qs' p)
  then obtain bufs where b: "qs_inv qs bufs" "next_buffer_nr qs = of_nat (length log)" "\<forall>i. holds (accepted_for i log) qs (bufs i)" by blast
  have e: "qs_inv qs' bufs" "next_buffer_nr qs' = next_buffer_nr qs" "\<forall>c < am_brk (qs_mem qs). buf_at qs' c = buf_at qs c"
    using add_event_cases [OF b(1) refused(3,2), of s off] refused(4,5) by auto
  have "holds (accepted_for i log) qs' (bufs i)" for i
    using holds_keep [of _ qs "bufs i" qs'] b(3) bufs_below [OF b(1)] e(3) by simp
  then show ?case using e b(2) by auto
qed

subsection \<open>Walking and releasing\<close>

lemma next_buffer:
  assumes "ring l (q_head q) bs"
  shows "auxtrace_buffer__next q None l = (case bs of [] \<Rightarrow> None | b # _ \<Rightarrow> Some b)"
    and "bs = xs @ b # ys \<Longrightarrow> auxtrace_buffer__next q (Some b) l = (case ys of [] \<Rightarrow> None | c # _ \<Rightarrow> Some c)"
proof -
  show "auxtrace_buffer__next q None l = (case bs of [] \<Rightarrow> None | b # _ \<Rightarrow> Some b)"
    using assms ring_head(1) [OF assms] by (auto simp: auxtrace_buffer__next_def list_empty_ring split: list.splits)
  assume bs: "bs = xs @ b # ys"
  have "q_head q \<notin> set bs" "distinct bs" using ring_distinct [OF assms] by blast+
  then show "auxtrace_buffer__next q (Some b) l = (case ys of [] \<Rightarrow> None | c # _ \<Rightarrow> Some c)"
    using ring_neighbours(1) [of l "q_head q" xs b ys] assms bs
    by (auto simp: auxtrace_buffer__next_def list_is_last_def split: list.splits)
qed

lemma free_queue_ok:
  assumes "ring (qs_links qs) head bs"
  shows "\<exists>qs'. free_queue head qs = Some qs' \<and> queue_array qs' = queue_array qs \<and> nr_queues qs' = nr_queues qs \<and>
     am_released (qs_mem qs') = am_released (qs_mem qs) @ concat (map (\<lambda>b. buffer_release b (buf_at qs b)) bs) \<and>
     (\<forall>b \<in> set bs. \<not> b_data_needs_freeing (buf_at qs' b)) \<and>
     (\<forall>head' zs. ring (qs_links qs) head' zs \<longrightarrow> cells head bs \<inter> cells head' zs = {} \<longrightarrow> ring (qs_links qs') head' zs) \<and>
     (\<forall>b. b \<notin> set bs \<longrightarrow> buf_at qs' b = buf_at qs b)"
  using assms
proof (induction bs arbitrary: qs)
  case Nil
  then show ?case by (subst free_queue.simps) (simp add: list_empty_ring)
next
  case (Cons b bs)
  let ?qs = "auxtrace_buffer__free b (upd_qlinks (list_del b) qs)"
  have b: "nxt (qs_links qs) head = b" using ring_head(1) [OF Cons(2)] by simp
  have step: "free_queue head qs = free_queue head ?qs"
    using Cons(2) b by (subst free_queue.simps) (simp add: list_empty_ring Let_def)
  have "ring (qs_links ?qs) head bs" using list_del_ring [of "qs_links qs" head "[]" b bs] Cons(2) by simp
  from Cons.IH [OF this] obtain qs' where q: "free_queue head ?qs = Some qs'" "queue_array qs' = queue_array qs" "nr_queues qs' = nr_queues qs"
    "am_released (qs_mem qs') = am_released (qs_mem ?qs) @ concat (map (\<lambda>b. buffer_release b (buf_at ?qs b)) bs)" "\<forall>c \<in> set bs. \<not> b_data_needs_freeing (buf_at qs' c)"
    "\<forall>head' zs. ring (list_del b (qs_links qs)) head' zs \<longrightarrow> cells head bs \<inter> cells head' zs = {} \<longrightarrow> ring (qs_links qs') head' zs"
    "\<forall>c. c \<notin> set bs \<longrightarrow> buf_at qs' c = buf_at ?qs c" by auto
  have b': "b \<notin> set bs" using Cons(2) by (simp add: ring_def)
  then have "\<not> b_data_needs_freeing (buf_at qs' b)" using q(7) by simp
  moreover have "\<forall>c \<in> set bs. buf_at ?qs c = buf_at qs c" using b' by (metis buffer_free_simps(7) upd_qlinks_simps(6))
  then have "map (\<lambda>c. buffer_release c (buf_at ?qs c)) bs = map (\<lambda>c. buffer_release c (buf_at qs c)) bs" by simp
  then have "am_released (qs_mem qs') = am_released (qs_mem qs) @ concat (map (\<lambda>c. buffer_release c (buf_at qs c)) (b # bs))"
    using q(4) by (simp del: map_eq_conv)
  moreover have "\<forall>c. c \<notin> set (b # bs) \<longrightarrow> buf_at qs' c = buf_at qs c" using q(7) by simp
  moreover have "ring (qs_links qs') head' zs" if r: "ring (qs_links qs) head' zs" "cells head (b # bs) \<inter> cells head' zs = {}" for head' zs
  proof -
    have "ring (list_del b (qs_links qs)) head' zs"
      using list_del_other_ring [of "qs_links qs" head "[]" b bs head' zs] Cons(2) r by simp
    then show ?thesis using q(6) r(2) by auto
  qed
  ultimately show ?case using step q(1-3,5) by (intro exI [of _ qs']) auto
qed

lemma free_queues_ok:
  assumes d: "\<forall>i < length a. \<forall>j < length a. i \<noteq> j \<longrightarrow> cells (q_head (a ! i)) (bufs i) \<inter> cells (q_head (a ! j)) (bufs j) = {}"
    and "queue_array qs = Some a" "set is \<subseteq> {..<length a}" "distinct is" "\<forall>i \<in> set is. ring (qs_links qs) (q_head (a ! i)) (bufs i)"
  shows "\<exists>qs'. free_queues is qs = Inr qs' \<and>
     am_released (qs_mem qs') = am_released (qs_mem qs) @ concat (map (\<lambda>b. buffer_release b (buf_at qs b)) (concat (map bufs is))) \<and>
     (\<forall>i \<in> set is. \<forall>b \<in> set (bufs i). \<not> b_data_needs_freeing (buf_at qs' b)) \<and>
     (\<forall>b. (\<forall>i \<in> set is. b \<notin> set (bufs i)) \<longrightarrow> buf_at qs' b = buf_at qs b)"
  using assms(2-)
proof (induction "is" arbitrary: qs)
  case (Cons i "is")
  have i: "i < length a" "i \<notin> set is" using Cons.prems by auto
  have at: "queue_at qs i = Inr (a ! i)" using Cons.prems(1) i by (simp add: queue_at_def)
  have "ring (qs_links qs) (q_head (a ! i)) (bufs i)" using Cons.prems by simp
  from free_queue_ok [OF this] obtain qs1 where q: "free_queue (q_head (a ! i)) qs = Some qs1" "queue_array qs1 = Some a"
    "am_released (qs_mem qs1) = am_released (qs_mem qs) @ concat (map (\<lambda>b. buffer_release b (buf_at qs b)) (bufs i))" "\<forall>b \<in> set (bufs i). \<not> b_data_needs_freeing (buf_at qs1 b)"
    "\<forall>head' zs. ring (qs_links qs) head' zs \<longrightarrow> cells (q_head (a ! i)) (bufs i) \<inter> cells head' zs = {} \<longrightarrow> ring (qs_links qs1) head' zs"
    "\<forall>b. b \<notin> set (bufs i) \<longrightarrow> buf_at qs1 b = buf_at qs b" using Cons.prems(1) by metis
  have other: "cells (q_head (a ! i)) (bufs i) \<inter> cells (q_head (a ! j)) (bufs j) = {}" if "j \<in> set is" for j
  proof -
    have "i \<noteq> j" "j < length a" using that i Cons.prems(2) by auto
    then show ?thesis using d i(1) by blast
  qed
  then have "\<forall>j \<in> set is. ring (qs_links qs1) (q_head (a ! j)) (bufs j)" using q(5) Cons.prems(4) by auto
  from Cons.IH [OF q(2) _ _ this] Cons.prems(2,3) obtain qs' where q': "free_queues is qs1 = Inr qs'"
    "am_released (qs_mem qs') = am_released (qs_mem qs1) @ concat (map (\<lambda>b. buffer_release b (buf_at qs1 b)) (concat (map bufs is)))"
    "\<forall>i \<in> set is. \<forall>b \<in> set (bufs i). \<not> b_data_needs_freeing (buf_at qs' b)"
    "\<forall>b. (\<forall>i \<in> set is. b \<notin> set (bufs i)) \<longrightarrow> buf_at qs' b = buf_at qs1 b" by auto
  have "\<forall>b \<in> set (bufs i). \<forall>j \<in> set is. b \<notin> set (bufs j)" using other by auto
  then have "\<forall>b \<in> set (bufs i). \<not> b_data_needs_freeing (buf_at qs' b)" "\<forall>b \<in> set (concat (map bufs is)). buf_at qs1 b = buf_at qs b"
    using q(4,6) q'(4) by auto
  moreover from this(2) have "map (\<lambda>b. buffer_release b (buf_at qs1 b)) (concat (map bufs is)) = map (\<lambda>b. buffer_release b (buf_at qs b)) (concat (map bufs is))"
    by (intro map_cong) auto
  ultimately show ?case using at q(1,3,6) q' by (intro exI [of _ qs']) (simp del: map_eq_conv)
qed simp

lemma queues_free_ok:
  assumes "qs_inv qs bufs"
  shows "\<exists>qs'. auxtrace_queues__free qs = Inr qs' \<and> queue_array qs' = None \<and> nr_queues qs' = 0 \<and>
     am_released (qs_mem qs') = am_released (qs_mem qs) @
       concat (map (\<lambda>b. buffer_release b (buf_at qs b)) (concat (map bufs [0..<nr_queues qs]))) \<and>
     distinct (concat (map bufs [0..<nr_queues qs])) \<and>
     (\<forall>i < nr_queues qs. \<forall>b \<in> set (bufs i). \<not> b_data_needs_freeing (buf_at qs' b))"
proof -
  obtain a where a: "queue_array qs = Some a" "length a = nr_queues qs" "queue_lists (qs_links qs) a bufs"
    using assms by (auto simp: qs_inv_def)
  have d: "\<forall>i < length a. \<forall>j < length a. i \<noteq> j \<longrightarrow> cells (q_head (a ! i)) (bufs i) \<inter> cells (q_head (a ! j)) (bufs j) = {}"
    and r: "\<forall>i \<in> set [0..<length a]. ring (qs_links qs) (q_head (a ! i)) (bufs i)"
    using a(3) unfolding queue_lists_def by auto
  have ds: "distinct (concat (map bufs is))" if "set is \<subseteq> {..<length a}" "distinct is" for "is"
    using that
  proof (induction "is")
    case (Cons i "is")
    have "set (bufs i) \<inter> set (bufs j) = {}" if "j \<in> set is" for j
    proof -
      have "i \<noteq> j" "i < length a" "j < length a" using that Cons.prems by auto
      then show ?thesis using d by auto
    qed
    moreover have "distinct (bufs i)" using r Cons.prems(1) by (auto dest: ring_distinct)
    ultimately show ?case using Cons by auto
  qed simp
  have "set [0..<length a] \<subseteq> {..<length a}" "distinct [0..<length a]" by auto
  from free_queues_ok [OF d a(1) this r] obtain qs' where
    "free_queues [0..<length a] qs = Inr qs'" "am_released (qs_mem qs') = am_released (qs_mem qs) @
       concat (map (\<lambda>b. buffer_release b (buf_at qs b)) (concat (map bufs [0..<length a])))"
    "\<forall>i < length a. \<forall>b \<in> set (bufs i). \<not> b_data_needs_freeing (buf_at qs' b)" by auto
  moreover have "distinct (concat (map bufs [0..<length a]))" by (rule ds) auto
  ultimately show ?thesis using a(2)
    by (intro exI [of _ "qs'\<lparr>queue_array := None, nr_queues := 0\<rparr>"]) (simp add: auxtrace_queues__free_def)
qed

subsection \<open>Splitting large buffers\<close>

text \<open>The \<open>k\<close>-th piece cut from a buffer: its place in the file, and whether it continues another.\<close>

definition piece :: "auxtrace_buffer \<Rightarrow> bool \<Rightarrow> nat \<Rightarrow> auxtrace_buffer \<Rightarrow> bool" where
  "piece orig c k buf \<longleftrightarrow> b_size buf = BUFFER_LIMIT_FOR_32_BIT \<and>
     b_data_offset buf = b_data_offset orig + of_nat k * BUFFER_LIMIT_FOR_32_BIT \<and>
     (b_consecutive buf \<longleftrightarrow> c \<or> 0 < k) \<and> b_tid buf = b_tid orig \<and> b_cpu buf = b_cpu orig \<and>
     b_offset buf = b_offset orig \<and> b_reference buf = b_reference orig"

definition cut :: "auxtrace_queues \<Rightarrow> addr \<Rightarrow> bool \<Rightarrow> addr list \<Rightarrow> auxtrace_queues \<Rightarrow> bool" where
  "cut qs buffer c ps qs' \<longleftrightarrow>
     (\<forall>k < length ps. piece (buf_at qs buffer) c k (buf_at qs' (ps ! k))) \<and>
     (\<forall>b < am_brk (qs_mem qs). b \<noteq> buffer \<longrightarrow> buf_at qs' b = buf_at qs b) \<and>
     (\<forall>b \<in> set ps. am_brk (qs_mem qs) \<le> b) \<and>
     buf_at qs' buffer = (buf_at qs buffer)
       \<lparr>b_data_offset := b_data_offset (buf_at qs buffer) + of_nat (length ps) * BUFFER_LIMIT_FOR_32_BIT\<rparr>"

lemma limit_eq: "BUFFER_LIMIT_FOR_32_BIT = 2 ^ 25" "unat BUFFER_LIMIT_FOR_32_BIT = 2 ^ 25"
  by (simp_all add: BUFFER_LIMIT_FOR_32_BIT_def)

lemma unat_minus_limit:
  "BUFFER_LIMIT_FOR_32_BIT < sz \<Longrightarrow> unat (sz - BUFFER_LIMIT_FOR_32_BIT) = unat sz - 2 ^ 25"
  "BUFFER_LIMIT_FOR_32_BIT < sz \<Longrightarrow> 2 ^ 25 < unat sz"
  by (simp_all add: unat_sub_if' word_less_nat_alt limit_eq(2))

lemma cut_Nil:
  "am_bufs (qs_mem qs') = am_bufs (qs_mem qs) \<Longrightarrow> cut qs buffer c [] qs'"
  by (simp add: cut_def)

lemma cut_step:
  fixes qs :: auxtrace_queues
  assumes q: "buf_at qs2 b = (buf_at qs buffer)\<lparr>b_size := BUFFER_LIMIT_FOR_32_BIT, b_consecutive := c, b_buffer_nr := nr\<rparr>"
      "\<forall>a. a \<noteq> b \<longrightarrow> buf_at qs2 a = buf_at qs a" "b < am_brk (qs_mem qs2)"
    and b: "b = am_brk (qs_mem qs)" "buffer < b"
    and rest: "cut (upd_buf buffer (\<lambda>buf. buf\<lparr>b_data_offset := b_data_offset buf + BUFFER_LIMIT_FOR_32_BIT\<rparr>) qs2) buffer True ps qs'"
  shows "cut qs buffer c (b # ps) qs'"
proof -
  let ?qs3 = "upd_buf buffer (\<lambda>buf. buf\<lparr>b_data_offset := b_data_offset buf + BUFFER_LIMIT_FOR_32_BIT\<rparr>) qs2"
  have keep: "buf_at qs' a = buf_at qs2 a" if "a < am_brk (qs_mem qs2)" "a \<noteq> buffer" for a
    using rest that by (simp add: cut_def)
  have "piece (buf_at qs buffer) c k (buf_at qs' ((b # ps) ! k))" if "k < length (b # ps)" for k
  proof (cases k)
    case 0
    then show ?thesis using keep [of b] q b by (simp add: piece_def)
  next
    case (Suc j)
    then have "piece (buf_at ?qs3 buffer) True j (buf_at qs' (ps ! j))" using rest that by (simp add: cut_def)
    then show ?thesis using Suc q(2) b by (simp add: piece_def algebra_simps)
  qed
  moreover have "buf_at qs' a = buf_at qs a" if "a < b" "a \<noteq> buffer" for a
    using keep [of a] q that by simp
  moreover have "\<forall>a \<in> set (b # ps). b \<le> a" using rest q(3) by (auto simp: cut_def)
  moreover have "buf_at qs' buffer = (buf_at qs buffer)
       \<lparr>b_data_offset := b_data_offset (buf_at qs buffer) + of_nat (length (b # ps)) * BUFFER_LIMIT_FOR_32_BIT\<rparr>"
    using rest q(2) b by (simp add: cut_def algebra_simps)
  ultimately show ?thesis using b(1) unfolding cut_def by blast
qed

lemma split_loop_ok:
  assumes "qs_inv qs bufs" "unlinked qs bufs buffer" "idx \<noteq> -1"
  shows "\<exists>err sz' c' qs' ps. split_loop idx buffer sz c qs = Some (Inr (err, sz', c', qs')) \<and> err \<le> 0 \<and>
     qs_inv qs' (bufs(unat idx := bufs (unat idx) @ ps)) \<and> unlinked qs' (bufs(unat idx := bufs (unat idx) @ ps)) buffer \<and>
     cut qs buffer c ps qs' \<and>
     (err = 0 \<longrightarrow> unat sz = length ps * 2 ^ 25 + unat sz' \<and> unat sz' \<le> 2 ^ 25 \<and> (sz \<noteq> 0 \<longrightarrow> sz' \<noteq> 0) \<and> (c' \<longleftrightarrow> c \<or> ps \<noteq> []))"
  using assms(1,2)
proof (induction "unat sz" arbitrary: sz c qs bufs rule: less_induct)
  case less
  let ?i = "unat idx"
  show ?case
  proof (cases "BUFFER_LIMIT_FOR_32_BIT < sz")
    case False
    then have "split_loop idx buffer sz c qs = Some (Inr (0, sz, c, qs))" by (simp add: split_loop.simps)
    moreover have "unat sz \<le> 2 ^ 25" using False limit_eq(2) by (metis linorder_not_less word_less_nat_alt)
    ultimately show ?thesis using less.prems by (intro exI [of _ 0] exI [of _ sz] exI [of _ c] exI [of _ qs] exI [of _ "[]"]) (simp add: cut_def)
  next
    case True
    from aux_malloc_cases [of 1 "qs_mem qs"] show ?thesis
    proof (elim disjE exE conjE)
      fix m assume m: "aux_malloc 1 (qs_mem qs) = (None, m)" "am_links m = qs_links qs" "am_bufs m = am_bufs (qs_mem qs)" "am_brk m = am_brk (qs_mem qs)"
      have "split_loop idx buffer sz c qs = Some (Inr (- ENOMEM, sz, c, qs\<lparr>qs_mem := m\<rparr>))"
        using True m(1) by (simp add: split_loop.simps)
      then show ?thesis using qs_inv_mem [OF less.prems(1) m(2)] unlinked_mem [OF less.prems(2)] m(3,4) cut_Nil
        by (intro exI [of _ "- ENOMEM"] exI [of _ sz] exI [of _ c] exI [of _ "qs\<lparr>qs_mem := m\<rparr>"] exI [of _ "[]"]) (simp add: ENOMEM_def)
    next
      fix m let ?b = "am_brk (qs_mem qs)"
      assume m: "aux_malloc 1 (qs_mem qs) = (Some ?b, m)" "am_links m = qs_links qs" "am_bufs m = am_bufs (qs_mem qs)" "am_brk m = am_brk (qs_mem qs) + 1"
      let ?new = "(buf_at qs buffer)\<lparr>b_size := BUFFER_LIMIT_FOR_32_BIT, b_consecutive := c\<rparr>"
      let ?qs = "upd_buf ?b (\<lambda>_. ?new) (qs\<lparr>qs_mem := m\<rparr>)"
      have lt: "buffer < ?b" using less.prems(2) by (simp add: unlinked_def)
      have q1: "qs_inv ?qs bufs" "unlinked ?qs bufs ?b" "unlinked ?qs bufs buffer"
        using qs_inv_mem [OF less.prems(1) m(2)] unlinked_fresh [OF less.prems(1), of ?b m] unlinked_mem [OF less.prems(2), of m] m(4) by auto
      obtain err qs2 where ab: "auxtrace_queues__add_buffer ?qs idx ?b = Inr (err, qs2)"
        "err = 0 \<and> qs_inv qs2 (bufs(?i := bufs ?i @ [?b])) \<and> buffer_added ?qs ?b qs2 \<and>
           (\<forall>c. unlinked ?qs bufs c \<longrightarrow> c \<noteq> ?b \<longrightarrow> unlinked qs2 (bufs(?i := bufs ?i @ [?b])) c) \<or>
         err < 0 \<and> qs_inv qs2 bufs \<and> same_bufs ?qs qs2 \<and> queue_array qs2 = queue_array ?qs \<and> nr_queues qs2 = nr_queues ?qs"
        using add_buffer_cases [OF q1(1,2) assms(3)] by blast
      have run: "split_loop idx buffer sz c qs =
        (if err \<noteq> 0 then Some (Inr (err, sz, c, auxtrace_buffer__free ?b qs2))
         else split_loop idx buffer (sz - BUFFER_LIMIT_FOR_32_BIT) True
           (upd_buf buffer (\<lambda>buf. buf\<lparr>b_data_offset := b_data_offset buf + BUFFER_LIMIT_FOR_32_BIT\<rparr>) qs2))"
        using True m(1,3) ab(1) by (subst split_loop.simps) (simp add: Let_def)
      from ab(2) show ?thesis
      proof (elim disjE conjE)
        assume e: "err < 0" "qs_inv qs2 bufs" "same_bufs ?qs qs2" "queue_array qs2 = queue_array ?qs"
        have "unlinked (auxtrace_buffer__free ?b qs2) bufs buffer" using q1(3) e(3,4) by (simp add: unlinked_def same_bufs_def)
        moreover have "cut qs buffer c [] (auxtrace_buffer__free ?b qs2)"
          using e(3) m(3) lt by (simp add: cut_def same_bufs_def)
        ultimately show ?thesis using run e(1,2)
          by (intro exI [of _ err] exI [of _ sz] exI [of _ c] exI [of _ "auxtrace_buffer__free ?b qs2"] exI [of _ "[]"]) simp
      next
        assume e: "err = 0" "qs_inv qs2 (bufs(?i := bufs ?i @ [?b]))" "buffer_added ?qs ?b qs2"
          "\<forall>c. unlinked ?qs bufs c \<longrightarrow> c \<noteq> ?b \<longrightarrow> unlinked qs2 (bufs(?i := bufs ?i @ [?b])) c"
        let ?qs3 = "upd_buf buffer (\<lambda>buf. buf\<lparr>b_data_offset := b_data_offset buf + BUFFER_LIMIT_FOR_32_BIT\<rparr>) qs2"
        have "unat (sz - BUFFER_LIMIT_FOR_32_BIT) < unat sz" using unat_minus_limit [OF True] by simp
        moreover have "qs_inv ?qs3 (bufs(?i := bufs ?i @ [?b]))" "unlinked ?qs3 (bufs(?i := bufs ?i @ [?b])) buffer"
          using e(2,4) q1(3) lt by auto
        ultimately obtain err' sz' c' qs' ps where ih: "split_loop idx buffer (sz - BUFFER_LIMIT_FOR_32_BIT) True ?qs3 = Some (Inr (err', sz', c', qs'))" "err' \<le> 0"
          "qs_inv qs' (bufs(?i := bufs ?i @ ?b # ps))" "unlinked qs' (bufs(?i := bufs ?i @ ?b # ps)) buffer" "cut ?qs3 buffer True ps qs'"
          "err' = 0 \<longrightarrow> unat (sz - BUFFER_LIMIT_FOR_32_BIT) = length ps * 2 ^ 25 + unat sz' \<and> unat sz' \<le> 2 ^ 25 \<and>
             (sz - BUFFER_LIMIT_FOR_32_BIT \<noteq> 0 \<longrightarrow> sz' \<noteq> 0) \<and> (c' \<longleftrightarrow> True \<or> ps \<noteq> [])"
          using less.hyps [of "sz - BUFFER_LIMIT_FOR_32_BIT" ?qs3 "bufs(?i := bufs ?i @ [?b])" True] by fastforce
        have "cut qs buffer c (?b # ps) qs'"
          by (rule cut_step [OF _ _ _ refl lt ih(5)]) (use e(3) m(3,4) in \<open>auto simp: buffer_added_def\<close>)
        moreover have "err' = 0 \<longrightarrow> unat sz = length (?b # ps) * 2 ^ 25 + unat sz' \<and> unat sz' \<le> 2 ^ 25 \<and> (sz \<noteq> 0 \<longrightarrow> sz' \<noteq> 0) \<and> (c' \<longleftrightarrow> c \<or> ?b # ps \<noteq> [])"
          using ih(6) unat_minus_limit [OF True] True by auto
        ultimately show ?thesis using run e(1) ih(1-4) by (intro exI [of _ err'] exI [of _ sz'] exI [of _ c'] exI [of _ qs'] exI [of _ "?b # ps"]) simp
      qed
    qed
  qed
qed


lemma split_buffer_ok:
  assumes "qs_inv qs bufs" "unlinked qs bufs buffer" "idx \<noteq> -1"
  shows "\<exists>err qs' ps. auxtrace_queues__split_buffer qs idx buffer = Inr (err, qs') \<and> err \<le> 0 \<and>
     qs_inv qs' (bufs(unat idx := bufs (unat idx) @ ps)) \<and>
     (\<forall>k < length ps. piece (buf_at qs buffer) False k (buf_at qs' (ps ! k))) \<and>
     (err = 0 \<longrightarrow> unat (b_size (buf_at qs buffer)) = length ps * 2 ^ 25 + unat (b_size (buf_at qs' buffer)) \<and>
        unat (b_size (buf_at qs' buffer)) \<le> 2 ^ 25 \<and>
        b_data_offset (buf_at qs' buffer) = b_data_offset (buf_at qs buffer) + of_nat (length ps) * BUFFER_LIMIT_FOR_32_BIT \<and>
        (b_consecutive (buf_at qs' buffer) \<longleftrightarrow> ps \<noteq> []))"
proof -
  let ?sz = "b_size (buf_at qs buffer)"
  obtain err sz' c' qs1 ps where l: "split_loop idx buffer ?sz False qs = Some (Inr (err, sz', c', qs1))" "err \<le> 0"
    "qs_inv qs1 (bufs(unat idx := bufs (unat idx) @ ps))" "cut qs buffer False ps qs1"
    "err = 0 \<longrightarrow> unat ?sz = length ps * 2 ^ 25 + unat sz' \<and> unat sz' \<le> 2 ^ 25 \<and> (?sz \<noteq> 0 \<longrightarrow> sz' \<noteq> 0) \<and> (c' \<longleftrightarrow> False \<or> ps \<noteq> [])"
    using split_loop_ok [OF assms, of ?sz False] by blast
  have nb: "ps ! k \<noteq> buffer" if "k < length ps" for k
  proof -
    have "am_brk (qs_mem qs) \<le> ps ! k" using l(4) nth_mem [OF that] by (simp add: cut_def)
    then show ?thesis using assms(2) by (auto simp: unlinked_def)
  qed
  let ?qs = "upd_buf buffer (\<lambda>buf. buf\<lparr>b_size := sz', b_consecutive := c'\<rparr>) qs1"
  show ?thesis
  proof (cases "err = 0")
    case True
    then have "auxtrace_queues__split_buffer qs idx buffer = Inr (0, ?qs)"
      using l(1) by (simp add: auxtrace_queues__split_buffer_def)
    then show ?thesis using l(3-5) True nb by (intro exI [of _ 0] exI [of _ ?qs] exI [of _ ps]) (simp add: cut_def)
  next
    case False
    then have "auxtrace_queues__split_buffer qs idx buffer = Inr (err, qs1)"
      using l(1) by (simp add: auxtrace_queues__split_buffer_def)
    then show ?thesis using l False by (intro exI [of _ err] exI [of _ qs1] exI [of _ ps]) (simp add: cut_def)
  qed
qed

subsection \<open>A small state for the examples\<close>

text \<open>One queue, owned by thread 7 on cpu 1, with one buffer; address 2 is a buffer of thread 8 on cpu 3.\<close>

definition small_mem :: aux_mem where
  "small_mem = \<lparr>am_links = list_add_tail 1 0 (INIT_LIST_HEAD 0 \<lparr>nxt = \<lambda>_. 0, prv = \<lambda>_. 0\<rparr>),
     am_bufs = (\<lambda>a. if a = 1 then zero_buffer\<lparr>b_tid := 7, b_cpu := 1, b_data := 9, b_data_needs_freeing := True\<rparr>
       else zero_buffer\<lparr>b_tid := 8, b_cpu := 3, b_data_offset := 4096, b_size := 2 ^ 26 + 5\<rparr>),
     am_brk = 3, am_requests = 0, am_oom = (\<lambda>_. False), am_released = [], bits_per_long = 64\<rparr>"

definition small_queues :: "bool \<Rightarrow> auxtrace_queues" where
  "small_queues owned = \<lparr>queue_array = Some [\<lparr>q_head = 0, q_tid = 7, q_cpu = 1, q_set = owned, q_priv = 0\<rparr>],
     nr_queues = 1, new_data = False, populated = False, next_buffer_nr = 1, qs_mem = small_mem\<rparr>"

definition small_bufs :: "nat \<Rightarrow> addr list" where
  "small_bufs i = (if i = 0 then [1] else [])"

lemma small_inv: "qs_inv (small_queues owned) small_bufs" "unlinked (small_queues owned) small_bufs 2"
proof -
  have "ring (am_links small_mem) 0 [1]"
    by (simp add: ring_def small_mem_def list_add_tail_def list_add_between_def INIT_LIST_HEAD_def Let_def)
  moreover have "am_brk small_mem = 3" by (simp add: small_mem_def)
  ultimately show "qs_inv (small_queues owned) small_bufs"
    unfolding qs_inv_def small_queues_def
    by (intro exI [of _ "[\<lparr>q_head = 0, q_tid = 7, q_cpu = 1, q_set = owned, q_priv = 0\<rparr>]"] exI [of _ 0])
      (simp add: queue_lists_def below_def small_bufs_def)
  show "unlinked (small_queues owned) small_bufs 2"
    by (simp add: unlinked_def small_queues_def small_bufs_def small_mem_def)
qed

lemmas aq_eval =
  small_queues_def small_mem_def auxtrace_queues__init_def auxtrace_queues__add_event_def
  auxtrace_queues__add_event_buffer_def auxtrace_queues__add_buffer_def auxtrace_queues__grow_def
  auxtrace_alloc_queue_array_def aux_malloc_def queue_at_def set_queue_def upd_buf_def upd_qlinks_def
  AUXTRACE_INIT_NR_QUEUES_def sizeof_auxtrace_queue_def double_until.simps event_buffer_def zero_buffer_def
  list_splice_tail_def list_splice_between_def list_empty_def list_add_tail_def list_add_between_def
  INIT_LIST_HEAD_def wrap32_def rd_def Let_def upt_rec BUFFER_LIMIT_FOR_32_BIT_def split_loop.simps
  auxtrace_queues__split_buffer_def set_next_def set_prev_def

text \<open>An empty state, and the queues after \<open>auxtrace_queues__init\<close> and after two events.\<close>

definition aux_event :: "u32 \<Rightarrow> auxtrace_event" where
  "aux_event idx = \<lparr>ev_size = 64, ev_offset = 0, ev_reference = 5, ev_idx = idx, ev_tid = 7, ev_cpu = 1\<rparr>"

definition aux_session_mmap :: aux_session where
  "aux_session_mmap = \<lparr>one_mmap = True, one_mmap_offset = 0, one_mmap_addr = 4096, is_pipe = False,
     readn_ret = (\<lambda>_. 0)\<rparr>"

definition aux_start :: auxtrace_queues where
  "aux_start = \<lparr>queue_array = None, nr_queues = 0, new_data = False, populated = False, next_buffer_nr = 0,
     qs_mem = small_mem\<rparr>"

definition aux_init :: auxtrace_queues where
  "aux_init = snd (auxtrace_queues__init aux_start)"

definition aux_added :: auxtrace_queues where
  "aux_added = fst (snd (projr (auxtrace_queues__add_event aux_init aux_session_mmap (aux_event 3) 100)))"

lemma aux_init_ok: "auxtrace_queues__init aux_start = (0, aux_init)"
  by (simp add: aux_init_def auxtrace_queues__init_def auxtrace_alloc_queue_array_def aux_malloc_def Let_def
      aux_start_def small_mem_def AUXTRACE_INIT_NR_QUEUES_def sizeof_auxtrace_queue_def)

lemma aux_init_eq:
  "aux_init = aux_start\<lparr>nr_queues := 32, queue_array := Some (new_array 3 32),
     qs_mem := small_mem\<lparr>am_requests := 1, am_brk := 35,
       am_links := fold (\<lambda>i. INIT_LIST_HEAD (3 + i)) [0..<32] (am_links small_mem)\<rparr>\<rparr>"
  by (simp add: aux_init_def auxtrace_queues__init_def auxtrace_alloc_queue_array_def aux_malloc_def Let_def
      aux_start_def small_mem_def AUXTRACE_INIT_NR_QUEUES_def sizeof_auxtrace_queue_def new_array_def)

lemma aux_added_ok:
  "auxtrace_queues__add_event aux_init aux_session_mmap (aux_event 3) 100 = Inr (0, aux_added, Some 35)"
  by (simp add: aux_added_def aux_init_eq aux_start_def small_mem_def auxtrace_queues__add_event_def aux_malloc_def Let_def
      auxtrace_queues__add_event_buffer_def aux_session_mmap_def auxtrace_queues__add_buffer_def aux_event_def upd_buf_def
      queue_at_def new_array_def set_queue_def upd_qlinks_def event_buffer_def rd_def)

subsection \<open>What the queues guarantee\<close>

text \<open>
  Claim C10.  After any sequence of \<open>auxtrace_queues__add_event\<close> calls on initialised queues, for events with an
  index other than \<open>UINT_MAX\<close> that are not so large that a 32-bit build splits their buffer, with
  growth, refused events and failing allocations in between, the lists are proper and disjoint and
  queue \<open>i\<close> holds exactly the buffers of the accepted events with index \<open>i\<close>, in order of arrival,
  each with the data of its event and numbered by its place among all accepted events.
\<close>

theorem queues_hold_accepted_events:
  assumes "aq_run log qs"
  shows "\<exists>bufs. qs_inv qs bufs \<and> next_buffer_nr qs = of_nat (length log) \<and>
     (\<forall>i. list_all2 (\<lambda>(k, ev, off) b. describes ev off (of_nat k) (buf_at qs b)) (accepted_for i log) (bufs i))"
  using aq_run_holds [OF assms] unfolding holds_def .

theorem queues_hold_accepted_events_witness:
  "aq_run [(aux_event 3, 100)] aux_added \<and> next_buffer_nr aux_added = 1 \<and>
   (\<exists>bufs b. qs_inv aux_added bufs \<and> bufs 3 = [b] \<and> b_size (buf_at aux_added b) = 64)"
proof -
  have "aq_run [] aux_init" by (rule aq_run.init [OF aux_init_ok]) (simp add: aux_start_def)
  then have run: "aq_run [(aux_event 3, 100)] aux_added"
    using aq_run.queued [of "[]" aux_init "aux_event 3" aux_session_mmap 100 aux_added] aux_added_ok
    by (simp add: plain_def aux_init_eq small_mem_def aux_event_def)
  have "accepted_for 3 [(aux_event 3, 100)] = [(0, aux_event 3, 100)]"
    by (simp add: accepted_for_def aux_event_def)
  then show ?thesis using queues_hold_accepted_events [OF run] run
    by (auto simp: list_all2_Cons1 describes_def aux_event_def dest!: spec [of _ 3]) blast
qed

text \<open>
  \<open>auxtrace_queues__split_buffer\<close> ends, and what it queues are pieces of the 32-bit limit
  that follow one another in the file from the start of the buffer, all but the first marked
  consecutive; when it succeeds the buffer itself is left as the last piece, and the sizes add up
  to the size of the buffer.
\<close>

theorem split_pieces_cover_buffer:
  assumes "qs_inv qs bufs" "unlinked qs bufs buffer" "idx \<noteq> -1"
  shows "\<exists>err qs' ps. auxtrace_queues__split_buffer qs idx buffer = Inr (err, qs') \<and> err \<le> 0 \<and>
     qs_inv qs' (bufs(unat idx := bufs (unat idx) @ ps)) \<and>
     (\<forall>k < length ps. piece (buf_at qs buffer) False k (buf_at qs' (ps ! k))) \<and>
     (err = 0 \<longrightarrow> unat (b_size (buf_at qs buffer)) = length ps * 2 ^ 25 + unat (b_size (buf_at qs' buffer)) \<and>
        unat (b_size (buf_at qs' buffer)) \<le> 2 ^ 25 \<and>
        b_data_offset (buf_at qs' buffer) = b_data_offset (buf_at qs buffer) + of_nat (length ps) * BUFFER_LIMIT_FOR_32_BIT \<and>
        (b_consecutive (buf_at qs' buffer) \<longleftrightarrow> ps \<noteq> []))"
  using split_buffer_ok [OF assms] .

theorem split_pieces_cover_buffer_witness:
  "\<exists>qs ps. auxtrace_queues__split_buffer (small_queues False) 0 2 = Inr (0, qs) \<and>
     qs_inv qs (small_bufs(0 := 1 # ps)) \<and> length ps = 2 \<and> b_size (buf_at qs 2) = 5 \<and> b_consecutive (buf_at qs 2)"
proof -
  have "\<exists>qs. auxtrace_queues__split_buffer (small_queues False) 0 2 = Inr (0, qs) \<and> b_size (buf_at qs 2) = 5"
    by (simp add: aq_eval)
  then obtain qs where q: "auxtrace_queues__split_buffer (small_queues False) 0 2 = Inr (0, qs)" "b_size (buf_at qs 2) = 5"
    by blast
  have sz: "unat (b_size (buf_at (small_queues False) 2)) = 2 ^ 26 + 5"
    by (simp add: small_queues_def small_mem_def)
  obtain ps where ps: "qs_inv qs (small_bufs(0 := 1 # ps))" "2 ^ 26 + 5 = length ps * 2 ^ 25 + (5::nat)"
    "b_consecutive (buf_at qs 2) \<longleftrightarrow> ps \<noteq> []"
    using split_pieces_cover_buffer [OF small_inv, of 0 False] q sz by (auto simp: small_bufs_def)
  then have "length ps = 2" by simp
  then show ?thesis using q ps by (intro exI [of _ qs] exI [of _ ps]) auto
qed

text \<open>
  Claim C25.  \<open>auxtrace_queues__free\<close> ends and gives every queued buffer back exactly once, queue by
  queue and in list order: for each buffer first its mapping with \<open>munmap\<close>, if its data is mapped, or else the
  data, if the buffer owns it, and then the buffer itself; nothing else is given back.
\<close>

theorem queues_free_each_buffer_once:
  assumes "qs_inv qs bufs"
  shows "\<exists>qs'. auxtrace_queues__free qs = Inr qs' \<and> queue_array qs' = None \<and> nr_queues qs' = 0 \<and>
     am_released (qs_mem qs') = am_released (qs_mem qs) @
       concat (map (\<lambda>b. buffer_release b (buf_at qs b)) (concat (map bufs [0..<nr_queues qs]))) \<and>
     distinct (concat (map bufs [0..<nr_queues qs])) \<and>
     (\<forall>i < nr_queues qs. \<forall>b \<in> set (bufs i). \<not> b_data_needs_freeing (buf_at qs' b))"
  using queues_free_ok [OF assms] .

theorem queues_free_each_buffer_once_witness:
  "b_data_needs_freeing (buf_at (small_queues True) 1) \<and>
   (\<exists>qs'. auxtrace_queues__free (small_queues True) = Inr qs' \<and> am_released (qs_mem qs') = [Free_Data 9, Free_Buffer 1] \<and>
      \<not> b_data_needs_freeing (buf_at qs' 1))"
  using queues_free_each_buffer_once [OF small_inv(1), of True]
  by (auto simp: small_queues_def small_mem_def small_bufs_def buffer_release_def zero_buffer_def)

text \<open>
  Claim C32.  Growing the array loses the owners of the queues: a buffer of another cpu or thread
  that \<open>auxtrace_queues__add_buffer\<close> refuses with \<open>-EINVAL\<close> is accepted by the same call once
  \<open>auxtrace_queues__grow\<close> has succeeded, and then stands in one queue with the buffers of the
  former owner.
\<close>

theorem grow_forgets_queue_owner:
  assumes "qs_inv qs bufs" "queue_array qs = Some a" "unat idx < nr_queues qs" "unlinked qs bufs b"
    and "conflict (a ! unat idx) (buf_at qs b)" and "auxtrace_queues__grow qs n = Inr (0, qs1)"
  shows "auxtrace_queues__add_buffer qs idx b = Inr (- EINVAL, qs) \<and>
     (\<exists>qs2. auxtrace_queues__add_buffer qs1 idx b = Inr (0, qs2) \<and> qs_inv qs2 (bufs(unat idx := bufs (unat idx) @ [b])))"
proof -
  obtain a1 where g: "qs_inv qs1 bufs" "same_bufs qs qs1" "nr_queues qs \<le> nr_queues qs1" "queue_array qs1 = Some a1"
    "\<forall>q \<in> set a1. \<not> q_set q \<and> am_brk (qs_mem qs) \<le> q_head q"
    using grow_ok [OF assms(1), of n] assms(6) by auto
  have i: "unat idx < nr_queues qs1" using assms(3) g(3) by simp
  then have "a1 ! unat idx \<in> set a1" using g(1,4) by (auto simp: qs_inv_def)
  then have "\<not> conflict (a1 ! unat idx) (buf_at qs1 b)" using g(5) by (simp add: conflict_def)
  moreover have "unlinked qs1 bufs b" using assms(4) g(2,4,5) by (fastforce simp: unlinked_def same_bufs_def)
  ultimately show ?thesis
    using add_buffer_present(1) [OF assms(1-3,5)] add_buffer_present(2) [OF g(1,4) i] by blast
qed

theorem grow_forgets_queue_owner_witness:
  "\<exists>qs1 qs2. auxtrace_queues__add_buffer (small_queues True) 0 2 = Inr (- EINVAL, small_queues True) \<and>
     auxtrace_queues__grow (small_queues True) 2 = Inr (0, qs1) \<and> auxtrace_queues__add_buffer qs1 0 2 = Inr (0, qs2) \<and>
     qs_inv qs2 (small_bufs(0 := [1, 2]))"
proof -
  have "\<exists>qs1. auxtrace_queues__grow (small_queues True) 2 = Inr (0, qs1)" by (simp add: aq_eval)
  then obtain qs1 where "auxtrace_queues__grow (small_queues True) 2 = Inr (0, qs1)" by blast
  moreover have "\<exists>a. queue_array (small_queues True) = Some a \<and> conflict (a ! unat (0::u32)) (buf_at (small_queues True) 2)"
    by (simp add: small_queues_def small_mem_def conflict_def zero_buffer_def)
  ultimately show ?thesis
    using grow_forgets_queue_owner [OF small_inv(1) _ _ small_inv(2), of True _ 0 2 qs1]
    by (auto simp: small_queues_def small_bufs_def)
qed

text \<open>
  Claim C33.  An event with index \<open>UINT_MAX\<close> makes \<open>auxtrace_queues__add_buffer\<close> leave the array:
  \<open>idx + 1\<close> wraps to 0, so the array is reallocated at its old size, the call counts as a
  success, and \<open>queue_array[idx]\<close> is read far beyond its end.
\<close>

theorem add_buffer_index_wraps:
  assumes "qs_inv qs bufs" and "\<not> am_oom (qs_mem qs) (am_requests (qs_mem qs))" and "nr_queues qs \<le> 2 ^ 26"
  shows "auxtrace_queues__add_buffer qs (-1) b = Inl Out_Of_Bounds"
proof -
  obtain a k where a: "queue_array qs = Some a" "length a = nr_queues qs" "nr_queues qs = 2 ^ k" "k < 32"
    "queue_lists (qs_links qs) a bufs" "below (am_brk (qs_mem qs)) a bufs" using assms(1) by (rule qs_invE)
  have d: "double_until (nr_queues qs) 0 = Some (nr_queues qs)" by (simp add: double_until.simps)
  obtain m' where al: "auxtrace_alloc_queue_array (nr_queues qs) (qs_mem qs) = (Some (new_array (am_brk (qs_mem qs)) (nr_queues qs)), m')"
    "am_links m' = fold (\<lambda>i. INIT_LIST_HEAD (am_brk (qs_mem qs) + i)) [0..<nr_queues qs] (qs_links qs)"
    using assms(2,3) by (auto simp: auxtrace_alloc_queue_array_def aux_malloc_def Let_def new_array_def sizeof_auxtrace_queue_def)
  obtain qs1 a1 where g: "auxtrace_queues__grow qs 0 = Inr (0, qs1)" "queue_array qs1 = Some a1" "length a1 = nr_queues qs"
    using d al a grow_lists [OF a(5,6), of "nr_queues qs"] by (auto simp: auxtrace_queues__grow_def Let_def)
  have "unat (-1 :: u32) = 2 ^ 32 - 1" by (simp add: unsigned_minus_1_eq_mask mask_eq_exp_minus_1)
  then show ?thesis using g assms(3)
    by (simp add: auxtrace_queues__add_buffer_def queue_at_def rd_def)
qed

theorem add_buffer_index_wraps_witness:
  "auxtrace_queues__add_buffer (small_queues True) (-1) 2 = Inl Out_Of_Bounds"
  by (rule add_buffer_index_wraps [OF small_inv(1)]) (simp_all add: small_queues_def small_mem_def)

end
