(* ===== verification/Mmap_Ring.thy ===== *)
theory Mmap_Ring
  imports Perf_Prelude
begin

text \<open>
  Reading the ring buffer the kernel maps into perf: \<open>perf_mmap__read\<close> and the functions around it
  in \<^verbatim>\<open>src/tools/perf/util/evlist.c\<close> and \<^verbatim>\<open>evlist.h\<close>, which return
  one event at a time, and \<open>record__mmap_read\<close> of \<^verbatim>\<open>src/tools/perf/builtin-record.c\<close>,
  which writes everything new to the output file.  The byte with counter \<open>c\<close> is at
  \<open>c mod 2 ^ k\<close> of the data pages.
\<close>

subsection \<open>State\<close>

text \<open>
  The mapping: the data pages, \<open>data_head\<close> and \<open>data_tail\<close> of the control page, and the members of
  \<open>struct perf_mmap\<close>.  \<open>md_base\<close> and \<open>md_aux_base\<close> say whether the pointers are set.
\<close>

record perf_mmap =
  md_base :: bool
  md_data :: "u8 list"
  md_head :: u64
  md_tail :: u64
  md_mask :: u32
  md_fd :: int
  md_refcnt :: int
  md_prev :: u64
  md_aux_base :: bool
  md_event_copy :: "u8 list"

text \<open>An event pointer of the reader: into the data pages, or the copy in the structure.\<close>

datatype ring_event = In_Ring nat | In_Copy

definition sizeof_header :: nat where "sizeof_header = 8"
definition sizeof_perf_event :: nat where "sizeof_perf_event = 4168"
definition PERF_SAMPLE_MAX_SIZE :: nat where "PERF_SAMPLE_MAX_SIZE = 65536"

definition header_size_at :: "u8 list \<Rightarrow> nat \<Rightarrow> nat c_result" where
  "header_size_at data off = bnd (rd data (off + 6)) (\<lambda>lo. bnd (rd data (off + 7)) (\<lambda>hi. Inr (unat lo + 256 * unat hi)))"

definition mask64 :: "u32 \<Rightarrow> u64" where
  "mask64 m = scast m"

definition int_of_u64 :: "u64 \<Rightarrow> int" where
  "int_of_u64 w = sint (ucast w :: u32)"

subsection \<open>Reading one event\<close>

partial_function (option) copy_loop ::
  "u8 list \<Rightarrow> u32 \<Rightarrow> nat \<Rightarrow> u32 \<Rightarrow> nat \<Rightarrow> u8 list \<Rightarrow> u8 list c_result option" where
  "copy_loop data m dst offset len copy =
     (let cpy = min (unat (m + 1 - (offset AND m))) len
      in case memcpy copy dst data (unat (offset AND m)) cpy of
           Inl e \<Rightarrow> Some (Inl e)
         | Inr copy \<Rightarrow>
             if len - cpy \<noteq> 0 then copy_loop data m (dst + cpy) (offset + of_nat cpy) (len - cpy) copy
             else Some (Inr copy))"

text \<open>The result is the event, what \<open>*prev\<close> is set to, and the mapping with its event copy.\<close>

definition perf_mmap__read ::
  "perf_mmap \<Rightarrow> bool \<Rightarrow> u64 \<Rightarrow> u64 \<Rightarrow> (ring_event option \<times> u64 \<times> perf_mmap) c_result" where
  "perf_mmap__read md check_messup start end =
     (let m = mask64 (md_mask md);
          diff = int_of_u64 (end - start);
          messup = (check_messup \<and> (sint (md_mask md) div 2 < diff \<or> diff < 0));
          start = (if messup then end else start);
          diff = (if messup then 0 else diff)
      in if int sizeof_header \<le> diff then
           bnd (header_size_at (md_data md) (unat (start AND m))) (\<lambda>sz.
             if sz < sizeof_header \<or> diff < int sz then Inr (None, start, md)
             else if (start AND m) + of_nat sz \<noteq> (start + of_nat sz) AND m then
               bnd (bnd (returns (copy_loop (md_data md) (md_mask md) 0 (ucast start) (min sizeof_perf_event sz) (md_event_copy md))) id)
                 (\<lambda>copy. Inr (Some In_Copy, start + of_nat sz, md\<lparr>md_event_copy := copy\<rparr>))
             else Inr (Some (In_Ring (unat (start AND m))), start + of_nat sz, md))
         else Inr (None, start, md))"

definition perf_mmap__read_head :: "perf_mmap \<Rightarrow> u64" where
  "perf_mmap__read_head md = md_head md"

definition perf_mmap__write_tail :: "perf_mmap \<Rightarrow> u64 \<Rightarrow> perf_mmap" where
  "perf_mmap__write_tail md tail = md\<lparr>md_tail := tail\<rparr>"

definition perf_mmap__read_forward :: "perf_mmap \<Rightarrow> bool \<Rightarrow> (ring_event option \<times> perf_mmap) c_result" where
  "perf_mmap__read_forward md check_messup =
     (if md_refcnt md = 0 then Inr (None, md)
      else bnd (perf_mmap__read md check_messup (md_prev md) (perf_mmap__read_head md)) (\<lambda>(ev, prev, md).
             Inr (ev, md\<lparr>md_prev := prev\<rparr>)))"

definition perf_mmap__read_backward :: "perf_mmap \<Rightarrow> (ring_event option \<times> perf_mmap) c_result" where
  "perf_mmap__read_backward md =
     (let head = perf_mmap__read_head md;
          m1 = mask64 (md_mask md + 1);
          end = (if - head < m1 then 0 else head + mask64 (md_mask md) + 1)
      in if md_refcnt md = 0 \<or> head = 0 then Inr (None, md)
         else bnd (perf_mmap__read md False (md_prev md) end) (\<lambda>(ev, prev, md). Inr (ev, md\<lparr>md_prev := prev\<rparr>)))"

definition perf_mmap__read_catchup :: "perf_mmap \<Rightarrow> perf_mmap" where
  "perf_mmap__read_catchup md = (if md_refcnt md = 0 then md else md\<lparr>md_prev := perf_mmap__read_head md\<rparr>)"

definition perf_mmap__empty :: "perf_mmap \<Rightarrow> bool" where
  "perf_mmap__empty md \<longleftrightarrow> perf_mmap__read_head md = md_prev md \<and> \<not> md_aux_base md"

definition perf_mmap__munmap :: "perf_mmap \<Rightarrow> perf_mmap" where
  "perf_mmap__munmap md =
     (let md = (if md_base md then md\<lparr>md_base := False, md_fd := -1, md_refcnt := 0\<rparr> else md)
      in md\<lparr>md_aux_base := False\<rparr>)"

definition perf_mmap__get :: "perf_mmap \<Rightarrow> perf_mmap" where
  "perf_mmap__get md = md\<lparr>md_refcnt := md_refcnt md + 1\<rparr>"

text \<open>\<open>None\<close>: the \<open>BUG_ON\<close> ended the program.\<close>

definition perf_mmap__put :: "perf_mmap \<Rightarrow> perf_mmap option" where
  "perf_mmap__put md =
     (if md_base md \<and> md_refcnt md = 0 then None
      else let md = md\<lparr>md_refcnt := md_refcnt md - 1\<rparr>
           in Some (if md_refcnt md = 0 then perf_mmap__munmap md else md))"

definition perf_mmap__consume :: "perf_mmap \<Rightarrow> bool \<Rightarrow> perf_mmap option" where
  "perf_mmap__consume md overwrite =
     (let md = (if overwrite then md else perf_mmap__write_tail md (md_prev md))
      in if md_refcnt md = 1 \<and> perf_mmap__empty md then perf_mmap__put md else Some md)"

subsection \<open>Writing everything new\<close>

partial_function (option) backward_loop ::
  "u8 list \<Rightarrow> u32 \<Rightarrow> u64 \<Rightarrow> nat \<Rightarrow> u64 \<Rightarrow> u64 c_result option" where
  "backward_loop data m head pheader evt_head =
     (if ucast (m + 1) \<le> evt_head - head then
        Some (if ucast (m + 1) < evt_head - head
              then bnd (header_size_at data pheader) (\<lambda>sz. Inr (evt_head - of_nat sz))
              else Inr evt_head)
      else let pheader = unat (evt_head AND mask64 m)
           in case header_size_at data pheader of
                Inl e \<Rightarrow> Some (Inl e)
              | Inr sz \<Rightarrow> if sz = 0 then Some (Inr evt_head)
                         else backward_loop data m head pheader (evt_head + of_nat sz))"

definition backward_rb_find_range :: "u8 list \<Rightarrow> u32 \<Rightarrow> u64 \<Rightarrow> (u64 \<times> u64) c_result" where
  "backward_rb_find_range data m head =
     bnd (bnd (returns (backward_loop data m head (unat (head AND mask64 m)) head)) id) (\<lambda>end. Inr (head, end))"

definition rb_find_range :: "u8 list \<Rightarrow> u32 \<Rightarrow> u64 \<Rightarrow> u64 \<Rightarrow> bool \<Rightarrow> (u64 \<times> u64) c_result" where
  "rb_find_range data m head old backward =
     (if backward then backward_rb_find_range data m head else Inr (old, head))"

text \<open>
  The recorder: the output file as the bytes written so far, and the schedule of
  \<open>perf_data_file__write\<close>, which fails when it says so.
\<close>

record recorder =
  rec_out :: "u8 list"
  rec_samples :: nat
  rec_bytes_written :: u64
  rec_writes :: nat
  rec_fail :: "nat \<Rightarrow> bool"

definition record__write :: "recorder \<Rightarrow> u8 list \<Rightarrow> int \<times> recorder" where
  "record__write r bytes =
     (let r' = r\<lparr>rec_writes := Suc (rec_writes r)\<rparr>
      in if rec_fail r (rec_writes r) then (-1, r')
         else (0, r'\<lparr>rec_out := rec_out r @ bytes, rec_bytes_written := rec_bytes_written r + of_nat (length bytes)\<rparr>))"

definition ring_slice :: "u8 list \<Rightarrow> nat \<Rightarrow> nat \<Rightarrow> u8 list c_result" where
  "ring_slice data off n = (if off + n \<le> length data then Inr (take n (drop off data)) else Inl Out_Of_Bounds)"

text \<open>The two writes; the second component is what is left of \<open>[start, end)\<close> after the first.\<close>

definition write_wrapped :: "recorder \<Rightarrow> u8 list \<Rightarrow> u64 \<Rightarrow> u64 \<Rightarrow> u64 \<Rightarrow> (int \<times> u64 \<times> recorder) c_result" where
  "write_wrapped r data m start end =
     (if (start AND m) + (end - start) \<noteq> end AND m then
        let sz = m + 1 - (start AND m)
        in bnd (ring_slice data (unat (start AND m)) (unat sz)) (\<lambda>bytes.
             case record__write r bytes of (rc, r) \<Rightarrow> Inr (rc, start + sz, r))
      else Inr (0, start, r))"

definition record__mmap_read ::
  "recorder \<Rightarrow> perf_mmap \<Rightarrow> bool \<Rightarrow> bool \<Rightarrow> (int \<times> recorder \<times> perf_mmap) c_result" where
  "record__mmap_read r md overwrite backward =
     (let head = perf_mmap__read_head md;
          m = mask64 (md_mask md)
      in bnd (rb_find_range (md_data md) (md_mask md) head (md_prev md) backward) (\<lambda>(start, end).
           if start = end then Inr (0, r, md)
           else let r = r\<lparr>rec_samples := Suc (rec_samples r)\<rparr>;
                    finish = (\<lambda>r. case perf_mmap__consume (md\<lparr>md_prev := head\<rparr>) (overwrite \<or> backward) of
                       None \<Rightarrow> Inl Aborted | Some md \<Rightarrow> Inr (0, r, md))
                in if m + 1 < end - start then finish r
                   else bnd (write_wrapped r (md_data md) m start end) (\<lambda>(rc, start, r).
                     if rc < 0 then Inr (-1, r, md)
                     else bnd (ring_slice (md_data md) (unat (start AND m)) (unat (end - start))) (\<lambda>bytes.
                       case record__write r bytes of (rc, r) \<Rightarrow>
                         if rc < 0 then Inr (-1, r, md) else finish r))))"

subsection \<open>The bytes of a ring\<close>

definition ring_bytes :: "u8 list \<Rightarrow> nat \<Rightarrow> nat \<Rightarrow> u8 list" where
  "ring_bytes data s n = map (\<lambda>i. data ! ((s + i) mod length data)) [0..<n]"

lemma ring_bytes_length [simp]: "length (ring_bytes data s n) = n"
  by (simp add: ring_bytes_def)

lemma ring_bytes_0 [simp]: "ring_bytes data s 0 = []"
  by (simp add: ring_bytes_def)

lemma ring_bytes_add: "ring_bytes data s (a + b) = ring_bytes data s a @ ring_bytes data (s + a) b"
  by (rule nth_equalityI) (auto simp: ring_bytes_def nth_append add.assoc)

lemma ring_bytes_mod: "s mod length data = t mod length data \<Longrightarrow> ring_bytes data s n = ring_bytes data t n"
  unfolding ring_bytes_def by (metis mod_add_left_eq)

lemma ring_bytes_slice:
  assumes "s mod length data + n \<le> length data"
  shows "ring_bytes data s n = take n (drop (s mod length data) data)"
proof (rule nth_equalityI)
  fix i assume "i < length (ring_bytes data s n)"
  then have i: "i < n" by simp
  then have "(s + i) mod length data = s mod length data + i"
    using assms mod_less [of "s mod length data + i" "length data"] by (simp add: mod_add_left_eq)
  then show "ring_bytes data s n ! i = take n (drop (s mod length data) data) ! i"
    using i assms by (simp add: ring_bytes_def)
qed (use assms in simp)

text \<open>A well-formed mapping: \<open>2 ^ k\<close> bytes of data and the matching mask.\<close>

definition md_ok :: "nat \<Rightarrow> perf_mmap \<Rightarrow> bool" where
  "md_ok k md \<longleftrightarrow> 3 \<le> k \<and> k \<le> 30 \<and> md_mask md = mask k \<and> length (md_data md) = 2 ^ k \<and>
     length (md_event_copy md) = PERF_SAMPLE_MAX_SIZE"

lemma mask64_mask: "k \<le> 31 \<Longrightarrow> mask64 (mask k) = mask k"
  unfolding mask64_def by (rule bit_word_eqI) (auto simp: bit_simps)

lemma unat_and_mask: "unat (w AND mask k) = unat (w :: 'a::len word) mod 2 ^ k"
proof -
  have "unat (w AND mask k) = unat (take_bit k w)" by (simp add: take_bit_eq_mask)
  also have "\<dots> = take_bit k (unat w)" by (rule unsigned_take_bit_eq)
  finally show ?thesis by (simp add: take_bit_eq_mod)
qed

lemma mask_plus_1: "(mask k :: 'a::len word) + 1 = 2 ^ k"
  by (simp add: mask_eq_exp_minus_1)

lemma unat_pow2: "k < LENGTH('a::len) \<Longrightarrow> unat ((2 :: 'a word) ^ k) = 2 ^ k"
proof -
  assume "k < LENGTH('a)"
  then have "(2::nat) ^ k < 2 ^ LENGTH('a)" by simp
  moreover have "(2 :: 'a word) ^ k = of_nat (2 ^ k)" by simp
  ultimately show ?thesis by (metis mod_less unat_of_nat)
qed

lemma unat_room:
  fixes w :: "'a::len word"
  assumes "k < LENGTH('a)"
  shows "unat (mask k + 1 - (w AND mask k)) = 2 ^ k - unat w mod 2 ^ k"
proof -
  have "unat (w AND mask k) < 2 ^ k" by (simp add: unat_and_mask)
  then show ?thesis using assms by (simp add: mask_plus_1 unat_sub_if' unat_pow2 unat_and_mask)
qed

lemma unat_plus_mod:
  fixes w :: "'a::len word"
  assumes "k \<le> LENGTH('a)"
  shows "unat (w + of_nat n) mod 2 ^ k = (unat w + n) mod 2 ^ k"
proof -
  have "(2::nat) ^ k dvd 2 ^ LENGTH('a)" using assms by (rule le_imp_power_dvd)
  then show ?thesis
    by (simp add: unat_word_ariths unat_of_nat mod_mod_cancel) (metis mod_add_right_eq mod_mod_cancel)
qed

lemma unat_ucast_mod: "k \<le> 32 \<Longrightarrow> unat (ucast (w :: u64) :: u32) mod 2 ^ k = unat w mod 2 ^ k"
proof -
  assume "k \<le> 32"
  then have "(2::nat) ^ k dvd 2 ^ 32" by (rule le_imp_power_dvd)
  then show ?thesis using mod_mod_cancel [of "2 ^ k" "2 ^ 32" "unat w"]
    by (simp add: unsigned_ucast_eq take_bit_eq_mod)
qed

lemma copy_loop_ok:
  assumes "k \<le> 30" "length data = 2 ^ k" "dst + len \<le> length copy" "0 < len"
  shows "copy_loop data (mask k) dst offset len copy =
     Some (Inr (take dst copy @ ring_bytes data (unat offset) len @ drop (dst + len) copy))"
  using assms(3,4)
proof (induction len arbitrary: dst offset copy rule: less_induct)
  case (less len)
  define r where "r = 2 ^ k - unat offset mod 2 ^ k"
  let ?c = "min r len"
  have pos: "unat offset mod 2 ^ k < 2 ^ k" by simp
  have room: "unat (mask k + 1 - (offset AND mask k)) = r" "0 < r"
    using assms(1) unat_room [of k offset] pos by (simp_all add: r_def)
  let ?copy = "take dst copy @ ring_bytes data (unat offset) ?c @ drop (dst + ?c) copy"
  have fit: "unat offset mod 2 ^ k + ?c \<le> 2 ^ k" using pos unfolding r_def by linarith
  have mc: "memcpy copy dst data (unat (offset AND mask k)) ?c = Inr ?copy"
    using less.prems fit assms(2) ring_bytes_slice [of "unat offset" data ?c]
    by (simp add: memcpy_def unat_and_mask)
  show ?case
  proof (cases "?c = len")
    case True
    then show ?thesis using mc room(1) by (subst copy_loop.simps) (simp add: Let_def)
  next
    case False
    then have c: "?c = r" "r < len" "0 < r" using room(2) by auto
    have step: "copy_loop data (mask k) dst offset len copy =
        copy_loop data (mask k) (dst + r) (offset + of_nat r) (len - r) ?copy"
      using mc room(1) c by (subst copy_loop.simps) (simp add: Let_def)
    have "unat (offset + of_nat r) mod length data = (unat offset + r) mod length data"
      using assms(1,2) unat_plus_mod [of k offset r] by simp
    note ring = ring_bytes_mod [OF this, of "len - r"]
    have "copy_loop data (mask k) (dst + r) (offset + of_nat r) (len - r) ?copy =
        Some (Inr (take (dst + r) ?copy @ ring_bytes data (unat (offset + of_nat r)) (len - r) @ drop (dst + r + (len - r)) ?copy))"
      by (rule less.IH) (use less.prems c in auto)
    moreover have "ring_bytes data (unat offset) len = ring_bytes data (unat offset) r @ ring_bytes data (unat offset + r) (len - r)"
      using ring_bytes_add [of data "unat offset" r "len - r"] c by simp
    ultimately show ?thesis using step ring c less.prems by (simp add: add.commute)
  qed
qed


subsection \<open>One event\<close>

definition ring_header_size :: "u8 list \<Rightarrow> nat \<Rightarrow> nat" where
  "ring_header_size data s =
     unat (data ! ((s + 6) mod length data)) + 256 * unat (data ! ((s + 7) mod length data))"

definition event_bytes :: "perf_mmap \<Rightarrow> ring_event \<Rightarrow> nat \<Rightarrow> u8 list" where
  "event_bytes md ev n = (case ev of In_Ring off \<Rightarrow> take n (drop off (md_data md)) | In_Copy \<Rightarrow> take n (md_event_copy md))"

lemma ring_header_size_less: "ring_header_size data s < 65536"
  using unat_u8 [of "data ! ((s + 6) mod length data)"] unat_u8 [of "data ! ((s + 7) mod length data)"]
  unfolding ring_header_size_def by linarith

lemma aligned_header:
  assumes "8 dvd s" "3 \<le> k" "length data = 2 ^ k"
  shows "s mod 2 ^ k + 8 \<le> 2 ^ k" and "header_size_at data (s mod 2 ^ k) = Inr (ring_header_size data s)"
proof -
  have "(8::nat) dvd 2 ^ k" using le_imp_power_dvd [OF assms(2), of "2::nat"] by simp
  then obtain b where b: "(2::nat) ^ k = 8 * b" by (rule dvdE)
  have "8 dvd s mod 2 ^ k" using assms(1) \<open>(8::nat) dvd 2 ^ k\<close> by (simp add: dvd_mod)
  then obtain a where a: "s mod 2 ^ k = 8 * a" by (rule dvdE)
  have "s mod 2 ^ k < 2 ^ k" by simp
  then have "a < b" using a b by linarith
  then show le: "s mod 2 ^ k + 8 \<le> 2 ^ k" using a b by linarith
  have "(s + i) mod 2 ^ k = s mod 2 ^ k + i" if "i < 8" for i
    using le that mod_less [of "s mod 2 ^ k + i" "2 ^ k"] by (simp add: mod_add_left_eq)
  then show "header_size_at data (s mod 2 ^ k) = Inr (ring_header_size data s)"
    using le assms(3) by (simp add: header_size_at_def ring_header_size_def)
qed

lemma int_of_u64_small:
  assumes "unat w < 2 ^ 31"
  shows "int_of_u64 w = int (unat w)"
proof -
  have "int (unat w) < int (2 ^ 31)" using assms by (simp only: of_nat_less_iff)
  then have u: "uint w < 2 ^ 31" by simp
  then have "uint (ucast w :: u32) = uint w" by (simp add: unsigned_ucast_eq take_bit_int_eq_self)
  moreover have "signed_take_bit 31 (uint w) = uint w"
    using u by (intro signed_take_bit_int_eq_self) (auto intro: order_trans [of _ 0])
  ultimately show ?thesis by (simp add: int_of_u64_def sint_uint)
qed

lemma in_place_iff:
  fixes start :: u64
  assumes "k \<le> 30" "sz \<le> 2 ^ 30"
  shows "(start AND mask k) + of_nat sz = (start + of_nat sz) AND mask k \<longleftrightarrow> unat start mod 2 ^ k + sz < 2 ^ k"
proof -
  have k: "(2::nat) ^ k \<le> 2 ^ 30" using assms(1) by (rule power_increasing) simp
  have "unat start mod 2 ^ k < 2 ^ k" by simp
  then have "unat start mod 2 ^ k < 2 ^ 30" using k by (rule order_less_le_trans)
  then have lt: "unat start mod 2 ^ k + sz < 2 ^ 64" using assms(2) by simp
  have "unat ((start AND mask k) + of_nat sz) = unat start mod 2 ^ k + sz"
    using lt assms(2) by (simp add: unat_word_ariths unat_and_mask unat_of_nat)
  moreover have "unat ((start + of_nat sz) AND mask k) = (unat start + sz) mod 2 ^ k"
    using unat_plus_mod [of k start sz] assms(1) by (simp add: unat_and_mask)
  moreover have "(unat start + sz) mod 2 ^ k = (unat start mod 2 ^ k + sz) mod 2 ^ k" by (simp add: mod_add_left_eq)
  moreover have "unat start mod 2 ^ k + sz = (unat start mod 2 ^ k + sz) mod 2 ^ k \<longleftrightarrow> unat start mod 2 ^ k + sz < 2 ^ k"
    by (metis mod_less mod_less_divisor zero_less_numeral zero_less_power)
  ultimately show ?thesis by (simp add: word_unat_eq_iff)
qed


lemma half_mask:
  assumes "0 < k" "k \<le> 31"
  shows "sint (mask k :: u32) div 2 = int (2 ^ k div 2) - 1"
proof -
  obtain j where k: "k = Suc j" using assms(1) by (cases k) auto
  have le: "(2::int) ^ k \<le> 2 ^ 31" using assms(2) by (rule power_increasing) simp
  have "(mask k :: u32) = take_bit k (- 1)" by (simp add: take_bit_minus_one_eq_mask)
  then have "uint (mask k :: u32) = take_bit k (mask 32)"
    by (simp only: unsigned_take_bit_eq unsigned_minus_1_eq_mask len_of_numeral_defs) simp
  then have "uint (mask k :: u32) = mask k" using assms(2) by (simp add: take_bit_of_mask min_def)
  then have "uint (mask k :: u32) = 2 ^ k - 1" by (simp add: mask_eq_exp_minus_1)
  moreover have "signed_take_bit 31 ((2::int) ^ k - 1) = 2 ^ k - 1"
  proof (rule signed_take_bit_int_eq_self)
    show "- (2 ^ 31) \<le> (2::int) ^ k - 1" by (rule order_trans [of _ 0]) simp_all
  qed (use le in simp)
  ultimately have "sint (mask k :: u32) = 2 ^ k - 1" by (simp add: sint_uint)
  then show ?thesis by (simp add: k)
qed

lemma perf_mmap_read_eq:
  assumes md: "md_ok k md" and start: "8 dvd unat start" and n: "unat (end - start) < 2 ^ 31" "check_messup \<longrightarrow> unat (end - start) < 2 ^ k div 2"
  defines "sz \<equiv> ring_header_size (md_data md) (unat start)" and "n \<equiv> unat (end - start)"
  shows "perf_mmap__read md check_messup start end =
     (if 8 \<le> n then
        if sz < 8 \<or> n < sz then Inr (None, start, md)
        else if \<not> unat start mod 2 ^ k + sz < 2 ^ k then
          bnd (bnd (returns (copy_loop (md_data md) (mask k) 0 (ucast start) (min sizeof_perf_event sz) (md_event_copy md))) id)
            (\<lambda>copy. Inr (Some In_Copy, start + of_nat sz, md\<lparr>md_event_copy := copy\<rparr>))
        else Inr (Some (In_Ring (unat start mod 2 ^ k)), start + of_nat sz, md)
      else Inr (None, start, md))"
proof -
  let ?d = "md_data md"
  have k: "3 \<le> k" "k \<le> 30" "md_mask md = mask k" "length ?d = 2 ^ k"
    using md by (auto simp: md_ok_def)
  have m: "mask64 (mask k) = mask k" using k by (simp add: mask64_mask)
  have diff: "int_of_u64 (end - start) = int n" unfolding n_def by (rule int_of_u64_small [OF n(1)])
  have half: "sint (mask k :: u32) div 2 = int (2 ^ k div 2) - 1" using k by (intro half_mask) simp_all
  have nm: "\<not> (check_messup \<and> (sint (md_mask md) div 2 < int_of_u64 (end - start) \<or> int_of_u64 (end - start) < 0))"
  proof (intro notI, elim conjE)
    assume c: "check_messup" "sint (md_mask md) div 2 < int_of_u64 (end - start) \<or> int_of_u64 (end - start) < 0"
    from c(2) have "int (2 ^ k div 2) - 1 < int n \<or> int n < 0" by (simp only: k(3) half diff)
    then show False using n(2) c(1) unfolding n_def [symmetric] by linarith
  qed
  have hd: "header_size_at ?d (unat start mod 2 ^ k) = Inr sz"
    using aligned_header(2) [OF start k(1,4)] by (simp add: sz_def)
  have szl: "sz \<le> 2 ^ 30" using ring_header_size_less [of ?d "unat start"] by (simp add: sz_def)
  show ?thesis unfolding perf_mmap__read_def Let_def if_not_P [OF nm]
    by (simp only: m hd bnd_simps diff in_place_iff [OF k(2) szl] k(3) unat_and_mask sizeof_header_def of_nat_le_iff of_nat_less_iff)
qed

lemma perf_mmap_read_none:
  assumes "md_ok k md" "8 dvd unat start" "unat (end - start) < 2 ^ 31" "check_messup \<longrightarrow> unat (end - start) < 2 ^ k div 2"
    and "\<not> (8 \<le> unat (end - start) \<and> 8 \<le> ring_header_size (md_data md) (unat start) \<and>
      ring_header_size (md_data md) (unat start) \<le> unat (end - start))"
  shows "perf_mmap__read md check_messup start end = Inr (None, start, md)"
  using assms(5) unfolding perf_mmap_read_eq [OF assms(1-4)] by auto

lemma perf_mmap_read_wrapped:
  assumes md: "md_ok k md" "8 dvd unat start" "unat (end - start) < 2 ^ 31" "check_messup \<longrightarrow> unat (end - start) < 2 ^ k div 2"
  defines "sz \<equiv> ring_header_size (md_data md) (unat start)"
  assumes ok: "8 \<le> sz" "sz \<le> unat (end - start)" "\<not> unat start mod 2 ^ k + sz < 2 ^ k"
  shows "perf_mmap__read md check_messup start end = Inr (Some In_Copy, start + of_nat sz,
     md\<lparr>md_event_copy := ring_bytes (md_data md) (unat start) (min sizeof_perf_event sz) @ drop (min sizeof_perf_event sz) (md_event_copy md)\<rparr>)"
proof -
  let ?l = "min sizeof_perf_event sz"
  have k: "3 \<le> k" "k \<le> 30" "length (md_data md) = 2 ^ k" "length (md_event_copy md) = PERF_SAMPLE_MAX_SIZE"
    using md(1) by (auto simp: md_ok_def)
  have szl: "sz < 2 ^ 16" using ring_header_size_less [of "md_data md" "unat start"] by (simp add: sz_def)
  have "ring_bytes (md_data md) (unat (ucast start :: u32)) ?l = ring_bytes (md_data md) (unat start) ?l"
    by (rule ring_bytes_mod) (use unat_ucast_mod [of k start] k in simp)
  then have "copy_loop (md_data md) (mask k) 0 (ucast start) ?l (md_event_copy md) =
      Some (Inr (ring_bytes (md_data md) (unat start) ?l @ drop ?l (md_event_copy md)))"
    using copy_loop_ok [OF k(2,3), of 0 ?l "md_event_copy md" "ucast start"] k(4) ok szl
    by (simp add: PERF_SAMPLE_MAX_SIZE_def sizeof_perf_event_def)
  then show ?thesis using ok unfolding perf_mmap_read_eq [OF md] sz_def [symmetric] by simp
qed

lemma perf_mmap_read_event:
  assumes md: "md_ok k md" "8 dvd unat start" "unat (end - start) < 2 ^ 31" "check_messup \<longrightarrow> unat (end - start) < 2 ^ k div 2"
  defines "sz \<equiv> ring_header_size (md_data md) (unat start)"
  assumes ok: "8 \<le> sz" "sz \<le> unat (end - start)"
  shows "\<exists>ev c. perf_mmap__read md check_messup start end = Inr (Some ev, start + of_nat sz, md\<lparr>md_event_copy := c\<rparr>) \<and>
     length c = PERF_SAMPLE_MAX_SIZE \<and>
     event_bytes (md\<lparr>md_event_copy := c\<rparr>) ev (min sizeof_perf_event sz) = ring_bytes (md_data md) (unat start) (min sizeof_perf_event sz)"
proof (cases "unat start mod 2 ^ k + sz < 2 ^ k")
  case True
  let ?l = "min sizeof_perf_event sz"
  have k: "length (md_data md) = 2 ^ k" "length (md_event_copy md) = PERF_SAMPLE_MAX_SIZE" using md(1) by (auto simp: md_ok_def)
  have "perf_mmap__read md check_messup start end = Inr (Some (In_Ring (unat start mod 2 ^ k)), start + of_nat sz, md\<lparr>md_event_copy := md_event_copy md\<rparr>)"
    using ok True unfolding perf_mmap_read_eq [OF md] sz_def [symmetric] by simp
  moreover have "ring_bytes (md_data md) (unat start) ?l = take ?l (drop (unat start mod 2 ^ k) (md_data md))"
    using ring_bytes_slice [of "unat start" "md_data md" ?l] True k(1) by simp
  ultimately show ?thesis using k(2)
    by (intro exI [of _ "In_Ring (unat start mod 2 ^ k)"] exI [of _ "md_event_copy md"]) (simp add: event_bytes_def)
next
  case False
  have szl: "sz < 2 ^ 16" using ring_header_size_less [of "md_data md" "unat start"] by (simp add: sz_def)
  have c: "length (md_event_copy md) = PERF_SAMPLE_MAX_SIZE" using md(1) by (simp add: md_ok_def)
  show ?thesis using perf_mmap_read_wrapped [OF md] ok False szl c unfolding sz_def [symmetric]
    by (intro exI [of _ In_Copy] exI) (auto simp: event_bytes_def PERF_SAMPLE_MAX_SIZE_def sizeof_perf_event_def)
qed

subsection \<open>Reading the records the kernel wrote\<close>

definition le16_at :: "u8 list \<Rightarrow> nat \<Rightarrow> nat" where
  "le16_at bs i = unat (bs ! i) + 256 * unat (bs ! Suc i)"

text \<open>
  The loop of the tools that consume events one by one: read, use the bytes of the event,
  consume, until there is none.  \<open>n\<close> bounds the number of turns.
\<close>

primrec mmap_events :: "nat \<Rightarrow> perf_mmap \<Rightarrow> (u8 list list \<times> perf_mmap) c_result" where
  "mmap_events 0 md = Inl Diverges"
| "mmap_events (Suc n) md =
     bnd (perf_mmap__read_forward md False) (\<lambda>(ev, md).
       case ev of
         None \<Rightarrow> Inr ([], md)
       | Some e \<Rightarrow>
           (let bytes = event_bytes md e (le16_at (event_bytes md e sizeof_header) 6)
            in case perf_mmap__consume md False of
                 None \<Rightarrow> Inl Aborted
               | Some md \<Rightarrow> bnd (mmap_events n md) (\<lambda>(rest, md). Inr (bytes # rest, md))))"

definition record_ok :: "u8 list \<Rightarrow> bool" where
  "record_ok r \<longleftrightarrow> sizeof_header \<le> length r \<and> 8 dvd length r \<and> length r \<le> sizeof_perf_event \<and> le16_at r 6 = length r"

definition holds_records :: "perf_mmap \<Rightarrow> u8 list list \<Rightarrow> bool" where
  "holds_records md rs \<longleftrightarrow> (\<forall>r \<in> set rs. record_ok r) \<and> 8 dvd unat (md_prev md) \<and>
     length (concat rs) \<le> length (md_data md) \<and>
     concat rs = ring_bytes (md_data md) (unat (md_prev md)) (length (concat rs)) \<and>
     md_head md = md_prev md + of_nat (length (concat rs))"

lemma ring_bytes_nth: "i < n \<Longrightarrow> ring_bytes data s n ! i = data ! ((s + i) mod length data)"
  by (simp add: ring_bytes_def)

lemma first_record_size:
  assumes "ring_bytes data s (length r) = r" "8 \<le> length r"
  shows "ring_header_size data s = le16_at r 6"
proof -
  have "r ! i = data ! ((s + i) mod length data)" if "i < 8" for i
    using ring_bytes_nth [of i "length r" data s] assms that by simp
  then show ?thesis by (simp add: ring_header_size_def le16_at_def)
qed

lemma event_bytes_prev: "event_bytes (md\<lparr>md_event_copy := c, md_prev := p\<rparr>) ev n = event_bytes (md\<lparr>md_event_copy := c\<rparr>) ev n"
  by (cases ev) (simp_all add: event_bytes_def)

lemma read_first:
  assumes md: "md_ok k md" "md_refcnt md \<noteq> 0" and h: "holds_records md (r # rs)"
  shows "\<exists>ev c. perf_mmap__read_forward md False = Inr (Some ev, md\<lparr>md_event_copy := c, md_prev := md_prev md + of_nat (length r)\<rparr>) \<and>
     length c = PERF_SAMPLE_MAX_SIZE \<and>
     event_bytes (md\<lparr>md_event_copy := c, md_prev := md_prev md + of_nat (length r)\<rparr>) ev (length r) = r"
proof -
  let ?n = "length (concat (r # rs))" and ?s = "unat (md_prev md)"
  have k: "k \<le> 30" "length (md_data md) = 2 ^ k" using md by (auto simp: md_ok_def)
  have r: "record_ok r" "8 dvd ?s" "?n \<le> 2 ^ k" "concat (r # rs) = ring_bytes (md_data md) ?s ?n" "md_head md = md_prev md + of_nat ?n"
    using h k(2) by (simp_all add: holds_records_def)
  have len: "8 \<le> length r" "length r \<le> sizeof_perf_event" "le16_at r 6 = length r"
    using r(1) by (auto simp: record_ok_def sizeof_header_def)
  have "(2::nat) ^ k \<le> 2 ^ 30" using k(1) by (rule power_increasing) simp
  then have n: "?n < 2 ^ 31" using r(3) by simp
  have "md_head md - md_prev md = of_nat ?n" unfolding r(5) by (rule add_diff_cancel_left')
  then have avail: "unat (md_head md - md_prev md) = ?n" using n by (simp only: unat_of_nat) simp
  have "r @ concat rs = ring_bytes (md_data md) ?s (length r) @ ring_bytes (md_data md) (?s + length r) (length (concat rs))"
    using r(4) ring_bytes_add [of "md_data md" ?s "length r" "length (concat rs)"] by simp
  then have rb: "ring_bytes (md_data md) ?s (length r) = r" by (simp add: append_eq_append_conv)
  then have hs: "ring_header_size (md_data md) ?s = length r" using first_record_size [OF rb len(1)] len(3) by simp
  have "8 \<le> unat (md_head md - md_prev md) \<and> 8 \<le> ring_header_size (md_data md) ?s \<and> ring_header_size (md_data md) ?s \<le> unat (md_head md - md_prev md)"
    using avail hs len(1) by simp
  with perf_mmap_read_event [OF md(1) r(2), of "md_head md" False] avail n
  obtain ev c where e: "perf_mmap__read md False (md_prev md) (md_head md) = Inr (Some ev, md_prev md + of_nat (length r), md\<lparr>md_event_copy := c\<rparr>)"
    "length c = PERF_SAMPLE_MAX_SIZE" "event_bytes (md\<lparr>md_event_copy := c\<rparr>) ev (length r) = r"
    using len(2) rb by (auto simp: hs min_absorb2)
  then show ?thesis using md(2)
    by (intro exI [of _ ev] exI [of _ c]) (simp add: perf_mmap__read_forward_def perf_mmap__read_head_def event_bytes_prev)
qed

lemma read_none:
  assumes md: "md_ok k md" and h: "holds_records md []"
  shows "perf_mmap__read_forward md False = Inr (None, md)"
proof -
  have "md_head md = md_prev md" "8 dvd unat (md_prev md)" using h by (simp_all add: holds_records_def)
  then show ?thesis using perf_mmap_read_none [OF md, of "md_prev md" "md_prev md" False]
    by (simp add: perf_mmap__read_forward_def perf_mmap__read_head_def)
qed

lemma holds_rest:
  assumes md: "md_ok k md" and h: "holds_records md (r # rs)"
  shows "holds_records (md\<lparr>md_event_copy := c, md_prev := md_prev md + of_nat (length r)\<rparr>) rs"
proof -
  let ?s = "unat (md_prev md)" and ?p = "md_prev md + of_nat (length r)"
  have k: "3 \<le> k" "k \<le> 30" "length (md_data md) = 2 ^ k" using md by (auto simp: md_ok_def)
  have r: "record_ok r" "8 dvd ?s" "concat (r # rs) = ring_bytes (md_data md) ?s (length (concat (r # rs)))"
    using h by (simp_all add: holds_records_def)
  have "r @ concat rs = ring_bytes (md_data md) ?s (length r) @ ring_bytes (md_data md) (?s + length r) (length (concat rs))"
    using r(3) ring_bytes_add [of "md_data md" ?s "length r" "length (concat rs)"] by simp
  then have "concat rs = ring_bytes (md_data md) (?s + length r) (length (concat rs))" by (simp add: append_eq_append_conv)
  moreover have "ring_bytes (md_data md) (unat ?p) (length (concat rs)) = ring_bytes (md_data md) (?s + length r) (length (concat rs))"
    by (rule ring_bytes_mod) (use unat_plus_mod [of k "md_prev md" "length r"] k in simp)
  moreover have "8 dvd unat ?p"
  proof -
    have "unat ?p mod 2 ^ 3 = (?s + length r) mod 2 ^ 3" by (rule unat_plus_mod) simp
    moreover have "8 dvd ?s + length r" using r(1,2) by (simp add: record_ok_def)
    ultimately show ?thesis by (simp add: dvd_eq_mod_eq_0)
  qed
  ultimately show ?thesis using h by (simp add: holds_records_def)
qed


text \<open>
  After the last event a mapping with one reference and no AUX area is unmapped; otherwise it
  stays as it was with the tail at the last event.
\<close>

definition consumed :: "perf_mmap \<Rightarrow> perf_mmap \<Rightarrow> bool" where
  "consumed md md' \<longleftrightarrow> md_prev md' = md_head md \<and> md_head md' = md_head md \<and>
     (md_refcnt md = 1 \<and> \<not> md_aux_base md \<longrightarrow> \<not> md_base md' \<and> md_refcnt md' = 0) \<and>
     (1 < md_refcnt md \<longrightarrow> md_base md' = md_base md \<and> md_refcnt md' = md_refcnt md) \<and> md_tail md' = md_head md"

lemma consume_cases:
  assumes "0 < md_refcnt md"
  shows "\<exists>md'. perf_mmap__consume md False = Some md' \<and> md_prev md' = md_prev md \<and> md_head md' = md_head md \<and>
     md_tail md' = md_prev md \<and> md_data md' = md_data md \<and> md_event_copy md' = md_event_copy md \<and> md_mask md' = md_mask md \<and>
     (if md_refcnt md = 1 \<and> md_head md = md_prev md \<and> \<not> md_aux_base md
      then md_refcnt md' = 0 \<and> (md_base md \<longrightarrow> \<not> md_base md')
      else md_refcnt md' = md_refcnt md \<and> md_base md' = md_base md \<and> md_aux_base md' = md_aux_base md)"
  using assms by (auto simp: perf_mmap__consume_def perf_mmap__put_def perf_mmap__munmap_def perf_mmap__empty_def
      perf_mmap__read_head_def perf_mmap__write_tail_def Let_def)

lemma md_ok_fields: "md_ok k md \<Longrightarrow> md_data md' = md_data md \<Longrightarrow> md_mask md' = md_mask md \<Longrightarrow>
   length (md_event_copy md') = PERF_SAMPLE_MAX_SIZE \<Longrightarrow> md_ok k md'"
  by (simp add: md_ok_def)

lemma holds_fields: "holds_records md rs \<Longrightarrow> md_data md' = md_data md \<Longrightarrow> md_prev md' = md_prev md \<Longrightarrow>
   md_head md' = md_head md \<Longrightarrow> holds_records md' rs"
  by (simp add: holds_records_def)

lemma event_bytes_take: "m \<le> n \<Longrightarrow> event_bytes md ev m = take m (event_bytes md ev n)"
  by (cases ev) (simp_all add: event_bytes_def min_absorb1)

lemma mmap_events_ok:
  assumes "md_ok k md" "0 < md_refcnt md" "md_base md" "holds_records md rs" "length rs < n"
  shows "\<exists>md'. mmap_events n md = Inr (rs, md') \<and> (if rs = [] then md' = md else consumed md md')"
  using assms
proof (induction rs arbitrary: n md)
  case Nil
  then obtain m where "n = Suc m" by (cases n) auto
  then show ?case using read_none [OF Nil(1,4)] by simp
next
  case (Cons r rs)
  then obtain m where m: "n = Suc m" "length rs < m" by (cases n) auto
  obtain ev c where e: "perf_mmap__read_forward md False = Inr (Some ev, md\<lparr>md_event_copy := c, md_prev := md_prev md + of_nat (length r)\<rparr>)"
    "length c = PERF_SAMPLE_MAX_SIZE" "event_bytes (md\<lparr>md_event_copy := c, md_prev := md_prev md + of_nat (length r)\<rparr>) ev (length r) = r"
    using read_first [OF Cons(2) _ Cons(5)] Cons(3) by auto
  let ?md = "md\<lparr>md_event_copy := c, md_prev := md_prev md + of_nat (length r)\<rparr>"
  have r: "record_ok r" using Cons(5) by (simp add: holds_records_def)
  have "le16_at (event_bytes ?md ev 8) 6 = le16_at r 6"
    using event_bytes_take [of 8 "length r" ?md ev] e(3) r by (simp add: le16_at_def record_ok_def sizeof_header_def)
  then have bytes: "event_bytes ?md ev (le16_at (event_bytes ?md ev sizeof_header) 6) = r"
    using e(3) r by (simp add: record_ok_def sizeof_header_def)
  have hr: "holds_records ?md rs" by (rule holds_rest [OF Cons(2,5)])
  have "0 < md_refcnt ?md" using Cons(3) by simp
  from consume_cases [OF this] obtain md1 where c: "perf_mmap__consume ?md False = Some md1" "md_prev md1 = md_prev ?md"
    "md_head md1 = md_head md" "md_tail md1 = md_prev ?md" "md_data md1 = md_data md" "md_event_copy md1 = c" "md_mask md1 = md_mask md"
    "if md_refcnt md = 1 \<and> md_head md = md_prev ?md \<and> \<not> md_aux_base md then md_refcnt md1 = 0 \<and> (md_base md \<longrightarrow> \<not> md_base md1)
      else md_refcnt md1 = md_refcnt md \<and> md_base md1 = md_base md \<and> md_aux_base md1 = md_aux_base md" by auto
  have ok1: "md_ok k md1" using md_ok_fields [OF Cons(2)] c(5-7) e(2) by simp
  have h1: "holds_records md1 rs" using holds_fields [OF hr] c by simp
  have run: "mmap_events n md = bnd (mmap_events m md1) (\<lambda>(rest, md). Inr (r # rest, md))"
    using m(1) e(1) bytes c(1) by (simp add: Let_def)
  have eq: "md_head md = md_prev ?md \<longleftrightarrow> rs = []"
  proof
    assume "md_head md = md_prev ?md"
    then have "(of_nat (length (concat rs)) :: u64) = 0" using hr by (simp add: holds_records_def)
    moreover have "length (concat rs) < 2 ^ 64"
    proof -
      have "length (concat rs) \<le> 2 ^ k" "k \<le> 30" using Cons(2,5) by (auto simp: holds_records_def md_ok_def)
      moreover have "(2::nat) ^ k \<le> 2 ^ 30" using \<open>k \<le> 30\<close> by (rule power_increasing) simp
      ultimately show ?thesis by simp
    qed
    then have "unat (of_nat (length (concat rs)) :: u64) = length (concat rs)" by (simp add: unat_of_nat)
    ultimately have "length (concat rs) = 0" by simp
    moreover have "\<forall>r \<in> set rs. r \<noteq> []" using Cons(5) by (fastforce simp: holds_records_def record_ok_def sizeof_header_def)
    ultimately show "rs = []" by (cases rs) auto
  next
    assume "rs = []" then show "md_head md = md_prev ?md" using hr by (simp add: holds_records_def)
  qed
  show ?case
  proof (cases "md_refcnt md = 1 \<and> rs = [] \<and> \<not> md_aux_base md")
    case True
    then have gone: "md_refcnt md1 = 0" "\<not> md_base md1" using c(8) eq Cons(4) by auto
    then have "mmap_events m md1 = Inr ([], md1)" using m(2) True by (cases m) (simp_all add: perf_mmap__read_forward_def)
    then show ?thesis using run True gone c eq by (simp add: consumed_def)
  next
    case False
    then have keep: "md_refcnt md1 = md_refcnt md" "md_base md1 = md_base md" "md_aux_base md1 = md_aux_base md" using c(8) eq by (auto split: if_splits)
    from Cons.IH [OF ok1 _ _ h1 m(2)] obtain md' where "mmap_events m md1 = Inr (rs, md')" "if rs = [] then md' = md1 else consumed md1 md'"
      using keep Cons(3,4) by auto
    then show ?thesis using run keep c eq False Cons(4) by (cases "rs = []") (auto simp: consumed_def)
  qed
qed

subsection \<open>Writing everything new\<close>

lemma slice_ring:
  assumes "length data = 2 ^ k" "unat (w :: u64) mod 2 ^ k + n \<le> 2 ^ k"
  shows "ring_slice data (unat (w AND mask k)) n = Inr (ring_bytes data (unat w) n)"
  using assms ring_bytes_slice [of "unat w" data n] by (simp add: ring_slice_def unat_and_mask)

text \<open>What the two writes of \<open>[start, start + n)\<close> append to the output when none fails.\<close>

definition written :: "recorder \<Rightarrow> u8 list \<Rightarrow> recorder \<Rightarrow> bool" where
  "written r bs r' \<longleftrightarrow> rec_out r' = rec_out r @ bs \<and> rec_bytes_written r' = rec_bytes_written r + of_nat (length bs) \<and>
     rec_samples r' = rec_samples r \<and> rec_fail r' = rec_fail r"

lemma record_write_ok: "\<forall>i. \<not> rec_fail r i \<Longrightarrow> \<exists>r'. record__write r bs = (0, r') \<and> written r bs r'"
  by (simp add: record__write_def written_def Let_def)

lemma written_trans: "written r a r1 \<Longrightarrow> written r1 b r2 \<Longrightarrow> written r (a @ b) r2"
  by (simp add: written_def)

lemma write_range:
  fixes start :: u64
  assumes k: "k \<le> 30" "length data = 2 ^ k" and n: "n \<le> 2 ^ k" and ok: "\<forall>i. \<not> rec_fail r i"
  shows "\<exists>start' r1 r2. write_wrapped r data (mask k) start (start + of_nat n) = Inr (0, start', r1) \<and>
     ring_slice data (unat (start' AND mask k)) (unat (start + of_nat n - start')) =
       Inr (drop (n - unat (start + of_nat n - start')) (ring_bytes data (unat start) n)) \<and>
     record__write r1 (drop (n - unat (start + of_nat n - start')) (ring_bytes data (unat start) n)) = (0, r2) \<and>
     written r (ring_bytes data (unat start) n) r2"
proof -
  have p30: "(2::nat) ^ k \<le> 2 ^ 30" using k(1) by (rule power_increasing) simp
  then have n30: "n \<le> 2 ^ 30" using n by simp
  have un: "unat (of_nat m :: u64) = m" if "m \<le> n" for m using n30 that by (simp add: unat_of_nat)
  have d: "start + of_nat n - start = of_nat n" by simp
  define room where "room = 2 ^ k - unat start mod 2 ^ k"
  have pos: "unat start mod 2 ^ k < 2 ^ k" by simp
  show ?thesis
  proof (cases "unat start mod 2 ^ k + n < 2 ^ k")
    case True
    then have "write_wrapped r data (mask k) start (start + of_nat n) = Inr (0, start, r)"
      using in_place_iff [OF k(1) n30, of start] by (simp add: write_wrapped_def)
    moreover obtain r2 where "record__write r (ring_bytes data (unat start) n) = (0, r2)" "written r (ring_bytes data (unat start) n) r2"
      using record_write_ok [OF ok] by blast
    ultimately show ?thesis using slice_ring [OF k(2), of start n] True un [of n] by (intro exI [of _ start]) auto
  next
    case False
    then have le: "room \<le> n" "0 < room" "room \<le> 2 ^ k" using pos by (auto simp: room_def)
    have sz: "unat (mask k + 1 - (start AND mask k)) = room" using unat_room [of k start] k(1) by (simp add: room_def)
    let ?sz = "mask k + 1 - (start AND mask k) :: u64" let ?s = "start + ?sz"
    have szw: "?sz = of_nat room" using sz by (metis word_nat_cases word_unat_eq_iff unat_of_nat mod_less un le(1))
    have s1: "ring_slice data (unat (start AND mask k)) room = Inr (ring_bytes data (unat start) room)"
      by (rule slice_ring [OF k(2)]) (use pos in \<open>simp add: room_def\<close>)
    obtain r1 where r1: "record__write r (ring_bytes data (unat start) room) = (0, r1)" "written r (ring_bytes data (unat start) room) r1"
      using record_write_ok [OF ok] by blast
    have w: "write_wrapped r data (mask k) start (start + of_nat n) = Inr (0, ?s, r1)"
      using False in_place_iff [OF k(1) n30, of start] s1 r1(1) sz unfolding write_wrapped_def Let_def d by simp
    have rest: "start + of_nat n - ?s = of_nat (n - room)" using le(1) szw by (simp add: of_nat_diff)
    then have ur: "unat (start + of_nat n - ?s) = n - room" using un [of "n - room"] by simp
    have us: "unat ?s mod 2 ^ k = (unat start + room) mod 2 ^ k" using unat_plus_mod [of k start room] k(1) szw by simp
    have "(unat start + room) mod 2 ^ k = 0"
      using mod_add_left_eq [of "unat start" "2 ^ k" room] pos by (simp add: room_def)
    then have s2: "ring_slice data (unat (?s AND mask k)) (n - room) = Inr (ring_bytes data (unat ?s) (n - room))"
      using us n by (intro slice_ring [OF k(2)]) simp
    have "ring_bytes data (unat ?s) (n - room) = ring_bytes data (unat start + room) (n - room)"
      by (rule ring_bytes_mod) (use us k(2) in simp)
    then have split: "ring_bytes data (unat start) n = ring_bytes data (unat start) room @ ring_bytes data (unat ?s) (n - room)"
      using ring_bytes_add [of data "unat start" room "n - room"] le(1) by simp
    have "\<forall>i. \<not> rec_fail r1 i" using r1(2) ok by (simp add: written_def)
    from record_write_ok [OF this] obtain r2 where r2: "record__write r1 (ring_bytes data (unat ?s) (n - room)) = (0, r2)"
      "written r1 (ring_bytes data (unat ?s) (n - room)) r2" by blast
    have "n - (n - room) = room" using le(1) by simp
    then have dr: "drop (n - (n - room)) (ring_bytes data (unat start) n) = ring_bytes data (unat ?s) (n - room)"
      unfolding split by simp
    have fin: "written r (ring_bytes data (unat start) n) r2" unfolding split by (rule written_trans [OF r1(2) r2(2)])
    show ?thesis
      by (rule exI [of _ ?s], rule exI [of _ r1], rule exI [of _ r2], intro conjI) (simp_all only: w ur dr s2 r2(1) fin)
  qed
qed


lemma record_range:
  assumes md: "md_ok k md" and n: "0 < n" "n \<le> 2 ^ k" and ok: "\<forall>i. \<not> rec_fail r i"
    and range: "rb_find_range (md_data md) (md_mask md) (md_head md) (md_prev md) backward = Inr (start, start + of_nat n)"
    and c: "perf_mmap__consume (md\<lparr>md_prev := md_head md\<rparr>) (overwrite \<or> backward) = Some md'"
  shows "\<exists>r'. record__mmap_read r md overwrite backward = Inr (0, r', md') \<and>
     written (r\<lparr>rec_samples := Suc (rec_samples r)\<rparr>) (ring_bytes (md_data md) (unat start) n) r'"
proof -
  let ?r = "r\<lparr>rec_samples := Suc (rec_samples r)\<rparr>"
  have k: "k \<le> 30" "md_mask md = mask k" "length (md_data md) = 2 ^ k" using md by (auto simp: md_ok_def)
  have m: "mask64 (mask k) = mask k" using k by (simp add: mask64_mask)
  have p30: "(2::nat) ^ k \<le> 2 ^ 30" using k(1) by (rule power_increasing) simp
  then have un: "unat (of_nat n :: u64) = n" using n by (simp add: unat_of_nat)
  then have ne: "start \<noteq> start + of_nat n" using n(1) by (metis add_cancel_right_right less_numeral_extra(3) unat_0)
  have "\<not> mask k + 1 < (of_nat n :: u64)"
    using n(2) un k(1) by (simp add: mask_plus_1 word_less_nat_alt unat_pow2)
  then have fits: "\<not> mask k + 1 < start + of_nat n - start" by simp
  have okr: "\<forall>i. \<not> rec_fail ?r i" using ok by simp
  obtain start' r1 r2 where w: "write_wrapped ?r (md_data md) (mask k) start (start + of_nat n) = Inr (0, start', r1)"
    "ring_slice (md_data md) (unat (start' AND mask k)) (unat (start + of_nat n - start')) =
       Inr (drop (n - unat (start + of_nat n - start')) (ring_bytes (md_data md) (unat start) n))"
    "record__write r1 (drop (n - unat (start + of_nat n - start')) (ring_bytes (md_data md) (unat start) n)) = (0, r2)"
    "written ?r (ring_bytes (md_data md) (unat start) n) r2"
    using write_range [OF k(1,3) n(2) okr, of start] by blast
  have "record__mmap_read r md overwrite backward = Inr (0, r2, md')"
    unfolding record__mmap_read_def Let_def perf_mmap__read_head_def k(2) m range [unfolded k(2)] bnd_simps prod.case
      if_not_P [OF ne] if_not_P [OF fits] w c by simp
  then show ?thesis using w(4) by blast
qed

subsection \<open>The backward ring\<close>

fun chain :: "u8 list \<Rightarrow> nat \<Rightarrow> nat list \<Rightarrow> bool" where
  "chain data s [] \<longleftrightarrow> True"
| "chain data s (n # ns) \<longleftrightarrow> ring_header_size data s = n \<and> 8 \<le> n \<and> 8 dvd n \<and> chain data (s + n) ns"

text \<open>Where the walk over the records from \<open>s\<close> stops: the ring is full, or an empty or an overwritten record follows.\<close>

definition chain_stops :: "u8 list \<Rightarrow> nat \<Rightarrow> nat \<Rightarrow> bool" where
  "chain_stops data s len \<longleftrightarrow> len \<le> length data \<and>
     (len = length data \<or> ring_header_size data (s + len) = 0 \<or>
      8 \<le> ring_header_size data (s + len) \<and> length data < len + ring_header_size data (s + len))"

lemma backward_header:
  fixes head :: u64
  assumes k: "3 \<le> k" "k \<le> 30" "length data = 2 ^ k" and s: "8 dvd unat head" "8 dvd d"
  shows "header_size_at data (unat ((head + of_nat d) AND mask k)) = Inr (ring_header_size data (unat head + d))"
proof -
  have "unat (head + of_nat d) mod 2 ^ k = (unat head + d) mod 2 ^ k" using k(2) by (intro unat_plus_mod) simp
  then show ?thesis using aligned_header(2) [of "unat head + d" k data] k s by (simp add: unat_and_mask)
qed

lemma ucast_mask_plus_1: "k \<le> 30 \<Longrightarrow> unat (ucast (mask k + 1 :: u32) :: u64) = 2 ^ k"
proof -
  assume k: "k \<le> 30"
  then have "(2::nat) ^ k \<le> 2 ^ 30" by (intro power_increasing) simp_all
  then have "(2::nat) ^ k < 2 ^ 64" by simp
  moreover have "unat (mask k + 1 :: u32) = 2 ^ k" using k by (simp add: mask_plus_1 unat_pow2)
  ultimately show ?thesis using k by (simp add: unsigned_ucast_eq take_bit_nat_eq_self)
qed

lemma backward_loop_ok:
  fixes head :: u64
  assumes k: "3 \<le> k" "k \<le> 30" "length data = 2 ^ k" and s: "8 dvd unat head"
    and "chain data (unat head + d) ns" "8 dvd d" "chain_stops data (unat head) (d + sum_list ns)"
  shows "backward_loop data (mask k) head p (head + of_nat d) = Some (Inr (head + of_nat (d + sum_list ns)))"
  using assms(5-)
proof (induction ns arbitrary: d p)
  have p30: "(2::nat) ^ k \<le> 2 ^ 30" using k(2) by (rule power_increasing) simp
  have un: "unat (of_nat m :: u64) = m" if "m \<le> 2 ^ 31" for m using that by (simp add: unat_of_nat)
  have m: "mask64 (mask k) = mask k" using k by (simp add: mask64_mask)
  have more: "\<not> ucast (mask k + 1 :: u32) \<le> head + of_nat d - head" if "d < 2 ^ k" for d
    using that un [of d] p30 ucast_mask_plus_1 [OF k(2)] by (simp add: word_le_nat_alt)
  {
    case Nil
    let ?z = "ring_header_size data (unat head + d)"
    have d: "d \<le> 2 ^ k" "d = 2 ^ k \<or> ?z = 0 \<or> 8 \<le> ?z \<and> 2 ^ k < d + ?z" using Nil k(3) by (auto simp: chain_stops_def)
    have hd: "header_size_at data (unat ((head + of_nat d) AND mask k)) = Inr ?z" by (rule backward_header [OF k s Nil(2)])
    show ?case
    proof (cases "d = 2 ^ k")
      case True
      have eq: "ucast (mask k + 1 :: u32) = (of_nat d :: u64)"
        using True un [of d] p30 ucast_mask_plus_1 [OF k(2)] by (simp only: word_unat_eq_iff) simp
      show ?thesis by (subst backward_loop.simps) (simp add: eq)
    next
      case False
      then have lt: "d < 2 ^ k" using d(1) by simp
      show ?thesis
      proof (cases "?z = 0")
        case True
        then show ?thesis using more [OF lt] hd by (subst backward_loop.simps) (simp add: Let_def m)
      next
        case z: False
        then have z: "8 \<le> ?z" "2 ^ k < d + ?z" "?z < 65536" using d(2) False ring_header_size_less by auto
        have "unat (of_nat (d + ?z) :: u64) = d + ?z" by (rule un) (use lt p30 z in simp)
        then have "ucast (mask k + 1 :: u32) < (of_nat (d + ?z) :: u64)"
          using z(2) ucast_mask_plus_1 [OF k(2)] by (simp only: word_less_nat_alt)
        then have over: "ucast (mask k + 1 :: u32) < head + of_nat (d + ?z) - head" by (simp only: add_diff_cancel_left')
        have "backward_loop data (mask k) head p (head + of_nat d) =
            backward_loop data (mask k) head (unat ((head + of_nat d) AND mask k)) (head + of_nat (d + ?z))"
          using more [OF lt] hd z by (subst backward_loop.simps) (simp add: Let_def m add.assoc)
        also have "\<dots> = Some (Inr (head + of_nat (d + ?z) - of_nat ?z))"
          using over hd by (subst backward_loop.simps) (simp add: less_imp_le)
        finally show ?thesis by simp
      qed
    qed
  next
    case (Cons n ns)
    have n: "ring_header_size data (unat head + d) = n" "8 \<le> n" "8 dvd n" "chain data (unat head + (d + n)) ns"
      using Cons.prems(1) by (auto simp: add.assoc)
    have "d + sum_list (n # ns) \<le> 2 ^ k" using Cons.prems(3) k(3) by (simp add: chain_stops_def)
    then have lt: "d < 2 ^ k" using n(2) by simp
    have "backward_loop data (mask k) head p (head + of_nat d) =
        backward_loop data (mask k) head (unat ((head + of_nat d) AND mask k)) (head + of_nat (d + n))"
      using more [OF lt] backward_header [OF k s Cons.prems(2)] n by (subst backward_loop.simps) (simp add: Let_def m add.assoc)
    also have "\<dots> = Some (Inr (head + of_nat (d + n + sum_list ns)))"
      by (rule Cons.IH) (use n Cons.prems in \<open>simp_all add: add.assoc\<close>)
    finally show ?case by (simp add: add.assoc)
  }
qed

lemma backward_range_ok:
  fixes head :: u64
  assumes "3 \<le> k" "k \<le> 30" "length data = 2 ^ k" "8 dvd unat head" "chain data (unat head) ns" "chain_stops data (unat head) (sum_list ns)"
  shows "backward_rb_find_range data (mask k) head = Inr (head, head + of_nat (sum_list ns))"
  using backward_loop_ok [OF assms(1-4), of 0 ns] assms(5,6) by (simp add: backward_rb_find_range_def)

subsection \<open>A small ring for the examples\<close>

definition short_record :: "u8 \<Rightarrow> u8 list" where
  "short_record t = [t, 0, 0, 0, 0, 0, 8, 0]"

definition small_ring :: "u64 \<Rightarrow> u64 \<Rightarrow> perf_mmap" where
  "small_ring prev head = \<lparr>md_base = True, md_data = short_record 2 @ short_record 1, md_head = head, md_tail = prev,
     md_mask = 15, md_fd = 3, md_refcnt = 2, md_prev = prev, md_aux_base = False,
     md_event_copy = replicate PERF_SAMPLE_MAX_SIZE 0\<rparr>"

definition new_recorder :: recorder where
  "new_recorder = \<lparr>rec_out = [], rec_samples = 0, rec_bytes_written = 0, rec_writes = 0, rec_fail = (\<lambda>_. False)\<rparr>"

lemma small_ring_ok: "md_ok 4 (small_ring prev head)"
  by (simp add: md_ok_def small_ring_def short_record_def mask_eq_exp_minus_1)

lemma small_ring_all:
  "ring_bytes (short_record 2 @ short_record 1) 8 16 = short_record 1 @ short_record 2"
  "ring_bytes (short_record 2 @ short_record 1) 0 16 = short_record 2 @ short_record 1"
  by (simp_all add: ring_bytes_def short_record_def upt_rec)

lemma short_record_length: "length (short_record t) = 8"
  by (simp add: short_record_def)

lemma short_record_ok: "record_ok (short_record t)"
proof -
  have "le16_at (short_record t) 6 = 8" by (simp add: le16_at_def short_record_def)
  then show ?thesis by (simp add: record_ok_def short_record_length sizeof_header_def sizeof_perf_event_def)
qed

lemma small_ring_records: "holds_records (small_ring 8 24) [short_record 1, short_record 2]"
  using small_ring_all(1) by (simp add: holds_records_def small_ring_def short_record_ok short_record_length)

subsection \<open>What the readers guarantee\<close>

text \<open>
  Claim C4.  Take records that each start with a header holding their size, a multiple of 8 bytes and at most the size of
  \<open>union perf_event\<close>.  A tool that reads and consumes events until there is none gets exactly the records the
  kernel wrote between the reader's position and the head, in order and with all their bytes,
  also where a record wraps around the end of the data pages; afterwards the position and the tail
  are at the head, and a mapping with no other reference is unmapped.
\<close>

theorem reader_returns_kernel_records:
  assumes "md_ok k md" "0 < md_refcnt md" "md_base md" "holds_records md rs" "length rs < n"
  shows "\<exists>md'. mmap_events n md = Inr (rs, md') \<and> (if rs = [] then md' = md else consumed md md')"
  using mmap_events_ok [OF assms] .

theorem reader_returns_kernel_records_witness:
  "\<exists>md'. mmap_events 3 (small_ring 8 24) = Inr ([short_record 1, short_record 2], md') \<and> md_tail md' = 24 \<and> md_prev md' = 24"
  using reader_returns_kernel_records [OF small_ring_ok _ _ small_ring_records, of 3]
  by (auto simp: small_ring_def consumed_def)





text \<open>
  Claim C22.  On a backward ring \<open>record__mmap_read\<close> writes whole records only: from the head over
  the records that fit into the ring, up to the first one that the ring cuts off or that was never
  written, and the search for that end terminates.
\<close>

theorem backward_record_writes_whole_records:
  assumes "md_ok k md" "1 < md_refcnt md" "\<forall>i. \<not> rec_fail r i" "8 dvd unat (md_head md)"
    and "chain (md_data md) (unat (md_head md)) ns" "chain_stops (md_data md) (unat (md_head md)) (sum_list ns)" "ns \<noteq> []"
  shows "\<exists>r' md'. record__mmap_read r md overwrite True = Inr (0, r', md') \<and>
     rec_out r' = rec_out r @ ring_bytes (md_data md) (unat (md_head md)) (sum_list ns) \<and> md_prev md' = md_head md"
proof -
  have k: "3 \<le> k" "k \<le> 30" "md_mask md = mask k" "length (md_data md) = 2 ^ k" using assms(1) by (auto simp: md_ok_def)
  have n: "0 < sum_list ns" "sum_list ns \<le> 2 ^ k"
    using assms(5-7) k(4) by (cases ns; simp add: chain_stops_def)+
  have "rb_find_range (md_data md) (md_mask md) (md_head md) (md_prev md) True = Inr (md_head md, md_head md + of_nat (sum_list ns))"
    using backward_range_ok [OF k(1,2,4) assms(4-6)] k(3) by (simp add: rb_find_range_def)
  moreover have "perf_mmap__consume (md\<lparr>md_prev := md_head md\<rparr>) (overwrite \<or> True) = Some (md\<lparr>md_prev := md_head md\<rparr>)"
    using assms(2) by (simp add: perf_mmap__consume_def)
  ultimately obtain r' where "record__mmap_read r md overwrite True = Inr (0, r', md\<lparr>md_prev := md_head md\<rparr>)"
    "written (r\<lparr>rec_samples := Suc (rec_samples r)\<rparr>) (ring_bytes (md_data md) (unat (md_head md)) (sum_list ns)) r'"
    using record_range [OF assms(1) n assms(3)] by blast
  then show ?thesis by (intro exI [of _ r'] exI [of _ "md\<lparr>md_prev := md_head md\<rparr>"]) (simp add: written_def)
qed

theorem backward_record_writes_whole_records_witness:
  "\<exists>r' md'. record__mmap_read new_recorder (small_ring 0 (- 16)) True True = Inr (0, r', md') \<and>
     rec_out r' = short_record 2 @ short_record 1 \<and> md_prev md' = - 16"
proof -
  have h: "unat (- 16 :: u64) = 2 ^ 64 - 16" by simp
  have sz: "ring_header_size (short_record 2 @ short_record 1) (2 ^ 64 - 16) = 8"
    "ring_header_size (short_record 2 @ short_record 1) (2 ^ 64 - 16 + 8) = 8"
    by (simp_all add: ring_header_size_def short_record_def)
  have b: "ring_bytes (short_record 2 @ short_record 1) (2 ^ 64 - 16) 16 = short_record 2 @ short_record 1"
    using ring_bytes_mod [of "2 ^ 64 - 16" "short_record 2 @ short_record 1" 0 16] small_ring_all(2) by (simp add: short_record_def)
  have "chain (md_data (small_ring 0 (- 16))) (unat (md_head (small_ring 0 (- 16)))) [8, 8]"
    using sz h by (simp add: small_ring_def)
  moreover have "chain_stops (md_data (small_ring 0 (- 16))) (unat (md_head (small_ring 0 (- 16)))) (sum_list [8, 8])"
    by (simp add: chain_stops_def small_ring_def short_record_def)
  ultimately show ?thesis
    using backward_record_writes_whole_records [OF small_ring_ok, of 0 "- 16" new_recorder "[8, 8]" True] b h
    by (auto simp: small_ring_def new_recorder_def)
qed

text \<open>
  Claim C34.  An event that wraps around the end of the data pages and is larger than
  \<open>union perf_event\<close> comes back truncated: \<open>perf_mmap__read\<close> returns it with its full size in the
  header, but only the first \<open>sizeof(union perf_event)\<close> bytes of the copy are the event's and the
  rest is what an earlier event left there.
\<close>

theorem wrapped_large_event_is_truncated:
  assumes "md_ok k md" "8 dvd unat start" "unat (end - start) < 2 ^ 31"
  defines "sz \<equiv> ring_header_size (md_data md) (unat start)"
  assumes "sizeof_perf_event < sz" "sz \<le> unat (end - start)" "2 ^ k \<le> unat start mod 2 ^ k + sz"
  shows "\<exists>md'. perf_mmap__read md False start end = Inr (Some In_Copy, start + of_nat sz, md') \<and>
     event_bytes md' In_Copy sz = ring_bytes (md_data md) (unat start) sizeof_perf_event @
       drop sizeof_perf_event (take sz (md_event_copy md))"
proof -
  have "sz < 2 ^ 16" using ring_header_size_less [of "md_data md" "unat start"] by (simp add: sz_def)
  then show ?thesis
    using perf_mmap_read_wrapped [OF assms(1-3), of False] assms(1,5-7) unfolding sz_def [symmetric]
    by (intro exI) (auto simp: event_bytes_def md_ok_def PERF_SAMPLE_MAX_SIZE_def sizeof_perf_event_def drop_take)
qed

definition large_ring :: perf_mmap where
  "large_ring = \<lparr>md_base = True, md_data = replicate 8184 7 @ [1, 0, 0, 0, 0, 0, 0x50, 0x10], md_head = 12360, md_tail = 8184,
     md_mask = 8191, md_fd = 3, md_refcnt = 2, md_prev = 8184, md_aux_base = False,
     md_event_copy = replicate PERF_SAMPLE_MAX_SIZE 0\<rparr>"

theorem wrapped_large_event_is_truncated_witness:
  "\<exists>md'. perf_mmap__read large_ring False 8184 12360 = Inr (Some In_Copy, 12360, md') \<and>
     drop 4168 (event_bytes md' In_Copy 4176) = replicate 8 0"
proof -
  have ok: "md_ok 13 large_ring"
    by (simp add: md_ok_def large_ring_def mask_eq_exp_minus_1)
  have sz: "ring_header_size (md_data large_ring) 8184 = 4176"
    by (simp add: ring_header_size_def large_ring_def nth_append)
  have c: "md_event_copy large_ring = replicate PERF_SAMPLE_MAX_SIZE 0" by (simp add: large_ring_def)
  have l: "length (ring_bytes d s n) = n" for d s n by (simp add: ring_bytes_def)
  show ?thesis using wrapped_large_event_is_truncated [OF ok, of 8184 12360]
    by (simp add: sz c l sizeof_perf_event_def PERF_SAMPLE_MAX_SIZE_def) (auto simp: l)
qed

end
