(* ===== verification/C_Bytes.thy ===== *)
theory C_Bytes
  imports Perf_Prelude
begin

text \<open>
  Words as little-endian bytes in memory, and formatted printing into a buffer of fixed size.  The
  models of the trace and event decoders share both; the host is little-endian with 64-bit
  pointers.
\<close>

lemma bit_double [bit_simps]: "bit (w * 2 :: 'a::len word) j \<longleftrightarrow> j < LENGTH('a) \<and> 0 < j \<and> bit w (j - 1)"
proof -
  have "w * 2 = push_bit 1 w" by simp
  then show ?thesis by (simp only: bit_push_bit_iff possible_bit_word One_nat_def Suc_le_eq) auto
qed

subsection \<open>Little-endian words\<close>

primrec le_word :: "u8 list \<Rightarrow> 'a::len word" where
  "le_word [] = 0"
| "le_word (b # bs) = ucast b OR push_bit 8 (le_word bs)"

primrec le_bytes :: "nat \<Rightarrow> 'a::len word \<Rightarrow> u8 list" where
  "le_bytes 0 w = []"
| "le_bytes (Suc n) w = ucast w # le_bytes n (drop_bit 8 w)"

text \<open>Reading \<open>n\<close> bytes at an offset of a buffer, and \<open>memcpy\<close> of \<open>n\<close> bytes into a word.\<close>

definition get_le :: "u8 list \<Rightarrow> nat \<Rightarrow> nat \<Rightarrow> 'a::len word c_result" where
  "get_le buf off n = (if off + n \<le> length buf then Inr (le_word (take n (drop off buf))) else Inl Out_Of_Bounds)"

definition memcpy_le :: "'a::len word \<Rightarrow> u8 list \<Rightarrow> nat \<Rightarrow> nat \<Rightarrow> 'a word c_result" where
  "memcpy_le w buf off n = bnd (get_le buf off n) (\<lambda>v. Inr ((w AND NOT (mask (8 * n))) OR v))"

lemma length_le_bytes [simp]: "length (le_bytes n w) = n"
  by (induction n arbitrary: w) simp_all

lemma le_word_bytes [simp]: "le_word (le_bytes n w) = take_bit (8 * n) w"
proof (induction n arbitrary: w)
  case (Suc n)
  show ?case
    by (rule bit_word_eqI) (auto simp: Suc bit_simps)
qed simp

lemma bit_le_word: "bit (le_word bs :: 'a::len word) i \<Longrightarrow> i < 8 * length bs"
proof (induction bs arbitrary: i)
  case (Cons b bs)
  then consider "bit b i" | "8 \<le> i" "bit (le_word bs :: 'a word) (i - 8)" by (auto simp: bit_simps)
  then show ?case
  proof cases
    case 1
    then show ?thesis using bit_imp_le_length [OF 1] by simp
  next
    case 2
    then show ?thesis using Cons.IH [of "i - 8"] by simp
  qed
qed simp

lemma le_bytes_word:
  "8 * length bs \<le> LENGTH('a) \<Longrightarrow> le_bytes (length bs) (le_word bs :: 'a::len word) = bs"
proof (induction bs)
  case (Cons b bs)
  have "drop_bit 8 (le_word (b # bs) :: 'a word) = take_bit (LENGTH('a) - 8) (le_word bs)"
    by (rule bit_word_eqI) (use Cons.prems in \<open>auto simp: bit_simps dest: bit_imp_le_length\<close>)
  moreover have "take_bit (LENGTH('a) - 8) (le_word bs :: 'a word) = le_word bs"
    by (rule bit_word_eqI) (use Cons.prems bit_le_word [of bs] in \<open>force simp: bit_simps\<close>)
  moreover have "ucast (le_word (b # bs) :: 'a word) = b"
    by (rule bit_word_eqI) (use Cons.prems in \<open>auto simp: bit_simps dest: bit_imp_le_length\<close>)
  ultimately show ?case using Cons by simp
qed simp

lemma get_le_in [simp]: "off + n \<le> length buf \<Longrightarrow> get_le buf off n = Inr (le_word (take n (drop off buf)))"
  by (simp add: get_le_def)

lemma memcpy_le_in [simp]:
  "off + n \<le> length buf \<Longrightarrow> memcpy_le w buf off n = Inr ((w AND NOT (mask (8 * n))) OR le_word (take n (drop off buf)))"
  by (simp add: memcpy_le_def)

subsection \<open>Bytes at a position\<close>

definition bytes_at :: "u8 list \<Rightarrow> nat \<Rightarrow> u8 list \<Rightarrow> bool" where
  "bytes_at ev pos bs \<longleftrightarrow> pos + length bs \<le> length ev \<and> take (length bs) (drop pos ev) = bs"

lemma holds_append: "bytes_at ev pos (a @ b) \<longleftrightarrow> bytes_at ev pos a \<and> bytes_at ev (pos + length a) b"
proof
  assume h: "bytes_at ev pos (a @ b)"
  then have t: "take (length a + length b) (drop pos ev) = a @ b" and l: "pos + (length a + length b) \<le> length ev"
    by (auto simp: bytes_at_def)
  have "take (length a) (drop pos ev) = take (length a) (a @ b)" using t by (metis min.absorb1 le_add1 take_take)
  moreover have "take (length b) (drop (length a) (drop pos ev)) = drop (length a) (a @ b)" using t by (metis add.commute take_drop)
  ultimately show "bytes_at ev pos a \<and> bytes_at ev (pos + length a) b" using l by (simp add: bytes_at_def drop_drop add.commute)
next
  assume "bytes_at ev pos a \<and> bytes_at ev (pos + length a) b"
  then show "bytes_at ev pos (a @ b)" by (auto simp: bytes_at_def take_add drop_drop add.commute)
qed

lemma holds_drop: "bytes_at ev pos bs \<Longrightarrow> take (length bs) (drop pos ev) = bs"
  by (simp add: bytes_at_def)

lemma holds_le: "bytes_at ev pos bs \<Longrightarrow> pos + length bs \<le> length ev"
  by (simp add: bytes_at_def)

subsection \<open>Printing\<close>

definition digit_char :: "nat \<Rightarrow> char" where
  "digit_char d = (if d < 10 then char_of (48 + d) else char_of (87 + d))"

fun digits :: "nat \<Rightarrow> nat \<Rightarrow> string" where
  "digits b n = (if n < b \<or> b < 2 then [digit_char n] else digits b (n div b) @ [digit_char (n mod b)])"

declare digits.simps [simp del]

definition format_d :: "int \<Rightarrow> string" where
  "format_d i = (if i < 0 then CHR ''-'' # digits 10 (nat (- i)) else digits 10 (nat i))"

definition format_x :: "'a::len word \<Rightarrow> string" where
  "format_x w = digits 16 (unat w)"

text \<open>
  \<open>snprintf\<close> of a formatted text at a position of a buffer: at most \<open>n - 1\<close> characters and the
  terminating NUL are stored, and the length of the whole text is returned.
\<close>

definition snprintf :: "char list \<Rightarrow> nat \<Rightarrow> u64 \<Rightarrow> string \<Rightarrow> (nat \<times> char list) c_result" where
  "snprintf buf pos n s =
     (if n = 0 then Inr (length s, buf)
      else let t = take (unat n - 1) s @ [CHR 0x00] in
        bnd (memcpy buf pos t 0 (length t)) (\<lambda>buf. Inr (length s, buf)))"

lemma length_digits: "n < b ^ k \<Longrightarrow> 2 \<le> b \<Longrightarrow> 0 < k \<Longrightarrow> length (digits b n) \<le> k"
proof (induction k arbitrary: n)
  case (Suc k)
  show ?case
  proof (cases "n < b")
    case True
    then show ?thesis by (simp add: digits.simps [of b n])
  next
    case False
    then have "k \<noteq> 0" using Suc.prems by (cases k) auto
    moreover have "n div b < b ^ k" using Suc.prems by (simp add: less_mult_imp_div_less mult.commute)
    ultimately show ?thesis using Suc False by (simp add: digits.simps [of b n])
  qed
qed simp

lemma digits_nonempty [simp]: "digits b n \<noteq> []"
  by (simp add: digits.simps [of b n])

lemma length_format_x: "length (format_x (w :: 64 word)) \<le> 16"
  unfolding format_x_def by (rule length_digits) (use unat_u64 [of w] in simp_all)

lemma length_format_x32: "length (format_x (w :: 32 word)) \<le> 8"
  unfolding format_x_def by (rule length_digits) (use unat_u32 [of w] in simp_all)

lemma length_format_d: "\<bar>i\<bar> < 10 ^ k \<Longrightarrow> 0 < k \<Longrightarrow> length (format_d i) \<le> Suc k"
proof -
  assume "\<bar>i\<bar> < 10 ^ k" "0 < k"
  then have "nat \<bar>i\<bar> < 10 ^ k" by (simp add: nat_less_iff)
  then have "length (digits 10 (nat \<bar>i\<bar>)) \<le> k" using \<open>0 < k\<close> by (intro length_digits) simp_all
  then show ?thesis by (auto simp: format_d_def)
qed

lemma snprintf_fits:
  assumes "length s < unat n" "pos + length s < length buf"
  shows "snprintf buf pos n s = Inr (length s, take pos buf @ s @ CHR 0x00 # drop (pos + length s + 1) buf)"
proof -
  have "n \<noteq> 0" using assms(1) by (cases "n = 0") auto
  then show ?thesis using assms by (simp add: snprintf_def memcpy_def)
qed

lemma snprintf_after:
  assumes "length s < unat n" "length s < length c"
  shows "snprintf (a @ c) (length a) n s = Inr (length s, a @ s @ CHR 0x00 # drop (length s + 1) c)"
  using snprintf_fits [of s n "length a" "a @ c"] assms by simp

end
