(* ===== verification/Intel_PT_Pkt.thy ===== *)
theory Intel_PT_Pkt
  imports C_Bytes
begin

text \<open>
  The Intel Processor Trace packet decoder of
  \<^verbatim>\<open>src/tools/perf/util/intel-pt-decoder/intel-pt-pkt-decoder.c\<close>: \<open>intel_pt_get_packet\<close>
  reads one packet from the start of a buffer, \<open>intel_pt_pkt_desc\<close> describes a packet as text.
  A buffer is the list of its bytes, so the argument \<open>len\<close> of the C functions is its length and a
  read behind it is \<^const>\<open>Out_Of_Bounds\<close>.
\<close>

subsection \<open>Packets\<close>

datatype intel_pt_pkt_type =
    INTEL_PT_BAD | INTEL_PT_PAD | INTEL_PT_TNT | INTEL_PT_TIP_PGD | INTEL_PT_TIP_PGE | INTEL_PT_TSC
  | INTEL_PT_TMA | INTEL_PT_MODE_EXEC | INTEL_PT_MODE_TSX | INTEL_PT_MTC | INTEL_PT_TIP | INTEL_PT_FUP
  | INTEL_PT_CYC | INTEL_PT_VMCS | INTEL_PT_PSB | INTEL_PT_PSBEND | INTEL_PT_CBR | INTEL_PT_TRACESTOP
  | INTEL_PT_PIP | INTEL_PT_OVF | INTEL_PT_MNT

text \<open>The decoder never stores a negative count, so the \<open>int\<close> is a natural number here.\<close>

record intel_pt_pkt =
  pkt_type :: intel_pt_pkt_type
  pkt_count :: nat
  pkt_payload :: u64

definition INTEL_PT_NEED_MORE_BYTES :: int where "INTEL_PT_NEED_MORE_BYTES = -1"
definition INTEL_PT_BAD_PACKET :: int where "INTEL_PT_BAD_PACKET = -2"
definition INTEL_PT_PKT_DESC_MAX :: nat where "INTEL_PT_PKT_DESC_MAX = 256"
definition INTEL_PT_PKT_MAX_SZ :: nat where "INTEL_PT_PKT_MAX_SZ = 16"
definition NR_FLAG :: u64 where "NR_FLAG = push_bit 63 1"

fun intel_pt_pkt_name :: "intel_pt_pkt_type \<Rightarrow> string" where
  "intel_pt_pkt_name INTEL_PT_BAD = ''Bad Packet!''"
| "intel_pt_pkt_name INTEL_PT_PAD = ''PAD''"
| "intel_pt_pkt_name INTEL_PT_TNT = ''TNT''"
| "intel_pt_pkt_name INTEL_PT_TIP_PGD = ''TIP.PGD''"
| "intel_pt_pkt_name INTEL_PT_TIP_PGE = ''TIP.PGE''"
| "intel_pt_pkt_name INTEL_PT_TSC = ''TSC''"
| "intel_pt_pkt_name INTEL_PT_TMA = ''TMA''"
| "intel_pt_pkt_name INTEL_PT_MODE_EXEC = ''MODE.Exec''"
| "intel_pt_pkt_name INTEL_PT_MODE_TSX = ''MODE.TSX''"
| "intel_pt_pkt_name INTEL_PT_MTC = ''MTC''"
| "intel_pt_pkt_name INTEL_PT_TIP = ''TIP''"
| "intel_pt_pkt_name INTEL_PT_FUP = ''FUP''"
| "intel_pt_pkt_name INTEL_PT_CYC = ''CYC''"
| "intel_pt_pkt_name INTEL_PT_VMCS = ''VMCS''"
| "intel_pt_pkt_name INTEL_PT_PSB = ''PSB''"
| "intel_pt_pkt_name INTEL_PT_PSBEND = ''PSBEND''"
| "intel_pt_pkt_name INTEL_PT_CBR = ''CBR''"
| "intel_pt_pkt_name INTEL_PT_TRACESTOP = ''TraceSTOP''"
| "intel_pt_pkt_name INTEL_PT_PIP = ''PIP''"
| "intel_pt_pkt_name INTEL_PT_OVF = ''OVF''"
| "intel_pt_pkt_name INTEL_PT_MNT = ''MNT''"

type_synonym pkt_result = "(int \<times> intel_pt_pkt) c_result"

subsection \<open>The decoders of the packet kinds\<close>

text \<open>The loops that look for the stop bit of a TNT packet.\<close>

primrec long_tnt_loop :: "nat \<Rightarrow> u64 \<Rightarrow> nat \<times> u64" where
  "long_tnt_loop 0 payload = (0, payload)"
| "long_tnt_loop (Suc count) payload =
     (if bit payload 63 then (Suc count, payload) else long_tnt_loop count (push_bit 1 payload))"

definition intel_pt_get_long_tnt :: "u8 list \<Rightarrow> intel_pt_pkt \<Rightarrow> pkt_result" where
  "intel_pt_get_long_tnt buf packet =
     (if length buf < 8 then Inr (INTEL_PT_NEED_MORE_BYTES, packet)
      else bnd (get_le buf 0 8) (\<lambda>payload.
        let (count, payload) = long_tnt_loop 47 payload
        in Inr (8, packet\<lparr>pkt_type := INTEL_PT_TNT, pkt_count := count, pkt_payload := push_bit 1 payload\<rparr>)))"

definition intel_pt_get_pip :: "u8 list \<Rightarrow> intel_pt_pkt \<Rightarrow> pkt_result" where
  "intel_pt_get_pip buf packet =
     (if length buf < 8 then Inr (INTEL_PT_NEED_MORE_BYTES, packet)
      else bnd (memcpy_le 0 buf 2 6) (\<lambda>payload.
        let packet = packet\<lparr>pkt_type := INTEL_PT_PIP, pkt_payload := drop_bit 1 payload\<rparr>
        in Inr (8, if payload AND 1 \<noteq> 0 then packet\<lparr>pkt_payload := pkt_payload packet OR NR_FLAG\<rparr> else packet)))"

definition intel_pt_get_tracestop :: "intel_pt_pkt \<Rightarrow> pkt_result" where
  "intel_pt_get_tracestop packet = Inr (2, packet\<lparr>pkt_type := INTEL_PT_TRACESTOP\<rparr>)"

definition intel_pt_get_cbr :: "u8 list \<Rightarrow> intel_pt_pkt \<Rightarrow> pkt_result" where
  "intel_pt_get_cbr buf packet =
     (if length buf < 4 then Inr (INTEL_PT_NEED_MORE_BYTES, packet)
      else bnd (rd buf 2) (\<lambda>b. Inr (4, packet\<lparr>pkt_type := INTEL_PT_CBR, pkt_payload := ucast b\<rparr>)))"

definition intel_pt_get_vmcs :: "u8 list \<Rightarrow> intel_pt_pkt \<Rightarrow> pkt_result" where
  "intel_pt_get_vmcs buf packet =
     (let count = drop_bit 3 (52 - 5) :: nat in
      if count < 1 \<or> 7 < count then Inr (INTEL_PT_BAD_PACKET, packet)
      else if length buf < count + 2 then Inr (INTEL_PT_NEED_MORE_BYTES, packet)
      else bnd (memcpy_le (pkt_payload packet) buf 2 count) (\<lambda>payload.
        Inr (int (count + 2), packet\<lparr>pkt_type := INTEL_PT_VMCS, pkt_count := count, pkt_payload := payload\<rparr>)))"

definition intel_pt_get_ovf :: "intel_pt_pkt \<Rightarrow> pkt_result" where
  "intel_pt_get_ovf packet = Inr (2, packet\<lparr>pkt_type := INTEL_PT_OVF\<rparr>)"

function psb_loop :: "u8 list \<Rightarrow> nat \<Rightarrow> bool c_result" where
  "psb_loop buf i =
     (if i < 16 then
        bnd (rd buf i) (\<lambda>a. if a \<noteq> 2 then Inr False
          else bnd (rd buf (i + 1)) (\<lambda>b. if b \<noteq> 0x82 then Inr False else psb_loop buf (i + 2)))
      else Inr True)"
  by pat_completeness auto
termination
  by (relation "measure (\<lambda>(buf, i). 16 - i)") auto

declare psb_loop.simps [simp del]

definition intel_pt_get_psb :: "u8 list \<Rightarrow> intel_pt_pkt \<Rightarrow> pkt_result" where
  "intel_pt_get_psb buf packet =
     (if length buf < 16 then Inr (INTEL_PT_NEED_MORE_BYTES, packet)
      else bnd (psb_loop buf 2) (\<lambda>ok.
        if ok then Inr (16, packet\<lparr>pkt_type := INTEL_PT_PSB\<rparr>) else Inr (INTEL_PT_BAD_PACKET, packet)))"

definition intel_pt_get_psbend :: "intel_pt_pkt \<Rightarrow> pkt_result" where
  "intel_pt_get_psbend packet = Inr (2, packet\<lparr>pkt_type := INTEL_PT_PSBEND\<rparr>)"

definition intel_pt_get_tma :: "u8 list \<Rightarrow> intel_pt_pkt \<Rightarrow> pkt_result" where
  "intel_pt_get_tma buf packet =
     (if length buf < 7 then Inr (INTEL_PT_NEED_MORE_BYTES, packet)
      else bnd (rd buf 2) (\<lambda>b2. bnd (rd buf 3) (\<lambda>b3. bnd (rd buf 5) (\<lambda>b5. bnd (rd buf 6) (\<lambda>b6.
        Inr (7, packet\<lparr>pkt_type := INTEL_PT_TMA,
          pkt_payload := ucast (ucast b2 OR push_bit 8 (ucast b3) :: u32),
          pkt_count := unat (ucast b5 OR push_bit 8 (ucast b6 AND 1) :: u32)\<rparr>))))))"

definition intel_pt_get_pad :: "intel_pt_pkt \<Rightarrow> pkt_result" where
  "intel_pt_get_pad packet = Inr (1, packet\<lparr>pkt_type := INTEL_PT_PAD\<rparr>)"

definition intel_pt_get_mnt :: "u8 list \<Rightarrow> intel_pt_pkt \<Rightarrow> pkt_result" where
  "intel_pt_get_mnt buf packet =
     (if length buf < 11 then Inr (INTEL_PT_NEED_MORE_BYTES, packet)
      else bnd (memcpy_le (pkt_payload packet) buf 3 8) (\<lambda>payload.
        Inr (11, packet\<lparr>pkt_type := INTEL_PT_MNT, pkt_payload := payload\<rparr>)))"

definition intel_pt_get_3byte :: "u8 list \<Rightarrow> intel_pt_pkt \<Rightarrow> pkt_result" where
  "intel_pt_get_3byte buf packet =
     (if length buf < 3 then Inr (INTEL_PT_NEED_MORE_BYTES, packet)
      else bnd (rd buf 2) (\<lambda>b.
        if b = 0x88 then intel_pt_get_mnt buf packet else Inr (INTEL_PT_BAD_PACKET, packet)))"

definition intel_pt_get_ext :: "u8 list \<Rightarrow> intel_pt_pkt \<Rightarrow> pkt_result" where
  "intel_pt_get_ext buf packet =
     (if length buf < 2 then Inr (INTEL_PT_NEED_MORE_BYTES, packet)
      else bnd (rd buf 1) (\<lambda>b.
        if b = 0xa3 then intel_pt_get_long_tnt buf packet
        else if b = 0x43 then intel_pt_get_pip buf packet
        else if b = 0x83 then intel_pt_get_tracestop packet
        else if b = 0x03 then intel_pt_get_cbr buf packet
        else if b = 0xc8 then intel_pt_get_vmcs buf packet
        else if b = 0xf3 then intel_pt_get_ovf packet
        else if b = 0x82 then intel_pt_get_psb buf packet
        else if b = 0x23 then intel_pt_get_psbend packet
        else if b = 0x73 then intel_pt_get_tma buf packet
        else if b = 0xC3 then intel_pt_get_3byte buf packet
        else Inr (INTEL_PT_BAD_PACKET, packet)))"

primrec short_tnt_loop :: "nat \<Rightarrow> u32 \<Rightarrow> nat \<times> u32" where
  "short_tnt_loop 0 byte = (0, byte)"
| "short_tnt_loop (Suc count) byte =
     (if bit byte 7 then (Suc count, byte) else short_tnt_loop count (push_bit 1 byte))"

definition intel_pt_get_short_tnt :: "u32 \<Rightarrow> intel_pt_pkt \<Rightarrow> pkt_result" where
  "intel_pt_get_short_tnt byte packet =
     (let (count, byte) = short_tnt_loop 6 byte
      in Inr (1, packet\<lparr>pkt_type := INTEL_PT_TNT, pkt_count := count, pkt_payload := push_bit 57 (ucast byte)\<rparr>))"

text \<open>
  A shift of an \<open>unsigned int\<close> by its width or more is undefined, so the loop of
  \<open>intel_pt_get_cyc\<close> checks the shift count.
\<close>

definition shl32 :: "u32 \<Rightarrow> nat \<Rightarrow> u32 c_result" where
  "shl32 w n = (if n < 32 then Inr (push_bit n w) else Inl Bad_Shift)"

function cyc_loop :: "u8 list \<Rightarrow> nat \<Rightarrow> nat \<Rightarrow> nat \<Rightarrow> u32 \<Rightarrow> u64 \<Rightarrow> (int + nat \<times> u64) c_result" where
  "cyc_loop buf len offs shift byte payload =
     (if bit byte 0 then
        if 9 < offs then Inr (Inl INTEL_PT_BAD_PACKET)
        else if len < offs then Inr (Inl INTEL_PT_NEED_MORE_BYTES)
        else bnd (rd buf offs) (\<lambda>b. bnd (shl32 (drop_bit 1 (ucast b)) shift) (\<lambda>v.
          cyc_loop buf len (offs + 1) (shift + 7) (ucast b) (payload OR ucast v)))
      else Inr (Inr (offs, payload)))"
  by pat_completeness auto
termination
  by (relation "measure (\<lambda>(buf, len, offs, shift, byte, payload). 10 - offs)") auto

declare cyc_loop.simps [simp del]

definition intel_pt_get_cyc :: "u32 \<Rightarrow> u8 list \<Rightarrow> intel_pt_pkt \<Rightarrow> pkt_result" where
  "intel_pt_get_cyc byte buf packet =
     bnd (cyc_loop buf (length buf - 1) 1 5 (drop_bit 2 byte) (ucast (drop_bit 3 byte))) (\<lambda>r.
       case r of Inl err \<Rightarrow> Inr (err, packet)
       | Inr (offs, payload) \<Rightarrow> Inr (int offs, packet\<lparr>pkt_type := INTEL_PT_CYC, pkt_payload := payload\<rparr>))"

definition intel_pt_get_ip :: "intel_pt_pkt_type \<Rightarrow> u32 \<Rightarrow> u8 list \<Rightarrow> intel_pt_pkt \<Rightarrow> pkt_result" where
  "intel_pt_get_ip type byte buf packet0 =
     (let packet = packet0\<lparr>pkt_count := unat (drop_bit 5 byte)\<rparr>; count = pkt_count packet in
      if count = 0 then Inr (1, packet\<lparr>pkt_type := type\<rparr>)
      else if count = 1 then
        if length buf < 3 then Inr (INTEL_PT_NEED_MORE_BYTES, packet)
        else bnd (get_le buf 1 2) (\<lambda>v. Inr (3, packet\<lparr>pkt_payload := v, pkt_type := type\<rparr>))
      else if count = 2 then
        if length buf < 5 then Inr (INTEL_PT_NEED_MORE_BYTES, packet)
        else bnd (get_le buf 1 4) (\<lambda>v. Inr (5, packet\<lparr>pkt_payload := v, pkt_type := type\<rparr>))
      else if count = 3 \<or> count = 4 then
        if length buf < 7 then Inr (INTEL_PT_NEED_MORE_BYTES, packet)
        else bnd (memcpy_le (pkt_payload packet) buf 1 6) (\<lambda>v. Inr (7, packet\<lparr>pkt_payload := v, pkt_type := type\<rparr>))
      else if count = 6 then
        if length buf < 9 then Inr (INTEL_PT_NEED_MORE_BYTES, packet)
        else bnd (get_le buf 1 8) (\<lambda>v. Inr (9, packet\<lparr>pkt_payload := v, pkt_type := type\<rparr>))
      else Inr (INTEL_PT_BAD_PACKET, packet))"

definition intel_pt_get_mode :: "u8 list \<Rightarrow> intel_pt_pkt \<Rightarrow> pkt_result" where
  "intel_pt_get_mode buf packet =
     (if length buf < 2 then Inr (INTEL_PT_NEED_MORE_BYTES, packet)
      else bnd (rd buf 1) (\<lambda>b.
        if drop_bit 5 b = 0 then
          let packet = packet\<lparr>pkt_type := INTEL_PT_MODE_EXEC\<rparr> in
          if b AND 3 = 0 then Inr (2, packet\<lparr>pkt_payload := 16\<rparr>)
          else if b AND 3 = 1 then Inr (2, packet\<lparr>pkt_payload := 64\<rparr>)
          else if b AND 3 = 2 then Inr (2, packet\<lparr>pkt_payload := 32\<rparr>)
          else Inr (INTEL_PT_BAD_PACKET, packet)
        else if drop_bit 5 b = 1 then
          let packet = packet\<lparr>pkt_type := INTEL_PT_MODE_TSX\<rparr> in
          if b AND 3 = 3 then Inr (INTEL_PT_BAD_PACKET, packet)
          else Inr (2, packet\<lparr>pkt_payload := ucast (b AND 3)\<rparr>)
        else Inr (INTEL_PT_BAD_PACKET, packet)))"

definition intel_pt_get_tsc :: "u8 list \<Rightarrow> intel_pt_pkt \<Rightarrow> pkt_result" where
  "intel_pt_get_tsc buf packet =
     (if length buf < 8 then Inr (INTEL_PT_NEED_MORE_BYTES, packet)
      else bnd (memcpy_le (pkt_payload packet) buf 1 7) (\<lambda>payload.
        Inr (8, packet\<lparr>pkt_type := INTEL_PT_TSC, pkt_payload := payload\<rparr>)))"

definition intel_pt_get_mtc :: "u8 list \<Rightarrow> intel_pt_pkt \<Rightarrow> pkt_result" where
  "intel_pt_get_mtc buf packet =
     (if length buf < 2 then Inr (INTEL_PT_NEED_MORE_BYTES, packet)
      else bnd (rd buf 1) (\<lambda>b. Inr (2, packet\<lparr>pkt_type := INTEL_PT_MTC, pkt_payload := ucast b\<rparr>)))"

subsection \<open>One packet\<close>

definition no_packet :: intel_pt_pkt where
  "no_packet = \<lparr>pkt_type = INTEL_PT_BAD, pkt_count = 0, pkt_payload = 0\<rparr>"

definition intel_pt_do_get_packet :: "u8 list \<Rightarrow> pkt_result" where
  "intel_pt_do_get_packet buf =
     (let packet = no_packet in
      if buf = [] then Inr (INTEL_PT_NEED_MORE_BYTES, packet)
      else bnd (rd buf 0) (\<lambda>b. let byte = ucast b :: u32 in
        if \<not> bit byte 0 then
          if byte = 0 then intel_pt_get_pad packet
          else if byte = 2 then intel_pt_get_ext buf packet
          else intel_pt_get_short_tnt byte packet
        else if bit byte 1 then intel_pt_get_cyc byte buf packet
        else if byte AND 0x1f = 0x0D then intel_pt_get_ip INTEL_PT_TIP byte buf packet
        else if byte AND 0x1f = 0x11 then intel_pt_get_ip INTEL_PT_TIP_PGE byte buf packet
        else if byte AND 0x1f = 0x01 then intel_pt_get_ip INTEL_PT_TIP_PGD byte buf packet
        else if byte AND 0x1f = 0x1D then intel_pt_get_ip INTEL_PT_FUP byte buf packet
        else if byte AND 0x1f = 0x19 then
          if byte = 0x99 then intel_pt_get_mode buf packet
          else if byte = 0x19 then intel_pt_get_tsc buf packet
          else if byte = 0x59 then intel_pt_get_mtc buf packet
          else Inr (INTEL_PT_BAD_PACKET, packet)
        else Inr (INTEL_PT_BAD_PACKET, packet)))"

function skip_pad :: "u8 list \<Rightarrow> nat \<Rightarrow> nat c_result" where
  "skip_pad buf ret =
     (if ret < 8 \<and> ret < length buf then
        bnd (rd buf ret) (\<lambda>b. if b = 0 then skip_pad buf (ret + 1) else Inr ret)
      else Inr ret)"
  by pat_completeness auto
termination
  by (relation "measure (\<lambda>(buf, ret). 8 - ret)") auto

declare skip_pad.simps [simp del]

definition intel_pt_get_packet :: "u8 list \<Rightarrow> pkt_result" where
  "intel_pt_get_packet buf = bnd (intel_pt_do_get_packet buf) (\<lambda>(ret, packet).
     if 0 < ret then bnd (skip_pad buf (nat ret)) (\<lambda>ret. Inr (int ret, packet)) else Inr (ret, packet))"

subsection \<open>Describing a packet\<close>

text \<open>
  The loop that prints the outcomes of a TNT packet.  \<open>pos\<close> is how far \<open>buf\<close> has been advanced and
  \<open>blen\<close> the \<open>size_t\<close> that is left of the buffer.
\<close>

primrec tnt_desc_loop :: "nat \<Rightarrow> u64 \<Rightarrow> char list \<Rightarrow> nat \<Rightarrow> u64 \<Rightarrow> (char list \<times> nat \<times> u64) c_result" where
  "tnt_desc_loop 0 payload buf pos blen = Inr (buf, pos, blen)"
| "tnt_desc_loop (Suc n) payload buf pos blen =
     bnd (snprintf buf pos blen (if bit payload 63 then ''T'' else ''N'')) (\<lambda>(ret, buf).
       tnt_desc_loop n (push_bit 1 payload) buf (pos + ret) (blen - of_nat ret))"

definition intel_pt_pkt_desc :: "intel_pt_pkt \<Rightarrow> char list \<Rightarrow> u64 \<Rightarrow> (nat \<times> char list) c_result" where
  "intel_pt_pkt_desc packet buf buf_len =
     (let payload = pkt_payload packet; type = pkt_type packet; name = intel_pt_pkt_name type;
          count = format_d (int (pkt_count packet)) in
      if type \<in> {INTEL_PT_BAD, INTEL_PT_PAD, INTEL_PT_PSB, INTEL_PT_PSBEND, INTEL_PT_TRACESTOP, INTEL_PT_OVF} then
        snprintf buf 0 buf_len name
      else if type = INTEL_PT_TNT then
        bnd (snprintf buf 0 buf_len (name @ '' '')) (\<lambda>(ret, buf).
          bnd (tnt_desc_loop (pkt_count packet) payload buf ret (buf_len - of_nat ret)) (\<lambda>(buf, pos, blen).
            bnd (snprintf buf pos blen ('' ('' @ count @ '')'')) (\<lambda>(ret, buf).
              Inr (unat (buf_len - (blen - of_nat ret)), buf))))
      else if type \<in> {INTEL_PT_TIP_PGD, INTEL_PT_TIP_PGE, INTEL_PT_TIP, INTEL_PT_FUP} \<and> pkt_count packet = 0 then
        snprintf buf 0 buf_len (name @ '' no ip'')
      else if type \<in> {INTEL_PT_TIP_PGD, INTEL_PT_TIP_PGE, INTEL_PT_TIP, INTEL_PT_FUP, INTEL_PT_CYC, INTEL_PT_VMCS,
          INTEL_PT_MTC, INTEL_PT_MNT, INTEL_PT_CBR, INTEL_PT_TSC} then
        snprintf buf 0 buf_len (name @ '' 0x'' @ format_x payload)
      else if type = INTEL_PT_TMA then
        snprintf buf 0 buf_len (name @ '' CTC 0x'' @ format_x (ucast payload :: u32) @ '' FC 0x'' @
          format_x (of_nat (pkt_count packet) :: u32))
      else if type = INTEL_PT_MODE_EXEC then
        snprintf buf 0 buf_len (name @ '' '' @ format_d (sint payload))
      else if type = INTEL_PT_MODE_TSX then
        snprintf buf 0 buf_len (name @ '' TXAbort:'' @ format_d (uint (drop_bit 1 payload AND 1)) @
          '' InTX:'' @ format_d (uint (payload AND 1)))
      else
        let nr = if payload AND NR_FLAG \<noteq> 0 then 1 else 0 in
        snprintf buf 0 buf_len (name @ '' 0x'' @ format_x (payload AND NOT NR_FLAG) @ '' (NR='' @ format_d nr @ '')''))"

subsection \<open>Bounds\<close>

text \<open>What a decoder of a packet in a buffer of \<open>n\<close> bytes may return.\<close>

definition decoded_ok :: "nat \<Rightarrow> pkt_result \<Rightarrow> bool" where
  "decoded_ok n r \<longleftrightarrow> (\<exists>ret p. r = Inr (ret, p) \<and>
     (ret = INTEL_PT_NEED_MORE_BYTES \<and> n < INTEL_PT_PKT_MAX_SZ \<or> ret = INTEL_PT_BAD_PACKET \<or>
      0 < ret \<and> ret \<le> int n \<and> ret \<le> int INTEL_PT_PKT_MAX_SZ))"

lemmas pt_codes = INTEL_PT_NEED_MORE_BYTES_def INTEL_PT_BAD_PACKET_def INTEL_PT_PKT_MAX_SZ_def

lemmas pt_ext_defs =
  intel_pt_get_long_tnt_def intel_pt_get_pip_def intel_pt_get_tracestop_def intel_pt_get_cbr_def intel_pt_get_vmcs_def
  intel_pt_get_ovf_def intel_pt_get_psbend_def intel_pt_get_tma_def intel_pt_get_mnt_def

lemma psb_loop_in: "16 \<le> length buf \<Longrightarrow> even i \<Longrightarrow> \<exists>ok. psb_loop buf i = Inr ok"
proof (induction buf i rule: psb_loop.induct)
  case (1 buf i)
  have "i < 16 \<Longrightarrow> i + 1 < 16" using \<open>even i\<close> by presburger
  with 1 show ?case by (subst psb_loop.simps) auto
qed

lemma psb_ok: "decoded_ok (length buf) (intel_pt_get_psb buf packet)"
  using psb_loop_in [of buf 2] by (auto simp: intel_pt_get_psb_def decoded_ok_def pt_codes)

lemma ext_ok: "buf \<noteq> [] \<Longrightarrow> decoded_ok (length buf) (intel_pt_get_ext buf packet)"
  using psb_ok [of buf packet] unfolding intel_pt_get_ext_def
  by (auto simp: pt_ext_defs intel_pt_get_3byte_def decoded_ok_def pt_codes Let_def split_def)

lemma short_tnt_ok: "0 < n \<Longrightarrow> decoded_ok n (intel_pt_get_short_tnt byte packet)"
  by (simp add: intel_pt_get_short_tnt_def decoded_ok_def pt_codes split_def Let_def)

lemma ip_ok: "buf \<noteq> [] \<Longrightarrow> decoded_ok (length buf) (intel_pt_get_ip type byte buf packet)"
  by (auto simp: intel_pt_get_ip_def decoded_ok_def pt_codes Let_def Suc_le_eq)

lemma mode_ok: "decoded_ok (length buf) (intel_pt_get_mode buf packet)"
  by (auto simp: intel_pt_get_mode_def decoded_ok_def pt_codes Let_def)

lemma tsc_ok: "decoded_ok (length buf) (intel_pt_get_tsc buf packet)"
  by (auto simp: intel_pt_get_tsc_def decoded_ok_def pt_codes)

lemma mtc_ok: "decoded_ok (length buf) (intel_pt_get_mtc buf packet)"
  by (auto simp: intel_pt_get_mtc_def decoded_ok_def pt_codes)

text \<open>
  The fifth extension byte of a CYC packet is shifted by 33; bytes before it and buffers that end
  before it are in range.
\<close>

definition long_cyc :: "u8 list \<Rightarrow> bool" where
  "long_cyc buf \<longleftrightarrow> 6 \<le> length buf \<and> (\<forall>i \<in> {0, 1, 2}. bit (buf ! 0) i) \<and> (\<forall>i \<in> {1, 2, 3, 4}. bit (buf ! i) 0)"

lemma cyc_loop_step:
  "bit byte 0 \<Longrightarrow> offs \<le> 9 \<Longrightarrow> offs < length buf \<Longrightarrow> shift < 32 \<Longrightarrow>
    cyc_loop buf (length buf - 1) offs shift byte payload =
      cyc_loop buf (length buf - 1) (offs + 1) (shift + 7) (ucast (buf ! offs)) (payload OR ucast (push_bit shift (drop_bit 1 (ucast (buf ! offs) :: u32))))"
proof -
  assume a: "bit byte 0" "offs \<le> 9" "offs < length buf" "shift < 32"
  then have "\<not> length buf - 1 < offs" by linarith
  then show ?thesis using a by (simp add: cyc_loop.simps [of buf _ offs] shl32_def)
qed

lemma cyc_loop_end: "\<not> bit byte 0 \<Longrightarrow> cyc_loop buf len offs shift byte payload = Inr (Inr (offs, payload))"
  by (subst cyc_loop.simps) simp

lemma cyc_loop_more: "bit byte 0 \<Longrightarrow> offs \<le> 9 \<Longrightarrow> len < offs \<Longrightarrow> cyc_loop buf len offs shift byte payload = Inr (Inl INTEL_PT_NEED_MORE_BYTES)"
  by (subst cyc_loop.simps) simp

lemma cyc_loop_bounds:
  assumes "1 \<le> offs" "offs \<le> 5" "offs \<le> length buf" "shift + 2 = 7 * offs"
  shows "if bit byte 0 \<and> (\<forall>i \<in> {offs..<5}. bit (buf ! i) 0) \<and> 6 \<le> length buf
     then cyc_loop buf (length buf - 1) offs shift byte payload = Inl Bad_Shift
     else cyc_loop buf (length buf - 1) offs shift byte payload = Inr (Inl INTEL_PT_NEED_MORE_BYTES) \<and> length buf \<le> 5 \<or>
       (\<exists>o' v. cyc_loop buf (length buf - 1) offs shift byte payload = Inr (Inr (o', v)) \<and> offs \<le> o' \<and> o' \<le> 5 \<and> o' \<le> length buf)"
  using assms
proof (induction "5 - offs" arbitrary: offs shift byte payload)
  case 0
  then have o: "offs = 5" "shift = 33" by simp_all
  show ?case
  proof (cases "bit byte 0")
    case True
    then show ?thesis using 0 o by (cases "6 \<le> length buf") (simp_all add: cyc_loop.simps [of buf] shl32_def)
  next
    case False
    then show ?thesis using 0 o by (simp add: cyc_loop_end)
  qed
next
  case (Suc d)
  let ?p = "payload OR ucast (push_bit shift (drop_bit 1 (ucast (buf ! offs) :: u32)))"
  have s: "{offs..<5} = insert offs {offs + 1..<5}" using Suc by auto
  consider "\<not> bit byte 0" | "bit byte 0" "length buf = offs" | "bit byte 0" "offs < length buf" using Suc.prems by linarith
  then show ?case
  proof cases
    case 1
    then show ?thesis using Suc.prems by (simp add: cyc_loop_end)
  next
    case 2
    then show ?thesis using Suc.prems Suc.hyps(2) by (auto simp: cyc_loop_more)
  next
    case 3
    have o: "1 \<le> offs + 1" "offs + 1 \<le> 5" "offs + 1 \<le> length buf" "shift + 7 + 2 = 7 * (offs + 1)" "d = 5 - (offs + 1)" "shift < 32" "offs \<le> 9"
      using Suc.prems Suc.hyps(2) 3 by auto
    have "bit (ucast (buf ! offs) :: u32) 0 = bit (buf ! offs) 0" by (simp add: bit_simps)
    then show ?thesis
      using Suc.hyps(1) [OF o(5,1-4), of "ucast (buf ! offs)" ?p] 3(1)
      unfolding cyc_loop_step [OF 3(1) o(7) 3(2) o(6)] s by (auto split: if_splits)
  qed
qed

lemma cyc_ok:
  assumes "buf \<noteq> []" "bit (buf ! 0) 0" "bit (buf ! 0) 1"
  shows "if long_cyc buf then intel_pt_get_cyc (ucast (buf ! 0)) buf packet = Inl Bad_Shift
     else decoded_ok (length buf) (intel_pt_get_cyc (ucast (buf ! 0)) buf packet)"
proof -
  have b: "bit (drop_bit 2 (ucast (buf ! 0) :: u32)) 0 = bit (buf ! 0) 2" by (simp add: bit_simps)
  have s: "{1..<5} = {1, 2, 3, 4 :: nat}" by auto
  have l: "long_cyc buf \<longleftrightarrow> bit (buf ! 0) 2 \<and> (\<forall>i \<in> {1..<5}. bit (buf ! i) 0) \<and> 6 \<le> length buf"
    unfolding long_cyc_def s using assms(2,3) by auto
  show ?thesis
    using cyc_loop_bounds [of 1 buf 5 "drop_bit 2 (ucast (buf ! 0))" "ucast (drop_bit 3 (ucast (buf ! 0) :: u32))"] assms(1)
    unfolding l b intel_pt_get_cyc_def
    by (auto simp: decoded_ok_def pt_codes Suc_le_eq split: if_splits)
qed

lemma do_get_packet_ok:
  "if long_cyc buf then intel_pt_do_get_packet buf = Inl Bad_Shift
   else decoded_ok (length buf) (intel_pt_do_get_packet buf)"
proof (cases "buf = []")
  case True
  then show ?thesis by (simp add: long_cyc_def intel_pt_do_get_packet_def decoded_ok_def pt_codes)
next
  case False
  have b: "bit (ucast (buf ! 0) :: u32) i = bit (buf ! 0) i" if "i < 8" for i using that by (simp add: bit_simps)
  have bad: "decoded_ok (length buf) (Inr (INTEL_PT_BAD_PACKET, p))" for p by (simp add: decoded_ok_def)
  show ?thesis
  proof (cases "bit (buf ! 0) 0 \<and> bit (buf ! 0) 1")
    case True
    then show ?thesis using False cyc_ok [of buf no_packet] b [of 0] b [of 1] by (simp add: intel_pt_do_get_packet_def Let_def)
  next
    case nc: False
    then have "\<not> long_cyc buf" by (auto simp: long_cyc_def)
    moreover have "decoded_ok (length buf) (intel_pt_get_pad no_packet)"
      using False by (simp add: intel_pt_get_pad_def decoded_ok_def pt_codes Suc_le_eq)
    ultimately show ?thesis
      using False nc b [of 0] b [of 1] ext_ok [OF False, of no_packet] short_tnt_ok [of "length buf" _ no_packet]
        ip_ok [OF False, of _ _ no_packet] mode_ok [of buf no_packet] tsc_ok [of buf no_packet] mtc_ok [of buf no_packet] bad [of no_packet]
      by (auto simp: intel_pt_do_get_packet_def Let_def)
  qed
qed

lemma skip_pad_ok:
  "ret \<le> length buf \<Longrightarrow> \<exists>r. skip_pad buf ret = Inr r \<and> ret \<le> r \<and> r \<le> max 8 ret \<and> r \<le> length buf \<and>
     (\<forall>i. ret \<le> i \<and> i < r \<longrightarrow> buf ! i = 0)"
proof (induction buf ret rule: skip_pad.induct)
  case (1 buf ret)
  show ?case
  proof (cases "ret < 8 \<and> ret < length buf \<and> buf ! ret = 0")
    case True
    then obtain r where r: "skip_pad buf (ret + 1) = Inr r" "ret + 1 \<le> r" "r \<le> max 8 (ret + 1)" "r \<le> length buf"
      "\<forall>i. ret + 1 \<le> i \<and> i < r \<longrightarrow> buf ! i = 0" using 1 by auto
    then have "buf ! i = 0" if "ret \<le> i" "i < r" for i using that True by (cases "i = ret") auto
    then show ?thesis using r True by (intro exI [of _ r]) (auto simp: skip_pad.simps [of buf ret])
  next
    case False
    then show ?thesis using 1(2) by (subst skip_pad.simps) auto
  qed
qed

lemma get_packet_ok:
  "if long_cyc buf then intel_pt_get_packet buf = Inl Bad_Shift else decoded_ok (length buf) (intel_pt_get_packet buf)"
proof (cases "long_cyc buf")
  case True
  then show ?thesis using do_get_packet_ok [of buf] by (simp add: intel_pt_get_packet_def)
next
  case False
  then obtain ret p where r: "intel_pt_do_get_packet buf = Inr (ret, p)"
     "ret = INTEL_PT_NEED_MORE_BYTES \<and> length buf < INTEL_PT_PKT_MAX_SZ \<or> ret = INTEL_PT_BAD_PACKET \<or>
      0 < ret \<and> ret \<le> int (length buf) \<and> ret \<le> int INTEL_PT_PKT_MAX_SZ"
    using do_get_packet_ok [of buf] by (auto simp: decoded_ok_def)
  show ?thesis
  proof (cases "0 < ret")
    case True
    then have "nat ret \<le> length buf" "nat ret \<le> 16" using r(2) by (auto simp: pt_codes)
    then show ?thesis using skip_pad_ok [of "nat ret" buf] r True False
      by (auto simp: intel_pt_get_packet_def decoded_ok_def pt_codes)
  qed (use r False in \<open>auto simp: intel_pt_get_packet_def decoded_ok_def\<close>)
qed

subsection \<open>More bytes\<close>

text \<open>A result other than \<open>INTEL_PT_NEED_MORE_BYTES\<close> does not depend on the bytes behind the packet.\<close>

definition settled :: "pkt_result \<Rightarrow> pkt_result \<Rightarrow> bool" where
  "settled r r' \<longleftrightarrow> (\<exists>p. r = Inr (INTEL_PT_NEED_MORE_BYTES, p)) \<or> r' = r"

lemma settled_refl [simp]: "settled r r"
  by (simp add: settled_def)

lemma settled_more [simp]: "settled (Inr (INTEL_PT_NEED_MORE_BYTES, p)) r"
  by (auto simp: settled_def)

lemma psb_loop_append: "16 \<le> length buf \<Longrightarrow> even i \<Longrightarrow> psb_loop (buf @ rest) i = psb_loop buf i"
proof (induction buf i rule: psb_loop.induct)
  case (1 buf i)
  have i: "i < length buf \<and> Suc i < length buf" if "i < 16" using \<open>even i\<close> \<open>16 \<le> length buf\<close> that by presburger
  show ?case
  proof (cases "i < 16")
    case True
    with 1 i [OF True] show ?thesis by (simp add: psb_loop.simps [of "buf @ rest" i] psb_loop.simps [of buf i] nth_append)
  qed (simp add: psb_loop.simps [of "buf @ rest" i] psb_loop.simps [of buf i])
qed

lemma ext_settled: "buf \<noteq> [] \<Longrightarrow> settled (intel_pt_get_ext buf p) (intel_pt_get_ext (buf @ rest) p)"
  using psb_loop_append [of buf 2 rest]
  by (simp add: intel_pt_get_ext_def pt_ext_defs intel_pt_get_3byte_def intel_pt_get_psb_def Let_def nth_append)

lemma ip_settled: "buf \<noteq> [] \<Longrightarrow> settled (intel_pt_get_ip type byte buf p) (intel_pt_get_ip type byte (buf @ rest) p)"
  by (cases buf) (simp_all add: intel_pt_get_ip_def Let_def nth_append)

lemma byte1_settled:
  "settled (intel_pt_get_mode buf p) (intel_pt_get_mode (buf @ rest) p)"
  "settled (intel_pt_get_tsc buf p) (intel_pt_get_tsc (buf @ rest) p)"
  "settled (intel_pt_get_mtc buf p) (intel_pt_get_mtc (buf @ rest) p)"
  by (simp_all add: intel_pt_get_mode_def intel_pt_get_tsc_def intel_pt_get_mtc_def Let_def nth_append)

lemma cyc_loop_append:
  "len < length buf \<Longrightarrow> cyc_loop buf len offs shift byte payload \<noteq> Inr (Inl INTEL_PT_NEED_MORE_BYTES) \<Longrightarrow>
    cyc_loop (buf @ rest) (len + m) offs shift byte payload = cyc_loop buf len offs shift byte payload"
proof (induction buf len offs shift byte payload rule: cyc_loop.induct)
  case (1 buf len offs shift byte payload)
  show ?case
  proof (cases "bit byte 0 \<and> \<not> 9 < offs \<and> \<not> len < offs \<and> shift < 32")
    case True
    then have "offs < length buf" using 1(2) by simp
    then show ?thesis using True 1
      by (simp add: cyc_loop.simps [of "buf @ rest" "len + m" offs] cyc_loop.simps [of buf len offs] nth_append shl32_def)
  next
    case False
    then show ?thesis using 1(2,3)
      by (auto simp: cyc_loop.simps [of "buf @ rest" "len + m" offs] cyc_loop.simps [of buf len offs] nth_append shl32_def)
  qed
qed

lemma cyc_settled: "buf \<noteq> [] \<Longrightarrow> settled (intel_pt_get_cyc byte buf p) (intel_pt_get_cyc byte (buf @ rest) p)"
proof -
  assume ne: "buf \<noteq> []"
  let ?c = "cyc_loop buf (length buf - 1) 1 5 (drop_bit 2 byte) (ucast (drop_bit 3 byte))"
  have "length (buf @ rest) - 1 = (length buf - 1) + length rest" using ne by (cases buf) simp_all
  then show ?thesis
    using cyc_loop_append [of "length buf - 1" buf 1 5 "drop_bit 2 byte" "ucast (drop_bit 3 byte)" rest "length rest"] ne
    by (cases "?c = Inr (Inl INTEL_PT_NEED_MORE_BYTES)") (auto simp: intel_pt_get_cyc_def settled_def)
qed

lemma do_get_packet_settled: "settled (intel_pt_do_get_packet buf) (intel_pt_do_get_packet (buf @ rest))"
proof (cases "buf = []")
  case True
  then show ?thesis by (simp add: intel_pt_do_get_packet_def)
next
  case False
  then show ?thesis
    using ext_settled [of buf no_packet rest] ip_settled [of buf _ _ no_packet rest] byte1_settled [of buf no_packet rest]
      cyc_settled [of buf _ no_packet rest]
    by (simp add: intel_pt_do_get_packet_def Let_def nth_append)
qed

subsection \<open>The packet formats\<close>

text \<open>
  The encoding of each packet, as the processor writes it; \<open>pkt_ok\<close> says which packets have one.
  A TNT packet keeps its outcomes in the top bits of the payload, the oldest in bit 63, and is
  encoded as a stop bit followed by them.
\<close>

definition fits :: "nat \<Rightarrow> u64 \<Rightarrow> bool" where
  "fits k w \<longleftrightarrow> take_bit k w = w"

definition ip_len :: "nat \<Rightarrow> nat" where
  "ip_len count = (if count = 0 then 0 else if count = 1 then 2 else if count = 2 then 4 else if count < 6 then 6 else 8)"

definition tnt_field :: "intel_pt_pkt \<Rightarrow> u64" where
  "tnt_field p = push_bit (pkt_count p) 1 OR drop_bit (64 - pkt_count p) (pkt_payload p)"

function cyc_more :: "u64 \<Rightarrow> u8 list" where
  "cyc_more v = (if v = 0 then []
     else (push_bit 1 (ucast (take_bit 7 v)) OR (if drop_bit 7 v \<noteq> 0 then 1 else 0)) # cyc_more (drop_bit 7 v))"
  by pat_completeness auto
termination
proof (relation "measure unat")
  fix v :: u64
  assume "v \<noteq> 0"
  then have "unat v div 2 ^ 7 < unat v" by (intro div_less_dividend) (auto simp: unat_gt_0)
  moreover have "unat (drop_bit 7 v) = unat v div 2 ^ 7" by (simp only: unsigned_drop_bit_eq) (simp add: drop_bit_eq_div take_bit_nat_eq_self unat_u64 [simplified])
  ultimately show "(drop_bit 7 v, v) \<in> measure unat" by simp
qed simp

declare cyc_more.simps [simp del]

definition ip_code :: "intel_pt_pkt_type \<Rightarrow> u8" where
  "ip_code t = (if t = INTEL_PT_TIP then 0x0D else if t = INTEL_PT_TIP_PGE then 0x11 else if t = INTEL_PT_TIP_PGD then 0x01 else 0x1D)"

definition encode :: "intel_pt_pkt \<Rightarrow> u8 list" where
  "encode p = (case pkt_type p of
       INTEL_PT_BAD \<Rightarrow> []
     | INTEL_PT_PAD \<Rightarrow> [0]
     | INTEL_PT_TNT \<Rightarrow> if pkt_count p \<le> 6 then [push_bit 1 (ucast (tnt_field p))] else [0x02, 0xa3] @ le_bytes 6 (tnt_field p)
     | INTEL_PT_TSC \<Rightarrow> 0x19 # le_bytes 7 (pkt_payload p)
     | INTEL_PT_TMA \<Rightarrow> [0x02, 0x73] @ le_bytes 2 (pkt_payload p) @ [0] @ le_bytes 2 (of_nat (pkt_count p) :: u64)
     | INTEL_PT_MODE_EXEC \<Rightarrow> [0x99, if pkt_payload p = 16 then 0 else if pkt_payload p = 64 then 1 else 2]
     | INTEL_PT_MODE_TSX \<Rightarrow> [0x99, 0x20 OR ucast (pkt_payload p)]
     | INTEL_PT_MTC \<Rightarrow> [0x59, ucast (pkt_payload p)]
     | INTEL_PT_CYC \<Rightarrow> (push_bit 3 (ucast (pkt_payload p)) OR (if drop_bit 5 (pkt_payload p) \<noteq> 0 then 4 else 0) OR 3) #
         cyc_more (drop_bit 5 (pkt_payload p))
     | INTEL_PT_VMCS \<Rightarrow> [0x02, 0xc8] @ le_bytes 5 (pkt_payload p)
     | INTEL_PT_PSB \<Rightarrow> [0x02, 0x82, 0x02, 0x82, 0x02, 0x82, 0x02, 0x82, 0x02, 0x82, 0x02, 0x82, 0x02, 0x82, 0x02, 0x82]
     | INTEL_PT_PSBEND \<Rightarrow> [0x02, 0x23]
     | INTEL_PT_CBR \<Rightarrow> [0x02, 0x03, ucast (pkt_payload p), 0]
     | INTEL_PT_TRACESTOP \<Rightarrow> [0x02, 0x83]
     | INTEL_PT_PIP \<Rightarrow> [0x02, 0x43] @ le_bytes 6 (push_bit 1 (pkt_payload p) OR drop_bit 63 (pkt_payload p))
     | INTEL_PT_OVF \<Rightarrow> [0x02, 0xf3]
     | INTEL_PT_MNT \<Rightarrow> [0x02, 0xC3, 0x88] @ le_bytes 8 (pkt_payload p)
     | t \<Rightarrow> (push_bit 5 (of_nat (pkt_count p)) OR ip_code t) # le_bytes (ip_len (pkt_count p)) (pkt_payload p))"

definition pkt_ok :: "intel_pt_pkt \<Rightarrow> bool" where
  "pkt_ok p \<longleftrightarrow> (let w = pkt_payload p; n = pkt_count p in case pkt_type p of
       INTEL_PT_BAD \<Rightarrow> False
     | INTEL_PT_TNT \<Rightarrow> 0 < n \<and> n \<le> 47
     | INTEL_PT_TSC \<Rightarrow> fits 56 w \<and> n = 0
     | INTEL_PT_TMA \<Rightarrow> fits 16 w \<and> n < 512
     | INTEL_PT_MODE_EXEC \<Rightarrow> (w = 16 \<or> w = 32 \<or> w = 64) \<and> n = 0
     | INTEL_PT_MODE_TSX \<Rightarrow> w < 3 \<and> n = 0
     | INTEL_PT_MTC \<Rightarrow> fits 8 w \<and> n = 0
     | INTEL_PT_CBR \<Rightarrow> fits 8 w \<and> n = 0
     | INTEL_PT_CYC \<Rightarrow> fits 32 w \<and> n = 0
     | INTEL_PT_VMCS \<Rightarrow> fits 40 w \<and> n = 5
     | INTEL_PT_PIP \<Rightarrow> (\<forall>i \<in> {47..<63}. \<not> bit w i) \<and> n = 0
     | INTEL_PT_MNT \<Rightarrow> n = 0
     | INTEL_PT_TIP_PGD \<Rightarrow> n \<in> {0, 1, 2, 3, 4, 6} \<and> fits (8 * ip_len n) w
     | INTEL_PT_TIP_PGE \<Rightarrow> n \<in> {0, 1, 2, 3, 4, 6} \<and> fits (8 * ip_len n) w
     | INTEL_PT_TIP \<Rightarrow> n \<in> {0, 1, 2, 3, 4, 6} \<and> fits (8 * ip_len n) w
     | INTEL_PT_FUP \<Rightarrow> n \<in> {0, 1, 2, 3, 4, 6} \<and> fits (8 * ip_len n) w
     | _ \<Rightarrow> w = 0 \<and> n = 0)"

definition same_packet :: "intel_pt_pkt \<Rightarrow> intel_pt_pkt \<Rightarrow> bool" where
  "same_packet p q \<longleftrightarrow> pkt_type p = pkt_type q \<and> pkt_count p = pkt_count q \<and>
     (if pkt_type p = INTEL_PT_TNT then \<forall>i < pkt_count p. bit (pkt_payload p) (63 - i) = bit (pkt_payload q) (63 - i)
      else pkt_payload p = pkt_payload q)"

lemma fits_bit: "fits k w \<Longrightarrow> bit w i \<Longrightarrow> i < k"
  unfolding fits_def by (metis bit_take_bit_iff)

lemma fitsI: "(\<And>i. bit w i \<Longrightarrow> i < k) \<Longrightarrow> fits k w"
  unfolding fits_def by (rule bit_word_eqI) (auto simp: bit_simps)

text \<open>The bytes of the encoding at the front of a longer buffer.\<close>

lemma take_le_bytes [simp]: "take n (le_bytes n w @ rest) = le_bytes n w"
  by simp

lemma short_loop:
  "n \<le> c \<Longrightarrow> c \<le> 6 \<Longrightarrow> 0 < n \<Longrightarrow> bit b (7 - (c - n)) \<Longrightarrow> (\<And>j. 7 - (c - n) < j \<Longrightarrow> j \<le> 7 \<Longrightarrow> \<not> bit b j) \<Longrightarrow>
    short_tnt_loop c b = (n, push_bit (c - n) b)"
proof (induction c arbitrary: b)
  case (Suc c)
  show ?case
  proof (cases "n = Suc c")
    case True
    then show ?thesis using Suc.prems(4) by simp
  next
    case False
    then have n: "n \<le> c" using Suc.prems(1) by simp
    then have "\<not> bit b 7" using Suc.prems by simp
    moreover have "short_tnt_loop c (push_bit 1 b) = (n, push_bit (c - n) (push_bit 1 b))"
    proof (rule Suc.IH)
      show "bit (push_bit 1 b) (7 - (c - n))" using Suc.prems(2-4) n by (auto simp: bit_simps Suc_diff_le)
      show "\<not> bit (push_bit 1 b) j" if "7 - (c - n) < j" "j \<le> 7" for j
        using Suc.prems(5) [of "j - 1"] that n Suc.prems(2) by (auto simp: bit_simps)
    qed (use n Suc.prems in auto)
    ultimately show ?thesis using n by (simp add: push_bit_push_bit Suc_diff_le)
  qed
qed simp

lemma long_loop:
  "n \<le> c \<Longrightarrow> c \<le> 47 \<Longrightarrow> 0 < n \<Longrightarrow> bit b (63 - (c - n)) \<Longrightarrow> (\<And>j. 63 - (c - n) < j \<Longrightarrow> j \<le> 63 \<Longrightarrow> \<not> bit b j) \<Longrightarrow>
    long_tnt_loop c b = (n, push_bit (c - n) b)"
proof (induction c arbitrary: b)
  case (Suc c)
  show ?case
  proof (cases "n = Suc c")
    case True
    then show ?thesis using Suc.prems(4) by simp
  next
    case False
    then have n: "n \<le> c" using Suc.prems(1) by simp
    then have "\<not> bit b 63" using Suc.prems by simp
    moreover have "long_tnt_loop c (push_bit 1 b) = (n, push_bit (c - n) (push_bit 1 b))"
    proof (rule Suc.IH)
      show "bit (push_bit 1 b) (63 - (c - n))" using Suc.prems(2-4) n by (auto simp: bit_simps Suc_diff_le)
      show "\<not> bit (push_bit 1 b) j" if "63 - (c - n) < j" "j \<le> 63" for j
        using Suc.prems(5) [of "j - 1"] that n Suc.prems(2) by (auto simp: bit_simps)
    qed (use n Suc.prems in auto)
    ultimately show ?thesis using n by (simp add: push_bit_push_bit Suc_diff_le)
  qed
qed simp

lemma cyc_loop_encoded:
  assumes "fits (32 - shift) v" "shift + 2 = 7 * length pre" "bit byte 0 \<longleftrightarrow> v \<noteq> 0" "pre \<noteq> []"
  shows "cyc_loop (pre @ cyc_more v @ rest) (length (pre @ cyc_more v @ rest) - 1) (length pre) shift byte payload =
     Inr (Inr (length pre + length (cyc_more v), payload OR push_bit shift v))"
  using assms
proof (induction v arbitrary: pre shift byte payload rule: cyc_more.induct)
  case (1 v)
  show ?case
  proof (cases "v = 0")
    case True
    then show ?thesis using 1(4) by (simp add: cyc_loop_end cyc_more.simps)
  next
    case False
    define b where "b = (push_bit 1 (ucast (take_bit 7 v)) OR (if drop_bit 7 v \<noteq> 0 then 1 else 0) :: u8)"
    have m: "cyc_more v = b # cyc_more (drop_bit 7 v)" using False by (simp add: cyc_more.simps [of v] b_def)
    have s: "shift < 32" using 1(2) False by (rule_tac ccontr) (simp add: fits_def)
    have o: "length pre \<le> 9" using s 1(3) by linarith
    have b0: "bit (ucast b :: u32) 0 \<longleftrightarrow> drop_bit 7 v \<noteq> 0" by (simp add: b_def bit_simps)
    have b1: "drop_bit 1 (ucast b :: u32) = ucast (take_bit 7 v)"
      by (rule bit_word_eqI) (auto simp: b_def bit_simps)
    have pl: "(payload OR ucast (push_bit shift (ucast (take_bit 7 v) :: u32))) OR push_bit (shift + 7) (drop_bit 7 v) = payload OR push_bit shift v"
    proof (rule bit_word_eqI)
      fix n
      assume "n < LENGTH(64)"
      moreover have "n < 32" if "shift \<le> n" "bit v (n - shift)" using fits_bit [OF 1(2) that(2)] that(1) by simp
      moreover have "7 + (n - (shift + 7)) = n - shift" if "shift + 7 \<le> n" using that by simp
      ultimately show "bit ((payload OR ucast (push_bit shift (ucast (take_bit 7 v) :: u32))) OR push_bit (shift + 7) (drop_bit 7 v)) n =
          bit (payload OR push_bit shift v) n"
        by (cases "shift + 7 \<le> n") (auto simp: bit_simps)
    qed
    let ?buf = "pre @ cyc_more v @ rest"
    have buf: "?buf = (pre @ [b]) @ cyc_more (drop_bit 7 v) @ rest" by (simp add: m)
    have "cyc_loop ?buf (length ?buf - 1) (length pre) shift byte payload =
        cyc_loop ?buf (length ?buf - 1) (length (pre @ [b])) (shift + 7) (ucast b) (payload OR ucast (push_bit shift (ucast (take_bit 7 v) :: u32)))"
      using cyc_loop_step [of byte "length pre" ?buf shift payload] 1(4) False o s by (simp add: m nth_append b1 [simplified])
    also have "\<dots> = Inr (Inr (length (pre @ [b]) + length (cyc_more (drop_bit 7 v)),
        (payload OR ucast (push_bit shift (ucast (take_bit 7 v) :: u32))) OR push_bit (shift + 7) (drop_bit 7 v)))"
      unfolding buf
    proof (rule 1(1) [OF False])
      show "fits (32 - (shift + 7)) (drop_bit 7 v)"
        using fits_bit [OF 1(2)] by (intro fitsI) (force simp: bit_simps)
    qed (use 1(3) b0 in auto)
    finally show ?thesis unfolding pl by (simp add: m)
  qed
qed

subsection \<open>Decoding what was encoded\<close>

definition decodes :: "intel_pt_pkt \<Rightarrow> bool" where
  "decodes p \<longleftrightarrow> (\<forall>rest. \<exists>q. intel_pt_do_get_packet (encode p @ rest) = Inr (int (length (encode p)), q) \<and> same_packet p q)"

lemma decodesI:
  "(\<And>rest. intel_pt_do_get_packet (encode p @ rest) = Inr (int (length (encode p)), p)) \<Longrightarrow> decodes p"
  by (auto simp: decodes_def same_packet_def)

lemma ext_packet: "intel_pt_do_get_packet (2 # bs) = intel_pt_get_ext (2 # bs) no_packet"
  by (simp add: intel_pt_do_get_packet_def)

lemma pkt_eqI: "pkt_type p = t \<Longrightarrow> pkt_count p = c \<Longrightarrow> pkt_payload p = w \<Longrightarrow>
    \<lparr>pkt_type = t, pkt_count = c, pkt_payload = w\<rparr> = p"
  by simp

lemma take_bit_all_u64 [simp]: "take_bit 64 (w :: u64) = w"
  by (rule bit_word_eqI) (simp add: bit_simps)

lemma ucast_ucast_u8 [simp]: "(ucast (ucast w :: u8) :: u64) = take_bit 8 w"
  by (rule bit_word_eqI) (auto simp: bit_simps)

lemmas ext_simps = ext_packet intel_pt_get_ext_def pt_ext_defs intel_pt_get_3byte_def no_packet_def Let_def pkt_eqI rd_def

lemma fixed_roundtrip:
  "pkt_ok p \<Longrightarrow> pkt_type p \<in> {INTEL_PT_PAD, INTEL_PT_PSBEND, INTEL_PT_TRACESTOP, INTEL_PT_OVF} \<Longrightarrow> decodes p"
proof (intro decodesI)
  fix rest
  assume p: "pkt_ok p" "pkt_type p \<in> {INTEL_PT_PAD, INTEL_PT_PSBEND, INTEL_PT_TRACESTOP, INTEL_PT_OVF}"
  then have w: "pkt_count p = 0" "pkt_payload p = 0" by (auto simp: pkt_ok_def)
  from p(2) consider "pkt_type p = INTEL_PT_PAD" | "pkt_type p = INTEL_PT_PSBEND" | "pkt_type p = INTEL_PT_TRACESTOP" | "pkt_type p = INTEL_PT_OVF"
    by blast
  then show "intel_pt_do_get_packet (encode p @ rest) = Inr (int (length (encode p)), p)"
    using w by cases (simp_all add: encode_def ext_simps intel_pt_do_get_packet_def intel_pt_get_pad_def)
qed

lemma psb_roundtrip: "pkt_ok p \<Longrightarrow> pkt_type p = INTEL_PT_PSB \<Longrightarrow> decodes p"
  by (intro decodesI) (simp add: encode_def pkt_ok_def ext_simps intel_pt_get_psb_def psb_loop.simps)

lemma mnt_roundtrip: "pkt_ok p \<Longrightarrow> pkt_type p = INTEL_PT_MNT \<Longrightarrow> decodes p"
  by (intro decodesI) (simp add: encode_def pkt_ok_def ext_simps)

lemma vmcs_roundtrip: "pkt_ok p \<Longrightarrow> pkt_type p = INTEL_PT_VMCS \<Longrightarrow> decodes p"
  by (intro decodesI) (simp add: encode_def pkt_ok_def ext_simps fits_def Let_def drop_bit_eq_div)

lemma cbr_roundtrip: "pkt_ok p \<Longrightarrow> pkt_type p = INTEL_PT_CBR \<Longrightarrow> decodes p"
  by (intro decodesI) (simp add: encode_def pkt_ok_def ext_simps fits_def)

lemma mtc_roundtrip: "pkt_ok p \<Longrightarrow> pkt_type p = INTEL_PT_MTC \<Longrightarrow> decodes p"
  by (intro decodesI) (simp add: encode_def pkt_ok_def no_packet_def Let_def pkt_eqI fits_def intel_pt_do_get_packet_def intel_pt_get_mtc_def)

lemma tsc_roundtrip: "pkt_ok p \<Longrightarrow> pkt_type p = INTEL_PT_TSC \<Longrightarrow> decodes p"
  by (intro decodesI) (simp add: encode_def pkt_ok_def no_packet_def Let_def pkt_eqI fits_def intel_pt_do_get_packet_def intel_pt_get_tsc_def)

lemma mode_exec_roundtrip: "pkt_ok p \<Longrightarrow> pkt_type p = INTEL_PT_MODE_EXEC \<Longrightarrow> decodes p"
  by (intro decodesI) (auto simp: encode_def pkt_ok_def no_packet_def Let_def pkt_eqI intel_pt_do_get_packet_def intel_pt_get_mode_def)

lemma mode_tsx_roundtrip: "pkt_ok p \<Longrightarrow> pkt_type p = INTEL_PT_MODE_TSX \<Longrightarrow> decodes p"
proof (intro decodesI)
  fix rest
  assume p: "pkt_ok p" "pkt_type p = INTEL_PT_MODE_TSX"
  then have w: "pkt_payload p < 3" "pkt_count p = 0" by (simp_all add: pkt_ok_def)
  then consider "pkt_payload p = 0" | "pkt_payload p = 1" | "pkt_payload p = 2"
  proof -
    have "unat (pkt_payload p) = unat (0 :: u64) \<or> unat (pkt_payload p) = unat (1 :: u64) \<or> unat (pkt_payload p) = unat (2 :: u64)"
      using w(1) by (auto simp: word_less_nat_alt)
    then show ?thesis using that by (metis word_unat_eq_iff)
  qed
  then show "intel_pt_do_get_packet (encode p @ rest) = Inr (int (length (encode p)), p)"
    using p w by cases (simp_all add: encode_def no_packet_def Let_def pkt_eqI intel_pt_do_get_packet_def intel_pt_get_mode_def)
qed

lemma le_bytes_2: "le_bytes 2 w = [ucast w, ucast (drop_bit 8 w)]"
  by (simp add: numeral_2_eq_2)

lemma tma_roundtrip: "pkt_ok p \<Longrightarrow> pkt_type p = INTEL_PT_TMA \<Longrightarrow> decodes p"
proof (intro decodesI)
  fix rest
  assume p: "pkt_ok p" "pkt_type p = INTEL_PT_TMA"
  then have w: "fits 16 (pkt_payload p)" "pkt_count p < 512" by (simp_all add: pkt_ok_def)
  have "(ucast (ucast (ucast (pkt_payload p) :: u8) OR push_bit 8 (ucast (ucast (drop_bit 8 (pkt_payload p)) :: u8)) :: u32) :: u64) = pkt_payload p"
    (is "?l = _")
  proof (rule bit_word_eqI)
    fix n
    have "bit (pkt_payload p) n \<Longrightarrow> n < 16" by (rule fits_bit [OF w(1)])
    then show "bit ?l n = bit (pkt_payload p) n" by (auto simp: bit_simps)
  qed
  moreover have "unat (ucast (ucast (of_nat (pkt_count p) :: u64) :: u8) OR push_bit 8 (ucast (ucast (drop_bit 8 (of_nat (pkt_count p) :: u64)) :: u8) AND 1) :: u32) =
      pkt_count p" (is "unat ?x = _")
  proof -
    have "take_bit 9 (pkt_count p) = pkt_count p" using w(2) by (simp add: take_bit_nat_eq_self)
    then have b: "bit (pkt_count p) i \<Longrightarrow> i < 9" for i by (metis bit_take_bit_iff)
    have "?x = of_nat (pkt_count p)"
    proof (rule bit_word_eqI)
      fix n
      show "bit ?x n = bit (of_nat (pkt_count p) :: u32) n" using b [of n] by (cases "n = 8") (auto simp: bit_simps)
    qed
    then show ?thesis using w(2) by (simp only: unat_of_nat) simp
  qed
  ultimately show "intel_pt_do_get_packet (encode p @ rest) = Inr (int (length (encode p)), p)"
    using p by (simp add: encode_def ext_simps le_bytes_2)
qed

lemma ip_byte:
  assumes "n \<in> {0, 1, 2, 3, 4, 6}" "t \<in> {INTEL_PT_TIP, INTEL_PT_TIP_PGE, INTEL_PT_TIP_PGD, INTEL_PT_FUP}"
  defines "b \<equiv> ucast (push_bit 5 (of_nat n) OR ip_code t :: u8) :: u32"
  shows "drop_bit 5 b = of_nat n" "b AND 0x1f = ucast (ip_code t)" "bit b 0" "\<not> bit b 1"
  using assms(1,2) unfolding b_def by (auto simp: ip_code_def)

lemma ip_packet:
  assumes "t \<in> {INTEL_PT_TIP, INTEL_PT_TIP_PGE, INTEL_PT_TIP_PGD, INTEL_PT_FUP}" "bit (ucast x :: u32) 0" "\<not> bit (ucast x :: u32) 1"
    "(ucast x :: u32) AND 0x1f = ucast (ip_code t)"
  shows "intel_pt_do_get_packet (x # bs) = intel_pt_get_ip t (ucast x) (x # bs) no_packet"
proof -
  from assms(1) consider "t = INTEL_PT_TIP" | "t = INTEL_PT_TIP_PGE" | "t = INTEL_PT_TIP_PGD" | "t = INTEL_PT_FUP" by blast
  then show ?thesis using assms(2-4) by cases (simp_all add: intel_pt_do_get_packet_def ip_code_def Let_def)
qed

lemma ip_roundtrip:
  "pkt_ok p \<Longrightarrow> pkt_type p \<in> {INTEL_PT_TIP, INTEL_PT_TIP_PGE, INTEL_PT_TIP_PGD, INTEL_PT_FUP} \<Longrightarrow> decodes p"
proof (intro decodesI)
  fix rest
  assume p: "pkt_ok p" "pkt_type p \<in> {INTEL_PT_TIP, INTEL_PT_TIP_PGE, INTEL_PT_TIP_PGD, INTEL_PT_FUP}"
  let ?n = "pkt_count p"
  have n: "?n \<in> {0, 1, 2, 3, 4, 6}" "fits (8 * ip_len ?n) (pkt_payload p)" using p by (auto simp: pkt_ok_def Let_def)
  let ?b = "ucast (push_bit 5 (of_nat ?n) OR ip_code (pkt_type p) :: u8) :: u32"
  have e: "encode p = (push_bit 5 (of_nat ?n) OR ip_code (pkt_type p)) # le_bytes (ip_len ?n) (pkt_payload p)"
    using p(2) by (auto simp: encode_def)
  note b = ip_byte [OF n(1) p(2)]
  have "intel_pt_do_get_packet (encode p @ rest) = intel_pt_get_ip (pkt_type p) ?b (encode p @ rest) no_packet"
    unfolding e append_Cons by (rule ip_packet [OF p(2) b(3,4,2)])
  also have "\<dots> = Inr (int (length (encode p)), p)"
  proof -
    from n(1) consider "?n = 0" | "?n = 1" | "?n = 2" | "?n = 3" | "?n = 4" | "?n = 6" by auto
    then show ?thesis using n(2) b(1) unfolding intel_pt_get_ip_def e
      by cases (simp_all add: Let_def no_packet_def pkt_eqI ip_len_def fits_def)
  qed
  finally show "intel_pt_do_get_packet (encode p @ rest) = Inr (int (length (encode p)), p)" .
qed

lemma bit_NR_FLAG: "bit NR_FLAG n \<longleftrightarrow> n = 63"
  unfolding NR_FLAG_def by (simp only: bit_push_bit_iff possible_bit_word bit_1_iff) auto

lemma pip_roundtrip: "pkt_ok p \<Longrightarrow> pkt_type p = INTEL_PT_PIP \<Longrightarrow> decodes p"
proof (intro decodesI)
  fix rest
  assume p: "pkt_ok p" "pkt_type p = INTEL_PT_PIP"
  let ?w = "pkt_payload p"
  let ?v = "take_bit 48 (push_bit 1 ?w OR drop_bit 63 ?w)"
  have w: "\<forall>i \<in> {47..<63}. \<not> bit ?w i" "pkt_count p = 0" using p by (simp_all add: pkt_ok_def)
  have "?v AND 1 \<noteq> 0 \<longleftrightarrow> bit ?v 0" by (simp add: and_one_eq mod_2_eq_odd bit_0)
  then have "?v AND 1 \<noteq> 0 \<longleftrightarrow> bit ?w 63" by (simp add: bit_simps)
  moreover have "bit ?w 63 \<Longrightarrow> drop_bit 1 ?v OR NR_FLAG = ?w" "\<not> bit ?w 63 \<Longrightarrow> drop_bit 1 ?v = ?w"
  proof -
    have b: "bit ?w i \<Longrightarrow> i < 47 \<or> i = 63" for i using w(1) bit_imp_le_length [of ?w i] by force
    have h: "\<not> bit ?w (64 + i)" for i using bit_imp_le_length [of ?w "64 + i"] by auto
    show "bit ?w 63 \<Longrightarrow> drop_bit 1 ?v OR NR_FLAG = ?w"
    proof (rule bit_word_eqI)
      fix n assume "bit ?w 63"
      then show "bit (drop_bit 1 ?v OR NR_FLAG) n = bit ?w n" using b [of n] h by (auto simp: bit_simps bit_NR_FLAG)
    qed
    show "\<not> bit ?w 63 \<Longrightarrow> drop_bit 1 ?v = ?w"
    proof (rule bit_word_eqI)
      fix n assume "\<not> bit ?w 63"
      then show "bit (drop_bit 1 ?v) n = bit ?w n" using b [of n] h by (auto simp: bit_simps)
    qed
  qed
  ultimately show "intel_pt_do_get_packet (encode p @ rest) = Inr (int (length (encode p)), p)"
    using p w(2) by (auto simp: encode_def ext_simps)
qed

lemma bit_tnt_field:
  "pkt_count p \<le> 47 \<Longrightarrow> bit (tnt_field p) i \<longleftrightarrow> i = pkt_count p \<or> i < pkt_count p \<and> bit (pkt_payload p) (64 - pkt_count p + i)"
  using bit_imp_le_length [of "pkt_payload p" "64 - pkt_count p + i"]
  unfolding tnt_field_def
  by (simp only: bit_or_iff bit_push_bit_iff bit_drop_bit_eq possible_bit_word bit_1_iff comp_def) auto

lemma short_tnt_roundtrip:
  assumes "pkt_type p = INTEL_PT_TNT" "0 < pkt_count p" "pkt_count p \<le> 6"
  shows "decodes p"
proof -
  let ?n = "pkt_count p"
  define x :: u8 where "x = push_bit 1 (ucast (tnt_field p))"
  have b: "bit (ucast x :: u32) i \<longleftrightarrow> 0 < i \<and> i < 8 \<and> bit (tnt_field p) (i - 1)" for i
    by (auto simp: x_def bit_simps)
  have f: "bit (tnt_field p) i \<longleftrightarrow> i = ?n \<or> i < ?n \<and> bit (pkt_payload p) (64 - ?n + i)" for i
    using assms by (intro bit_tnt_field) simp
  have set: "bit (ucast x :: u32) (?n + 1)" using b f assms by simp
  then have x0: "(ucast x :: u32) \<noteq> 0" by (metis bit_0_eq bot_apply bot_bool_def)
  have x2: "(ucast x :: u32) \<noteq> 2"
  proof
    assume "(ucast x :: u32) = 2"
    then have "bit (2 :: u32) (?n + 1)" using set by simp
    moreover have "(2 :: u32) = push_bit 1 1" by simp
    ultimately have "?n + 1 - 1 = 0" by (simp only: bit_push_bit_iff bit_1_iff)
    then show False using assms by simp
  qed
  have "short_tnt_loop 6 (ucast x) = (?n, push_bit (6 - ?n) (ucast x))"
  proof (rule short_loop)
    show "bit (ucast x :: u32) (7 - (6 - ?n))" using set assms(3) by (simp add: Suc_diff_diff)
    show "\<not> bit (ucast x :: u32) j" if "7 - (6 - ?n) < j" "j \<le> 7" for j using that b f assms(3) by auto
  qed (use assms in auto)
  moreover have "bit (push_bit 57 (ucast (push_bit (6 - ?n) (ucast x :: u32))) :: u64) (63 - i) = bit (pkt_payload p) (63 - i)" if "i < ?n" for i
  proof -
    have a: "57 \<le> 63 - i" "63 - i - 57 = 6 - i" "6 - ?n \<le> 6 - i" "6 - i - (6 - ?n) = ?n - i" "63 - i < 64" "6 - i < 32" "6 - i < 64"
      using that assms(3) by auto
    have "bit (push_bit 57 (ucast (push_bit (6 - ?n) (ucast x :: u32))) :: u64) (63 - i) = bit (ucast x :: u32) (?n - i)"
      using a by (simp add: bit_push_bit_iff bit_unsigned_iff)
    also have "\<dots> = bit (pkt_payload p) (64 - ?n + (?n - i - 1))" using b f that assms(3) by auto
    also have "64 - ?n + (?n - i - 1) = 63 - i" using that assms(3) by simp
    finally show ?thesis .
  qed
  moreover have e: "encode p = [x]" using assms by (simp add: encode_def x_def)
  moreover have "intel_pt_do_get_packet (x # rest) = intel_pt_get_short_tnt (ucast x) no_packet" for rest
    using x0 x2 b [of 0] by (simp add: intel_pt_do_get_packet_def Let_def)
  ultimately show ?thesis
    using assms(1) unfolding decodes_def by (simp add: intel_pt_get_short_tnt_def no_packet_def same_packet_def)
qed

lemma bit_above_byte: "take_bit 8 c = c \<Longrightarrow> 8 \<le> i \<Longrightarrow> \<not> bit (c :: u64) i"
  by (metis bit_take_bit_iff not_less)

lemma long_tnt_roundtrip:
  assumes "pkt_type p = INTEL_PT_TNT" "6 < pkt_count p" "pkt_count p \<le> 47"
  shows "decodes p"
proof -
  let ?n = "pkt_count p"
  define b :: u64 where "b = 2 OR push_bit 8 (0xa3 OR push_bit 8 (take_bit 48 (tnt_field p)))"
  have f: "bit (tnt_field p) i \<longleftrightarrow> i = ?n \<or> i < ?n \<and> bit (pkt_payload p) (64 - ?n + i)" for i
    using assms by (intro bit_tnt_field) simp
  have bb: "bit b i \<longleftrightarrow> bit (tnt_field p) (i - 16)" if "16 \<le> i" "i < 64" for i
  proof -
    have "\<not> bit (2 :: u64) i" by (rule bit_above_byte) (use that in simp_all)
    moreover have "\<not> bit (0xa3 :: u64) (i - 8)" by (rule bit_above_byte) (use that in simp_all)
    moreover have "8 \<le> i" "8 \<le> i - 8" "i - 8 - 8 = i - 16" "i - 16 < 48" using that by auto
    ultimately show ?thesis unfolding b_def using that(2)
      by (simp only: bit_or_iff bit_push_bit_iff bit_take_bit_iff possible_bit_word) auto
  qed
  have "long_tnt_loop 47 b = (?n, push_bit (47 - ?n) b)"
  proof (rule long_loop)
    show "bit b (63 - (47 - ?n))" using assms(3) f bb by simp
    show "\<not> bit b j" if "63 - (47 - ?n) < j" "j \<le> 63" for j using that bb [of j] f assms(3) by auto
  qed (use assms in auto)
  moreover have "bit (push_bit (47 - ?n) b * 2) (63 - i) = bit (pkt_payload p) (63 - i)" if "i < ?n" for i
  proof -
    have "push_bit (47 - ?n) b * 2 = push_bit 1 (push_bit (47 - ?n) b)" by (simp only: push_bit_eq_mult [of 1] power_one_right)
    then have "bit (push_bit (47 - ?n) b * 2) (63 - i) = bit (push_bit 1 (push_bit (47 - ?n) b)) (63 - i)" by (simp only:)
    also have "\<dots> = bit b (15 + ?n - i)"
      using that assms(3) by (simp only: push_bit_push_bit bit_push_bit_iff possible_bit_word) (auto simp: algebra_simps)
    also have "\<dots> = bit (pkt_payload p) (64 - ?n + (?n - i - 1))" using bb [of "15 + ?n - i"] f that assms(3) by auto
    also have "64 - ?n + (?n - i - 1) = 63 - i" using that assms(3) by simp
    finally show ?thesis .
  qed
  moreover have e: "encode p = 2 # 0xa3 # le_bytes 6 (tnt_field p)" using assms by (simp add: encode_def)
  moreover have "intel_pt_do_get_packet (encode p @ rest) = intel_pt_get_long_tnt (encode p @ rest) no_packet" for rest
    by (simp add: e ext_packet intel_pt_get_ext_def rd_def)
  moreover have "get_le (encode p @ rest) 0 8 = Inr b" for rest
  proof -
    have "take 8 (encode p @ rest) = encode p" by (simp add: e)
    moreover have "le_word (encode p) = b" unfolding e b_def le_word.simps le_word_bytes by simp
    ultimately show ?thesis by (simp add: e)
  qed
  ultimately show ?thesis
    using assms(1) unfolding decodes_def by (simp add: intel_pt_get_long_tnt_def no_packet_def same_packet_def)
qed

lemma bit_4: "bit (4 :: int) i \<longleftrightarrow> i = 2"
proof -
  have "(4 :: int) = push_bit 2 1" by simp
  then show ?thesis by (simp only: bit_push_bit_iff bit_1_iff) auto
qed

lemma bit_3: "bit (3 :: int) i \<longleftrightarrow> i < 2"
proof -
  have "(3 :: int) = mask 2" by (simp add: mask_eq_exp_minus_1)
  then show ?thesis by (simp only: bit_mask_iff) auto
qed

lemma cyc_roundtrip:
  assumes "pkt_ok p" "pkt_type p = INTEL_PT_CYC"
  shows "decodes p"
proof (intro decodesI)
  fix rest
  let ?w = "pkt_payload p" and ?v = "drop_bit 5 (pkt_payload p)"
  define x :: u8 where "x = push_bit 3 (ucast ?w) OR (if ?v \<noteq> 0 then 4 else 0) OR 3"
  have w: "fits 32 ?w" "pkt_count p = 0" using assms by (simp_all add: pkt_ok_def)
  have e: "encode p = x # cyc_more ?v" using assms by (simp add: encode_def x_def)
  have b: "bit (ucast x :: u32) 0" "bit (ucast x :: u32) 1" "bit (drop_bit 2 (ucast x :: u32)) 0 \<longleftrightarrow> ?v \<noteq> 0"
    by (auto simp: x_def bit_simps bit_4 bit_3)
  have d: "(ucast (drop_bit 3 (ucast x :: u32)) :: u64) = take_bit 5 ?w"
    by (rule bit_word_eqI) (auto simp: x_def bit_simps bit_4 bit_3)
  have "fits 27 ?v" using fits_bit [OF w(1)] by (intro fitsI) (force simp: bit_simps)
  then have "cyc_loop ([x] @ cyc_more ?v @ rest) (length ([x] @ cyc_more ?v @ rest) - 1) (length [x]) 5 (drop_bit 2 (ucast x)) (ucast (drop_bit 3 (ucast x :: u32))) =
      Inr (Inr (length [x] + length (cyc_more ?v), ucast (drop_bit 3 (ucast x :: u32)) OR push_bit 5 ?v))"
    using b(3) by (intro cyc_loop_encoded) simp_all
  moreover have "take_bit 5 ?w OR push_bit 5 ?v = ?w"
  proof (rule bit_word_eqI)
    fix n
    show "bit (take_bit 5 ?w OR push_bit 5 ?v) n = bit ?w n" by (cases "5 \<le> n") (auto simp: bit_simps dest: bit_imp_le_length)
  qed
  ultimately show "intel_pt_do_get_packet (encode p @ rest) = Inr (int (length (encode p)), p)"
    using b(1,2) w(2) assms(2) by (simp add: e intel_pt_do_get_packet_def intel_pt_get_cyc_def d no_packet_def pkt_eqI)
qed

lemma packet_decodes: "pkt_ok p \<Longrightarrow> decodes p"
proof (cases "pkt_type p")
  case INTEL_PT_TNT
  assume "pkt_ok p"
  then have "0 < pkt_count p" "pkt_count p \<le> 47" using INTEL_PT_TNT by (simp_all add: pkt_ok_def Let_def)
  then show ?thesis using INTEL_PT_TNT short_tnt_roundtrip [of p] long_tnt_roundtrip [of p] by (cases "pkt_count p \<le> 6") simp_all
qed (simp_all add: fixed_roundtrip psb_roundtrip mnt_roundtrip vmcs_roundtrip cbr_roundtrip mtc_roundtrip tsc_roundtrip
  mode_exec_roundtrip mode_tsx_roundtrip tma_roundtrip ip_roundtrip pip_roundtrip cyc_roundtrip, simp add: pkt_ok_def)

subsection \<open>Descriptions\<close>

text \<open>The counts the decoder produces.\<close>

definition count_ok :: "intel_pt_pkt \<Rightarrow> bool" where
  "count_ok p \<longleftrightarrow> pkt_count p \<le> 511 \<and> (pkt_type p = INTEL_PT_TNT \<longrightarrow> pkt_count p \<le> 47)"

lemma long_tnt_loop_count: "fst (long_tnt_loop n w) \<le> n"
  by (induction n arbitrary: w) (auto intro: le_SucI)

lemma short_tnt_loop_count: "fst (short_tnt_loop n w) \<le> n"
  by (induction n arbitrary: w) (auto intro: le_SucI)

definition counts_ok :: "pkt_result \<Rightarrow> bool" where
  "counts_ok r \<longleftrightarrow> (\<forall>ret p. r = Inr (ret, p) \<longrightarrow> 0 < ret \<longrightarrow> count_ok p)"

lemma counts_ok_simps [simp]:
  "counts_ok (Inl e)" "counts_ok (Inr (INTEL_PT_NEED_MORE_BYTES, p))" "counts_ok (Inr (INTEL_PT_BAD_PACKET, p))"
  "0 < ret \<Longrightarrow> counts_ok (Inr (ret, p)) \<longleftrightarrow> count_ok p"
  by (simp_all add: counts_ok_def pt_codes)

lemma counts_ok_bnd [intro]: "(\<And>a. counts_ok (f a)) \<Longrightarrow> counts_ok (bnd r f)"
  by (cases r) simp_all

lemma tma_count: "unat (ucast (b5 :: u8) OR push_bit 8 (ucast (b6 :: u8) AND 1) :: u32) \<le> 511"
proof -
  have "(ucast b5 OR push_bit 8 (ucast b6 AND 1) :: u32) = take_bit 9 (ucast b5 OR push_bit 8 (ucast b6 AND 1))"
  proof (rule bit_word_eqI)
    fix n
    have "bit b5 n \<Longrightarrow> n < 9" using bit_imp_le_length [of b5 n] by simp
    then show "bit (ucast b5 OR push_bit 8 (ucast b6 AND 1) :: u32) n = bit (take_bit 9 (ucast b5 OR push_bit 8 (ucast b6 AND 1)) :: u32) n"
      by (simp only: bit_or_iff bit_push_bit_iff bit_take_bit_iff bit_and_iff bit_1_iff bit_unsigned_iff) auto
  qed
  then have "unat (ucast b5 OR push_bit 8 (ucast b6 AND 1) :: u32) = unat (take_bit 9 (ucast b5 OR push_bit 8 (ucast b6 AND 1)) :: u32)"
    by (rule arg_cong)
  also have "\<dots> = take_bit 9 (unat (ucast b5 OR push_bit 8 (ucast b6 AND 1) :: u32))" by (rule unsigned_take_bit_eq)
  also have "\<dots> < 2 ^ 9" by (rule take_bit_nat_less_exp)
  finally show ?thesis by simp
qed

lemma ip_count: "unat (drop_bit 5 (ucast (b :: u8) :: u32)) \<le> 511"
proof -
  have "unat (drop_bit 5 (ucast b :: u32)) \<le> unat (ucast b :: u32)" by (simp only: unsigned_drop_bit_eq) (simp add: drop_bit_eq_div take_bit_nat_eq_self unat_u32 [simplified])
  also have "\<dots> \<le> 511" using unat_u8 [of b] by (simp add: unsigned_ucast_eq take_bit_nat_eq_self)
  finally show ?thesis .
qed

lemma ext_counts: "counts_ok (intel_pt_get_ext buf no_packet)"
  using le_trans [OF long_tnt_loop_count [of 47], of 47] le_trans [OF long_tnt_loop_count [of 47], of 511] tma_count
  unfolding intel_pt_get_ext_def pt_ext_defs intel_pt_get_3byte_def intel_pt_get_psb_def Let_def
  by (auto simp: count_ok_def no_packet_def split_def drop_bit_eq_div)

lemma do_get_packet_counts: "counts_ok (intel_pt_do_get_packet buf)"
proof -
  have ip: "counts_ok (intel_pt_get_ip t (ucast (b :: u8)) buf no_packet)" if "t \<noteq> INTEL_PT_TNT" for t b
    using that ip_count [of b] unfolding intel_pt_get_ip_def Let_def by (auto simp: count_ok_def)
  have cyc: "counts_ok (intel_pt_get_cyc b buf no_packet)" for b
    unfolding intel_pt_get_cyc_def
    by (rule counts_ok_bnd) (auto simp: counts_ok_def count_ok_def no_packet_def split: sum.splits)
  have short: "fst (short_tnt_loop 6 b) \<le> 47" "fst (short_tnt_loop 6 b) \<le> 511" for b using short_tnt_loop_count [of 6 b] by linarith+
  show ?thesis
    using ext_counts [of buf] ip cyc short
    unfolding intel_pt_do_get_packet_def Let_def intel_pt_get_short_tnt_def intel_pt_get_mode_def intel_pt_get_tsc_def intel_pt_get_mtc_def
      intel_pt_get_pad_def
    by (auto simp: count_ok_def no_packet_def split_def)
qed

lemma get_packet_counts: "intel_pt_get_packet buf = Inr (ret, p) \<Longrightarrow> 0 < ret \<Longrightarrow> count_ok p"
  using do_get_packet_counts [of buf] unfolding intel_pt_get_packet_def counts_ok_def
  by (auto simp: bnd_Inr_iff split: if_splits)

primrec tnt_text :: "nat \<Rightarrow> u64 \<Rightarrow> string" where
  "tnt_text 0 w = ''''"
| "tnt_text (Suc n) w = (if bit w 63 then CHR ''T'' else CHR ''N'') # tnt_text n (push_bit 1 w)"

lemma length_tnt_text [simp]: "length (tnt_text n w) = n"
  by (induction n arbitrary: w) simp_all

lemma unat_diff_of_nat: "n \<le> unat w \<Longrightarrow> unat (w - of_nat n :: u64) = unat w - n"
proof -
  assume n: "n \<le> unat w"
  then have "n < 2 ^ 64" using unat_u64 [of w] by simp
  then have "unat (of_nat n :: u64) = n" by (simp add: unat_of_nat)
  then show ?thesis using n by (simp add: unat_sub_if')
qed

lemma tnt_desc_loop_ok:
  "n < unat blen \<Longrightarrow> pos + n < length buf \<Longrightarrow> \<exists>c. tnt_desc_loop n w buf pos blen =
     Inr (take pos buf @ tnt_text n w @ c, pos + n, blen - of_nat n) \<and> length c = length buf - pos - n \<and>
     drop 1 c = drop (pos + n + 1) buf"
proof (induction n arbitrary: w buf pos blen)
  case 0
  then show ?case by (intro exI [of _ "drop pos buf"]) simp
next
  case (Suc n)
  let ?s = "if bit w 63 then ''T'' else ''N''" and ?c = "if bit w 63 then CHR ''T'' else CHR ''N''"
  let ?buf = "take pos buf @ ?c # CHR 0x00 # drop (pos + 2) buf"
  have "snprintf buf pos blen ?s = Inr (1, ?buf)"
    using snprintf_fits [of ?s blen pos buf] Suc.prems by (auto simp: numeral_2_eq_2)
  moreover have "unat (blen - 1) = unat blen - 1" using unat_diff_of_nat [of 1 blen] Suc.prems by simp
  then have "n < unat (blen - 1)" "pos + 1 + n < length ?buf" using Suc.prems by auto
  from Suc.IH [OF this, of "push_bit 1 w"] obtain c where c: "tnt_desc_loop n (push_bit 1 w) ?buf (pos + 1) (blen - 1) =
      Inr (take (pos + 1) ?buf @ tnt_text n (push_bit 1 w) @ c, pos + 1 + n, blen - 1 - of_nat n)"
    "length c = length ?buf - (pos + 1) - n" "drop 1 c = drop (pos + 1 + n + 1) ?buf"
    by blast
  moreover have "take (pos + 1) ?buf = take pos buf @ [?c]" using Suc.prems by simp
  moreover have "drop (pos + 1 + n + 1) ?buf = drop (pos + Suc n + 1) buf" using Suc.prems by (simp add: drop_drop ac_simps)
  ultimately show ?case using Suc.prems by (intro exI [of _ c]) (auto simp: algebra_simps)
qed

lemma length_name: "length (intel_pt_pkt_name t) \<le> 11"
  by (cases t) simp_all

lemma snprintf_256:
  "length s < 256 \<Longrightarrow> length buf = 256 \<Longrightarrow> snprintf buf 0 256 s = Inr (length s, s @ CHR 0x00 # drop (length s + 1) buf)"
  using snprintf_fits [of s 256 0 buf] by simp

lemma tnt_desc:
  assumes "pkt_type p = INTEL_PT_TNT" "pkt_count p \<le> 47" "length buf = 256"
  defines "t \<equiv> ''TNT '' @ tnt_text (pkt_count p) (pkt_payload p) @ '' ('' @ format_d (int (pkt_count p)) @ '')''"
  shows "intel_pt_pkt_desc p buf 256 = Inr (length t, t @ CHR 0x00 # drop (length t + 1) buf)"
proof -
  let ?n = "pkt_count p" and ?b = "''TNT '' @ CHR 0x00 # drop 5 buf"
  let ?e = "'' ('' @ format_d (int ?n) @ '')''"
  have u: "unat (252 :: u64) = 252" by simp
  have d: "length (format_d (int ?n)) \<le> 3" using length_format_d [of "int ?n" 2] assms(2) by simp
  obtain c where c: "tnt_desc_loop ?n (pkt_payload p) ?b 4 252 = Inr (take 4 ?b @ tnt_text ?n (pkt_payload p) @ c, 4 + ?n, 252 - of_nat ?n)"
    "length c = length ?b - 4 - ?n" "drop 1 c = drop (4 + ?n + 1) ?b"
    using tnt_desc_loop_ok [of ?n 252 4 ?b "pkt_payload p"] assms(2,3) by auto
  have v: "unat (252 - of_nat ?n :: u64) = 252 - ?n" using unat_diff_of_nat [of ?n 252] assms(2) by simp
  have cl: "length c = 252 - ?n" using c(2) assms(3) by simp
  have dc: "drop (length ?e + 1) c = drop (length t + 1) buf"
  proof -
    have "drop (length ?e + 1) c = drop (length ?e) (drop 1 c)" by (simp add: drop_drop)
    also have "drop 1 c = drop (?n + 5) buf"
      using drop_append [of "4 + ?n + 1" "''TNT '' @ [CHR 0x00]" "drop 5 buf"] unfolding c(3) by (simp add: drop_drop)
    also have "drop (length ?e) (drop (?n + 5) buf) = drop (length t + 1) buf" unfolding t_def drop_drop by (rule arg_cong [where f = "\<lambda>k. drop k buf"]) simp
    finally show ?thesis .
  qed
  let ?a = "''TNT '' @ tnt_text ?n (pkt_payload p)"
  have la: "length ?a = 4 + ?n" by simp
  have "snprintf (?a @ c) (length ?a) (252 - of_nat ?n) ?e = Inr (length ?e, ?a @ ?e @ CHR 0x00 # drop (length ?e + 1) c)"
    using d v cl assms(2) by (intro snprintf_after) simp_all
  then have "snprintf (take 4 ?b @ tnt_text ?n (pkt_payload p) @ c) (4 + ?n) (252 - of_nat ?n) ?e =
      Inr (length ?e, t @ CHR 0x00 # drop (length t + 1) buf)"
    unfolding dc la by (simp add: t_def)
  moreover have "unat (256 - (252 - of_nat ?n - of_nat (length ?e)) :: u64) = length t"
  proof -
    have "256 - (252 - of_nat ?n - of_nat (length ?e)) = (of_nat (length t) :: u64)" by (simp add: t_def)
    moreover have "length t < 2 ^ 64" using d assms(2) by (simp add: t_def)
    then have "unat (of_nat (length t) :: u64) = length t" by (simp only: unat_of_nat) simp
    ultimately show ?thesis by simp
  qed
  moreover have "snprintf buf 0 256 ''TNT '' = Inr (4, ?b)" using snprintf_256 [of "''TNT ''" buf] assms(3) by (simp add: eval_nat_numeral)
  ultimately show ?thesis using assms(1) c(1) by (simp add: intel_pt_pkt_desc_def Let_def)
qed

lemma pkt_desc_fits:
  assumes "count_ok p" "length buf = 256"
  shows "\<exists>t. intel_pt_pkt_desc p buf 256 = Inr (length (intel_pt_pkt_name (pkt_type p) @ t),
     intel_pt_pkt_name (pkt_type p) @ t @ CHR 0x00 # drop (length (intel_pt_pkt_name (pkt_type p) @ t) + 1) buf) \<and>
     length (intel_pt_pkt_name (pkt_type p) @ t) < 256"
proof (cases "pkt_type p = INTEL_PT_TNT")
  case True
  have "length (format_d (int (pkt_count p))) \<le> 3" using length_format_d [of "int (pkt_count p)" 2] True assms(1) by (simp add: count_ok_def)
  then show ?thesis using tnt_desc [OF True _ assms(2)] assms(1) True
    by (intro exI [of _ "'' '' @ tnt_text (pkt_count p) (pkt_payload p) @ '' ('' @ format_d (int (pkt_count p)) @ '')''"]) (simp add: count_ok_def)
next
  case False
  let ?name = "intel_pt_pkt_name (pkt_type p)"
  have ex: "\<exists>t. snprintf buf 0 256 (?name @ s) = Inr (length (?name @ t), ?name @ t @ CHR 0x00 # drop (length (?name @ t) + 1) buf) \<and> length (?name @ t) < 256"
    if "length s < 245" for s
    using snprintf_256 [of "?name @ s" buf] length_name [of "pkt_type p"] assms(2) that by (intro exI [of _ s]) simp
  have x: "length (format_x (w :: u64)) \<le> 16" "length (format_x (v :: u32)) \<le> 8" for w v by (rule length_format_x length_format_x32)+
  have "\<bar>sint w\<bar> \<le> 2 ^ 63" for w :: u64 using sint_ge [of w] sint_lt [of w] by simp
  then have d: "length (format_d (sint w)) \<le> 21" for w :: u64
    using length_format_d [of "sint w" 20] order_le_less_trans [of "\<bar>sint w\<bar>" "2 ^ 63" "10 ^ 20"] by simp
  have o: "length (format_d (uint (w AND 1))) \<le> 2" for w :: u64
    using length_format_d [of 0 1] length_format_d [of 1 1] by (simp add: and_one_eq mod_2_eq_odd)
  have nr: "length (format_d (if b then 1 else 0)) \<le> 2" for b using length_format_d [of 0 1] length_format_d [of 1 1] by simp
  let ?w = "pkt_payload p" and ?c = "pkt_count p"
  have "length '''' < 245" "length '' no ip'' < 245" "length ('' 0x'' @ format_x ?w) < 245"
    "length ('' CTC 0x'' @ format_x (ucast ?w :: u32) @ '' FC 0x'' @ format_x (of_nat ?c :: u32)) < 245"
    "length ('' '' @ format_d (sint ?w)) < 245"
    "length ('' TXAbort:'' @ format_d (uint (drop_bit 1 ?w AND 1)) @ '' InTX:'' @ format_d (uint (?w AND 1))) < 245"
    "length ('' 0x'' @ format_x (?w AND NOT NR_FLAG) @ '' (NR='' @ format_d (if ?w AND NR_FLAG \<noteq> 0 then 1 else 0) @ '')'') < 245"
    using x(1) [of ?w] x(1) [of "?w AND NOT NR_FLAG"] x(2) [of "ucast ?w"] x(2) [of "of_nat ?c"] d [of ?w]
      o [of "drop_bit 1 ?w"] o [of ?w] nr [of "?w AND NR_FLAG \<noteq> 0"] by simp_all
  from this [THEN ex] show ?thesis
    using False unfolding intel_pt_pkt_desc_def Let_def by (cases "pkt_type p") simp_all
qed

subsection \<open>What the decoder guarantees\<close>

lemma skip_pad_exact: "skip_pad buf ret = Inr (ret + length (takeWhile (\<lambda>b. b = 0) (drop ret (take 8 buf))))"
proof (induction buf ret rule: skip_pad.induct)
  case (1 buf ret)
  show ?case
  proof (cases "ret < 8 \<and> ret < length buf")
    case True
    then have "drop ret (take 8 buf) = buf ! ret # drop (Suc ret) (take 8 buf)"
      using Cons_nth_drop_Suc [of ret "take 8 buf"] by simp
    then show ?thesis using 1 [OF True] True by (subst skip_pad.simps) (simp add: rd_def)
  next
    case False
    then have "drop ret (take 8 buf) = []" by auto
    then show ?thesis unfolding skip_pad.simps [of buf ret] if_not_P [OF False] by simp
  qed
qed

text \<open>
  Claim C5.  Every packet whose fields fit their encoding (a CYC payload of up to 32 bits, every other payload and
  count in the bits the format gives it) is decoded to itself from its encoding, whatever follows it in the buffer:
  type, count and payload are recovered, for a TNT packet all its taken and not-taken outcomes, and what is consumed is
  exactly the packet and the zero bytes directly behind it up to the eighth byte of the buffer.
\<close>

theorem packet_roundtrip:
  assumes "pkt_ok p"
  shows "\<exists>q. intel_pt_get_packet (encode p @ rest) =
     Inr (int (length (encode p) + length (takeWhile (\<lambda>b. b = 0) (take (8 - length (encode p)) rest))), q) \<and> same_packet p q"
proof -
  obtain q where q: "intel_pt_do_get_packet (encode p @ rest) = Inr (int (length (encode p)), q)" "same_packet p q"
    using packet_decodes [OF assms] by (auto simp: decodes_def)
  have "encode p \<noteq> []" using assms by (auto simp: encode_def pkt_ok_def Let_def split: intel_pt_pkt_type.splits)
  moreover have "drop (length (encode p)) (take 8 (encode p @ rest)) = take (8 - length (encode p)) rest"
    unfolding drop_take by simp
  ultimately show ?thesis using q by (intro exI [of _ q]) (simp add: intel_pt_get_packet_def skip_pad_exact del: take_append drop_append)
qed

definition mtc_packet :: intel_pt_pkt where
  "mtc_packet = \<lparr>pkt_type = INTEL_PT_MTC, pkt_count = 0, pkt_payload = 7\<rparr>"

theorem packet_roundtrip_witness:
  "pkt_ok mtc_packet \<and> encode mtc_packet = [0x59, 7] \<and>
     (\<exists>q. intel_pt_get_packet [0x59, 7, 0, 5] = Inr (3, q) \<and> same_packet mtc_packet q)"
proof -
  have "pkt_ok mtc_packet" "encode mtc_packet = [0x59, 7]" by (simp_all add: mtc_packet_def pkt_ok_def fits_def encode_def)
  then show ?thesis using packet_roundtrip [of mtc_packet "[0, 5]"] by auto
qed

text \<open>
  Claim C24.  For any bytes other than a CYC packet of six or more bytes the decoder reads inside
  the buffer only, and returns that the packet is bad, that more bytes are needed, which with
  sixteen bytes never happens, or a length between one and sixteen that the buffer has.
\<close>

theorem get_packet_in_bounds:
  assumes "\<not> long_cyc buf"
  shows "\<exists>ret p. intel_pt_get_packet buf = Inr (ret, p) \<and>
     (ret = INTEL_PT_NEED_MORE_BYTES \<and> length buf < INTEL_PT_PKT_MAX_SZ \<or> ret = INTEL_PT_BAD_PACKET \<or>
      0 < ret \<and> ret \<le> int (length buf) \<and> ret \<le> int INTEL_PT_PKT_MAX_SZ)"
  using get_packet_ok [of buf] assms by (simp add: decoded_ok_def)

theorem get_packet_in_bounds_witness:
  "\<exists>ret p. intel_pt_get_packet [0x02, 0x82] = Inr (ret, p) \<and> ret \<le> 2"
proof -
  have "\<not> long_cyc [0x02, 0x82]" by (simp add: long_cyc_def)
  then show ?thesis using get_packet_in_bounds [of "[0x02, 0x82]"] by (auto simp: pt_codes)
qed

text \<open>
  A packet that is decoded, or found to be bad, from the start of a buffer is decoded
  to the same result when more bytes follow, so that \<open>INTEL_PT_NEED_MORE_BYTES\<close> is the only result
  that asks for another look with more data.
\<close>

theorem decoded_packet_is_final:
  assumes "intel_pt_do_get_packet buf = Inr (ret, p)" "ret \<noteq> INTEL_PT_NEED_MORE_BYTES"
  shows "intel_pt_do_get_packet (buf @ rest) = Inr (ret, p)"
  using do_get_packet_settled [of buf rest] assms by (simp add: settled_def)

theorem decoded_packet_is_final_witness:
  "intel_pt_do_get_packet ([0x59, 7] @ [1, 2, 3]) = Inr (2, mtc_packet)"
  by (rule decoded_packet_is_final)
    (simp_all add: intel_pt_do_get_packet_def intel_pt_get_mtc_def no_packet_def mtc_packet_def pt_codes)

text \<open>
  The description of every packet that the decoder returns fits into a buffer of
  \<open>INTEL_PT_PKT_DESC_MAX\<close> bytes: it starts with the name of the packet, is terminated, and its length
  is returned; nothing else of the buffer changes.
\<close>

theorem pkt_desc_fits_buffer:
  assumes "intel_pt_get_packet bs = Inr (ret, p)" "0 < ret" "length buf = INTEL_PT_PKT_DESC_MAX"
  shows "\<exists>t. intel_pt_pkt_desc p buf (of_nat INTEL_PT_PKT_DESC_MAX) =
       Inr (length (intel_pt_pkt_name (pkt_type p) @ t),
         intel_pt_pkt_name (pkt_type p) @ t @ CHR 0x00 # drop (length (intel_pt_pkt_name (pkt_type p) @ t) + 1) buf) \<and>
     length (intel_pt_pkt_name (pkt_type p) @ t) < INTEL_PT_PKT_DESC_MAX"
  using pkt_desc_fits [OF get_packet_counts [OF assms(1,2)], of buf] assms(3) by (simp add: INTEL_PT_PKT_DESC_MAX_def)

theorem pkt_desc_fits_buffer_witness:
  "\<exists>t. intel_pt_pkt_desc mtc_packet (replicate 256 CHR 0x00) 256 =
     Inr (3 + length t, ''MTC'' @ t @ CHR 0x00 # drop (4 + length t) (replicate 256 CHR 0x00))"
proof -
  have "intel_pt_get_packet [0x59, 7] = Inr (2, mtc_packet)"
    by (simp add: intel_pt_get_packet_def intel_pt_do_get_packet_def intel_pt_get_mtc_def no_packet_def mtc_packet_def skip_pad.simps)
  then show ?thesis using pkt_desc_fits_buffer [of "[0x59, 7]" 2 mtc_packet "replicate 256 CHR 0x00"]
    by (auto simp: INTEL_PT_PKT_DESC_MAX_def mtc_packet_def)
qed

text \<open>
  Claim C35.  A CYC packet with five or more extension bytes makes \<open>intel_pt_get_cyc\<close> shift an
  \<open>unsigned int\<close> by 33, which is undefined: its check for at most nine bytes is never reached.
\<close>

theorem long_cyc_packet_overshifts:
  assumes "6 \<le> length buf" "\<forall>i < 3. bit (buf ! 0) i" "\<forall>i. 1 \<le> i \<and> i < 5 \<longrightarrow> bit (buf ! i) 0"
  shows "intel_pt_get_packet buf = Inl Bad_Shift"
  using get_packet_ok [of buf] assms by (simp add: long_cyc_def)

theorem long_cyc_packet_overshifts_witness: "intel_pt_get_packet [7, 1, 1, 1, 1, 0] = Inl Bad_Shift"
proof (rule long_cyc_packet_overshifts)
  show "\<forall>i < 3. bit ([7, 1, 1, 1, 1, 0 :: u8] ! 0) i" by (simp add: numeral_3_eq_3 less_Suc_eq)
  show "\<forall>i. 1 \<le> i \<and> i < 5 \<longrightarrow> bit ([7, 1, 1, 1, 1, 0 :: u8] ! i) 0" by (auto simp: eval_nat_numeral less_Suc_eq)
qed simp

end
