(* ===== verification/Bitops.thy ===== *)
theory Bitops
  imports C_Bytes
begin

text \<open>
  Bit counting, bit search and bitmaps: \<^verbatim>\<open>src/tools/lib/hweight.c\<close>,
  \<^verbatim>\<open>find_bit.c\<close>, \<^verbatim>\<open>bitmap.c\<close> and the headers under
  \<^verbatim>\<open>src/tools/include\<close> they go with, for \<open>BITS_PER_LONG\<close> 64 and without
  \<open>CONFIG_ARCH_HAS_FAST_MULTIPLIER\<close>, which the tools build does not set.  A bitmap is the list of its
  words; bit numbers are natural numbers, since a bitmap in memory has fewer than \<open>2 ^ 63\<close> bits.
\<close>

subsection \<open>Counting bits\<close>

definition sw_hweight32 :: "u32 \<Rightarrow> u32" where
  "sw_hweight32 w =
     (let res = w - (drop_bit 1 w AND 0x55555555);
          res = (res AND 0x33333333) + (drop_bit 2 res AND 0x33333333);
          res = (res + drop_bit 4 res) AND 0x0F0F0F0F;
          res = res + drop_bit 8 res
      in (res + drop_bit 16 res) AND 0x000000FF)"

definition sw_hweight16 :: "u32 \<Rightarrow> u32" where
  "sw_hweight16 w =
     (let res = w - (drop_bit 1 w AND 0x5555);
          res = (res AND 0x3333) + (drop_bit 2 res AND 0x3333);
          res = (res + drop_bit 4 res) AND 0x0F0F
      in (res + drop_bit 8 res) AND 0x00FF)"

definition sw_hweight8 :: "u32 \<Rightarrow> u32" where
  "sw_hweight8 w =
     (let res = w - (drop_bit 1 w AND 0x55);
          res = (res AND 0x33) + (drop_bit 2 res AND 0x33)
      in (res + drop_bit 4 res) AND 0x0F)"

definition sw_hweight64 :: "u64 \<Rightarrow> u64" where
  "sw_hweight64 w =
     (let res = w - (drop_bit 1 w AND 0x5555555555555555);
          res = (res AND 0x3333333333333333) + (drop_bit 2 res AND 0x3333333333333333);
          res = (res + drop_bit 4 res) AND 0x0F0F0F0F0F0F0F0F;
          res = res + drop_bit 8 res;
          res = res + drop_bit 16 res
      in (res + drop_bit 32 res) AND 0x00000000000000FF)"

text \<open>
  The other branches of the two preprocessor conditions: builds with \<open>CONFIG_ARCH_HAS_FAST_MULTIPLIER\<close>,
  and builds with 32-bit words.
\<close>

definition sw_hweight32_mult :: "u32 \<Rightarrow> u32" where
  "sw_hweight32_mult w =
     (let w = w - (drop_bit 1 w AND 0x55555555);
          w = (w AND 0x33333333) + (drop_bit 2 w AND 0x33333333);
          w = (w + drop_bit 4 w) AND 0x0f0f0f0f
      in drop_bit 24 (w * 0x01010101))"

definition sw_hweight64_mult :: "u64 \<Rightarrow> u64" where
  "sw_hweight64_mult w =
     (let w = w - (drop_bit 1 w AND 0x5555555555555555);
          w = (w AND 0x3333333333333333) + (drop_bit 2 w AND 0x3333333333333333);
          w = (w + drop_bit 4 w) AND 0x0f0f0f0f0f0f0f0f
      in drop_bit 56 (w * 0x0101010101010101))"

definition sw_hweight64_split :: "u64 \<Rightarrow> u32" where
  "sw_hweight64_split w = sw_hweight32 (ucast (drop_bit 32 w)) + sw_hweight32 (ucast w)"

definition hweight_long :: "u64 \<Rightarrow> u64" where
  "hweight_long w = sw_hweight64 w"

subsection \<open>First and last set bit of a word\<close>

definition ffs_word :: "u64 \<Rightarrow> nat" where
  "ffs_word word =
     (let (num, word) = if word AND 0xffffffff = 0 then (32, drop_bit 32 word) else (0, word);
          (num, word) = if word AND 0xffff = 0 then (num + 16, drop_bit 16 word) else (num, word);
          (num, word) = if word AND 0xff = 0 then (num + 8, drop_bit 8 word) else (num, word);
          (num, word) = if word AND 0xf = 0 then (num + 4, drop_bit 4 word) else (num, word);
          (num, word) = if word AND 0x3 = 0 then (num + 2, drop_bit 2 word) else (num, word)
      in if word AND 0x1 = 0 then num + 1 else num)"

definition fls_word :: "u64 \<Rightarrow> nat" where
  "fls_word word =
     (let (num, word) = if word AND push_bit 32 (- 1) = 0 then (63 - 32, push_bit 32 word) else (63, word);
          (num, word) = if word AND push_bit 48 (- 1) = 0 then (num - 16, push_bit 16 word) else (num, word);
          (num, word) = if word AND push_bit 56 (- 1) = 0 then (num - 8, push_bit 8 word) else (num, word);
          (num, word) = if word AND push_bit 60 (- 1) = 0 then (num - 4, push_bit 4 word) else (num, word);
          (num, word) = if word AND push_bit 62 (- 1) = 0 then (num - 2, push_bit 2 word) else (num, word)
      in if word AND push_bit 63 (- 1) = 0 then num - 1 else num)"

definition fls64 :: "u64 \<Rightarrow> nat" where
  "fls64 x = (if x = 0 then 0 else fls_word x + 1)"

definition fls_long :: "u64 \<Rightarrow> nat" where
  "fls_long l = fls64 l"

text \<open>A shift of an \<open>unsigned long\<close> by its width or more is undefined.\<close>

definition shl64 :: "u64 \<Rightarrow> nat \<Rightarrow> u64 c_result" where
  "shl64 w n = (if n < 64 then Inr (push_bit n w) else Inl Bad_Shift)"

definition is_power_of_2 :: "u64 \<Rightarrow> bool" where
  "is_power_of_2 n \<longleftrightarrow> n \<noteq> 0 \<and> n AND (n - 1) = 0"

definition roundup_pow_of_two :: "u64 \<Rightarrow> u64 c_result" where
  "roundup_pow_of_two n = shl64 1 (fls_long (n - 1))"

definition rounddown_pow_of_two :: "u64 \<Rightarrow> u64 c_result" where
  "rounddown_pow_of_two n = (if fls_long n = 0 then Inl Bad_Shift else shl64 1 (fls_long n - 1))"

subsection \<open>Bitmaps\<close>

type_synonym bitmap = "u64 list"

definition BITS_TO_LONGS :: "nat \<Rightarrow> nat" where
  "BITS_TO_LONGS nr = (nr + 63) div 64"

definition BITMAP_FIRST_WORD_MASK :: "nat \<Rightarrow> u64" where
  "BITMAP_FIRST_WORD_MASK start = push_bit (start mod 64) (- 1)"

definition BITMAP_LAST_WORD_MASK :: "nat \<Rightarrow> u64" where
  "BITMAP_LAST_WORD_MASK nbits = (if nbits mod 64 \<noteq> 0 then push_bit (nbits mod 64) 1 - 1 else - 1)"

definition set_bit_at :: "nat \<Rightarrow> bitmap \<Rightarrow> bitmap c_result" where
  "set_bit_at nr addr = bnd (rd addr (nr div 64)) (\<lambda>w. wr addr (nr div 64) (w OR push_bit (nr mod 64) 1))"

definition clear_bit :: "nat \<Rightarrow> bitmap \<Rightarrow> bitmap c_result" where
  "clear_bit nr addr = bnd (rd addr (nr div 64)) (\<lambda>w. wr addr (nr div 64) (w AND NOT (push_bit (nr mod 64) 1)))"

definition test_bit :: "nat \<Rightarrow> bitmap \<Rightarrow> bool c_result" where
  "test_bit nr addr = bnd (rd addr (nr div 64)) (\<lambda>w. Inr (push_bit (nr mod 64) 1 AND w \<noteq> 0))"

definition test_and_set_bit :: "nat \<Rightarrow> bitmap \<Rightarrow> (bool \<times> bitmap) c_result" where
  "test_and_set_bit nr addr =
     (let mask = push_bit (nr mod 64) 1 in
      bnd (rd addr (nr div 64)) (\<lambda>old.
        bnd (wr addr (nr div 64) (old OR mask)) (\<lambda>addr. Inr (old AND mask \<noteq> 0, addr))))"

definition bitmap_zero :: "bitmap \<Rightarrow> nat \<Rightarrow> bitmap c_result" where
  "bitmap_zero dst nbits =
     (if BITS_TO_LONGS nbits \<le> length dst then Inr (replicate (BITS_TO_LONGS nbits) 0 @ drop (BITS_TO_LONGS nbits) dst)
      else Inl Out_Of_Bounds)"

definition bitmap_alloc :: "nat \<Rightarrow> bitmap" where
  "bitmap_alloc nbits = replicate (BITS_TO_LONGS nbits) 0"

function weight_loop :: "bitmap \<Rightarrow> nat \<Rightarrow> nat \<Rightarrow> nat \<Rightarrow> nat c_result" where
  "weight_loop bitmap lim k w =
     (if k < lim then bnd (rd bitmap k) (\<lambda>v. weight_loop bitmap lim (Suc k) (w + unat (hweight_long v))) else Inr w)"
  by pat_completeness auto
termination
  by (relation "measure (\<lambda>(bitmap, lim, k, w). lim - k)") auto

definition bitmap_weight :: "bitmap \<Rightarrow> nat \<Rightarrow> nat c_result" where
  "bitmap_weight bitmap bits =
     bnd (weight_loop bitmap (bits div 64) 0 0) (\<lambda>w.
       if bits mod 64 \<noteq> 0 then
         bnd (rd bitmap (bits div 64)) (\<lambda>v. Inr (w + unat (hweight_long (v AND BITMAP_LAST_WORD_MASK bits))))
       else Inr w)"

function or_loop :: "bitmap \<Rightarrow> bitmap \<Rightarrow> bitmap \<Rightarrow> nat \<Rightarrow> nat \<Rightarrow> bitmap c_result" where
  "or_loop dst bitmap1 bitmap2 nr k =
     (if k < nr then bnd (rd bitmap1 k) (\<lambda>a. bnd (rd bitmap2 k) (\<lambda>b. bnd (wr dst k (a OR b)) (\<lambda>dst.
        or_loop dst bitmap1 bitmap2 nr (Suc k))))
      else Inr dst)"
  by pat_completeness auto
termination
  by (relation "measure (\<lambda>(dst, bitmap1, bitmap2, lim, k). lim - k)") auto

definition bitmap_or :: "bitmap \<Rightarrow> bitmap \<Rightarrow> bitmap \<Rightarrow> nat \<Rightarrow> bitmap c_result" where
  "bitmap_or dst bitmap1 bitmap2 bits = or_loop dst bitmap1 bitmap2 (BITS_TO_LONGS bits) 0"

function and_loop :: "bitmap \<Rightarrow> bitmap \<Rightarrow> bitmap \<Rightarrow> nat \<Rightarrow> nat \<Rightarrow> u64 \<Rightarrow> (bitmap \<times> u64) c_result" where
  "and_loop dst bitmap1 bitmap2 lim k result =
     (if k < lim then bnd (rd bitmap1 k) (\<lambda>a. bnd (rd bitmap2 k) (\<lambda>b. bnd (wr dst k (a AND b)) (\<lambda>dst.
        and_loop dst bitmap1 bitmap2 lim (Suc k) (result OR (a AND b)))))
      else Inr (dst, result))"
  by pat_completeness auto
termination
  by (relation "measure (\<lambda>(dst, bitmap1, bitmap2, lim, k, result). lim - k)") auto

definition bitmap_and :: "bitmap \<Rightarrow> bitmap \<Rightarrow> bitmap \<Rightarrow> nat \<Rightarrow> (bool \<times> bitmap) c_result" where
  "bitmap_and dst bitmap1 bitmap2 bits =
     (let lim = bits div 64 in
      bnd (and_loop dst bitmap1 bitmap2 lim 0 0) (\<lambda>(dst, result).
        if bits mod 64 \<noteq> 0 then
          bnd (rd bitmap1 lim) (\<lambda>a. bnd (rd bitmap2 lim) (\<lambda>b.
            let v = a AND b AND BITMAP_LAST_WORD_MASK bits in
            bnd (wr dst lim v) (\<lambda>dst. Inr (result OR v \<noteq> 0, dst))))
        else Inr (result \<noteq> 0, dst)))"

declare weight_loop.simps [simp del] or_loop.simps [simp del] and_loop.simps [simp del]

subsection \<open>Searching a bitmap\<close>

function next_loop :: "bitmap \<Rightarrow> nat \<Rightarrow> u64 \<Rightarrow> nat \<Rightarrow> u64 \<Rightarrow> nat c_result" where
  "next_loop addr nbits invert start tmp =
     (if tmp = 0 then
        if nbits \<le> start + 64 then Inr nbits
        else bnd (rd addr ((start + 64) div 64)) (\<lambda>w. next_loop addr nbits invert (start + 64) (w XOR invert))
      else Inr (min (start + ffs_word tmp) nbits))"
  by pat_completeness auto
termination
  by (relation "measure (\<lambda>(addr, nbits, invert, start, tmp). nbits - start)") auto

declare next_loop.simps [simp del]

definition find_next_bit_invert :: "bitmap \<Rightarrow> nat \<Rightarrow> nat \<Rightarrow> u64 \<Rightarrow> nat c_result" where
  "find_next_bit_invert addr nbits start invert =
     (if nbits = 0 \<or> nbits \<le> start then Inr nbits
      else bnd (rd addr (start div 64)) (\<lambda>w.
        next_loop addr nbits invert (start div 64 * 64) ((w XOR invert) AND BITMAP_FIRST_WORD_MASK start)))"

definition find_next_bit :: "bitmap \<Rightarrow> nat \<Rightarrow> nat \<Rightarrow> nat c_result" where
  "find_next_bit addr sz offset = find_next_bit_invert addr sz offset 0"

function first_loop :: "bitmap \<Rightarrow> nat \<Rightarrow> nat \<Rightarrow> nat c_result" where
  "first_loop addr sz idx =
     (if idx * 64 < sz then
        bnd (rd addr idx) (\<lambda>w. if w \<noteq> 0 then Inr (min (idx * 64 + ffs_word w) sz) else first_loop addr sz (Suc idx))
      else Inr sz)"
  by pat_completeness auto
termination
  by (relation "measure (\<lambda>(addr, sz, idx). sz - idx)") auto

declare first_loop.simps [simp del]

definition find_first_bit :: "bitmap \<Rightarrow> nat \<Rightarrow> nat c_result" where
  "find_first_bit addr sz = first_loop addr sz 0"

text \<open>\<open>for_each_set_bit\<close> as the list of the bits its body runs for, with fuel for each round.\<close>

primrec set_bits_from :: "nat \<Rightarrow> bitmap \<Rightarrow> nat \<Rightarrow> nat \<Rightarrow> nat list c_result" where
  "set_bits_from 0 addr sz b = Inl Diverges"
| "set_bits_from (Suc n) addr sz b =
     (if b < sz then bnd (find_next_bit addr sz (b + 1)) (\<lambda>b'. bnd (set_bits_from n addr sz b') (\<lambda>bs. Inr (b # bs)))
      else Inr [])"

definition for_each_set_bit :: "bitmap \<Rightarrow> nat \<Rightarrow> nat list c_result" where
  "for_each_set_bit addr sz = bnd (find_first_bit addr sz) (set_bits_from (Suc sz) addr sz)"

subsection \<open>Words as lists of bit fields\<close>

text \<open>The number with the fields \<open>xs\<close> of \<open>k\<close> bits each, the lowest first.\<close>

definition fields :: "nat \<Rightarrow> nat list \<Rightarrow> nat" where
  "fields k xs = horner_sum id (2 ^ k) xs"

definition popcount :: "nat \<Rightarrow> nat" where
  "popcount n = card {i. bit n i}"

lemma fields_simps [simp]: "fields k [] = 0" "fields k (x # xs) = x + 2 ^ k * fields k xs"
  by (simp_all add: fields_def)

lemma fields_less: "\<forall>x \<in> set xs. x < 2 ^ k \<Longrightarrow> fields k xs < 2 ^ (k * length xs)"
proof (induction xs)
  case (Cons x xs)
  then have "x + 2 ^ k * fields k xs < 2 ^ k + 2 ^ k * fields k xs" by simp
  also have "\<dots> = 2 ^ k * (fields k xs + 1)" by simp
  also have "\<dots> \<le> 2 ^ k * 2 ^ (k * length xs)" using Cons by (intro mult_le_mono2) (simp add: Suc_le_eq)
  finally show ?case by (simp add: power_add)
qed simp

lemma bit_field_add:
  assumes "x < 2 ^ k"
  shows "bit (x + 2 ^ k * a :: nat) n \<longleftrightarrow> (if n < k then bit x n else bit a (n - k))"
proof (cases "n < k")
  case True
  then have "(2 :: nat) ^ k = 2 ^ n * (2 * 2 ^ (k - n - 1))" by (simp flip: power_Suc power_add)
  then have "(x + 2 ^ k * a) div 2 ^ n = (x + 2 ^ n * (2 * 2 ^ (k - n - 1) * a)) div 2 ^ n" by (simp add: mult.assoc)
  also have "\<dots> = x div 2 ^ n + 2 * 2 ^ (k - n - 1) * a" by simp
  finally show ?thesis using True by (simp add: bit_iff_odd)
next
  case False
  then have "(2 :: nat) ^ n = 2 ^ k * 2 ^ (n - k)" by (simp flip: power_add)
  then have "(x + 2 ^ k * a) div 2 ^ n = ((x + 2 ^ k * a) div 2 ^ k) div 2 ^ (n - k)" by (simp add: div_mult2_eq)
  also have "\<dots> = a div 2 ^ (n - k)" using assms by simp
  finally show ?thesis using False by (simp add: bit_iff_odd)
qed

lemma bit_fields:
  "\<forall>x \<in> set xs. x < 2 ^ k \<Longrightarrow> 0 < k \<Longrightarrow> bit (fields k xs) n \<longleftrightarrow> n div k < length xs \<and> bit (xs ! (n div k)) (n mod k)"
proof (induction xs arbitrary: n)
  case (Cons x xs)
  show ?case
  proof (cases "n < k")
    case True
    then show ?thesis using Cons.prems by (simp add: bit_field_add)
  next
    case False
    then have "n div k = Suc ((n - k) div k)" "(n - k) mod k = n mod k" using Cons.prems(2) by (simp_all add: le_div_geq le_mod_geq)
    then show ?thesis using False Cons by (simp add: bit_field_add)
  qed
qed simp

lemma and_less_exp: "m < 2 ^ k \<Longrightarrow> (a AND m :: nat) < 2 ^ k"
proof -
  assume "m < 2 ^ k"
  then have "bit m i \<Longrightarrow> i < k" for i by (metis bit_take_bit_iff take_bit_nat_eq_self)
  then have "take_bit k (a AND m) = a AND m" by (intro bit_eqI) (auto simp: bit_simps)
  then show ?thesis using take_bit_nat_less_exp [of k "a AND m"] by simp
qed

lemma fields_and:
  assumes xs: "\<forall>x \<in> set xs. x < 2 ^ k" and m: "m < 2 ^ (k - j)" and j: "j < k"
  shows "(fields k xs div 2 ^ j) AND fields k (replicate (length xs) m) = fields k (map (\<lambda>x. x div 2 ^ j AND m) xs)"
proof (rule bit_eqI)
  fix n
  have mk: "m < 2 ^ k" using m by (rule less_le_trans) (simp add: power_increasing)
  have r: "n mod k < k - j" if "bit m (n mod k)"
  proof -
    have "take_bit (k - j) m = m" using m by (simp add: take_bit_nat_eq_self)
    then show ?thesis using that by (metis bit_take_bit_iff)
  qed
  then have q: "(n + j) div k = n div k" "(n + j) mod k = n mod k + j" if "bit m (n mod k)"
  proof -
    have "n + j = k * (n div k) + (n mod k + j)" by simp
    moreover have "n mod k + j < k" using r [OF that] by simp
    ultimately show "(n + j) div k = n div k" "(n + j) mod k = n mod k + j"
      by (metis add.commute add_cancel_right_left div_less div_mult_self1 j less_nat_zero_code mult.commute, metis mod_less mod_mult_self4)
  qed
  have less: "\<forall>y \<in> set (map (\<lambda>x. x div 2 ^ j AND m) xs). y < 2 ^ k"
    using mk by (auto intro: and_less_exp)
  have d: "bit (x div 2 ^ j) i = bit x (i + j)" for x i :: nat
    by (simp only: drop_bit_eq_div [symmetric] bit_drop_bit_eq comp_def add.commute)
  have "bit (fields k xs div 2 ^ j) n = bit (fields k xs) (n + j)" by (rule d)
  moreover have "bit (fields k xs) (n + j) \<longleftrightarrow> n div k < length xs \<and> bit (xs ! (n div k)) (n mod k + j)" if "bit m (n mod k)"
    using bit_fields [OF xs] j q [OF that] by simp
  moreover have "bit (fields k (replicate (length xs) m)) n \<longleftrightarrow> n div k < length xs \<and> bit m (n mod k)"
    using bit_fields [of "replicate (length xs) m" k n] mk j by auto
  moreover have "bit (fields k (map (\<lambda>x. x div 2 ^ j AND m) xs)) n \<longleftrightarrow> n div k < length xs \<and> bit (xs ! (n div k)) (n mod k + j) \<and> bit m (n mod k)"
    using bit_fields [OF less, of n] j by (auto simp: bit_and_iff d)
  ultimately show "bit ((fields k xs div 2 ^ j) AND fields k (replicate (length xs) m)) n = bit (fields k (map (\<lambda>x. x div 2 ^ j AND m) xs)) n"
    unfolding bit_and_iff by blast
qed

lemma finite_bits: "finite {i. bit (n :: nat) i}"
proof -
  have "i < n" if "bit n i" for i
  proof (rule ccontr)
    assume "\<not> i < n"
    then have "n < 2 ^ i" using less_exp [of i] by (meson le_less_trans not_less)
    then show False using that by (simp add: bit_iff_odd)
  qed
  then have "{i. bit n i} \<subseteq> {..<n}" by auto
  then show ?thesis by (rule finite_subset) simp
qed

lemma popcount_field_add: "x < 2 ^ k \<Longrightarrow> popcount (x + 2 ^ k * a) = popcount x + popcount a"
proof -
  assume x: "x < 2 ^ k"
  have k: "i < k" if "bit x i" for i
    using that x by (metis bit_take_bit_iff take_bit_nat_eq_self)
  have "{i. bit (x + 2 ^ k * a) i} = {i. bit x i} \<union> (+) k ` {i. bit a i}"
    using k by (auto simp: bit_field_add [OF x] image_iff split: if_splits) (metis le_add_diff_inverse not_less)
  moreover have "{i. bit x i} \<inter> (+) k ` {i. bit a i} = {}" using k by force
  ultimately show ?thesis by (simp add: popcount_def card_Un_disjoint finite_bits card_image)
qed

lemma popcount_fields: "\<forall>x \<in> set xs. x < 2 ^ k \<Longrightarrow> popcount (fields k xs) = sum_list (map popcount xs)"
  by (induction xs) (simp_all add: popcount_field_add popcount_def [of 0])

lemma fields_exist: "0 < k \<Longrightarrow> w < 2 ^ (k * n) \<Longrightarrow> \<exists>xs. length xs = n \<and> (\<forall>x \<in> set xs. x < 2 ^ k) \<and> w = fields k xs"
proof (induction n arbitrary: w)
  case (Suc n)
  have "w div 2 ^ k < 2 ^ (k * n)" using Suc.prems by (simp add: less_mult_imp_div_less power_add mult.commute)
  then obtain xs where "length xs = n" "\<forall>x \<in> set xs. x < 2 ^ k" "w div 2 ^ k = fields k xs" using Suc.IH [OF Suc.prems(1)] by blast
  then show ?case by (intro exI [of _ "w mod 2 ^ k # xs"]) (simp flip: \<open>w div 2 ^ k = fields k xs\<close>)
qed simp

subsection \<open>The parallel bit counts\<close>

fun psums :: "nat list \<Rightarrow> nat list" where
  "psums (a # b # xs) = (a + b) # psums xs"
| "psums xs = xs"

fun pairs :: "nat \<Rightarrow> nat list \<Rightarrow> nat list" where
  "pairs k (a # b # xs) = (a + 2 ^ k * b) # pairs k xs"
| "pairs k xs = xs"

lemma and_low: "(x AND 3 :: nat) = x mod 4" "(x AND 15 :: nat) = x mod 16" "(x AND 255 :: nat) = x mod 256" "(x AND 1 :: nat) = x mod 2"
  using take_bit_eq_mask [of 2 x] take_bit_eq_mask [of 4 x] take_bit_eq_mask [of 8 x] take_bit_eq_mask [of 1 x]
  by (simp_all add: take_bit_eq_mod mask_eq_exp_minus_1)

lemma exp_double: "(2 :: nat) ^ (2 * k) = 2 ^ k * 2 ^ k"
  by (simp add: mult_2 power_add)

lemma fields_pairs: "even (length xs) \<Longrightarrow> fields (2 * k) (pairs k xs) = fields k xs"
  by (induction k xs rule: pairs.induct) (simp_all add: exp_double distrib_left mult.assoc)

lemma length_pairs: "even (length xs) \<Longrightarrow> length (pairs k xs) = length xs div 2"
  by (induction k xs rule: pairs.induct) simp_all

lemma length_psums: "even (length xs) \<Longrightarrow> length (psums xs) = length xs div 2"
  by (induction xs rule: psums.induct) simp_all

lemma sum_psums: "sum_list (psums xs) = sum_list xs"
  by (induction xs rule: psums.induct) simp_all

lemma psums_le: "\<forall>x \<in> set xs. x \<le> n \<Longrightarrow> even (length xs) \<Longrightarrow> \<forall>x \<in> set (psums xs). x \<le> 2 * n"
  by (induction xs rule: psums.induct) auto

lemma pairs_less: "\<forall>x \<in> set xs. x < 2 ^ k \<Longrightarrow> even (length xs) \<Longrightarrow> \<forall>x \<in> set (pairs k xs). x < 2 ^ (2 * k)"
proof (induction k xs rule: pairs.induct)
  case (1 k a b xs)
  have "a + 2 ^ k * b < 2 ^ (2 * k)"
    using fields_less [of "[a, b]" k] 1(2) by (simp add: mult_2 mult_2_right)
  then show ?case using 1 by auto
qed simp_all

lemma fields_add: "length xs = length ys \<Longrightarrow> fields k xs + fields k ys = fields k (map2 (+) xs ys)"
proof (induction xs ys rule: list_induct2)
  case (Cons x xs y ys)
  have "2 ^ k * fields k xs + 2 ^ k * fields k ys = 2 ^ k * (fields k xs + fields k ys)" by (simp add: distrib_left)
  then show ?case using Cons.IH by simp
qed simp

lemma fields_diff: "\<forall>x \<in> set xs. g x \<le> x \<Longrightarrow> fields k xs - fields k (map g xs) = fields k (map (\<lambda>x. x - g x) xs) \<and> fields k (map g xs) \<le> fields k xs"
proof (induction xs)
  case (Cons x xs)
  then have "2 ^ k * fields k (map g xs) \<le> 2 ^ k * fields k xs" "g x \<le> x" by auto
  moreover have "2 ^ k * (fields k xs - fields k (map g xs)) = 2 ^ k * fields k (map (\<lambda>x. x - g x) xs)" using Cons by simp
  ultimately show ?case unfolding diff_mult_distrib2 list.map fields_simps by linarith
qed simp

lemma fields_drop: "\<forall>x \<in> set xs. x < 2 ^ k \<Longrightarrow> fields k xs div 2 ^ (k * i) = fields k (drop i xs)"
proof (induction i arbitrary: xs)
  case (Suc i)
  then show ?case by (cases xs) (simp_all add: power_add div_mult2_eq)
qed simp

lemma fields_snoc_0 [simp]: "fields k (xs @ [0]) = fields k xs"
  by (induction xs) simp_all

text \<open>The three steps that lead to a count for each byte.\<close>

lemma step_1:
  assumes "\<forall>x \<in> set xs. x < 4"
  shows "fields 2 xs - ((fields 2 xs div 2) AND fields 2 (replicate (length xs) 1)) = fields 2 (map popcount xs)"
    and "(fields 2 xs div 2) AND fields 2 (replicate (length xs) 1) \<le> fields 2 xs"
    and "\<forall>x \<in> set (map popcount xs). x \<le> 2" "sum_list (map popcount xs) = popcount (fields 2 xs)"
proof -
  have "x = 0 \<or> x = 1 \<or> x = 2 \<or> x = 3" if "x \<in> set xs" for x using assms that by fastforce
  moreover have "popcount 0 = 0" "popcount 1 = 1" "popcount 2 = 1" "popcount 3 = 2"
  proof -
    show 0: "popcount 0 = 0" by (simp add: popcount_def)
    have "{i. bit (1 :: nat) i} = {0}" by (auto simp only: bit_1_iff)
    then show 1: "popcount 1 = 1" by (simp only: popcount_def) simp
    show "popcount 2 = 1" "popcount 3 = 2" using popcount_field_add [of 0 1 1] popcount_field_add [of 1 1 1] 0 1 by (simp_all add: numeral_eq_Suc)
  qed
  ultimately have pc: "popcount x = x - (x div 2 AND 1)" "popcount x \<le> 2" "x div 2 AND 1 \<le> x" if "x \<in> set xs" for x
    using that by (fastforce simp: and_low)+
  have "(fields 2 xs div 2) AND fields 2 (replicate (length xs) 1) = fields 2 (map (\<lambda>x. x div 2 AND 1) xs)"
    using fields_and [of xs 2 1 1] assms by simp
  moreover have "map (\<lambda>x. x - (x div 2 AND 1)) xs = map popcount xs" using pc(1) [symmetric] by (rule map_cong [OF refl])
  ultimately show "fields 2 xs - ((fields 2 xs div 2) AND fields 2 (replicate (length xs) 1)) = fields 2 (map popcount xs)"
    "(fields 2 xs div 2) AND fields 2 (replicate (length xs) 1) \<le> fields 2 xs"
    using fields_diff [of xs "\<lambda>x. x div 2 AND 1" 2, OF ballI [OF pc(3)]] by (simp_all only:)
  show "\<forall>x \<in> set (map popcount xs). x \<le> 2" using pc(2) by simp
  show "sum_list (map popcount xs) = popcount (fields 2 xs)" using popcount_fields [of xs 2] assms by simp
qed

lemma step_2:
  assumes "\<forall>x \<in> set us. x \<le> 2" "even (length us)"
  shows "(fields 2 us AND fields 4 (replicate (length us div 2) 3)) + ((fields 2 us div 4) AND fields 4 (replicate (length us div 2) 3)) = fields 4 (psums us)"
proof -
  let ?p = "pairs 2 us"
  have l: "length ?p = length us div 2" using assms(2) by (rule length_pairs)
  have less: "\<forall>x \<in> set ?p. x < 2 ^ 4" using pairs_less [of us 2] assms by fastforce
  have f: "fields 2 us = fields 4 ?p" using fields_pairs [of us 2] assms(2) by simp
  have "fields 4 ?p AND fields 4 (replicate (length ?p) 3) = fields 4 (map (\<lambda>x. x AND 3) ?p)"
    using fields_and [of ?p 4 3 0] less by simp
  moreover have "(fields 4 ?p div 4) AND fields 4 (replicate (length ?p) 3) = fields 4 (map (\<lambda>x. x div 4 AND 3) ?p)"
    using fields_and [of ?p 4 3 2] less by simp
  moreover have "map2 (+) (map (\<lambda>x. x AND 3) ?p) (map (\<lambda>x. x div 4 AND 3) ?p) = psums us"
    using assms by (induction us rule: psums.induct) (simp_all add: and_low)
  ultimately show ?thesis using fields_add [of "map (\<lambda>x. x AND 3) ?p" "map (\<lambda>x. x div 4 AND 3) ?p" 4] by (simp add: f l)
qed

lemma firsts: "\<forall>x \<in> set vs. x \<le> 4 \<Longrightarrow> even (length vs) \<Longrightarrow>
    map (\<lambda>y. y AND 15) (pairs 4 (map2 (+) vs (tl vs @ [0]))) = psums vs"
proof (induction vs rule: psums.induct)
  case (1 a b xs)
  then have ab: "a \<le> 4" "b \<le> 4" by simp_all
  have m: "(a + b + 2 ^ 4 * c) AND 15 = a + b" for c using ab by (simp add: and_low)
  show ?case
  proof (cases xs)
    case Nil
    then show ?thesis using m [of b] by simp
  next
    case (Cons c ys)
    then show ?thesis using m [of "b + c"] 1 by simp
  qed
qed simp_all

lemma step_3:
  assumes "\<forall>x \<in> set vs. x \<le> 4" "even (length vs)"
  shows "(fields 4 vs + fields 4 vs div 16) AND fields 8 (replicate (length vs div 2) 15) = fields 8 (psums vs)"
    and "fields 4 vs + fields 4 vs div 16 < 2 ^ (4 * length vs)"
proof -
  let ?s = "map2 (+) vs (tl vs @ [0])"
  have l: "length (tl vs @ [0]) = length vs" if "vs \<noteq> []" using that by simp
  have ls: "length ?s = length vs" by (cases vs) simp_all
  have "fields 4 vs div 16 = fields 4 (drop 1 vs)" using fields_drop [of vs 4 1] assms(1) by fastforce
  then have sum: "fields 4 vs + fields 4 vs div 16 = fields 4 ?s"
    using fields_add [of vs "tl vs @ [0]" 4] l by (cases "vs = []") (simp_all add: drop_Suc)
  have le: "x \<le> 8" if x: "x \<in> set ?s" for x
  proof -
    obtain p where "p \<in> set (zip vs (tl vs @ [0]))" "x = fst p + snd p" using x by (auto simp: split_def)
    moreover have "(fst p, snd p) \<in> set (zip vs (tl vs @ [0]))" using calculation(1) by (simp only: prod.collapse)
    then have "fst p \<in> set vs" "snd p \<in> set (tl vs @ [0])" by (rule set_zip_leftD, rule set_zip_rightD)
    then have "fst p \<le> 4" "snd p \<le> 4" using assms(1) by (auto dest: list.set_sel(2) [rotated])
    ultimately show ?thesis by simp
  qed
  then have "\<forall>x \<in> set ?s. x < 2 ^ 4" by fastforce
  then have less: "\<forall>x \<in> set (pairs 4 ?s). x < 2 ^ 8" "fields 4 ?s < 2 ^ (4 * length ?s)"
    using pairs_less [of ?s 4] fields_less [of ?s 4] assms(2) ls by simp_all
  have "fields 4 ?s = fields 8 (pairs 4 ?s)" using fields_pairs [of ?s 4] assms(2) ls by simp
  moreover have "fields 8 (pairs 4 ?s) AND fields 8 (replicate (length (pairs 4 ?s)) 15) = fields 8 (map (\<lambda>y. y AND 15) (pairs 4 ?s))"
    using fields_and [of "pairs 4 ?s" 8 15 0] less by simp
  moreover have "length (pairs 4 ?s) = length vs div 2" using length_pairs [of ?s 4] assms(2) ls by simp
  ultimately show "(fields 4 vs + fields 4 vs div 16) AND fields 8 (replicate (length vs div 2) 15) = fields 8 (psums vs)"
    unfolding sum using firsts [OF assms] by simp
  show "fields 4 vs + fields 4 vs div 16 < 2 ^ (4 * length vs)" unfolding sum using less(2) ls by simp
qed

lemma unat_and: "unat (a AND b) = unat a AND unat b"
  by (rule unsigned_and_eq)

lemma unat_drop: "unat (drop_bit n w) = unat w div 2 ^ n"
  by (simp only: unsigned_drop_bit_eq) (simp add: drop_bit_eq_div take_bit_nat_eq_self)

lemma unat_add_small: "unat a + unat b < 2 ^ LENGTH('a) \<Longrightarrow> unat (a + b :: 'a::len word) = unat a + unat b"
  by (simp add: unat_word_ariths)

lemma unat_sub_small: "b \<le> a \<Longrightarrow> unat (a - b :: 'a::len word) = unat a - unat b"
  by (simp add: unat_sub_if' word_le_nat_alt)

lemma swar_bytes:
  fixes w :: "'a::len word"
  assumes m: "8 * m \<le> LENGTH('a)" "unat w < 2 ^ (8 * m)"
    and c: "unat c1 = fields 2 (replicate (4 * m) 1)" "unat c2 = fields 4 (replicate (2 * m) 3)" "unat c3 = fields 8 (replicate m 15)"
  defines "r1 \<equiv> w - (drop_bit 1 w AND c1)"
  defines "r2 \<equiv> (r1 AND c2) + (drop_bit 2 r1 AND c2)"
  defines "r3 \<equiv> (r2 + drop_bit 4 r2) AND c3"
  shows "\<exists>zs. length zs = m \<and> (\<forall>z \<in> set zs. z \<le> 8) \<and> sum_list zs = popcount (unat w) \<and> unat r3 = fields 8 zs"
proof -
  obtain xs where xs: "length xs = 4 * m" "\<forall>x \<in> set xs. x < 4" "unat w = fields 2 xs"
    using fields_exist [of 2 "unat w" "4 * m"] m(2) by auto
  define us where "us = map popcount xs"
  have le: "drop_bit 1 w AND c1 \<le> w"
    using step_1(2) [OF xs(2)] xs c(1) by (simp add: word_le_nat_alt unat_and unat_drop)
  have r1: "unat r1 = fields 2 us"
    using step_1(1) [OF xs(2)] xs c(1) unfolding r1_def us_def unat_sub_small [OF le] unat_and unat_drop by simp
  have us: "\<forall>x \<in> set us. x \<le> 2" "sum_list us = popcount (unat w)" "length us = 4 * m"
    using step_1(3,4) [OF xs(2)] xs by (simp_all add: us_def)
  define vs where "vs = psums us"
  have vs: "\<forall>x \<in> set vs. x \<le> 4" "sum_list vs = popcount (unat w)" "length vs = 2 * m"
    using psums_le [OF us(1)] us(2,3) sum_psums [of us] length_psums [of us] by (simp_all add: vs_def)
  have big: "(2 :: nat) ^ (8 * m) \<le> 2 ^ LENGTH('a)" using m(1) by (rule power_increasing) simp
  have f4: "fields 4 vs < 2 ^ (8 * m)" using fields_less [of vs 4] vs(1,3) by fastforce
  have r2: "unat r2 = fields 4 vs"
    using step_2 [of us] us c(2) r1 less_le_trans [OF f4 big] unfolding r2_def by (subst unat_add_small) (simp_all add: unat_and unat_drop vs_def)
  have "unat r2 + unat r2 div 16 < 2 ^ (8 * m)" using step_3(2) [of vs] vs r2 by simp
  from less_le_trans [OF this big] have "unat r3 = fields 8 (psums vs)"
    using step_3(1) [of vs] vs c(3) r2 unfolding r3_def unat_and by (subst unat_add_small) (simp_all add: unat_drop)
  moreover have "length (psums vs) = m" "\<forall>z \<in> set (psums vs). z \<le> 8" "sum_list (psums vs) = popcount (unat w)"
    using psums_le [OF vs(1)] vs(2,3) sum_psums [of vs] length_psums [of vs] by simp_all
  ultimately show ?thesis by blast
qed

lemma fields_append: "fields k (xs @ ys) = fields k xs + 2 ^ (k * length xs) * fields k ys"
  by (induction xs) (simp_all add: power_add distrib_left mult.assoc)

lemma fields_zeros [simp]: "fields k (replicate j 0) = 0"
  by (induction j) simp_all

lemma fields_replicate_double: "fields k (replicate (2 * n) m) = (1 + 2 ^ (k * n)) * fields k (replicate n m)"
proof -
  have "replicate (2 * n) m = replicate n m @ replicate n m" by (simp add: mult_2 replicate_add)
  then show ?thesis by (simp add: fields_append)
qed

lemma mask_fields:
  "fields 2 (replicate 4 1) = 0x55" "fields 2 (replicate 8 1) = 0x5555" "fields 2 (replicate 16 1) = 0x55555555"
  "fields 2 (replicate 32 1) = 0x5555555555555555"
  "fields 4 (replicate 2 3) = 0x33" "fields 4 (replicate 4 3) = 0x3333" "fields 4 (replicate 8 3) = 0x33333333"
  "fields 4 (replicate 16 3) = 0x3333333333333333"
  "fields 8 (replicate 1 15) = 0x0F" "fields 8 (replicate 2 15) = 0x0F0F" "fields 8 (replicate 4 15) = 0x0F0F0F0F"
  "fields 8 (replicate 8 15) = 0x0F0F0F0F0F0F0F0F"
proof -
  show a: "fields 2 (replicate 4 1) = 0x55" by (simp add: numeral_eq_Suc)
  show b: "fields 2 (replicate 8 1) = 0x5555" using fields_replicate_double [of 2 4 1] a by simp
  show c: "fields 2 (replicate 16 1) = 0x55555555" using fields_replicate_double [of 2 8 1] b by simp
  show "fields 2 (replicate 32 1) = 0x5555555555555555" using fields_replicate_double [of 2 16 1] c by simp
  show a: "fields 4 (replicate 2 3) = 0x33" by (simp add: numeral_eq_Suc)
  show b: "fields 4 (replicate 4 3) = 0x3333" using fields_replicate_double [of 4 2 3] a by simp
  show c: "fields 4 (replicate 8 3) = 0x33333333" using fields_replicate_double [of 4 4 3] b by simp
  show "fields 4 (replicate 16 3) = 0x3333333333333333" using fields_replicate_double [of 4 8 3] c by simp
  show a: "fields 8 (replicate 1 15) = 0x0F" by simp
  show b: "fields 8 (replicate 2 15) = 0x0F0F" using fields_replicate_double [of 8 1 15] a by simp
  show c: "fields 8 (replicate 4 15) = 0x0F0F0F0F" using fields_replicate_double [of 8 2 15] b by simp
  show "fields 8 (replicate 8 15) = 0x0F0F0F0F0F0F0F0F" using fields_replicate_double [of 8 4 15] c by simp
qed

lemma fold_bytes:
  assumes "\<forall>z \<in> set zs. z \<le> b" "b < 256" "i \<le> length zs"
  shows "fields 8 zs + fields 8 zs div 2 ^ (8 * i) = fields 8 (map2 (+) zs (drop i zs @ replicate i 0))"
proof -
  have "\<forall>z \<in> set zs. z < 2 ^ 8" using assms(1,2) by fastforce
  moreover have "fields k (xs @ replicate j 0) = fields k xs" for k xs j
    by (simp add: fields_append)
  ultimately show ?thesis using fields_drop [of zs 8 i] fields_add [of zs "drop i zs @ replicate i 0" 8] assms(3) by simp
qed

lemma fields_low_byte: "\<forall>z \<in> set zs. z < 256 \<Longrightarrow> zs \<noteq> [] \<Longrightarrow> fields 8 zs AND 255 = hd zs"
  by (cases zs) (simp_all add: and_low)

lemma fold_bytes_word:
  fixes r :: "'a::len word"
  assumes "unat r = fields 8 zs" "\<forall>z \<in> set zs. z \<le> b" "2 * b < 256" "i \<le> length zs" "8 * length zs \<le> LENGTH('a)"
  shows "unat (r + drop_bit (8 * i) r) = fields 8 (map2 (+) zs (drop i zs @ replicate i 0))"
    and "\<forall>z \<in> set (map2 (+) zs (drop i zs @ replicate i 0)). z \<le> 2 * b"
proof -
  let ?s = "map2 (+) zs (drop i zs @ replicate i 0)"
  show le: "\<forall>z \<in> set ?s. z \<le> 2 * b"
  proof
    fix z assume "z \<in> set ?s"
    then obtain p where p: "p \<in> set (zip zs (drop i zs @ replicate i 0))" "z = fst p + snd p" by (auto simp: split_def)
    then have "(fst p, snd p) \<in> set (zip zs (drop i zs @ replicate i 0))" by simp
    then have "fst p \<in> set zs" "snd p \<in> set (drop i zs @ replicate i 0)" by (rule set_zip_leftD, rule set_zip_rightD)
    then have "fst p \<le> b" "snd p \<le> b" using assms(2) by (auto dest: in_set_dropD)
    then show "z \<le> 2 * b" using p(2) by simp
  qed
  have "\<forall>z \<in> set ?s. z < 2 ^ 8" using le assms(3) by fastforce
  then have "fields 8 ?s < 2 ^ (8 * length ?s)" by (rule fields_less)
  also have "\<dots> \<le> 2 ^ LENGTH('a)" using assms(4,5) by (intro power_increasing) simp_all
  finally show "unat (r + drop_bit (8 * i) r) = fields 8 ?s"
    using fold_bytes [of zs b i] assms by (subst unat_add_small) (simp_all add: unat_drop)
qed

lemma hweight64_popcount: "unat (sw_hweight64 w) = popcount (unat w)"
proof -
  define r1 where "r1 = w - (drop_bit 1 w AND 0x5555555555555555)"
  define r2 where "r2 = (r1 AND 0x3333333333333333) + (drop_bit 2 r1 AND 0x3333333333333333)"
  define r3 where "r3 = (r2 + drop_bit 4 r2) AND 0x0F0F0F0F0F0F0F0F"
  have "\<exists>zs. length zs = 8 \<and> (\<forall>z \<in> set zs. z \<le> 8) \<and> sum_list zs = popcount (unat w) \<and> unat r3 = fields 8 zs"
    unfolding r3_def r2_def r1_def by (rule swar_bytes) (use unat_u64 [of w] in \<open>simp_all add: mask_fields [simplified]\<close>)
  then obtain zs where zs: "length zs = 8" "\<forall>z \<in> set zs. z \<le> 8" "sum_list zs = popcount (unat w)" "unat r3 = fields 8 zs" by blast
  from zs(1) have "length zs = Suc (Suc (Suc (Suc (Suc (Suc (Suc (Suc 0)))))))" by simp
  then obtain a b c d e f g h where z: "zs = [a, b, c, d, e, f, g, h]" unfolding length_Suc_conv length_0_conv by blast
  have rep: "replicate 2 (0 :: nat) = [0, 0]" "replicate 4 (0 :: nat) = [0, 0, 0, 0]" by (simp_all add: numeral_eq_Suc)
  let ?r4 = "r3 + drop_bit 8 r3"
  let ?r5 = "?r4 + drop_bit 16 ?r4"
  let ?r6 = "?r5 + drop_bit 32 ?r5"
  have r4: "unat ?r4 = fields 8 [a + b, b + c, c + d, d + e, e + f, f + g, g + h, h]" "\<forall>x \<in> {a + b, b + c, c + d, d + e, e + f, f + g, g + h, h}. x \<le> 16"
    using fold_bytes_word [OF zs(4,2), of 1] zs(1) by (simp_all add: z del: fields_simps)
  have r5: "unat ?r5 = fields 8 [a + b + (c + d), b + c + (d + e), c + d + (e + f), d + e + (f + g), e + f + (g + h), f + g + h, g + h, h]"
    "\<forall>x \<in> {a + b + (c + d), b + c + (d + e), c + d + (e + f), d + e + (f + g), e + f + (g + h), f + g + h, g + h, h}. x \<le> 32"
    using fold_bytes_word [OF r4(1), of 16 2] r4(2) by (simp_all add: rep del: fields_simps)
  have "unat ?r6 = fields 8 [a + b + (c + d) + (e + f + (g + h)), b + c + (d + e) + (f + g + h), c + d + (e + f) + (g + h), d + e + (f + g) + h,
      e + f + (g + h), f + g + h, g + h, h]"
    "\<forall>x \<in> {a + b + (c + d) + (e + f + (g + h)), b + c + (d + e) + (f + g + h), c + d + (e + f) + (g + h), d + e + (f + g) + h, e + f + (g + h), f + g + h, g + h, h}. x \<le> 64"
    using fold_bytes_word [OF r5(1), of 32 4] r5(2) by (simp_all add: rep del: fields_simps)
  then have "unat ?r6 AND 255 = a + b + (c + d) + (e + f + (g + h))" by (subst \<open>unat ?r6 = _\<close>, subst fields_low_byte) auto
  then show ?thesis using zs(3) unfolding sw_hweight64_def Let_def r1_def [symmetric] r2_def [symmetric] r3_def [symmetric] unat_and
    by (simp add: z)
qed

lemma hweight32_popcount: "unat (sw_hweight32 w) = popcount (unat w)"
proof -
  define r1 where "r1 = w - (drop_bit 1 w AND 0x55555555)"
  define r2 where "r2 = (r1 AND 0x33333333) + (drop_bit 2 r1 AND 0x33333333)"
  define r3 where "r3 = (r2 + drop_bit 4 r2) AND 0x0F0F0F0F"
  have "\<exists>zs. length zs = 4 \<and> (\<forall>z \<in> set zs. z \<le> 8) \<and> sum_list zs = popcount (unat w) \<and> unat r3 = fields 8 zs"
    unfolding r3_def r2_def r1_def by (rule swar_bytes) (use unat_u32 [of w] in \<open>simp_all add: mask_fields [simplified]\<close>)
  then obtain zs where zs: "length zs = 4" "\<forall>z \<in> set zs. z \<le> 8" "sum_list zs = popcount (unat w)" "unat r3 = fields 8 zs" by blast
  from zs(1) have "length zs = Suc (Suc (Suc (Suc 0)))" by simp
  then obtain a b c d where z: "zs = [a, b, c, d]" unfolding length_Suc_conv length_0_conv by blast
  have rep: "replicate 2 (0 :: nat) = [0, 0]" by (simp add: numeral_eq_Suc)
  let ?r4 = "r3 + drop_bit 8 r3"
  let ?r5 = "?r4 + drop_bit 16 ?r4"
  have r4: "unat ?r4 = fields 8 [a + b, b + c, c + d, d]" "\<forall>x \<in> {a + b, b + c, c + d, d}. x \<le> 16"
    using fold_bytes_word [OF zs(4,2), of 1] zs(1) by (simp_all add: z del: fields_simps)
  have "unat ?r5 = fields 8 [a + b + (c + d), b + c + d, c + d, d]" "\<forall>x \<in> {a + b + (c + d), b + c + d, c + d, d}. x \<le> 32"
    using fold_bytes_word [OF r4(1), of 16 2] r4(2) by (simp_all add: rep del: fields_simps)
  then have "unat ?r5 AND 255 = a + b + (c + d)" by (subst \<open>unat ?r5 = _\<close>, subst fields_low_byte) auto
  then show ?thesis using zs(3) unfolding sw_hweight32_def Let_def r1_def [symmetric] r2_def [symmetric] r3_def [symmetric] unat_and
    by (simp add: z)
qed

text \<open>Multiplying by \<open>0x0101...\<close> adds all lower bytes to each byte, so the top byte is their sum.\<close>

lemma byte_sum_top:
  fixes r :: "'a::len word"
  assumes "unat r * c = low + 2 ^ k * s + 2 ^ LENGTH('a) * x" "low < 2 ^ k" "s < 256" "LENGTH('a) = k + 8" "unat (m :: 'a word) = c"
  shows "unat (drop_bit k (r * m)) = s"
proof -
  have "s + 1 \<le> 256" using assms(3) by simp
  then have "2 ^ k * (s + 1) \<le> 2 ^ k * (256 :: nat)" by (rule mult_le_mono2)
  then have "2 ^ k * s + 2 ^ k \<le> 2 ^ k * (256 :: nat)" by (simp only: distrib_left mult_1_right)
  then have "low + 2 ^ k * s < 2 ^ k * 256" using assms(2) by linarith
  then have "low + 2 ^ k * s < 2 ^ LENGTH('a)" using assms(4) by (simp add: power_add)
  then have "unat (r * m) = low + 2 ^ k * s" using assms(1,5) by (simp add: unat_word_ariths)
  then show ?thesis using assms(2) by (simp add: unat_drop)
qed

lemma hweight32_mult_popcount: "unat (sw_hweight32_mult w) = popcount (unat w)"
proof -
  define r1 where "r1 = w - (drop_bit 1 w AND 0x55555555)"
  define r2 where "r2 = (r1 AND 0x33333333) + (drop_bit 2 r1 AND 0x33333333)"
  define r3 where "r3 = (r2 + drop_bit 4 r2) AND 0x0F0F0F0F"
  have "\<exists>zs. length zs = 4 \<and> (\<forall>z \<in> set zs. z \<le> 8) \<and> sum_list zs = popcount (unat w) \<and> unat r3 = fields 8 zs"
    unfolding r3_def r2_def r1_def by (rule swar_bytes) (use unat_u32 [of w] in \<open>simp_all add: mask_fields [simplified]\<close>)
  then obtain zs where zs: "length zs = 4" "\<forall>z \<in> set zs. z \<le> 8" "sum_list zs = popcount (unat w)" "unat r3 = fields 8 zs" by blast
  from zs(1) have "length zs = Suc (Suc (Suc (Suc 0)))" by simp
  then obtain a b c d where z: "zs = [a, b, c, d]" unfolding length_Suc_conv length_0_conv by blast
  have "unat (drop_bit 24 (r3 * 0x01010101)) = a + b + c + d"
    using zs(2) by (intro byte_sum_top [where c = "0x01010101" and low = "a + 2 ^ 8 * (a + b) + 2 ^ 16 * (a + b + c)" and x = "b + c + d + 2 ^ 8 * (c + d) + 2 ^ 16 * d"])
      (simp_all add: z zs(4))
  then show ?thesis using zs(3) unfolding sw_hweight32_mult_def Let_def r1_def [symmetric] r2_def [symmetric] r3_def [symmetric]
    by (simp add: z)
qed

lemma hweight64_mult_popcount: "unat (sw_hweight64_mult w) = popcount (unat w)"
proof -
  define r1 where "r1 = w - (drop_bit 1 w AND 0x5555555555555555)"
  define r2 where "r2 = (r1 AND 0x3333333333333333) + (drop_bit 2 r1 AND 0x3333333333333333)"
  define r3 where "r3 = (r2 + drop_bit 4 r2) AND 0x0F0F0F0F0F0F0F0F"
  have "\<exists>zs. length zs = 8 \<and> (\<forall>z \<in> set zs. z \<le> 8) \<and> sum_list zs = popcount (unat w) \<and> unat r3 = fields 8 zs"
    unfolding r3_def r2_def r1_def by (rule swar_bytes) (use unat_u64 [of w] in \<open>simp_all add: mask_fields [simplified]\<close>)
  then obtain zs where zs: "length zs = 8" "\<forall>z \<in> set zs. z \<le> 8" "sum_list zs = popcount (unat w)" "unat r3 = fields 8 zs" by blast
  from zs(1) have "length zs = Suc (Suc (Suc (Suc (Suc (Suc (Suc (Suc 0)))))))" by simp
  then obtain a b c d e f g h where z: "zs = [a, b, c, d, e, f, g, h]" unfolding length_Suc_conv length_0_conv by blast
  have "unat (drop_bit 56 (r3 * 0x0101010101010101)) = a + b + c + d + e + f + g + h"
    using zs(2) by (intro byte_sum_top [where c = "0x0101010101010101" and low = "a + 2 ^ 8 * (a + b) + 2 ^ 16 * (a + b + c) + 2 ^ 24 * (a + b + c + d) +
        2 ^ 32 * (a + b + c + d + e) + 2 ^ 40 * (a + b + c + d + e + f) + 2 ^ 48 * (a + b + c + d + e + f + g)" and
        x = "b + c + d + e + f + g + h + 2 ^ 8 * (c + d + e + f + g + h) + 2 ^ 16 * (d + e + f + g + h) + 2 ^ 24 * (e + f + g + h) +
        2 ^ 32 * (f + g + h) + 2 ^ 40 * (g + h) + 2 ^ 48 * h"])
      (simp_all add: z zs(4))
  then show ?thesis using zs(3) unfolding sw_hweight64_mult_def Let_def r1_def [symmetric] r2_def [symmetric] r3_def [symmetric]
    by (simp add: z)
qed

lemma hweight16_popcount: "unat w < 2 ^ 16 \<Longrightarrow> unat (sw_hweight16 w) = popcount (unat w)"
proof -
  assume w: "unat w < 2 ^ 16"
  define r1 where "r1 = w - (drop_bit 1 w AND 0x5555)"
  define r2 where "r2 = (r1 AND 0x3333) + (drop_bit 2 r1 AND 0x3333)"
  define r3 where "r3 = (r2 + drop_bit 4 r2) AND 0x0F0F"
  have "\<exists>zs. length zs = 2 \<and> (\<forall>z \<in> set zs. z \<le> 8) \<and> sum_list zs = popcount (unat w) \<and> unat r3 = fields 8 zs"
    unfolding r3_def r2_def r1_def by (rule swar_bytes) (use w in \<open>simp_all add: mask_fields [simplified]\<close>)
  then obtain zs where zs: "length zs = 2" "\<forall>z \<in> set zs. z \<le> 8" "sum_list zs = popcount (unat w)" "unat r3 = fields 8 zs" by blast
  from zs(1) have "length zs = Suc (Suc 0)" by simp
  then obtain a b where z: "zs = [a, b]" unfolding length_Suc_conv length_0_conv by blast
  let ?r4 = "r3 + drop_bit 8 r3"
  have "unat ?r4 = fields 8 [a + b, b]" "\<forall>x \<in> {a + b, b}. x \<le> 16"
    using fold_bytes_word [OF zs(4,2), of 1] zs(1) by (simp_all add: z del: fields_simps)
  then have "unat ?r4 AND 255 = a + b" by (subst \<open>unat ?r4 = _\<close>, subst fields_low_byte) auto
  then show ?thesis using zs(3) unfolding sw_hweight16_def Let_def r1_def [symmetric] r2_def [symmetric] r3_def [symmetric] unat_and
    by (simp add: z)
qed

lemma hweight8_popcount: "unat w < 2 ^ 8 \<Longrightarrow> unat (sw_hweight8 w) = popcount (unat w)"
proof -
  assume w: "unat w < 2 ^ 8"
  have "\<exists>zs. length zs = 1 \<and> (\<forall>z \<in> set zs. z \<le> 8) \<and> sum_list zs = popcount (unat w) \<and> unat (sw_hweight8 w) = fields 8 zs"
    unfolding sw_hweight8_def Let_def by (rule swar_bytes) (use w in \<open>simp_all add: mask_fields [simplified]\<close>)
  then obtain zs where zs: "length zs = 1" "sum_list zs = popcount (unat w)" "unat (sw_hweight8 w) = fields 8 zs" by blast
  then show ?thesis by (cases zs) simp_all
qed

lemma popcount_le: "n < 2 ^ k \<Longrightarrow> popcount n \<le> k"
proof -
  assume "n < 2 ^ k"
  then have "{i. bit n i} \<subseteq> {..<k}" by (auto) (metis bit_take_bit_iff take_bit_nat_eq_self)
  then have "card {i. bit n i} \<le> card {..<k}" by (rule card_mono [rotated]) simp
  then show ?thesis by (simp add: popcount_def)
qed

lemma hweight64_split_eq: "unat (sw_hweight64_split w) = card {i. bit w i}"
proof -
  have "unat (sw_hweight32 v) = card {i. bit v i} \<and> unat (sw_hweight32 v) \<le> 32" for v
    using hweight32_popcount [of v] popcount_le [of "unat v" 32] unat_u32 [of v] by (simp add: popcount_def bit_simps)
  note h = this [THEN conjunct1] this [THEN conjunct2]
  have "{i. bit (ucast (drop_bit 32 w) :: u32) i} = {i. bit w (32 + i)}"
    by (auto simp: bit_simps dest: bit_imp_le_length)
  moreover have "card {i. bit w (32 + i)} = card ((+) 32 ` {i. bit w (32 + i)})" by (subst card_image) simp_all
  moreover have "(+) 32 ` {i. bit w (32 + i)} = {i. bit w i \<and> 32 \<le> i}"
    by (auto simp: image_iff) (metis le_add_diff_inverse)
  moreover have "{i. bit (ucast w :: u32) i} = {i. bit w i \<and> \<not> 32 \<le> i}" by (auto simp: bit_simps)
  moreover have "card {i. bit w i} = card {i. bit w i \<and> 32 \<le> i} + card {i. bit w i \<and> \<not> 32 \<le> i}"
    by (subst card_Un_disjoint [symmetric]) (auto intro!: arg_cong [where f = card] finite_subset [of _ "{..<64}"] dest: bit_imp_le_length)
  ultimately show ?thesis using h [of "ucast (drop_bit 32 w)"] h [of "ucast w"]
    unfolding sw_hweight64_split_def by (subst unat_add_small) simp_all
qed

lemma hweight_long_eq: "unat (hweight_long w) = card {i. bit w i}"
  using hweight64_popcount [of w] by (simp add: hweight_long_def popcount_def bit_simps)

subsection \<open>Least and greatest set bits\<close>

definition is_lsb :: "u64 \<Rightarrow> nat \<Rightarrow> bool" where
  "is_lsb w i \<longleftrightarrow> bit w i \<and> (\<forall>j < i. \<not> bit w j)"

definition is_msb :: "u64 \<Rightarrow> nat \<Rightarrow> bool" where
  "is_msb w i \<longleftrightarrow> bit w i \<and> (\<forall>j > i. \<not> bit w j)"

lemma and_mask_zero: "w AND mask h = 0 \<longleftrightarrow> (\<forall>j < h. \<not> bit (w :: u64) j)"
proof
  assume "w AND mask h = 0"
  then show "\<forall>j < h. \<not> bit w j" by (metis bit_0_eq bit_and_iff bit_mask_iff bit_imp_possible_bit bot_apply bot_bool_def)
next
  assume "\<forall>j < h. \<not> bit w j"
  then show "w AND mask h = 0" by (intro bit_word_eqI) (auto simp: bit_simps)
qed

text \<open>One step of the search from below: the half without a bit is skipped.\<close>

lemma ffs_step:
  assumes "is_lsb w i" "i < 2 * h" "mask h = m"
  shows "\<exists>num' w' i'. (if w AND m = 0 then (num + h, drop_bit h w) else (num, w)) = (num', w') \<and> is_lsb w' i' \<and> i' < h \<and> num' + i' = num + i"
proof (cases "w AND m = 0")
  case True
  then have "\<forall>j < h. \<not> bit w j" using assms(3) and_mask_zero by blast
  then have "h \<le> i" using assms(1) by (auto simp: is_lsb_def not_less [symmetric])
  then have "is_lsb (drop_bit h w) (i - h)" using assms(1) by (auto simp: is_lsb_def bit_simps)
  then show ?thesis using True \<open>h \<le> i\<close> assms(2) by (intro exI [of _ "num + h"] exI [of _ "drop_bit h w"] exI [of _ "i - h"]) auto
next
  case False
  then obtain j where "j < h" "bit w j" using assms(3) and_mask_zero by blast
  then have "i < h" using assms(1) unfolding is_lsb_def by (meson le_less_trans not_less)
  then show ?thesis using False assms(1) by auto
qed

lemma is_lsb_exists: "w \<noteq> 0 \<Longrightarrow> \<exists>i < 64. is_lsb w i"
proof -
  assume "w \<noteq> 0"
  then obtain k where k: "bit w k" by (metis bit_eqI bit_0_eq bot_apply bot_bool_def)
  define i where "i = (LEAST j. bit w j)"
  have "bit w i" "\<forall>j < i. \<not> bit w j" unfolding i_def using k by (auto intro: LeastI dest: not_less_Least)
  moreover have "i < 64" using bit_imp_le_length [OF \<open>bit w i\<close>] by simp
  ultimately show ?thesis by (auto simp: is_lsb_def)
qed

lemma ffs_word_lsb: "w \<noteq> 0 \<Longrightarrow> is_lsb w (ffs_word w)"
proof -
  assume "w \<noteq> 0"
  then obtain i where i: "is_lsb w i" "i < 2 * 32" using is_lsb_exists by auto
  have "mask 32 = (0xffffffff :: u64)" "mask 16 = (0xffff :: u64)" "mask 8 = (0xff :: u64)" "mask 4 = (0xf :: u64)" "mask 2 = (0x3 :: u64)" "mask 1 = (0x1 :: u64)"
    by (simp_all add: mask_eq_exp_minus_1)
  note m = this
  obtain n1 w1 i1 where s1: "(if w AND 0xffffffff = 0 then (0 + 32, drop_bit 32 w) else (0, w)) = (n1, w1)" "is_lsb w1 i1" "i1 < 2 * 16" "n1 + i1 = 0 + i"
    using ffs_step [OF i m(1), of 0] by auto
  obtain n2 w2 i2 where s2: "(if w1 AND 0xffff = 0 then (n1 + 16, drop_bit 16 w1) else (n1, w1)) = (n2, w2)" "is_lsb w2 i2" "i2 < 2 * 8" "n2 + i2 = n1 + i1"
    using ffs_step [OF s1(2,3) m(2), of n1] by auto
  obtain n3 w3 i3 where s3: "(if w2 AND 0xff = 0 then (n2 + 8, drop_bit 8 w2) else (n2, w2)) = (n3, w3)" "is_lsb w3 i3" "i3 < 2 * 4" "n3 + i3 = n2 + i2"
    using ffs_step [OF s2(2,3) m(3), of n2] by auto
  obtain n4 w4 i4 where s4: "(if w3 AND 0xf = 0 then (n3 + 4, drop_bit 4 w3) else (n3, w3)) = (n4, w4)" "is_lsb w4 i4" "i4 < 2 * 2" "n4 + i4 = n3 + i3"
    using ffs_step [OF s3(2,3) m(4), of n3] by auto
  obtain n5 w5 i5 where s5: "(if w4 AND 0x3 = 0 then (n4 + 2, drop_bit 2 w4) else (n4, w4)) = (n5, w5)" "is_lsb w5 i5" "i5 < 2 * 1" "n5 + i5 = n4 + i4"
    using ffs_step [OF s4(2,3) m(5), of n4] by auto
  obtain n6 w6 i6 where s6: "(if w5 AND 0x1 = 0 then (n5 + 1, drop_bit 1 w5) else (n5, w5)) = (n6, w6)" "i6 < 1" "n6 + i6 = n5 + i5"
    using ffs_step [OF s5(2,3) m(6), of n5] by blast
  have "ffs_word w = (if w5 AND 1 = 0 then n5 + 1 else n5)"
    unfolding ffs_word_def Let_def using s1(1) s2(1) s3(1) s4(1) s5(1) by (simp only: add_0 prod.case)
  also have "\<dots> = n6" using s6(1) by (auto split: if_splits)
  also have "\<dots> = i" using s1(4) s2(4) s3(4) s4(4) s5(4) s6(2,3) by linarith
  finally show ?thesis using i by simp
qed

lemma and_high_zero: "k \<le> 64 \<Longrightarrow> w AND push_bit k (- 1) = 0 \<longleftrightarrow> (\<forall>j \<ge> k. \<not> bit (w :: u64) j)"
proof -
  have b: "bit (push_bit k (- 1 :: u64)) j \<longleftrightarrow> k \<le> j \<and> j < 64" for j by (auto simp: bit_simps)
  show ?thesis
  proof
    assume z: "w AND push_bit k (- 1) = 0"
    show "\<forall>j \<ge> k. \<not> bit w j"
    proof (intro allI impI notI)
      fix j assume "k \<le> j" "bit w j"
      moreover then have "bit (w AND push_bit k (- 1)) j" using b [of j] bit_imp_le_length [of w j] by (simp add: bit_and_iff)
      ultimately show False using z by simp
    qed
  next
    assume "\<forall>j \<ge> k. \<not> bit w j"
    then show "w AND push_bit k (- 1) = 0" using b by (intro bit_word_eqI) (auto simp: bit_and_iff)
  qed
qed

lemma fls_step:
  assumes "is_msb w (63 - d)" "d < 2 * h" "d \<le> num" "0 < h" "h \<le> 32"
  shows "\<exists>num' w' d'. (if w AND push_bit (64 - h) (- 1) = 0 then (num - h, push_bit h w) else (num, w)) = (num', w') \<and>
     is_msb w' (63 - d') \<and> d' < h \<and> d' \<le> num' \<and> num' - d' = num - d"
proof (cases "w AND push_bit (64 - h) (- 1) = 0")
  case True
  then have z: "\<forall>j \<ge> 64 - h. \<not> bit w j" using and_high_zero [of "64 - h" w] by simp
  then have "63 - d < 64 - h" using assms(1) by (meson is_msb_def not_less)
  then have d: "h \<le> d" "d - h \<le> 63" "63 - (d - h) = 63 - d + h" if "d \<le> 63" using assms that by auto
  have d63: "d \<le> 63" using assms(2,5) by simp
  have "is_msb (push_bit h w) (63 - (d - h))"
    unfolding is_msb_def d(3) [OF d63]
    using assms(1) d [OF d63] d63 bit_imp_le_length [of w] by (auto simp: is_msb_def bit_simps)
  then show ?thesis using True d [OF d63] assms by (intro exI [of _ "num - h"] exI [of _ "push_bit h w"] exI [of _ "d - h"]) auto
next
  case False
  then obtain j where j: "64 - h \<le> j" "bit w j" using and_high_zero [of "64 - h" w] by auto
  then have "j \<le> 63 - d" using assms(1) by (meson is_msb_def not_less)
  then have "d < h" using j(1) assms(4,5) bit_imp_le_length [OF j(2)] by auto
  then show ?thesis using False assms(1,3) by auto
qed

lemma is_msb_exists: "w \<noteq> 0 \<Longrightarrow> \<exists>d < 64. is_msb w (63 - d)"
proof -
  assume "w \<noteq> 0"
  then obtain k where k: "bit w k" by (metis bit_eqI bit_0_eq bot_apply bot_bool_def)
  have fin: "finite {j. bit w j}" by (rule finite_subset [of _ "{..<64}"]) (auto dest: bit_imp_le_length)
  define i where "i = Max {j. bit w j}"
  have "bit w i" "\<forall>j > i. \<not> bit w j" unfolding i_def using Max_in [OF fin] Max_ge [OF fin] k by (auto simp: not_less [symmetric])
  moreover have "i < 64" using bit_imp_le_length [OF \<open>bit w i\<close>] by simp
  ultimately show ?thesis by (intro exI [of _ "63 - i"]) (simp add: is_msb_def)
qed

lemma fls_word_msb: "w \<noteq> 0 \<Longrightarrow> is_msb w (fls_word w)"
proof -
  assume "w \<noteq> 0"
  then obtain d where d: "is_msb w (63 - d)" "d < 2 * 32" "d \<le> 63" using is_msb_exists [of w] by auto
  obtain n1 w1 d1 where s1: "(if w AND push_bit 32 (- 1) = 0 then (63 - 32, push_bit 32 w) else (63, w)) = (n1, w1)" "is_msb w1 (63 - d1)" "d1 < 2 * 16" "d1 \<le> n1" "n1 - d1 = 63 - d"
    using fls_step [OF d, of ] by auto
  obtain n2 w2 d2 where s2: "(if w1 AND push_bit 48 (- 1) = 0 then (n1 - 16, push_bit 16 w1) else (n1, w1)) = (n2, w2)" "is_msb w2 (63 - d2)" "d2 < 2 * 8" "d2 \<le> n2" "n2 - d2 = n1 - d1"
    using fls_step [OF s1(2,3,4)] by auto
  obtain n3 w3 d3 where s3: "(if w2 AND push_bit 56 (- 1) = 0 then (n2 - 8, push_bit 8 w2) else (n2, w2)) = (n3, w3)" "is_msb w3 (63 - d3)" "d3 < 2 * 4" "d3 \<le> n3" "n3 - d3 = n2 - d2"
    using fls_step [OF s2(2,3,4)] by auto
  obtain n4 w4 d4 where s4: "(if w3 AND push_bit 60 (- 1) = 0 then (n3 - 4, push_bit 4 w3) else (n3, w3)) = (n4, w4)" "is_msb w4 (63 - d4)" "d4 < 2 * 2" "d4 \<le> n4" "n4 - d4 = n3 - d3"
    using fls_step [OF s3(2,3,4)] by auto
  obtain n5 w5 d5 where s5: "(if w4 AND push_bit 62 (- 1) = 0 then (n4 - 2, push_bit 2 w4) else (n4, w4)) = (n5, w5)" "is_msb w5 (63 - d5)" "d5 < 2 * 1" "d5 \<le> n5" "n5 - d5 = n4 - d4"
    using fls_step [OF s4(2,3,4)] by auto
  obtain n6 w6 d6 where s6: "(if w5 AND push_bit 63 (- 1) = 0 then (n5 - 1, push_bit 1 w5) else (n5, w5)) = (n6, w6)" "d6 < 1" "n6 - d6 = n5 - d5"
    using fls_step [OF s5(2,3,4)] by auto
  have "fls_word w = (if w5 AND push_bit 63 (- 1) = 0 then n5 - 1 else n5)"
    unfolding fls_word_def Let_def using s1(1) s2(1) s3(1) s4(1) s5(1) by (simp only: prod.case)
  also have "\<dots> = n6" using s6(1) by (auto split: if_splits)
  also have "\<dots> = 63 - d" using s1(5) s2(5) s3(5) s4(5) s5(5) s6(2,3) by simp
  finally show ?thesis using d by simp
qed

lemma msb_bounds: "is_msb w i \<Longrightarrow> 2 ^ i \<le> unat w \<and> unat w < 2 ^ (i + 1)"
proof -
  assume m: "is_msb w i"
  have b: "bit (unat w) j = bit w j" for j by (simp add: bit_simps)
  have "take_bit (i + 1) (unat w) = unat w" using m by (intro bit_eqI) (auto simp: bit_take_bit_iff b is_msb_def not_less_eq)
  then have "unat w < 2 ^ (i + 1)" using take_bit_nat_less_exp [of "i + 1" "unat w"] by simp
  moreover have "odd (unat w div 2 ^ i)" using m b [of i] by (simp add: is_msb_def bit_iff_odd)
  then have "2 ^ i \<le> unat w" by (metis div_less even_zero not_le)
  ultimately show ?thesis by simp
qed

lemma roundup_pow_of_two_least:
  assumes "0 < n" "unat n \<le> 2 ^ 63"
  shows "\<exists>k. roundup_pow_of_two n = Inr (2 ^ k) \<and> unat n \<le> 2 ^ k \<and> (\<forall>j. unat n \<le> 2 ^ j \<longrightarrow> k \<le> j)"
proof (cases "n = 1")
  case True
  then show ?thesis by (intro exI [of _ 0]) (simp add: roundup_pow_of_two_def fls_long_def fls64_def shl64_def)
next
  case False
  have n1: "unat (n - 1) = unat n - 1" using assms(1) by (simp add: unat_sub_if' word_less_nat_alt Suc_le_eq)
  have "n - 1 \<noteq> 0" using False by simp
  then have m: "is_msb (n - 1) (fls_word (n - 1))" by (rule fls_word_msb)
  let ?i = "fls_word (n - 1)"
  have b: "2 ^ ?i \<le> unat n - 1" "unat n - 1 < 2 ^ (?i + 1)" using msb_bounds [OF m] n1 by simp_all
  have "0 < unat n" using assms(1) by (simp add: word_less_nat_alt)
  then have "(2 :: nat) ^ ?i < 2 ^ 63" using b(1) assms(2) by linarith
  then have i: "?i < 63" by (rule power_less_imp_less_exp [rotated]) simp
  have least: "?i + 1 \<le> j" if "unat n \<le> 2 ^ j" for j
  proof -
    have "(2 :: nat) ^ ?i < 2 ^ j" using b(1) that \<open>0 < unat n\<close> by linarith
    then have "?i < j" by (rule power_less_imp_less_exp [rotated]) simp
    then show ?thesis by simp
  qed
  show ?thesis
  proof (intro exI [of _ "?i + 1"] conjI allI impI)
    show "roundup_pow_of_two n = Inr (2 ^ (?i + 1))"
      using i \<open>n - 1 \<noteq> 0\<close> by (simp add: roundup_pow_of_two_def fls_long_def fls64_def shl64_def push_bit_eq_mult)
    show "unat n \<le> 2 ^ (?i + 1)" using b(2) by linarith
  qed (rule least)
qed

subsection \<open>Bitmaps as sets of bits\<close>

definition bmbit :: "bitmap \<Rightarrow> nat \<Rightarrow> bool" where
  "bmbit addr i \<longleftrightarrow> i div 64 < length addr \<and> bit (addr ! (i div 64)) (i mod 64)"

definition found :: "(nat \<Rightarrow> bool) \<Rightarrow> nat \<Rightarrow> nat \<Rightarrow> nat \<Rightarrow> bool" where
  "found P start nbits r \<longleftrightarrow> r \<le> nbits \<and> (\<forall>i. start \<le> i \<and> i < r \<longrightarrow> \<not> P i) \<and> (r < nbits \<longrightarrow> start \<le> r \<and> P r)"

lemma word_div: "j < 64 \<Longrightarrow> (64 * q + j) div 64 = (q :: nat) \<and> (64 * q + j) mod 64 = j"
  by simp

lemma first_in_word:
  assumes "tmp \<noteq> 0" "\<And>j. j < 64 \<Longrightarrow> bit tmp j \<longleftrightarrow> s \<le> 64 * q + j \<and> P (64 * q + j)" "\<forall>i. s \<le> i \<and> i < 64 * q \<longrightarrow> \<not> P i"
  shows "found P s nbits (min (64 * q + ffs_word tmp) nbits)"
proof -
  have l: "is_lsb tmp (ffs_word tmp)" using assms(1) by (rule ffs_word_lsb)
  then have f: "ffs_word tmp < 64" "bit tmp (ffs_word tmp)" using bit_imp_le_length [of tmp "ffs_word tmp"] by (auto simp: is_lsb_def)
  have "\<not> P i" if "s \<le> i" "i < 64 * q + ffs_word tmp" for i
  proof (cases "i < 64 * q")
    case False
    then have "\<not> bit tmp (i - 64 * q)" "i - 64 * q < 64" using l that f(1) by (auto simp: is_lsb_def)
    then show ?thesis using assms(2) [of "i - 64 * q"] that False by simp
  qed (use assms(3) that in simp)
  then show ?thesis using assms(2) [of "ffs_word tmp"] f by (auto simp: found_def min_def)
qed

lemma next_loop_found:
  assumes "\<And>q j. 64 * q < nbits \<Longrightarrow> j < 64 \<Longrightarrow> q < length addr \<and> (bit (addr ! q XOR invert) j \<longleftrightarrow> P (64 * q + j))"
  shows "64 * q < nbits \<Longrightarrow> (\<And>j. j < 64 \<Longrightarrow> bit tmp j \<longleftrightarrow> s \<le> 64 * q + j \<and> P (64 * q + j)) \<Longrightarrow> s < 64 * q + 64 \<Longrightarrow>
    \<forall>i. s \<le> i \<and> i < 64 * q \<longrightarrow> \<not> P i \<Longrightarrow> \<exists>r. next_loop addr nbits invert (64 * q) tmp = Inr r \<and> found P s nbits r"
proof (induction "nbits - q" arbitrary: q tmp rule: less_induct)
  case less
  show ?case
  proof (cases "tmp = 0")
    case False
    then show ?thesis using first_in_word [of tmp s q P nbits] less.prems by (simp add: next_loop.simps [of addr nbits invert "64 * q"])
  next
    case True
    have none: "\<not> P i" if "s \<le> i" "i < 64 * Suc q" for i
    proof (cases "i < 64 * q")
      case False
      then have "i - 64 * q < 64" using that by simp
      then show ?thesis using less.prems(2) [of "i - 64 * q"] that False True by simp
    qed (use less.prems(4) that in simp)
    show ?thesis
    proof (cases "nbits \<le> 64 * q + 64")
      case last: True
      then show ?thesis using True none by (auto simp: next_loop.simps [of addr nbits invert "64 * q"] found_def)
    next
      case False
      then have "64 * Suc q < nbits" "(64 * q + 64) div 64 = Suc q" by simp_all
      moreover have "\<exists>r. next_loop addr nbits invert (64 * Suc q) (addr ! Suc q XOR invert) = Inr r \<and> found P s nbits r"
      proof (rule less.hyps)
        show "bit (addr ! Suc q XOR invert) j \<longleftrightarrow> s \<le> 64 * Suc q + j \<and> P (64 * Suc q + j)" if "j < 64" for j
          using assms [of "Suc q" j] calculation(1) that less.prems(3) by auto
      qed (use calculation(1) less.prems(3) none in auto)
      ultimately show ?thesis using True False assms [of "Suc q" 0] by (simp add: next_loop.simps [of addr nbits invert "64 * q"] add.commute)
    qed
  qed
qed

lemma bit_xor_0: "bit (w XOR 0) j = bit (w :: u64) j"
  by simp

lemma words_hold: "BITS_TO_LONGS nbits \<le> length addr \<Longrightarrow> 64 * q < nbits \<Longrightarrow> q < length addr"
  by (simp add: BITS_TO_LONGS_def)

lemma find_next_bit_found:
  assumes "BITS_TO_LONGS nbits \<le> length addr"
  shows "\<exists>r. find_next_bit addr nbits start = Inr r \<and> found (bmbit addr) start nbits r"
proof (cases "nbits \<le> start")
  case True
  then show ?thesis by (auto simp: find_next_bit_def find_next_bit_invert_def found_def)
next
  case False
  define q where "q = start div 64"
  have q: "64 * q < nbits" "start < 64 * q + 64" "64 * q \<le> start" using False by (auto simp: q_def)
  have b: "bit (addr ! q) j \<longleftrightarrow> bmbit addr (64 * q + j)" if "j < 64" "64 * q < nbits" for q j
    using that words_hold [OF assms that(2)] by (simp add: bmbit_def)
  have "bit (addr ! q AND BITMAP_FIRST_WORD_MASK start) j \<longleftrightarrow> start \<le> 64 * q + j \<and> bmbit addr (64 * q + j)" if "j < 64" for j
  proof -
    have "start mod 64 \<le> j \<longleftrightarrow> start \<le> 64 * q + j" using mult_div_mod_eq [of 64 start] unfolding q_def by linarith
    then show ?thesis using that b [OF that q(1)] unfolding BITMAP_FIRST_WORD_MASK_def by (auto simp: bit_simps)
  qed
  then have "\<exists>r. next_loop addr nbits 0 (64 * q) (addr ! q AND BITMAP_FIRST_WORD_MASK start) = Inr r \<and> found (bmbit addr) start nbits r"
    using q b words_hold [OF assms] by (intro next_loop_found) auto
  then show ?thesis using False words_hold [OF assms q(1)]
    by (simp add: find_next_bit_def find_next_bit_invert_def q_def mult.commute)
qed

lemma first_loop_found:
  assumes "BITS_TO_LONGS nbits \<le> length addr"
  shows "\<forall>i < 64 * q. \<not> bmbit addr i \<Longrightarrow> \<exists>r. first_loop addr nbits q = Inr r \<and> found (bmbit addr) 0 nbits r"
proof (induction "nbits - q" arbitrary: q rule: less_induct)
  case less
  show ?case
  proof (cases "64 * q < nbits")
    case True
    then have l: "q < length addr" by (rule words_hold [OF assms])
    have b: "bit (addr ! q) j \<longleftrightarrow> 0 \<le> 64 * q + j \<and> bmbit addr (64 * q + j)" if "j < 64" for j using that l by (simp add: bmbit_def)
    show ?thesis
    proof (cases "addr ! q = 0")
      case z: True
      have "\<not> bmbit addr i" if "i < 64 * Suc q" for i
        using less.prems b [of "i - 64 * q"] z that by (cases "i < 64 * q") auto
      then show ?thesis using less.hyps [of "Suc q"] True l z by (simp add: first_loop.simps [of addr nbits q] mult.commute)
    next
      case False
      then show ?thesis using first_in_word [of "addr ! q" 0 q "bmbit addr" nbits] b less.prems True l
        by (simp add: first_loop.simps [of addr nbits q] mult.commute)
    qed
  next
    case False
    then show ?thesis using less.prems by (auto simp: first_loop.simps [of addr nbits q] found_def mult.commute)
  qed
qed

lemma filter_from_found:
  assumes "found P s n r" "s \<le> n"
  shows "filter P [s..<n] = (if r < n then r # filter P [Suc r..<n] else [])"
proof (cases "r < n")
  case True
  then have "s \<le> r" "P r" using assms(1) by (auto simp: found_def)
  then have "[s..<n] = [s..<r] @ r # [Suc r..<n]" using True upt_add_eq_append [of s r "n - r"] by (simp add: upt_rec [of r n])
  moreover have "filter P [s..<r] = []" using assms(1) by (auto simp: found_def filter_empty_conv)
  ultimately show ?thesis using True \<open>P r\<close> by simp
next
  case False
  then show ?thesis using assms(1) by (auto simp: found_def filter_empty_conv)
qed

lemma set_bits_from_ok:
  assumes "BITS_TO_LONGS nbits \<le> length addr"
  shows "nbits - b < n \<Longrightarrow> b < nbits \<longrightarrow> bmbit addr b \<Longrightarrow> set_bits_from n addr nbits b = Inr (filter (bmbit addr) [b..<nbits])"
proof (induction n arbitrary: b)
  case (Suc n)
  show ?case
  proof (cases "b < nbits")
    case True
    obtain r where r: "find_next_bit addr nbits (b + 1) = Inr r" "found (bmbit addr) (b + 1) nbits r"
      using find_next_bit_found [OF assms] by blast
    then have "nbits - r < n" "r < nbits \<longrightarrow> bmbit addr r" using Suc.prems True by (auto simp: found_def)
    then have "set_bits_from n addr nbits r = Inr (filter (bmbit addr) [r..<nbits])" by (rule Suc.IH)
    moreover have "filter (bmbit addr) [r..<nbits] = filter (bmbit addr) [Suc b..<nbits]"
      using filter_from_found [OF r(2)] True r(2) by (auto simp: found_def upt_rec [of r nbits])
    ultimately show ?thesis using True r(1) Suc.prems(2) by (simp add: upt_rec [of b nbits])
  qed simp
qed simp

lemma for_each_set_bit_filter:
  assumes "BITS_TO_LONGS nbits \<le> length addr"
  shows "for_each_set_bit addr nbits = Inr (filter (bmbit addr) [0..<nbits])"
proof -
  obtain r where r: "find_first_bit addr nbits = Inr r" "found (bmbit addr) 0 nbits r"
    using first_loop_found [OF assms, of 0] by (auto simp: find_first_bit_def)
  then have "set_bits_from (Suc nbits) addr nbits r = Inr (filter (bmbit addr) [r..<nbits])"
    by (intro set_bits_from_ok [OF assms]) (auto simp: found_def)
  moreover have "filter (bmbit addr) [r..<nbits] = filter (bmbit addr) [0..<nbits]"
    using filter_from_found [OF r(2)] r(2) by (auto simp: found_def upt_rec [of r nbits])
  ultimately show ?thesis using r(1) by (simp add: for_each_set_bit_def)
qed

lemma weight_loop_ok:
  "k \<le> lim \<Longrightarrow> lim \<le> length addr \<Longrightarrow>
    weight_loop addr lim k w = Inr (w + card {i. 64 * k \<le> i \<and> i < 64 * lim \<and> bmbit addr i})"
proof (induction "lim - k" arbitrary: k w)
  case 0
  then show ?case by (subst weight_loop.simps) (auto simp: card_eq_0_iff)
next
  case (Suc d)
  have k: "k < lim" using Suc.hyps(2) by simp
  let ?A = "(+) (64 * k) ` {j. bit (addr ! k) j}" and ?B = "{i. 64 * Suc k \<le> i \<and> i < 64 * lim \<and> bmbit addr i}"
  have j: "j < 64" if "bit (addr ! k) j" for j using bit_imp_le_length [OF that] by simp
  have "{i. 64 * k \<le> i \<and> i < 64 * lim \<and> bmbit addr i} = ?A \<union> ?B"
  proof (rule set_eqI)
    fix i
    show "i \<in> {i. 64 * k \<le> i \<and> i < 64 * lim \<and> bmbit addr i} \<longleftrightarrow> i \<in> ?A \<union> ?B"
    proof (cases "64 * k \<le> i \<and> i < 64 * Suc k")
      case True
      then obtain j where "i = 64 * k + j" "j < 64" by (metis le_Suc_ex mult_Suc_right add.commute nat_add_left_cancel_less)
      then show ?thesis using k Suc.prems by (auto simp: bmbit_def)
    next
      case False
      then have "i \<notin> ?A" using j by auto
      then show ?thesis using False by auto
    qed
  qed
  moreover have "finite ?A" by (rule finite_imageI, rule finite_subset [of _ "{..<64}"]) (auto dest: j)
  moreover have "?A \<inter> ?B = {}" using j by fastforce
  moreover have "finite ?B" by simp
  ultimately have "card {i. 64 * k \<le> i \<and> i < 64 * lim \<and> bmbit addr i} = card {j. bit (addr ! k) j} + card ?B"
    by (simp add: card_Un_disjoint card_image)
  then show ?case using Suc.hyps(1) [of "Suc k"] Suc.hyps(2) Suc.prems k
    by (subst weight_loop.simps) (simp add: hweight_long_eq)
qed

lemma last_word_mask: "bits mod 64 \<noteq> 0 \<Longrightarrow> bit (w AND BITMAP_LAST_WORD_MASK bits) j \<longleftrightarrow> bit w j \<and> j < bits mod 64"
proof -
  assume "bits mod 64 \<noteq> 0"
  then have "BITMAP_LAST_WORD_MASK bits = mask (bits mod 64)" by (simp add: BITMAP_LAST_WORD_MASK_def mask_eq_exp_minus_1 push_bit_eq_mult)
  then show ?thesis by (auto simp: bit_simps dest: bit_imp_le_length)
qed

lemma bitmap_weight_card:
  assumes "BITS_TO_LONGS bits \<le> length addr"
  shows "bitmap_weight addr bits = Inr (card {i. i < bits \<and> bmbit addr i})"
proof -
  define q where "q = bits div 64"
  have q: "q \<le> length addr" "64 * q \<le> bits" "bits = 64 * q + bits mod 64" using assms by (auto simp: q_def BITS_TO_LONGS_def)
  have w: "weight_loop addr q 0 0 = Inr (card {i. i < 64 * q \<and> bmbit addr i})" using weight_loop_ok [of 0 q addr 0] q(1) by simp
  show ?thesis
  proof (cases "bits mod 64 = 0")
    case True
    then show ?thesis using w q(3) by (simp add: bitmap_weight_def q_def [symmetric])
  next
    case False
    then have l: "q < length addr" using words_hold [OF assms, of q] q(3) by simp
    let ?A = "{i. i < 64 * q \<and> bmbit addr i}" and ?B = "(+) (64 * q) ` {j. bit (addr ! q) j \<and> j < bits mod 64}"
    have "{i. i < bits \<and> bmbit addr i} = ?A \<union> ?B"
    proof (rule set_eqI)
      fix i
      show "i \<in> {i. i < bits \<and> bmbit addr i} \<longleftrightarrow> i \<in> ?A \<union> ?B"
      proof (cases "64 * q \<le> i")
        case True
        then obtain j where i: "i = 64 * q + j" by (metis le_Suc_ex)
        moreover have "bits mod 64 < 64" by simp
        ultimately show ?thesis using l q(3) by (auto simp: bmbit_def)
      qed (use q(2) in auto)
    qed
    moreover have "?A \<inter> ?B = {}" "finite ?A" "finite ?B" by auto
    ultimately have "card {i. i < bits \<and> bmbit addr i} = card ?A + card {j. bit (addr ! q) j \<and> j < bits mod 64}"
      by (simp add: card_Un_disjoint card_image)
    then show ?thesis using w l False by (simp add: bitmap_weight_def q_def [symmetric] hweight_long_eq last_word_mask)
  qed
qed

lemma bit_exp: "n < 64 \<Longrightarrow> bit ((2 :: u64) ^ n) j \<longleftrightarrow> j = n"
proof -
  assume "n < 64"
  then have "bit (push_bit n (1 :: u64)) j \<longleftrightarrow> j = n" by (simp only: bit_push_bit_iff possible_bit_word bit_1_iff) auto
  then show ?thesis by (simp add: push_bit_eq_mult)
qed

lemma bmbit_update:
  assumes "i div 64 < length addr"
  shows "bmbit (addr[i div 64 := f (addr ! (i div 64))]) j \<longleftrightarrow> (if j div 64 = i div 64 then bit (f (addr ! (i div 64))) (j mod 64) else bmbit addr j)"
    and "j div 64 = i div 64 \<Longrightarrow> bit (addr ! (i div 64)) (j mod 64) \<longleftrightarrow> bmbit addr j"
  using assms by (auto simp: bmbit_def)

lemma div_mod_eq: "j div 64 = i div 64 \<Longrightarrow> j mod 64 = i mod (64 :: nat) \<longleftrightarrow> j = i"
  by (metis mult_div_mod_eq)

lemma set_bit_at_ok:
  assumes "i div 64 < length addr"
  shows "\<exists>addr'. set_bit_at i addr = Inr addr' \<and> length addr' = length addr \<and> (\<forall>j. bmbit addr' j \<longleftrightarrow> j = i \<or> bmbit addr j)"
proof -
  have "bmbit (addr[i div 64 := addr ! (i div 64) OR 2 ^ (i mod 64)]) j \<longleftrightarrow> j = i \<or> bmbit addr j" for j
    using bmbit_update(1) [OF assms, of "\<lambda>w. w OR 2 ^ (i mod 64)" j] bmbit_update(2) [OF assms, of j] div_mod_eq [of j i]
    by (auto simp: bit_or_iff bit_exp)
  then show ?thesis using assms by (simp add: set_bit_at_def)
qed

lemma clear_bit_ok:
  assumes "i div 64 < length addr"
  shows "\<exists>addr'. clear_bit i addr = Inr addr' \<and> length addr' = length addr \<and> (\<forall>j. bmbit addr' j \<longleftrightarrow> j \<noteq> i \<and> bmbit addr j)"
proof -
  have "bit (addr ! (i div 64) AND NOT (2 ^ (i mod 64))) k \<longleftrightarrow> bit (addr ! (i div 64)) k \<and> k \<noteq> i mod 64" for k
    using bit_exp [of "i mod 64" k] by (auto simp: bit_and_iff bit_not_iff_eq dest: bit_imp_le_length)
  then have "bmbit (addr[i div 64 := addr ! (i div 64) AND NOT (2 ^ (i mod 64))]) j \<longleftrightarrow> j \<noteq> i \<and> bmbit addr j" for j
    using bmbit_update(1) [OF assms, of "\<lambda>w. w AND NOT (2 ^ (i mod 64))" j] bmbit_update(2) [OF assms, of j] div_mod_eq [of j i]
    by auto
  then show ?thesis using assms by (simp add: clear_bit_def)
qed

lemma and_exp: "n < 64 \<Longrightarrow> 2 ^ n AND (w :: u64) \<noteq> 0 \<longleftrightarrow> bit w n"
proof -
  assume n: "n < 64"
  have b: "bit (2 ^ n AND w) j \<longleftrightarrow> j = n \<and> bit w n" for j using bit_exp [OF n, of j] by (auto simp: bit_and_iff)
  show ?thesis
  proof
    assume "2 ^ n AND w \<noteq> 0"
    then show "bit w n" using b by (metis bit_eqI bit_0_eq bot_apply bot_bool_def)
  next
    assume "bit w n"
    then show "2 ^ n AND w \<noteq> 0" using b [of n] by auto
  qed
qed

lemma test_bit_ok: "i div 64 < length addr \<Longrightarrow> test_bit i addr = Inr (bmbit addr i)"
  by (simp add: test_bit_def and_exp bmbit_def)

lemma test_and_set_bit_ok:
  assumes "i div 64 < length addr"
  shows "\<exists>addr'. test_and_set_bit i addr = Inr (bmbit addr i, addr') \<and> set_bit_at i addr = Inr addr'"
  using assms and_exp [of "i mod 64" "addr ! (i div 64)"]
  by (simp add: test_and_set_bit_def set_bit_at_def bmbit_def Let_def and.commute)

lemma or_loop_ok:
  assumes "nr \<le> length a" "nr \<le> length b"
  shows "k \<le> nr \<Longrightarrow> nr \<le> length dst \<Longrightarrow>
    \<exists>dst'. or_loop dst a b nr k = Inr dst' \<and> length dst' = length dst \<and>
      (\<forall>q < length dst. dst' ! q = (if k \<le> q \<and> q < nr then a ! q OR b ! q else dst ! q))"
proof (induction "nr - k" arbitrary: k dst)
  case 0
  then show ?case by (subst or_loop.simps) auto
next
  case (Suc d)
  let ?dst = "dst[k := a ! k OR b ! k]"
  obtain dst' where "or_loop ?dst a b nr (Suc k) = Inr dst'" "length dst' = length dst"
     "\<forall>q < length dst. dst' ! q = (if Suc k \<le> q \<and> q < nr then a ! q OR b ! q else ?dst ! q)"
  proof -
    have "d = nr - Suc k" "Suc k \<le> nr" "nr \<le> length ?dst" using Suc.hyps(2) Suc.prems by auto
    from Suc.hyps(1) [OF this] show ?thesis using that by auto
  qed
  then show ?case using Suc.hyps(2) Suc.prems assms
    by (intro exI [of _ dst']) (auto simp: or_loop.simps [of dst] nth_list_update not_less_eq_eq)
qed

lemma bitmap_or_ok:
  assumes "BITS_TO_LONGS bits \<le> length a" "BITS_TO_LONGS bits \<le> length b" "BITS_TO_LONGS bits \<le> length dst"
  shows "\<exists>dst'. bitmap_or dst a b bits = Inr dst' \<and> length dst' = length dst \<and> (\<forall>i < bits. bmbit dst' i \<longleftrightarrow> bmbit a i \<or> bmbit b i)"
proof -
  obtain dst' where d: "bitmap_or dst a b bits = Inr dst'" "length dst' = length dst"
    "\<forall>q < length dst. dst' ! q = (if q < BITS_TO_LONGS bits then a ! q OR b ! q else dst ! q)"
    using or_loop_ok [OF assms(1,2), of 0 dst] assms(3) by (auto simp: bitmap_or_def)
  moreover have "bmbit dst' i \<longleftrightarrow> bmbit a i \<or> bmbit b i" if "i < bits" for i
  proof -
    have "i div 64 < BITS_TO_LONGS bits" using that by (simp add: BITS_TO_LONGS_def)
    then show ?thesis using d assms by (simp add: bmbit_def bit_or_iff)
  qed
  ultimately show ?thesis by blast
qed

lemma bitmap_alloc_empty: "\<not> bmbit (bitmap_alloc nbits) i"
  by (simp add: bitmap_alloc_def bmbit_def)

subsection \<open>What the bit operations guarantee\<close>

text \<open>
  Claim C26.  The bit-parallel counts of \<open>hweight.c\<close> agree with counting the set bits one by one, for
  every word of their width, in every branch of its preprocessor conditions: with and without a fast multiplier, and
  on 32-bit and 64-bit builds.
\<close>

theorem hweight_counts_bits:
  fixes w :: u64 and v :: u32
  shows "unat (sw_hweight64 w) = card {i. bit w i} \<and> unat (sw_hweight32 v) = card {i. bit v i} \<and>
    unat (sw_hweight64_mult w) = card {i. bit w i} \<and> unat (sw_hweight32_mult v) = card {i. bit v i} \<and>
    unat (sw_hweight64_split w) = card {i. bit w i} \<and>
    (v < 2 ^ 16 \<longrightarrow> unat (sw_hweight16 v) = card {i. bit v i}) \<and> (v < 2 ^ 8 \<longrightarrow> unat (sw_hweight8 v) = card {i. bit v i})"
proof (intro conjI impI)
  have b: "popcount (unat v) = card {i. bit v i}" by (simp add: popcount_def bit_simps)
  show "unat (sw_hweight64 w) = card {i. bit w i}" using hweight64_popcount [of w] by (simp add: popcount_def bit_simps)
  show "unat (sw_hweight32 v) = card {i. bit v i}" using hweight32_popcount [of v] b by simp
  show "unat (sw_hweight64_mult w) = card {i. bit w i}" using hweight64_mult_popcount [of w] by (simp add: popcount_def bit_simps)
  show "unat (sw_hweight32_mult v) = card {i. bit v i}" using hweight32_mult_popcount [of v] b by simp
  show "unat (sw_hweight64_split w) = card {i. bit w i}" by (rule hweight64_split_eq)
  show "unat (sw_hweight16 v) = card {i. bit v i}" if "v < 2 ^ 16"
    using hweight16_popcount [of v] b that by (simp add: word_less_nat_alt)
  show "unat (sw_hweight8 v) = card {i. bit v i}" if "v < 2 ^ 8"
    using hweight8_popcount [of v] b that by (simp add: word_less_nat_alt)
qed

theorem hweight_counts_bits_witness:
  "unat (sw_hweight64 0xF0) = card {i. bit (0xF0 :: u64) i} \<and> unat (sw_hweight8 0xF) = card {i. bit (0xF :: u32) i}"
  using hweight_counts_bits [of "0xF0" "0xF"] by simp

text \<open>
  A \<open>for_each_set_bit\<close> loop over a bitmap visits exactly the set bits below the size, in
  ascending order, without leaving the array, and \<open>bitmap_weight\<close> is how many there are.
\<close>

theorem for_each_set_bit_visits:
  assumes "BITS_TO_LONGS nbits \<le> length addr"
  shows "for_each_set_bit addr nbits = Inr (filter (bmbit addr) [0..<nbits]) \<and>
    bitmap_weight addr nbits = Inr (length (filter (bmbit addr) [0..<nbits]))"
proof -
  have "card {i. i < nbits \<and> bmbit addr i} = length (filter (bmbit addr) [0..<nbits])"
    by (subst distinct_card [symmetric]) (auto intro: arg_cong [where f = card])
  then show ?thesis using for_each_set_bit_filter [OF assms] bitmap_weight_card [OF assms] by simp
qed

theorem for_each_set_bit_visits_witness: "for_each_set_bit [9] 5 = Inr [0, 3]"
proof -
  have "bmbit [9] 0 \<and> \<not> bmbit [9] 1 \<and> \<not> bmbit [9] 2 \<and> bmbit [9] 3 \<and> \<not> bmbit [9] 4" by (simp add: bmbit_def)
  then have "filter (bmbit [9]) [0..<5] = [0, 3]" by (simp add: upt_rec numeral_eq_Suc)
  then show ?thesis using for_each_set_bit_visits [of 5 "[9]"] by (simp add: BITS_TO_LONGS_def)
qed

end
