(* ===== verification/Evsel_Sample.thy ===== *)
theory Evsel_Sample
  imports Bitops
begin

text \<open>
  The sample format of the kernel: reading a sample out of an event
  (\<open>perf_evsel__parse_sample\<close>), writing one into an event (\<open>perf_event__synthesize_sample\<close>), the size it
  takes, and the positions of the event id, from \<^verbatim>\<open>src/tools/perf/util/evsel.c\<close> and
  \<^verbatim>\<open>evlist.c\<close>.  An event is the list of its bytes, header included, on a little-endian
  host; a pointer into read-only memory is the list of the bytes from there on, and \<open>None\<close> the
  null pointer.
\<close>

subsection \<open>Constants\<close>

text \<open>The bit numbers of \<open>enum perf_event_sample_format\<close> and \<open>enum perf_event_read_format\<close>.\<close>

definition PERF_SAMPLE_IP :: nat where "PERF_SAMPLE_IP = 0"
definition PERF_SAMPLE_TID :: nat where "PERF_SAMPLE_TID = 1"
definition PERF_SAMPLE_TIME :: nat where "PERF_SAMPLE_TIME = 2"
definition PERF_SAMPLE_ADDR :: nat where "PERF_SAMPLE_ADDR = 3"
definition PERF_SAMPLE_READ :: nat where "PERF_SAMPLE_READ = 4"
definition PERF_SAMPLE_CALLCHAIN :: nat where "PERF_SAMPLE_CALLCHAIN = 5"
definition PERF_SAMPLE_ID :: nat where "PERF_SAMPLE_ID = 6"
definition PERF_SAMPLE_CPU :: nat where "PERF_SAMPLE_CPU = 7"
definition PERF_SAMPLE_PERIOD :: nat where "PERF_SAMPLE_PERIOD = 8"
definition PERF_SAMPLE_STREAM_ID :: nat where "PERF_SAMPLE_STREAM_ID = 9"
definition PERF_SAMPLE_RAW :: nat where "PERF_SAMPLE_RAW = 10"
definition PERF_SAMPLE_BRANCH_STACK :: nat where "PERF_SAMPLE_BRANCH_STACK = 11"
definition PERF_SAMPLE_REGS_USER :: nat where "PERF_SAMPLE_REGS_USER = 12"
definition PERF_SAMPLE_STACK_USER :: nat where "PERF_SAMPLE_STACK_USER = 13"
definition PERF_SAMPLE_WEIGHT :: nat where "PERF_SAMPLE_WEIGHT = 14"
definition PERF_SAMPLE_DATA_SRC :: nat where "PERF_SAMPLE_DATA_SRC = 15"
definition PERF_SAMPLE_IDENTIFIER :: nat where "PERF_SAMPLE_IDENTIFIER = 16"
definition PERF_SAMPLE_TRANSACTION :: nat where "PERF_SAMPLE_TRANSACTION = 17"
definition PERF_SAMPLE_REGS_INTR :: nat where "PERF_SAMPLE_REGS_INTR = 18"

definition PERF_FORMAT_TOTAL_TIME_ENABLED :: nat where "PERF_FORMAT_TOTAL_TIME_ENABLED = 0"
definition PERF_FORMAT_TOTAL_TIME_RUNNING :: nat where "PERF_FORMAT_TOTAL_TIME_RUNNING = 1"
definition PERF_FORMAT_GROUP :: nat where "PERF_FORMAT_GROUP = 3"

definition PERF_RECORD_SAMPLE :: u32 where "PERF_RECORD_SAMPLE = 9"
definition PERF_MEM_DATA_SRC_NONE :: u64 where
  "PERF_MEM_DATA_SRC_NONE = push_bit 0 1 OR push_bit 5 1 OR push_bit 19 1 OR push_bit 24 1 OR push_bit 26 1"

text \<open>The members of \<open>PERF_SAMPLE_MASK\<close>.\<close>

definition sample_mask_bits :: "nat list" where
  "sample_mask_bits = [PERF_SAMPLE_IP, PERF_SAMPLE_TID, PERF_SAMPLE_TIME, PERF_SAMPLE_ADDR, PERF_SAMPLE_ID,
     PERF_SAMPLE_STREAM_ID, PERF_SAMPLE_CPU, PERF_SAMPLE_PERIOD, PERF_SAMPLE_IDENTIFIER]"

definition PERF_SAMPLE_MASK :: u64 where
  "PERF_SAMPLE_MASK = foldr (\<lambda>b m. push_bit b 1 OR m) sample_mask_bits 0"

subsection \<open>Data\<close>

record regs_dump =
  regs_abi :: u64
  regs_mask :: u64
  regs_regs :: "u8 list option"

record stack_dump =
  stack_offset :: u16
  stack_size :: u64
  stack_data :: "u8 list option"

text \<open>
  The union of \<open>struct sample_read\<close> is used as \<open>group\<close> or as \<open>one\<close> according to the read format, so
  the members of both are fields here.
\<close>

record sample_read =
  read_time_enabled :: u64
  read_time_running :: u64
  read_group_nr :: u64
  read_group_values :: "u8 list option"
  read_one_value :: u64
  read_one_id :: u64

record perf_sample =
  s_ip :: u64
  s_pid :: u32
  s_tid :: u32
  s_time :: u64
  s_addr :: u64
  s_id :: u64
  s_stream_id :: u64
  s_period :: u64
  s_weight :: u64
  s_transaction :: u64
  s_cpu :: u32
  s_raw_size :: u32
  s_data_src :: u64
  s_flags :: u32
  s_insn_len :: u16
  s_cpumode :: u8
  s_raw_data :: "u8 list option"
  s_callchain :: "u8 list option"
  s_branch_stack :: "u8 list option"
  s_user_regs :: regs_dump
  s_intr_regs :: regs_dump
  s_user_stack :: stack_dump
  s_read :: sample_read

definition no_regs :: regs_dump where
  "no_regs = \<lparr>regs_abi = 0, regs_mask = 0, regs_regs = None\<rparr>"

definition no_stack :: stack_dump where
  "no_stack = \<lparr>stack_offset = 0, stack_size = 0, stack_data = None\<rparr>"

definition no_read :: sample_read where
  "no_read = \<lparr>read_time_enabled = 0, read_time_running = 0, read_group_nr = 0, read_group_values = None, read_one_value = 0, read_one_id = 0\<rparr>"

definition zero_sample :: perf_sample where
  "zero_sample = \<lparr>s_ip = 0, s_pid = 0, s_tid = 0, s_time = 0, s_addr = 0, s_id = 0, s_stream_id = 0, s_period = 0, s_weight = 0,
     s_transaction = 0, s_cpu = 0, s_raw_size = 0, s_data_src = 0, s_flags = 0, s_insn_len = 0, s_cpumode = 0, s_raw_data = None,
     s_callchain = None, s_branch_stack = None, s_user_regs = no_regs, s_intr_regs = no_regs, s_user_stack = no_stack, s_read = no_read\<rparr>"

record perf_evsel =
  attr_sample_type :: u64
  attr_sample_id_all :: bool
  attr_sample_period :: u64
  attr_read_format :: u64
  attr_sample_regs_user :: u64
  attr_sample_regs_intr :: u64
  evsel_sample_size :: u32
  evsel_needs_swap :: bool
  evsel_id_pos :: int
  evsel_is_pos :: int

subsection \<open>Sizes and positions\<close>

primrec mask_size_loop :: "nat \<Rightarrow> u64 \<Rightarrow> int \<Rightarrow> int" where
  "mask_size_loop 0 m sz = sz"
| "mask_size_loop (Suc n) m sz = mask_size_loop n m (if bit m (63 - n) then sz + 1 else sz)"

definition evsel_sample_size_of :: "u64 \<Rightarrow> int" where
  "evsel_sample_size_of sample_type = mask_size_loop 64 (sample_type AND PERF_SAMPLE_MASK) 0 * 8"

definition calc_id_pos :: "u64 \<Rightarrow> int" where
  "calc_id_pos sample_type =
     (if bit sample_type PERF_SAMPLE_IDENTIFIER then 0
      else if \<not> bit sample_type PERF_SAMPLE_ID then - 1
      else let idx = 0;
             idx = if bit sample_type PERF_SAMPLE_IP then idx + 1 else idx;
             idx = if bit sample_type PERF_SAMPLE_TID then idx + 1 else idx;
             idx = if bit sample_type PERF_SAMPLE_TIME then idx + 1 else idx;
             idx = if bit sample_type PERF_SAMPLE_ADDR then idx + 1 else idx
           in idx)"

definition calc_is_pos :: "u64 \<Rightarrow> int" where
  "calc_is_pos sample_type =
     (if bit sample_type PERF_SAMPLE_IDENTIFIER then 1
      else if \<not> bit sample_type PERF_SAMPLE_ID then - 1
      else let idx = 1;
             idx = if bit sample_type PERF_SAMPLE_CPU then idx + 1 else idx;
             idx = if bit sample_type PERF_SAMPLE_STREAM_ID then idx + 1 else idx
           in idx)"

definition perf_evsel__calc_id_pos :: "perf_evsel \<Rightarrow> perf_evsel" where
  "perf_evsel__calc_id_pos evsel =
     evsel\<lparr>evsel_id_pos := calc_id_pos (attr_sample_type evsel), evsel_is_pos := calc_is_pos (attr_sample_type evsel)\<rparr>"

definition perf_evsel__set_sample_bit :: "perf_evsel \<Rightarrow> nat \<Rightarrow> perf_evsel" where
  "perf_evsel__set_sample_bit evsel b =
     (if \<not> bit (attr_sample_type evsel) b then
        perf_evsel__calc_id_pos (evsel\<lparr>attr_sample_type := attr_sample_type evsel OR push_bit b 1,
          evsel_sample_size := evsel_sample_size evsel + 8\<rparr>)
      else evsel)"

definition perf_evsel__reset_sample_bit :: "perf_evsel \<Rightarrow> nat \<Rightarrow> perf_evsel" where
  "perf_evsel__reset_sample_bit evsel b =
     (if bit (attr_sample_type evsel) b then
        perf_evsel__calc_id_pos (evsel\<lparr>attr_sample_type := attr_sample_type evsel AND ucast (NOT (push_bit b 1) :: u32),
          evsel_sample_size := evsel_sample_size evsel - 8\<rparr>)
      else evsel)"

text \<open>The header of an event, and a word of an event.\<close>

definition header_type :: "u8 list \<Rightarrow> u32 c_result" where
  "header_type ev = get_le ev 0 4"

definition header_misc :: "u8 list \<Rightarrow> u16 c_result" where
  "header_misc ev = get_le ev 4 2"

definition header_size :: "u8 list \<Rightarrow> u16 c_result" where
  "header_size ev = get_le ev 6 2"

definition ld :: "u8 list \<Rightarrow> nat \<Rightarrow> u64 c_result" where
  "ld ev pos = get_le ev pos 8"

definition ldi :: "u8 list \<Rightarrow> int \<Rightarrow> u64 c_result" where
  "ldi ev pos = (if pos < 0 then Inl Out_Of_Bounds else ld ev (nat pos))"

subsection \<open>Byte order\<close>

definition bswap_32 :: "u32 \<Rightarrow> u32" where
  "bswap_32 w = le_word (rev (le_bytes 4 w))"

definition bswap_64 :: "u64 \<Rightarrow> u64" where
  "bswap_64 w = le_word (rev (le_bytes 8 w))"

text \<open>The halves of \<open>union u64_swap\<close>.\<close>

definition val32_0 :: "u64 \<Rightarrow> u32" where
  "val32_0 u = ucast u"

definition val32_1 :: "u64 \<Rightarrow> u32" where
  "val32_1 u = ucast (drop_bit 32 u)"

definition set_val32_0 :: "u64 \<Rightarrow> u32 \<Rightarrow> u64" where
  "set_val32_0 u v = (u AND NOT (mask 32)) OR ucast v"

definition set_val32_1 :: "u64 \<Rightarrow> u32 \<Rightarrow> u64" where
  "set_val32_1 u v = (u AND mask 32) OR push_bit 32 (ucast v)"

text \<open>The correction of a word of two 32-bit values, or one, in a swapped event.\<close>

definition unswap_both :: "bool \<Rightarrow> u64 \<Rightarrow> u64" where
  "unswap_both swapped u =
     (if swapped then
        let u = bswap_64 u; u = set_val32_0 u (bswap_32 (val32_0 u)) in set_val32_1 u (bswap_32 (val32_1 u))
      else u)"

definition unswap_first :: "bool \<Rightarrow> u64 \<Rightarrow> u64" where
  "unswap_first swapped u =
     (if swapped then let u = bswap_64 u in set_val32_0 u (bswap_32 (val32_0 u)) else u)"

subsection \<open>Reading a sample\<close>

text \<open>
  Each part of \<open>perf_evsel__parse_sample\<close> takes the position of \<open>array\<close> in the event and the sample
  so far; \<open>None\<close> is the early return of \<open>-EFAULT\<close>.  The callers do not look at the sample after an
  error, so it is left as it was set up.
\<close>

type_synonym parse_state = "nat \<times> perf_sample"
type_synonym parse_result = "parse_state option c_result"

definition and_then :: "'a option c_result \<Rightarrow> ('a \<Rightarrow> 'b option c_result) \<Rightarrow> 'b option c_result" where
  "and_then r f = bnd r (\<lambda>x. case x of None \<Rightarrow> Inr None | Some s \<Rightarrow> f s)"

definition overflow :: "u16 \<Rightarrow> u64 \<Rightarrow> nat \<Rightarrow> u64 \<Rightarrow> bool" where
  "overflow endp max_size offset sz \<longleftrightarrow> max_size < sz \<or> unat endp < offset + unat sz"

definition OVERFLOW_CHECK :: "u16 \<Rightarrow> nat \<Rightarrow> u64 \<Rightarrow> 'b option c_result \<Rightarrow> 'b option c_result" where
  "OVERFLOW_CHECK endp offset sz k = (if overflow endp (ucast endp) offset sz then Inr None else k)"

definition OVERFLOW_CHECK_u64 :: "u16 \<Rightarrow> nat \<Rightarrow> 'b option c_result \<Rightarrow> 'b option c_result" where
  "OVERFLOW_CHECK_u64 endp offset k = (if overflow endp 8 offset 8 then Inr None else k)"

text \<open>A word that is read without a check, and one that is read after \<open>OVERFLOW_CHECK_u64\<close>, when its bit is set.\<close>

definition plain_word :: "u8 list \<Rightarrow> bool \<Rightarrow> (u64 \<Rightarrow> perf_sample \<Rightarrow> perf_sample) \<Rightarrow> parse_state \<Rightarrow> parse_result" where
  "plain_word ev c f = (\<lambda>(pos, d). if c then bnd (ld ev pos) (\<lambda>v. Inr (Some (pos + 8, f v d))) else Inr (Some (pos, d)))"

definition checked_word :: "u8 list \<Rightarrow> u16 \<Rightarrow> bool \<Rightarrow> (u64 \<Rightarrow> perf_sample \<Rightarrow> perf_sample) \<Rightarrow> parse_state \<Rightarrow> parse_result" where
  "checked_word ev endp c f = (\<lambda>(pos, d).
     if c then OVERFLOW_CHECK_u64 endp pos (bnd (ld ev pos) (\<lambda>v. Inr (Some (pos + 8, f v d)))) else Inr (Some (pos, d)))"

definition parse_fixed :: "u8 list \<Rightarrow> u64 \<Rightarrow> bool \<Rightarrow> parse_state \<Rightarrow> parse_result" where
  "parse_fixed ev type swapped st =
     and_then (plain_word ev (bit type PERF_SAMPLE_IDENTIFIER) (\<lambda>v d. d\<lparr>s_id := v\<rparr>) st) (\<lambda>st.
     and_then (plain_word ev (bit type PERF_SAMPLE_IP) (\<lambda>v d. d\<lparr>s_ip := v\<rparr>) st) (\<lambda>st.
     and_then (plain_word ev (bit type PERF_SAMPLE_TID)
        (\<lambda>v d. let u = unswap_both swapped v in d\<lparr>s_pid := val32_0 u, s_tid := val32_1 u\<rparr>) st) (\<lambda>st.
     and_then (plain_word ev (bit type PERF_SAMPLE_TIME) (\<lambda>v d. d\<lparr>s_time := v\<rparr>) st) (\<lambda>st.
     and_then (plain_word ev (bit type PERF_SAMPLE_ADDR) (\<lambda>v d. d\<lparr>s_addr := v\<rparr>) (fst st, (snd st)\<lparr>s_addr := 0\<rparr>)) (\<lambda>st.
     and_then (plain_word ev (bit type PERF_SAMPLE_ID) (\<lambda>v d. d\<lparr>s_id := v\<rparr>) st) (\<lambda>st.
     and_then (plain_word ev (bit type PERF_SAMPLE_STREAM_ID) (\<lambda>v d. d\<lparr>s_stream_id := v\<rparr>) st) (\<lambda>st.
     and_then (plain_word ev (bit type PERF_SAMPLE_CPU) (\<lambda>v d. d\<lparr>s_cpu := val32_0 (unswap_first swapped v)\<rparr>) st) (\<lambda>st.
     plain_word ev (bit type PERF_SAMPLE_PERIOD) (\<lambda>v d. d\<lparr>s_period := v\<rparr>) st))))))))"

definition set_read :: "(sample_read \<Rightarrow> sample_read) \<Rightarrow> perf_sample \<Rightarrow> perf_sample" where
  "set_read f d = d\<lparr>s_read := f (s_read d)\<rparr>"

definition parse_read :: "u8 list \<Rightarrow> u16 \<Rightarrow> u64 \<Rightarrow> u64 \<Rightarrow> parse_state \<Rightarrow> parse_result" where
  "parse_read ev endp type read_format st =
     (if bit type PERF_SAMPLE_READ then
        and_then (checked_word ev endp True (\<lambda>v.
          if bit read_format PERF_FORMAT_GROUP then set_read (\<lambda>r. r\<lparr>read_group_nr := v\<rparr>) else set_read (\<lambda>r. r\<lparr>read_one_value := v\<rparr>)) st) (\<lambda>st.
        and_then (checked_word ev endp (bit read_format PERF_FORMAT_TOTAL_TIME_ENABLED) (\<lambda>v. set_read (\<lambda>r. r\<lparr>read_time_enabled := v\<rparr>)) st) (\<lambda>st.
        and_then (checked_word ev endp (bit read_format PERF_FORMAT_TOTAL_TIME_RUNNING) (\<lambda>v. set_read (\<lambda>r. r\<lparr>read_time_running := v\<rparr>)) st) (\<lambda>(pos, d).
        if bit read_format PERF_FORMAT_GROUP then
          let max_group_nr = - 1 div 16; nr = read_group_nr (s_read d); sz = nr * 16 in
          if max_group_nr < nr then Inr None
          else OVERFLOW_CHECK endp pos sz (Inr (Some (pos + unat sz, set_read (\<lambda>r. r\<lparr>read_group_values := Some (drop pos ev)\<rparr>) d)))
        else checked_word ev endp True (\<lambda>v. set_read (\<lambda>r. r\<lparr>read_one_id := v\<rparr>)) (pos, d))))
      else Inr (Some st))"

text \<open>A counted array: a word with the number of elements, then the elements.\<close>

definition parse_counted :: "u8 list \<Rightarrow> u16 \<Rightarrow> u64 \<Rightarrow> (u8 list option \<Rightarrow> perf_sample \<Rightarrow> perf_sample) \<Rightarrow> parse_state \<Rightarrow> parse_result" where
  "parse_counted ev endp elem f = (\<lambda>(pos, d).
     OVERFLOW_CHECK_u64 endp pos (let d = f (Some (drop pos ev)) d in
       bnd (ld ev pos) (\<lambda>nr.
         if - 1 div elem < nr then Inr None
         else let sz = nr * elem in OVERFLOW_CHECK endp (pos + 8) sz (Inr (Some (pos + 8 + unat sz, d))))))"

definition parse_callchain :: "u8 list \<Rightarrow> u16 \<Rightarrow> u64 \<Rightarrow> parse_state \<Rightarrow> parse_result" where
  "parse_callchain ev endp type st =
     (if bit type PERF_SAMPLE_CALLCHAIN then parse_counted ev endp 8 (\<lambda>p d. d\<lparr>s_callchain := p\<rparr>) st else Inr (Some st))"

definition parse_raw :: "u8 list \<Rightarrow> u16 \<Rightarrow> u64 \<Rightarrow> bool \<Rightarrow> parse_state \<Rightarrow> parse_result" where
  "parse_raw ev endp type swapped = (\<lambda>(pos, d).
     if bit type PERF_SAMPLE_RAW then
       OVERFLOW_CHECK_u64 endp pos (bnd (ld ev pos) (\<lambda>v.
         let d = d\<lparr>s_raw_size := val32_0 (unswap_both swapped v)\<rparr>; pos = pos + 4 in
         OVERFLOW_CHECK endp pos (ucast (s_raw_size d))
           (Inr (Some (pos + unat (s_raw_size d), d\<lparr>s_raw_data := Some (drop pos ev)\<rparr>)))))
     else Inr (Some (pos, d)))"

definition parse_branch_stack :: "u8 list \<Rightarrow> u16 \<Rightarrow> u64 \<Rightarrow> parse_state \<Rightarrow> parse_result" where
  "parse_branch_stack ev endp type st =
     (if bit type PERF_SAMPLE_BRANCH_STACK then parse_counted ev endp 24 (\<lambda>p d. d\<lparr>s_branch_stack := p\<rparr>) st else Inr (Some st))"

definition set_user_regs :: "(regs_dump \<Rightarrow> regs_dump) \<Rightarrow> perf_sample \<Rightarrow> perf_sample" where
  "set_user_regs f d = d\<lparr>s_user_regs := f (s_user_regs d)\<rparr>"

definition set_intr_regs :: "(regs_dump \<Rightarrow> regs_dump) \<Rightarrow> perf_sample \<Rightarrow> perf_sample" where
  "set_intr_regs f d = d\<lparr>s_intr_regs := f (s_intr_regs d)\<rparr>"

definition parse_regs :: "u8 list \<Rightarrow> u16 \<Rightarrow> bool \<Rightarrow> u64 \<Rightarrow> ((regs_dump \<Rightarrow> regs_dump) \<Rightarrow> perf_sample \<Rightarrow> perf_sample) \<Rightarrow> parse_state \<Rightarrow> parse_result" where
  "parse_regs ev endp c mask' f = (\<lambda>(pos, d).
     if c then
       OVERFLOW_CHECK_u64 endp pos (bnd (ld ev pos) (\<lambda>abi.
         let d = f (\<lambda>r. r\<lparr>regs_abi := abi\<rparr>) d; pos = pos + 8 in
         if abi \<noteq> 0 then
           let sz = hweight_long mask' * 8 in
           OVERFLOW_CHECK endp pos sz (Inr (Some (pos + unat sz, f (\<lambda>r. r\<lparr>regs_mask := mask', regs_regs := Some (drop pos ev)\<rparr>) d)))
         else Inr (Some (pos, d))))
     else Inr (Some (pos, d)))"

definition set_user_stack :: "(stack_dump \<Rightarrow> stack_dump) \<Rightarrow> perf_sample \<Rightarrow> perf_sample" where
  "set_user_stack f d = d\<lparr>s_user_stack := f (s_user_stack d)\<rparr>"

definition parse_user_stack :: "u8 list \<Rightarrow> u16 \<Rightarrow> u64 \<Rightarrow> parse_state \<Rightarrow> parse_result" where
  "parse_user_stack ev endp type = (\<lambda>(pos, d).
     if bit type PERF_SAMPLE_STACK_USER then
       OVERFLOW_CHECK_u64 endp pos (bnd (ld ev pos) (\<lambda>sz.
         let d = set_user_stack (\<lambda>r. r\<lparr>stack_offset := of_nat pos\<rparr>) d; pos = pos + 8 in
         if sz = 0 then Inr (Some (pos, set_user_stack (\<lambda>r. r\<lparr>stack_size := 0\<rparr>) d))
         else OVERFLOW_CHECK endp pos sz
           (let d = set_user_stack (\<lambda>r. r\<lparr>stack_data := Some (drop pos ev)\<rparr>) d; pos = pos + unat sz in
            OVERFLOW_CHECK_u64 endp pos (bnd (ld ev pos) (\<lambda>dyn.
              let d = set_user_stack (\<lambda>r. r\<lparr>stack_size := dyn\<rparr>) d in
              if sz < dyn then Inr None else Inr (Some (pos + 8, d)))))))
     else Inr (Some (pos, d)))"

definition parse_tail :: "u8 list \<Rightarrow> u16 \<Rightarrow> u64 \<Rightarrow> parse_state \<Rightarrow> parse_result" where
  "parse_tail ev endp type = (\<lambda>(pos, d).
     and_then (checked_word ev endp (bit type PERF_SAMPLE_WEIGHT) (\<lambda>v d. d\<lparr>s_weight := v\<rparr>) (pos, d\<lparr>s_weight := 0\<rparr>)) (\<lambda>(pos, d).
     and_then (checked_word ev endp (bit type PERF_SAMPLE_DATA_SRC) (\<lambda>v d. d\<lparr>s_data_src := v\<rparr>) (pos, d\<lparr>s_data_src := PERF_MEM_DATA_SRC_NONE\<rparr>)) (\<lambda>(pos, d).
     checked_word ev endp (bit type PERF_SAMPLE_TRANSACTION) (\<lambda>v d. d\<lparr>s_transaction := v\<rparr>) (pos, d\<lparr>s_transaction := 0\<rparr>))))"

text \<open>
  The id sample at the end of the other events is read backwards, without a check of the position.
\<close>

definition back_word :: "u8 list \<Rightarrow> bool \<Rightarrow> (u64 \<Rightarrow> perf_sample \<Rightarrow> perf_sample) \<Rightarrow> int \<times> perf_sample \<Rightarrow> (int \<times> perf_sample) c_result" where
  "back_word ev c f = (\<lambda>(pos, d). if c then bnd (ldi ev pos) (\<lambda>v. Inr (pos - 8, f v d)) else Inr (pos, d))"

definition perf_evsel__parse_id_sample :: "perf_evsel \<Rightarrow> u8 list \<Rightarrow> perf_sample \<Rightarrow> (int \<times> perf_sample) c_result" where
  "perf_evsel__parse_id_sample evsel ev sample =
     (let type = attr_sample_type evsel; swapped = evsel_needs_swap evsel in
      bnd (header_size ev) (\<lambda>sz. let pos = 8 + 8 * (sint (drop_bit 3 (ucast sz - 8 :: u64)) - 1) in
      bnd (back_word ev (bit type PERF_SAMPLE_IDENTIFIER) (\<lambda>v d. d\<lparr>s_id := v\<rparr>) (pos, sample)) (\<lambda>st.
      bnd (back_word ev (bit type PERF_SAMPLE_CPU) (\<lambda>v d. d\<lparr>s_cpu := val32_0 (unswap_first swapped v)\<rparr>) st) (\<lambda>st.
      bnd (back_word ev (bit type PERF_SAMPLE_STREAM_ID) (\<lambda>v d. d\<lparr>s_stream_id := v\<rparr>) st) (\<lambda>st.
      bnd (back_word ev (bit type PERF_SAMPLE_ID) (\<lambda>v d. d\<lparr>s_id := v\<rparr>) st) (\<lambda>st.
      bnd (back_word ev (bit type PERF_SAMPLE_TIME) (\<lambda>v d. d\<lparr>s_time := v\<rparr>) st) (\<lambda>st.
      bnd (back_word ev (bit type PERF_SAMPLE_TID)
        (\<lambda>v d. let u = unswap_both swapped v in d\<lparr>s_pid := val32_0 u, s_tid := val32_1 u\<rparr>) st) (\<lambda>(pos, d).
      Inr (0, d)))))))))"

definition parse_variable :: "perf_evsel \<Rightarrow> u8 list \<Rightarrow> u16 \<Rightarrow> parse_state \<Rightarrow> parse_result" where
  "parse_variable evsel ev endp st =
     (let type = attr_sample_type evsel; swapped = evsel_needs_swap evsel in
      and_then (parse_read ev endp type (attr_read_format evsel) st) (\<lambda>st.
      and_then (parse_callchain ev endp type st) (\<lambda>st.
      and_then (parse_raw ev endp type swapped st) (\<lambda>st.
      and_then (parse_branch_stack ev endp type st) (\<lambda>st.
      and_then (parse_regs ev endp (bit type PERF_SAMPLE_REGS_USER) (attr_sample_regs_user evsel) set_user_regs st) (\<lambda>st.
      and_then (parse_user_stack ev endp type st) (\<lambda>st.
      and_then (parse_tail ev endp type st) (\<lambda>(pos, d).
      parse_regs ev endp (bit type PERF_SAMPLE_REGS_INTR) (attr_sample_regs_intr evsel) set_intr_regs
        (pos, set_intr_regs (\<lambda>r. r\<lparr>regs_abi := 0\<rparr>) d)))))))))"

definition EFAULT :: int where "EFAULT = 14"

definition initial_sample :: "perf_evsel \<Rightarrow> u16 \<Rightarrow> perf_sample" where
  "initial_sample evsel misc = zero_sample\<lparr>s_cpu := - 1, s_pid := - 1, s_tid := - 1, s_stream_id := - 1, s_id := - 1, s_time := - 1,
     s_period := attr_sample_period evsel, s_weight := 0, s_cpumode := ucast (misc AND 7)\<rparr>"

definition perf_evsel__parse_sample :: "perf_evsel \<Rightarrow> u8 list \<Rightarrow> (int \<times> perf_sample) c_result" where
  "perf_evsel__parse_sample evsel ev =
     bnd (header_size ev) (\<lambda>max_size. bnd (header_misc ev) (\<lambda>misc. bnd (header_type ev) (\<lambda>etype.
       let data = initial_sample evsel misc in
       if etype \<noteq> PERF_RECORD_SAMPLE then
         if \<not> attr_sample_id_all evsel then Inr (0, data) else perf_evsel__parse_id_sample evsel ev data
       else if uint max_size < uint (evsel_sample_size evsel) + 8 then Inr (- EFAULT, data)
       else bnd (and_then (parse_fixed ev (attr_sample_type evsel) (evsel_needs_swap evsel) (8, data\<lparr>s_id := - 1\<rparr>))
           (parse_variable evsel ev max_size)) (\<lambda>r.
         case r of None \<Rightarrow> Inr (- EFAULT, data) | Some (pos, data) \<Rightarrow> Inr (0, data)))))"

subsection \<open>The size of a sample\<close>

definition word_if :: "bool \<Rightarrow> u64 \<Rightarrow> u64" where
  "word_if c result = (if c then result + 8 else result)"

definition deref :: "u8 list option \<Rightarrow> u8 list c_result" where
  "deref p = (case p of None \<Rightarrow> Inl Null_Deref | Some m \<Rightarrow> Inr m)"

definition size_fixed :: "u64 \<Rightarrow> u64 \<Rightarrow> u64" where
  "size_fixed type result =
     (let result = word_if (bit type PERF_SAMPLE_IDENTIFIER) result;
          result = word_if (bit type PERF_SAMPLE_IP) result;
          result = word_if (bit type PERF_SAMPLE_TID) result;
          result = word_if (bit type PERF_SAMPLE_TIME) result;
          result = word_if (bit type PERF_SAMPLE_ADDR) result;
          result = word_if (bit type PERF_SAMPLE_ID) result;
          result = word_if (bit type PERF_SAMPLE_STREAM_ID) result;
          result = word_if (bit type PERF_SAMPLE_CPU) result
      in word_if (bit type PERF_SAMPLE_PERIOD) result)"

definition size_read :: "perf_sample \<Rightarrow> u64 \<Rightarrow> u64 \<Rightarrow> u64 \<Rightarrow> u64" where
  "size_read sample type read_format result =
     (if bit type PERF_SAMPLE_READ then
        let result = result + 8;
            result = word_if (bit read_format PERF_FORMAT_TOTAL_TIME_ENABLED) result;
            result = word_if (bit read_format PERF_FORMAT_TOTAL_TIME_RUNNING) result
        in if bit read_format PERF_FORMAT_GROUP then result + read_group_nr (s_read sample) * 16 else result + 8
      else result)"

definition size_regs :: "bool \<Rightarrow> regs_dump \<Rightarrow> u64 \<Rightarrow> u64" where
  "size_regs c regs result =
     (if c then if regs_abi regs \<noteq> 0 then result + 8 + hweight_long (regs_mask regs) * 8 else result + 8 else result)"

definition size_counted :: "bool \<Rightarrow> u8 list option \<Rightarrow> u64 \<Rightarrow> u64 \<Rightarrow> u64 c_result" where
  "size_counted c p elem result =
     (if c then bnd (deref p) (\<lambda>m. bnd (ld m 0) (\<lambda>nr. Inr (result + (nr * elem + 8)))) else Inr result)"

definition size_stack :: "perf_sample \<Rightarrow> u64 \<Rightarrow> u64 \<Rightarrow> u64" where
  "size_stack sample type result =
     (if bit type PERF_SAMPLE_STACK_USER then
        let sz = stack_size (s_user_stack sample) in if sz \<noteq> 0 then result + 8 + sz + 8 else result + 8
      else result)"

definition perf_event__sample_event_size :: "perf_sample \<Rightarrow> u64 \<Rightarrow> u64 \<Rightarrow> u64 c_result" where
  "perf_event__sample_event_size sample type read_format =
     (let result = size_read sample type read_format (size_fixed type 8) in
      bnd (size_counted (bit type PERF_SAMPLE_CALLCHAIN) (s_callchain sample) 8 result) (\<lambda>result.
      let result = if bit type PERF_SAMPLE_RAW then result + 4 + ucast (s_raw_size sample) else result in
      bnd (size_counted (bit type PERF_SAMPLE_BRANCH_STACK) (s_branch_stack sample) 24 result) (\<lambda>result.
      let result = size_regs (bit type PERF_SAMPLE_REGS_USER) (s_user_regs sample) result;
          result = size_stack sample type result;
          result = word_if (bit type PERF_SAMPLE_WEIGHT) result;
          result = word_if (bit type PERF_SAMPLE_DATA_SRC) result;
          result = word_if (bit type PERF_SAMPLE_TRANSACTION) result
      in Inr (size_regs (bit type PERF_SAMPLE_REGS_INTR) (s_intr_regs sample) result))))"

subsection \<open>Writing a sample\<close>

text \<open>
  The state is the memory of the event, the position of \<open>array\<close> and the union \<open>u\<close>, which starts
  uninitialised: half of it is written to the event when only \<open>val32[0]\<close> was set.
\<close>

record synth_state =
  sy_ev :: "u8 list"
  sy_pos :: nat
  sy_u :: u64

type_synonym synth_result = "synth_state c_result"

definition store :: "u8 list \<Rightarrow> nat \<Rightarrow> u8 list \<Rightarrow> u8 list c_result" where
  "store ev pos bs = memcpy ev pos bs 0 (length bs)"

text \<open>\<open>*array = v; array++\<close> and \<open>memcpy(array, p, sz); array = (void *)array + sz\<close>; copying
  nothing does not touch the pointer.\<close>

definition put_word :: "u64 \<Rightarrow> synth_state \<Rightarrow> synth_result" where
  "put_word v st = bnd (store (sy_ev st) (sy_pos st) (le_bytes 8 v)) (\<lambda>ev. Inr (st\<lparr>sy_ev := ev, sy_pos := sy_pos st + 8\<rparr>))"

definition put_if :: "bool \<Rightarrow> u64 \<Rightarrow> synth_state \<Rightarrow> synth_result" where
  "put_if c v st = (if c then put_word v st else Inr st)"

definition put_bytes :: "u8 list option \<Rightarrow> u64 \<Rightarrow> synth_state \<Rightarrow> synth_result" where
  "put_bytes p sz st =
     (if sz = 0 then Inr st
      else bnd (deref p) (\<lambda>m. bnd (memcpy (sy_ev st) (sy_pos st) m 0 (unat sz)) (\<lambda>ev.
        Inr (st\<lparr>sy_ev := ev, sy_pos := sy_pos st + unat sz\<rparr>))))"

definition swap_both :: "bool \<Rightarrow> u64 \<Rightarrow> u64" where
  "swap_both swapped u =
     (if swapped then
        let u = set_val32_0 u (bswap_32 (val32_0 u)); u = set_val32_1 u (bswap_32 (val32_1 u)) in bswap_64 u
      else u)"

definition swap_first :: "bool \<Rightarrow> u64 \<Rightarrow> u64" where
  "swap_first swapped u = (if swapped then bswap_64 (set_val32_0 u (bswap_32 (val32_0 u))) else u)"

definition put_u :: "bool \<Rightarrow> u64 \<Rightarrow> synth_state \<Rightarrow> synth_result" where
  "put_u c u st = (if c then put_word u (st\<lparr>sy_u := u\<rparr>) else Inr st)"

definition synth_fixed :: "u64 \<Rightarrow> perf_sample \<Rightarrow> bool \<Rightarrow> synth_state \<Rightarrow> synth_result" where
  "synth_fixed type sample swapped st =
     bnd (put_if (bit type PERF_SAMPLE_IDENTIFIER) (s_id sample) st) (\<lambda>st.
     bnd (put_if (bit type PERF_SAMPLE_IP) (s_ip sample) st) (\<lambda>st.
     bnd (put_u (bit type PERF_SAMPLE_TID)
        (swap_both swapped (set_val32_1 (set_val32_0 (sy_u st) (s_pid sample)) (s_tid sample))) st) (\<lambda>st.
     bnd (put_if (bit type PERF_SAMPLE_TIME) (s_time sample) st) (\<lambda>st.
     bnd (put_if (bit type PERF_SAMPLE_ADDR) (s_addr sample) st) (\<lambda>st.
     bnd (put_if (bit type PERF_SAMPLE_ID) (s_id sample) st) (\<lambda>st.
     bnd (put_if (bit type PERF_SAMPLE_STREAM_ID) (s_stream_id sample) st) (\<lambda>st.
     bnd (put_u (bit type PERF_SAMPLE_CPU) (swap_first swapped (set_val32_0 (sy_u st) (s_cpu sample))) st) (\<lambda>st.
     put_if (bit type PERF_SAMPLE_PERIOD) (s_period sample) st))))))))"

definition synth_read :: "u64 \<Rightarrow> u64 \<Rightarrow> perf_sample \<Rightarrow> synth_state \<Rightarrow> synth_result" where
  "synth_read type read_format sample st =
     (let r = s_read sample in
      if bit type PERF_SAMPLE_READ then
        bnd (put_word (if bit read_format PERF_FORMAT_GROUP then read_group_nr r else read_one_value r) st) (\<lambda>st.
        bnd (put_if (bit read_format PERF_FORMAT_TOTAL_TIME_ENABLED) (read_time_enabled r) st) (\<lambda>st.
        bnd (put_if (bit read_format PERF_FORMAT_TOTAL_TIME_RUNNING) (read_time_running r) st) (\<lambda>st.
        if bit read_format PERF_FORMAT_GROUP then put_bytes (read_group_values r) (read_group_nr r * 16) st
        else put_word (read_one_id r) st)))
      else Inr st)"

definition synth_counted :: "bool \<Rightarrow> u8 list option \<Rightarrow> u64 \<Rightarrow> synth_state \<Rightarrow> synth_result" where
  "synth_counted c p elem st =
     (if c then bnd (deref p) (\<lambda>m. bnd (ld m 0) (\<lambda>nr. put_bytes p (nr * elem + 8) st)) else Inr st)"

definition synth_raw :: "u64 \<Rightarrow> perf_sample \<Rightarrow> bool \<Rightarrow> synth_state \<Rightarrow> synth_result" where
  "synth_raw type sample swapped st =
     (if bit type PERF_SAMPLE_RAW then
        let u = swap_both swapped (set_val32_0 (sy_u st) (s_raw_size sample)) in
        bnd (store (sy_ev st) (sy_pos st) (le_bytes 8 u)) (\<lambda>ev.
          put_bytes (s_raw_data sample) (ucast (s_raw_size sample)) (st\<lparr>sy_ev := ev, sy_pos := sy_pos st + 4, sy_u := u\<rparr>))
      else Inr st)"

definition synth_regs :: "bool \<Rightarrow> regs_dump \<Rightarrow> synth_state \<Rightarrow> synth_result" where
  "synth_regs c regs st =
     (if c then
        if regs_abi regs \<noteq> 0 then
          bnd (put_word (regs_abi regs) st) (put_bytes (regs_regs regs) (hweight_long (regs_mask regs) * 8))
        else put_word 0 st
      else Inr st)"

definition synth_stack :: "u64 \<Rightarrow> perf_sample \<Rightarrow> synth_state \<Rightarrow> synth_result" where
  "synth_stack type sample st =
     (if bit type PERF_SAMPLE_STACK_USER then
        let sz = stack_size (s_user_stack sample) in
        bnd (put_word sz st) (\<lambda>st.
          if sz \<noteq> 0 then bnd (put_bytes (stack_data (s_user_stack sample)) sz st) (put_word sz) else Inr st)
      else Inr st)"

definition perf_event__synthesize_sample :: "u64 \<Rightarrow> u8 list \<Rightarrow> u64 \<Rightarrow> u64 \<Rightarrow> perf_sample \<Rightarrow> bool \<Rightarrow> u8 list c_result" where
  "perf_event__synthesize_sample u event type read_format sample swapped =
     (let st = \<lparr>sy_ev = event, sy_pos = 8, sy_u = u\<rparr> in
      bnd (synth_fixed type sample swapped st) (\<lambda>st.
      bnd (synth_read type read_format sample st) (\<lambda>st.
      bnd (synth_counted (bit type PERF_SAMPLE_CALLCHAIN) (s_callchain sample) 8 st) (\<lambda>st.
      bnd (synth_raw type sample swapped st) (\<lambda>st.
      bnd (synth_counted (bit type PERF_SAMPLE_BRANCH_STACK) (s_branch_stack sample) 24 st) (\<lambda>st.
      bnd (synth_regs (bit type PERF_SAMPLE_REGS_USER) (s_user_regs sample) st) (\<lambda>st.
      bnd (synth_stack type sample st) (\<lambda>st.
      bnd (put_if (bit type PERF_SAMPLE_WEIGHT) (s_weight sample) st) (\<lambda>st.
      bnd (put_if (bit type PERF_SAMPLE_DATA_SRC) (s_data_src sample) st) (\<lambda>st.
      bnd (put_if (bit type PERF_SAMPLE_TRANSACTION) (s_transaction sample) st) (\<lambda>st.
      bnd (synth_regs (bit type PERF_SAMPLE_REGS_INTR) (s_intr_regs sample) st) (\<lambda>st.
      Inr (sy_ev st)))))))))))))"

subsection \<open>The id of an event\<close>

definition perf_evlist__event2id :: "int \<Rightarrow> int \<Rightarrow> u8 list \<Rightarrow> u64 option c_result" where
  "perf_evlist__event2id id_pos is_pos ev =
     bnd (header_size ev) (\<lambda>hsz. bnd (header_type ev) (\<lambda>etype.
       let n = sint (drop_bit 3 (ucast hsz - 8 :: u64)) in
       if etype = PERF_RECORD_SAMPLE then
         if n \<le> id_pos then Inr None else bnd (ldi ev (8 + 8 * id_pos)) (\<lambda>id. Inr (Some id))
       else
         if n < is_pos then Inr None else bnd (ldi ev (8 + 8 * (n - is_pos))) (\<lambda>id. Inr (Some id))))"

subsection \<open>Byte order\<close>

lemma bswap_32_twice [simp]: "bswap_32 (bswap_32 w) = w"
proof -
  have "le_bytes (length (rev (le_bytes 4 w))) (le_word (rev (le_bytes 4 w)) :: u32) = rev (le_bytes 4 w)" by (rule le_bytes_word) simp
  then have "le_bytes 4 (bswap_32 w) = rev (le_bytes 4 w)" by (simp add: bswap_32_def)
  moreover have "take_bit 32 w = w" by (rule bit_word_eqI) (simp add: bit_simps)
  ultimately show ?thesis by (simp add: bswap_32_def [of "bswap_32 w"])
qed

lemma bswap_64_twice [simp]: "bswap_64 (bswap_64 w) = w"
proof -
  have "le_bytes (length (rev (le_bytes 8 w))) (le_word (rev (le_bytes 8 w)) :: u64) = rev (le_bytes 8 w)" by (rule le_bytes_word) simp
  then have "le_bytes 8 (bswap_64 w) = rev (le_bytes 8 w)" by (simp add: bswap_64_def)
  moreover have "take_bit 64 w = w" by (rule bit_word_eqI) (simp add: bit_simps)
  ultimately show ?thesis by (simp add: bswap_64_def [of "bswap_64 w"])
qed

lemma val32_set [simp]:
  "val32_0 (set_val32_0 u v) = v" "val32_1 (set_val32_0 u v) = val32_1 u"
  "val32_1 (set_val32_1 u v) = v" "val32_0 (set_val32_1 u v) = val32_0 u"
proof -
  show "val32_0 (set_val32_0 u v) = v" unfolding val32_0_def set_val32_0_def by (rule bit_word_eqI) (auto simp: bit_simps)
  show "val32_1 (set_val32_0 u v) = val32_1 u" unfolding val32_1_def set_val32_0_def
    by (rule bit_word_eqI) (auto simp: bit_simps dest: bit_imp_le_length)
  show "val32_1 (set_val32_1 u v) = v" unfolding val32_1_def set_val32_1_def by (rule bit_word_eqI) (auto simp: bit_simps)
  show "val32_0 (set_val32_1 u v) = val32_0 u" unfolding val32_0_def set_val32_1_def by (rule bit_word_eqI) (auto simp: bit_simps)
qed

lemma unswap_swap_both:
  "val32_0 (unswap_both sw (swap_both sw u)) = val32_0 u" "val32_1 (unswap_both sw (swap_both sw u)) = val32_1 u"
  by (simp_all add: unswap_both_def swap_both_def Let_def)

lemma unswap_swap_first: "val32_0 (unswap_first sw (swap_first sw u)) = val32_0 u"
  by (simp add: unswap_first_def swap_first_def Let_def)

subsection \<open>Bytes at a position of an event\<close>

definition opt :: "bool \<Rightarrow> 'a list \<Rightarrow> 'a list" where
  "opt c bs = (if c then bs else [])"

lemma length_opt [simp]: "length (opt c bs) = (if c then length bs else 0)"
  by (simp add: opt_def)

lemma holds_opt: "bytes_at ev pos (opt c bs) \<longleftrightarrow> pos \<le> length ev \<and> (c \<longrightarrow> bytes_at ev pos bs)"
  by (auto simp: bytes_at_def opt_def)

lemma take_bit_64 [simp]: "take_bit 64 (w :: u64) = w"
  by (rule bit_word_eqI) (simp add: bit_simps)

lemma ld_holds: "bytes_at ev pos (le_bytes 8 v) \<Longrightarrow> ld ev pos = Inr v"
  by (simp add: bytes_at_def ld_def)

lemma and_then_simps [simp]: "and_then (Inr (Some s)) f = f s" "and_then (Inr None) f = Inr None" "and_then (Inl e) f = Inl e"
  by (simp_all add: and_then_def)

lemma plain_word_holds:
  "bytes_at ev pos (opt c (le_bytes 8 v)) \<Longrightarrow> plain_word ev c f (pos, d) = Inr (Some (pos + length (opt c (le_bytes 8 v)), if c then f v d else d))"
  by (cases c) (auto simp: plain_word_def holds_opt dest: ld_holds)

lemma overflow_word: "overflow endp 8 pos 8 \<longleftrightarrow> unat endp < pos + 8"
  by (simp add: overflow_def)

lemma checked_word_holds:
  "bytes_at ev pos (opt c (le_bytes 8 v)) \<Longrightarrow> length ev = unat endp \<Longrightarrow>
    checked_word ev endp c f (pos, d) = Inr (Some (pos + length (opt c (le_bytes 8 v)), if c then f v d else d))"
  by (cases c) (auto simp: checked_word_def OVERFLOW_CHECK_u64_def overflow_word holds_opt dest: holds_le ld_holds)

lemma unat_ucast_16_64: "unat (ucast (w :: u16) :: u64) = unat w"
proof -
  have "unat w < 2 ^ 16" using unsigned_less [of w, where 'a = nat] by simp
  then have "unat w < 2 ^ 64" by simp
  then show ?thesis by (simp only: unsigned_ucast_eq) (simp add: take_bit_nat_eq_self)
qed

lemma overflow_iff: "overflow endp (ucast endp) pos sz \<longleftrightarrow> unat endp < pos + unat sz"
  by (auto simp: overflow_def word_less_nat_alt unat_ucast_16_64)

text \<open>Conditional updates in one form.\<close>

lemma if_upd:
  "(if c then d\<lparr>s_id := v\<rparr> else d) = d\<lparr>s_id := if c then v else s_id d\<rparr>"
  "(if c then d\<lparr>s_ip := v\<rparr> else d) = d\<lparr>s_ip := if c then v else s_ip d\<rparr>"
  "(if c then d\<lparr>s_pid := p, s_tid := t\<rparr> else d) = d\<lparr>s_pid := if c then p else s_pid d, s_tid := if c then t else s_tid d\<rparr>"
  "(if c then d\<lparr>s_time := v\<rparr> else d) = d\<lparr>s_time := if c then v else s_time d\<rparr>"
  "(if c then d\<lparr>s_addr := v\<rparr> else d) = d\<lparr>s_addr := if c then v else s_addr d\<rparr>"
  "(if c then d\<lparr>s_stream_id := v\<rparr> else d) = d\<lparr>s_stream_id := if c then v else s_stream_id d\<rparr>"
  "(if c then d\<lparr>s_cpu := cp\<rparr> else d) = d\<lparr>s_cpu := if c then cp else s_cpu d\<rparr>"
  "(if c then d\<lparr>s_period := v\<rparr> else d) = d\<lparr>s_period := if c then v else s_period d\<rparr>"
  "(if c then d\<lparr>s_weight := v\<rparr> else d) = d\<lparr>s_weight := if c then v else s_weight d\<rparr>"
  "(if c then d\<lparr>s_data_src := v\<rparr> else d) = d\<lparr>s_data_src := if c then v else s_data_src d\<rparr>"
  "(if c then d\<lparr>s_transaction := v\<rparr> else d) = d\<lparr>s_transaction := if c then v else s_transaction d\<rparr>"
  by (cases c; simp)+

subsection \<open>The layout of a sample\<close>

text \<open>The bytes of a sample behind the header, part by part; \<open>u\<close> is the initial value of the union of the writer.\<close>

definition tid_word :: "bool \<Rightarrow> perf_sample \<Rightarrow> u64 \<Rightarrow> u64" where
  "tid_word sw s u = swap_both sw (set_val32_1 (set_val32_0 u (s_pid s)) (s_tid s))"

definition cpu_word :: "bool \<Rightarrow> perf_sample \<Rightarrow> u64 \<Rightarrow> u64" where
  "cpu_word sw s u = swap_first sw (set_val32_0 u (s_cpu s))"

definition after_tid :: "u64 \<Rightarrow> bool \<Rightarrow> perf_sample \<Rightarrow> u64 \<Rightarrow> u64" where
  "after_tid type sw s u = (if bit type PERF_SAMPLE_TID then tid_word sw s u else u)"

definition fixed_layout :: "u64 \<Rightarrow> bool \<Rightarrow> perf_sample \<Rightarrow> u64 \<Rightarrow> u8 list" where
  "fixed_layout type sw s u =
     opt (bit type PERF_SAMPLE_IDENTIFIER) (le_bytes 8 (s_id s)) @
     opt (bit type PERF_SAMPLE_IP) (le_bytes 8 (s_ip s)) @
     opt (bit type PERF_SAMPLE_TID) (le_bytes 8 (tid_word sw s u)) @
     opt (bit type PERF_SAMPLE_TIME) (le_bytes 8 (s_time s)) @
     opt (bit type PERF_SAMPLE_ADDR) (le_bytes 8 (s_addr s)) @
     opt (bit type PERF_SAMPLE_ID) (le_bytes 8 (s_id s)) @
     opt (bit type PERF_SAMPLE_STREAM_ID) (le_bytes 8 (s_stream_id s)) @
     opt (bit type PERF_SAMPLE_CPU) (le_bytes 8 (cpu_word sw s (after_tid type sw s u))) @
     opt (bit type PERF_SAMPLE_PERIOD) (le_bytes 8 (s_period s))"

definition after_cpu :: "u64 \<Rightarrow> bool \<Rightarrow> perf_sample \<Rightarrow> u64 \<Rightarrow> u64" where
  "after_cpu type sw s u = (if bit type PERF_SAMPLE_CPU then cpu_word sw s (after_tid type sw s u) else after_tid type sw s u)"

lemma parse_fixed_holds:
  assumes "bytes_at ev pos (fixed_layout type sw s u)"
  shows "parse_fixed ev type sw (pos, d) = Inr (Some (pos + length (fixed_layout type sw s u),
     d\<lparr>s_id := if bit type PERF_SAMPLE_IDENTIFIER \<or> bit type PERF_SAMPLE_ID then s_id s else s_id d,
       s_ip := if bit type PERF_SAMPLE_IP then s_ip s else s_ip d,
       s_pid := if bit type PERF_SAMPLE_TID then s_pid s else s_pid d,
       s_tid := if bit type PERF_SAMPLE_TID then s_tid s else s_tid d,
       s_time := if bit type PERF_SAMPLE_TIME then s_time s else s_time d,
       s_addr := if bit type PERF_SAMPLE_ADDR then s_addr s else 0,
       s_stream_id := if bit type PERF_SAMPLE_STREAM_ID then s_stream_id s else s_stream_id d,
       s_cpu := if bit type PERF_SAMPLE_CPU then s_cpu s else s_cpu d,
       s_period := if bit type PERF_SAMPLE_PERIOD then s_period s else s_period d\<rparr>))"
proof -
  let ?w = "\<lambda>b v. opt (bit type b) (le_bytes 8 v)"
  have h1: "bytes_at ev pos (?w PERF_SAMPLE_IDENTIFIER (s_id s))" using assms unfolding fixed_layout_def holds_append by blast
  let ?p1 = "pos + length (?w PERF_SAMPLE_IDENTIFIER (s_id s))"
  have h2: "bytes_at ev ?p1 (?w PERF_SAMPLE_IP (s_ip s))" using assms unfolding fixed_layout_def holds_append by blast
  let ?p2 = "?p1 + length (?w PERF_SAMPLE_IP (s_ip s))"
  have h3: "bytes_at ev ?p2 (?w PERF_SAMPLE_TID (tid_word sw s u))" using assms unfolding fixed_layout_def holds_append by blast
  let ?p3 = "?p2 + length (?w PERF_SAMPLE_TID (tid_word sw s u))"
  have h4: "bytes_at ev ?p3 (?w PERF_SAMPLE_TIME (s_time s))" using assms unfolding fixed_layout_def holds_append by blast
  let ?p4 = "?p3 + length (?w PERF_SAMPLE_TIME (s_time s))"
  have h5: "bytes_at ev ?p4 (?w PERF_SAMPLE_ADDR (s_addr s))" using assms unfolding fixed_layout_def holds_append by blast
  let ?p5 = "?p4 + length (?w PERF_SAMPLE_ADDR (s_addr s))"
  have h6: "bytes_at ev ?p5 (?w PERF_SAMPLE_ID (s_id s))" using assms unfolding fixed_layout_def holds_append by blast
  let ?p6 = "?p5 + length (?w PERF_SAMPLE_ID (s_id s))"
  have h7: "bytes_at ev ?p6 (?w PERF_SAMPLE_STREAM_ID (s_stream_id s))" using assms unfolding fixed_layout_def holds_append by blast
  let ?p7 = "?p6 + length (?w PERF_SAMPLE_STREAM_ID (s_stream_id s))"
  have h8: "bytes_at ev ?p7 (?w PERF_SAMPLE_CPU (cpu_word sw s (after_tid type sw s u)))" using assms unfolding fixed_layout_def holds_append by blast
  let ?p8 = "?p7 + length (?w PERF_SAMPLE_CPU (cpu_word sw s (after_tid type sw s u)))"
  have h9: "bytes_at ev ?p8 (?w PERF_SAMPLE_PERIOD (s_period s))" using assms unfolding fixed_layout_def holds_append by blast
  note w = h1 h2 h3 h4 h5 h6 h7 h8 h9
  show ?thesis
    unfolding parse_fixed_def w [THEN plain_word_holds] and_then_simps fst_conv snd_conv Let_def if_upd
    by (simp add: fixed_layout_def tid_word_def cpu_word_def unswap_swap_both unswap_swap_first)
qed

lemma unat_mult_small: "unat a * unat b < 2 ^ 64 \<Longrightarrow> unat (a * b :: u64) = unat a * unat b"
  by (simp add: unat_word_ariths)

lemma unat_u16: "unat (w :: u16) < 2 ^ 16"
  using unsigned_less [of w, where 'a = nat] by simp

definition counted_ok :: "nat \<Rightarrow> u8 list option \<Rightarrow> bool" where
  "counted_ok e p \<longleftrightarrow> (\<exists>m nr. p = Some m \<and> ld m 0 = Inr nr \<and> 8 + e * unat nr \<le> length m)"

definition counted_bytes :: "nat \<Rightarrow> u8 list option \<Rightarrow> u8 list" where
  "counted_bytes e p = (case ld (the p) 0 of Inr nr \<Rightarrow> take (8 + e * unat nr) (the p) | Inl _ \<Rightarrow> [])"

definition read_layout :: "u64 \<Rightarrow> u64 \<Rightarrow> perf_sample \<Rightarrow> u8 list" where
  "read_layout type rf s = opt (bit type PERF_SAMPLE_READ)
     (le_bytes 8 (if bit rf PERF_FORMAT_GROUP then read_group_nr (s_read s) else read_one_value (s_read s)) @
      opt (bit rf PERF_FORMAT_TOTAL_TIME_ENABLED) (le_bytes 8 (read_time_enabled (s_read s))) @
      opt (bit rf PERF_FORMAT_TOTAL_TIME_RUNNING) (le_bytes 8 (read_time_running (s_read s))) @
      (if bit rf PERF_FORMAT_GROUP then take (16 * unat (read_group_nr (s_read s))) (the (read_group_values (s_read s)))
       else le_bytes 8 (read_one_id (s_read s))))"

definition raw_layout :: "u64 \<Rightarrow> perf_sample \<Rightarrow> u8 list" where
  "raw_layout type s = opt (bit type PERF_SAMPLE_RAW) (le_bytes 4 (s_raw_size s) @ take (unat (s_raw_size s)) (the (s_raw_data s)))"

definition regs_layout :: "bool \<Rightarrow> regs_dump \<Rightarrow> u8 list" where
  "regs_layout c r = opt c (le_bytes 8 (regs_abi r) @
     (if regs_abi r \<noteq> 0 then take (8 * unat (hweight_long (regs_mask r))) (the (regs_regs r)) else []))"

definition stack_layout :: "u64 \<Rightarrow> stack_dump \<Rightarrow> u8 list" where
  "stack_layout type r = opt (bit type PERF_SAMPLE_STACK_USER) (le_bytes 8 (stack_size r) @
     (if stack_size r \<noteq> 0 then take (unat (stack_size r)) (the (stack_data r)) @ le_bytes 8 (stack_size r) else []))"

definition tail_layout :: "u64 \<Rightarrow> perf_sample \<Rightarrow> u8 list" where
  "tail_layout type s = opt (bit type PERF_SAMPLE_WEIGHT) (le_bytes 8 (s_weight s)) @
     opt (bit type PERF_SAMPLE_DATA_SRC) (le_bytes 8 (s_data_src s)) @
     opt (bit type PERF_SAMPLE_TRANSACTION) (le_bytes 8 (s_transaction s))"

text \<open>A sample whose pointers reach as many bytes as its counts and sizes say.\<close>

definition sample_wf :: "u64 \<Rightarrow> u64 \<Rightarrow> perf_sample \<Rightarrow> bool" where
  "sample_wf type rf s \<longleftrightarrow>
     (bit type PERF_SAMPLE_READ \<and> bit rf PERF_FORMAT_GROUP \<longrightarrow>
        (\<exists>m. read_group_values (s_read s) = Some m \<and> 16 * unat (read_group_nr (s_read s)) \<le> length m)) \<and>
     (bit type PERF_SAMPLE_CALLCHAIN \<longrightarrow> counted_ok 8 (s_callchain s)) \<and>
     (bit type PERF_SAMPLE_RAW \<longrightarrow> (\<exists>m. s_raw_data s = Some m \<and> unat (s_raw_size s) \<le> length m)) \<and>
     (bit type PERF_SAMPLE_BRANCH_STACK \<longrightarrow> counted_ok 24 (s_branch_stack s)) \<and>
     (bit type PERF_SAMPLE_REGS_USER \<and> regs_abi (s_user_regs s) \<noteq> 0 \<longrightarrow>
        (\<exists>m. regs_regs (s_user_regs s) = Some m \<and> 8 * unat (hweight_long (regs_mask (s_user_regs s))) \<le> length m)) \<and>
     (bit type PERF_SAMPLE_STACK_USER \<and> stack_size (s_user_stack s) \<noteq> 0 \<longrightarrow>
        (\<exists>m. stack_data (s_user_stack s) = Some m \<and> unat (stack_size (s_user_stack s)) \<le> length m)) \<and>
     (bit type PERF_SAMPLE_REGS_INTR \<and> regs_abi (s_intr_regs s) \<noteq> 0 \<longrightarrow>
        (\<exists>m. regs_regs (s_intr_regs s) = Some m \<and> 8 * unat (hweight_long (regs_mask (s_intr_regs s))) \<le> length m))"

text \<open>The writer stores the size of the raw data as a whole word, which the raw data must cover again.\<close>

definition sample_ok :: "u64 \<Rightarrow> u64 \<Rightarrow> perf_sample \<Rightarrow> bool" where
  "sample_ok type rf s \<longleftrightarrow> sample_wf type rf s \<and> (bit type PERF_SAMPLE_RAW \<longrightarrow> 4 \<le> unat (s_raw_size s))"

lemma ld_take: "ld m 0 = Inr nr \<Longrightarrow> bytes_at ev pos (take (8 + k) m) \<Longrightarrow> 8 + k \<le> length m \<Longrightarrow> ld ev pos = Inr nr"
proof -
  assume nr: "ld m 0 = Inr nr" and h: "bytes_at ev pos (take (8 + k) m)" and k: "8 + k \<le> length m"
  have "take 8 (take (8 + k) (drop pos ev)) = take 8 (take (8 + k) m)" using h k by (simp add: bytes_at_def)
  then have "take 8 (drop pos ev) = take 8 m" by simp
  moreover have "pos + 8 \<le> length ev" using h k by (simp add: bytes_at_def)
  ultimately show ?thesis using nr k by (simp add: ld_def)
qed

lemma le_max_div: "unat nr * e < 2 ^ 64 \<Longrightarrow> 0 < e \<Longrightarrow> e < 2 ^ 64 \<Longrightarrow> \<not> (- 1 div of_nat e :: u64) < nr"
proof -
  assume a: "unat nr * e < 2 ^ 64" "0 < e" "e < 2 ^ 64"
  have "unat (of_nat e :: u64) = e" using a(3) by (simp add: unat_of_nat)
  then have "unat (- 1 div of_nat e :: u64) = (2 ^ 64 - 1) div e"
    by (simp add: unat_div_distrib unsigned_minus_1_eq_mask mask_eq_exp_minus_1)
  moreover have "unat nr \<le> (2 ^ 64 - 1) div e" using a by (simp add: less_eq_div_iff_mult_less_eq)
  ultimately show ?thesis by (simp add: word_less_nat_alt)
qed

lemma parse_counted_holds:
  assumes ok: "counted_ok e p" and h: "bytes_at ev pos (counted_bytes e p)" and l: "length ev = unat endp" and e: "0 < e" "e < 2 ^ 16" "elem = of_nat e"
  shows "parse_counted ev endp elem f (pos, d) = Inr (Some (pos + length (counted_bytes e p), f (Some (drop pos ev)) d))"
proof -
  obtain m nr where m: "p = Some m" "ld m 0 = Inr nr" "8 + e * unat nr \<le> length m" using ok by (auto simp: counted_ok_def)
  then have b: "counted_bytes e p = take (8 + e * unat nr) m" "length (counted_bytes e p) = 8 + e * unat nr" by (simp_all add: counted_bytes_def)
  have fits: "pos + 8 + e * unat nr \<le> unat endp" using h b l by (simp add: bytes_at_def)
  then have small: "unat nr * e < 2 ^ 64" using unat_u16 [of endp] by (simp add: mult.commute)
  have "unat (of_nat e :: u64) = e" using e(2) by (simp add: unat_of_nat)
  then have sz: "unat (nr * elem) = e * unat nr" using unat_mult_small [of nr elem] small e(3) by (simp add: mult.commute)
  have "ld ev pos = Inr nr" using ld_take [OF m(2)] h m(3) b by simp
  then show ?thesis using fits le_max_div [OF small e(1)] e(2,3) b sz
    by (simp add: parse_counted_def OVERFLOW_CHECK_u64_def OVERFLOW_CHECK_def overflow_word overflow_iff Let_def add.assoc)
qed

lemma parse_regs_holds:
  assumes h: "bytes_at ev pos (regs_layout c r)" and l: "length ev = unat endp"
    and ok: "c \<Longrightarrow> regs_abi r \<noteq> 0 \<Longrightarrow> \<exists>m. regs_regs r = Some m \<and> 8 * unat (hweight_long (regs_mask r)) \<le> length m"
    and f: "\<And>g h d. f g (f h d) = f (g \<circ> h) d"
  shows "parse_regs ev endp c (regs_mask r) f (pos, d) = Inr (Some (pos + length (regs_layout c r),
     if c then f (\<lambda>r'. if regs_abi r \<noteq> 0 then r'\<lparr>regs_abi := regs_abi r, regs_mask := regs_mask r, regs_regs := Some (drop (pos + 8) ev)\<rparr>
        else r'\<lparr>regs_abi := 0\<rparr>) d else d))"
proof (cases c)
  case True
  let ?n = "8 * unat (hweight_long (regs_mask r))"
  have 1: "ld ev pos = Inr (regs_abi r)" "pos + 8 \<le> unat endp"
    using h True l by (auto simp: regs_layout_def opt_def holds_append dest: ld_holds holds_le)
  show ?thesis
  proof (cases "regs_abi r = 0")
    case z: True
    then show ?thesis using 1 True
      by (simp add: parse_regs_def OVERFLOW_CHECK_u64_def overflow_word Let_def regs_layout_def opt_def)
  next
    case False
    have len: "length (take ?n (the (regs_regs r))) = ?n" using ok [OF True False] by auto
    then have fits: "pos + 8 + ?n \<le> unat endp" using h True False l by (simp add: regs_layout_def opt_def bytes_at_def)
    then have small: "unat (hweight_long (regs_mask r)) * 8 < 2 ^ 64" using unat_u16 [of endp] by simp
    then have "unat (hweight_long (regs_mask r) * 8) = ?n" using unat_mult_small [of "hweight_long (regs_mask r)" 8] by (simp add: mult.commute)
    then show ?thesis using 1 True False fits len
      by (simp add: parse_regs_def OVERFLOW_CHECK_u64_def OVERFLOW_CHECK_def overflow_word overflow_iff Let_def regs_layout_def opt_def f comp_def)
  qed
next
  case False
  then show ?thesis by (simp add: parse_regs_def regs_layout_def opt_def)
qed

subsection \<open>What a reader sees of a sample\<close>

definition same_bytes :: "nat \<Rightarrow> u8 list option \<Rightarrow> u8 list option \<Rightarrow> bool" where
  "same_bytes n p q \<longleftrightarrow> (\<exists>a b. p = Some a \<and> q = Some b \<and> n \<le> length a \<and> n \<le> length b \<and> take n a = take n b)"

definition same_read :: "u64 \<Rightarrow> sample_read \<Rightarrow> sample_read \<Rightarrow> bool" where
  "same_read rf r q \<longleftrightarrow>
     (bit rf PERF_FORMAT_TOTAL_TIME_ENABLED \<longrightarrow> read_time_enabled q = read_time_enabled r) \<and>
     (bit rf PERF_FORMAT_TOTAL_TIME_RUNNING \<longrightarrow> read_time_running q = read_time_running r) \<and>
     (if bit rf PERF_FORMAT_GROUP
      then read_group_nr q = read_group_nr r \<and> same_bytes (16 * unat (read_group_nr r)) (read_group_values r) (read_group_values q)
      else read_one_value q = read_one_value r \<and> read_one_id q = read_one_id r)"

definition same_regs :: "regs_dump \<Rightarrow> regs_dump \<Rightarrow> bool" where
  "same_regs r q \<longleftrightarrow> regs_abi q = regs_abi r \<and>
     (regs_abi r \<noteq> 0 \<longrightarrow> regs_mask q = regs_mask r \<and> same_bytes (8 * unat (hweight_long (regs_mask r))) (regs_regs r) (regs_regs q))"

definition same_stack :: "stack_dump \<Rightarrow> stack_dump \<Rightarrow> bool" where
  "same_stack r q \<longleftrightarrow> stack_size q = stack_size r \<and>
     (stack_size r \<noteq> 0 \<longrightarrow> same_bytes (unat (stack_size r)) (stack_data r) (stack_data q))"

definition same_counted :: "nat \<Rightarrow> u8 list option \<Rightarrow> u8 list option \<Rightarrow> bool" where
  "same_counted e p q \<longleftrightarrow> same_bytes (length (counted_bytes e p)) p q"

lemma same_bytesI: "bytes_at ev pos (take n m) \<Longrightarrow> n \<le> length m \<Longrightarrow> same_bytes n (Some m) (Some (drop pos ev))"
  unfolding same_bytes_def bytes_at_def by auto

lemma same_countedI:
  assumes "counted_ok e p" "bytes_at ev pos (counted_bytes e p)"
  shows "same_counted e p (Some (drop pos ev))"
proof -
  obtain m nr where m: "p = Some m" "ld m 0 = Inr nr" "8 + e * unat nr \<le> length m" using assms by (auto simp: counted_ok_def)
  then have "counted_bytes e p = take (8 + e * unat nr) m" by (simp add: counted_bytes_def)
  then show ?thesis using assms(2) m same_bytesI [of ev pos "8 + e * unat nr" m] by (simp add: same_counted_def)
qed

lemma set_read_upd: "set_read f d = d\<lparr>s_read := f (s_read d)\<rparr>"
  by (simp add: set_read_def)

lemma if_set_read: "(if c then set_read f d else d) = d\<lparr>s_read := if c then f (s_read d) else s_read d\<rparr>"
  by (simp add: set_read_def)

lemma parse_read_holds:
  assumes h: "bytes_at ev pos (read_layout type rf s)" and l: "length ev = unat endp" and ok: "sample_ok type rf s"
  shows "\<exists>r. parse_read ev endp type rf (pos, d) = Inr (Some (pos + length (read_layout type rf s), d\<lparr>s_read := r\<rparr>)) \<and>
     (bit type PERF_SAMPLE_READ \<longrightarrow> same_read rf (s_read s) r)"
proof (cases "bit type PERF_SAMPLE_READ")
  case False
  then show ?thesis by (intro exI [of _ "s_read d"]) (simp add: parse_read_def read_layout_def opt_def)
next
  case True
  let ?g = "bit rf PERF_FORMAT_GROUP" and ?r = "s_read s"
  let ?v = "if ?g then read_group_nr ?r else read_one_value ?r"
  let ?e = "opt (bit rf PERF_FORMAT_TOTAL_TIME_ENABLED) (le_bytes 8 (read_time_enabled ?r))"
  let ?t = "opt (bit rf PERF_FORMAT_TOTAL_TIME_RUNNING) (le_bytes 8 (read_time_running ?r))"
  let ?x = "if ?g then take (16 * unat (read_group_nr ?r)) (the (read_group_values ?r)) else le_bytes 8 (read_one_id ?r)"
  have lay: "read_layout type rf s = opt True (le_bytes 8 ?v) @ ?e @ ?t @ ?x" using True by (simp add: read_layout_def opt_def)
  let ?p1 = "pos + length (opt True (le_bytes 8 ?v))"
  let ?p2 = "?p1 + length ?e"
  let ?p3 = "?p2 + length ?t"
  have w: "bytes_at ev pos (opt True (le_bytes 8 ?v))" "bytes_at ev ?p1 ?e" "bytes_at ev ?p2 ?t" "bytes_at ev ?p3 ?x"
    using h unfolding lay holds_append by blast+
  let ?r3 = "\<lambda>q :: sample_read. (let q = if ?g then q\<lparr>read_group_nr := ?v\<rparr> else q\<lparr>read_one_value := ?v\<rparr>;
      q = if bit rf PERF_FORMAT_TOTAL_TIME_ENABLED then q\<lparr>read_time_enabled := read_time_enabled ?r\<rparr> else q
     in if bit rf PERF_FORMAT_TOTAL_TIME_RUNNING then q\<lparr>read_time_running := read_time_running ?r\<rparr> else q)"
  show ?thesis
  proof (cases ?g)
    case g: True
    obtain m where m: "read_group_values ?r = Some m" "16 * unat (read_group_nr ?r) \<le> length m" using ok True g by (auto simp: sample_ok_def sample_wf_def)
    have fits: "?p3 + 16 * unat (read_group_nr ?r) \<le> unat endp" using holds_le [OF w(4)] g m l by simp
    then have small: "unat (read_group_nr ?r) * 16 < 2 ^ 64" using unat_u16 [of endp] by simp
    then have sz: "unat (read_group_nr ?r * 16) = 16 * unat (read_group_nr ?r)" using unat_mult_small [of "read_group_nr ?r" 16] by (simp add: mult.commute)
    have nr: "\<not> (- 1 div 16 :: u64) < read_group_nr ?r" using le_max_div [OF small] by simp
    have sb: "same_bytes (16 * unat (read_group_nr ?r)) (read_group_values ?r) (Some (drop ?p3 ev))"
      using same_bytesI [of ev ?p3 _ m] w(4) g m by simp
    show ?thesis
      by (rule exI [of _ "(?r3 (s_read d))\<lparr>read_group_values := Some (drop ?p3 ev)\<rparr>"])
        (use True g nr sz fits m sb checked_word_holds [OF w(1) l] checked_word_holds [OF w(2) l] checked_word_holds [OF w(3) l] in
         \<open>simp add: parse_read_def if_set_read set_read_upd Let_def OVERFLOW_CHECK_def overflow_iff lay same_read_def split: if_splits\<close>)
  next
    case g: False
    have x: "bytes_at ev ?p3 (opt True (le_bytes 8 (read_one_id ?r)))" using w(4) g by (simp add: opt_def)
    show ?thesis
      by (rule exI [of _ "(?r3 (s_read d))\<lparr>read_one_id := read_one_id ?r\<rparr>"])
        (use True g checked_word_holds [OF w(1) l] checked_word_holds [OF w(2) l] checked_word_holds [OF w(3) l] checked_word_holds [OF x l] in
         \<open>simp add: parse_read_def if_set_read set_read_upd Let_def lay same_read_def\<close>)
  qed
qed

lemma le_word_append: "le_word (a @ b) = (le_word a OR push_bit (8 * length a) (le_word b) :: 'a::len word)"
proof (induction a)
  case (Cons x a)
  show ?case by (rule bit_word_eqI) (auto simp: Cons bit_simps diff_diff_eq ac_simps)
qed simp

lemma low_half: "val32_0 (le_word (le_bytes 4 (v :: u32) @ x)) = v"
proof -
  have b: "bit (le_word bs :: u64) i \<longleftrightarrow> bit (le_word bs :: u32) i" if "i < 32" for bs i
  proof (use that in \<open>induction bs arbitrary: i\<close>)
    case (Cons c cs)
    then show ?case by (auto simp: bit_simps)
  qed simp
  have "take_bit 32 v = v" by (rule bit_word_eqI) (simp add: bit_simps)
  then have "le_word (le_bytes 4 v) = v" by simp
  then show ?thesis
    unfolding val32_0_def le_word_append
    by (intro bit_word_eqI) (auto simp: bit_simps b)
qed

lemma unat_ucast_32_64: "unat (ucast (w :: u32) :: u64) = unat w"
proof -
  have "unat w < 2 ^ 64" using unat_u32 [of w] by simp
  then show ?thesis by (simp only: unsigned_ucast_eq) (simp add: take_bit_nat_eq_self)
qed

lemma parse_raw_holds:
  assumes h: "bytes_at ev pos (raw_layout type s)" and l: "length ev = unat endp" and ok: "sample_ok type rf s"
    and sw: "bit type PERF_SAMPLE_RAW \<longrightarrow> \<not> sw"
  shows "\<exists>n p. parse_raw ev endp type sw (pos, d) = Inr (Some (pos + length (raw_layout type s), d\<lparr>s_raw_size := n, s_raw_data := p\<rparr>)) \<and>
     (bit type PERF_SAMPLE_RAW \<longrightarrow> n = s_raw_size s \<and> same_bytes (unat n) (s_raw_data s) p)"
proof (cases "bit type PERF_SAMPLE_RAW")
  case False
  then show ?thesis by (intro exI [of _ "s_raw_size d"] exI [of _ "s_raw_data d"]) (simp add: parse_raw_def raw_layout_def opt_def)
next
  case True
  let ?n = "unat (s_raw_size s)"
  obtain m where m: "4 \<le> ?n" "s_raw_data s = Some m" "?n \<le> length m" using ok True by (auto simp: sample_ok_def sample_wf_def)
  have lay: "raw_layout type s = le_bytes 4 (s_raw_size s) @ take ?n m" using True m by (simp add: raw_layout_def opt_def)
  have len: "length (raw_layout type s) = 4 + ?n" using lay m by simp
  have fits: "pos + 4 + ?n \<le> unat endp" using holds_le [OF h] len l by simp
  have "take 8 (drop pos ev) = take 8 (raw_layout type s)"
    using holds_drop [OF h] len m(1) by (metis add_le_cancel_left min.absorb1 numeral_Bit0 take_take)
  also have "\<dots> = le_bytes 4 (s_raw_size s) @ take 4 m" using m by (simp add: lay)
  finally have "ld ev pos = Inr (le_word (le_bytes 4 (s_raw_size s) @ take 4 m))" using fits m(1) l by (simp add: ld_def)
  moreover have "bytes_at ev (pos + 4) (take ?n m)" using h unfolding lay holds_append by simp
  then have "same_bytes ?n (s_raw_data s) (Some (drop (pos + 4) ev))" using same_bytesI [of ev "pos + 4" ?n m] m by simp
  ultimately show ?thesis using True sw fits m(1) len
    by (intro exI [of _ "s_raw_size s"] exI [of _ "Some (drop (pos + 4) ev)"])
      (simp add: parse_raw_def OVERFLOW_CHECK_u64_def OVERFLOW_CHECK_def overflow_word overflow_iff Let_def unswap_both_def low_half unat_ucast_32_64)
qed

lemma parse_user_stack_holds:
  assumes h: "bytes_at ev pos (stack_layout type (s_user_stack s))" and l: "length ev = unat endp" and ok: "sample_ok type rf s"
  shows "\<exists>r. parse_user_stack ev endp type (pos, d) = Inr (Some (pos + length (stack_layout type (s_user_stack s)), d\<lparr>s_user_stack := r\<rparr>)) \<and>
     (bit type PERF_SAMPLE_STACK_USER \<longrightarrow> same_stack (s_user_stack s) r \<and> stack_offset r = of_nat pos)"
proof (cases "bit type PERF_SAMPLE_STACK_USER")
  case False
  then show ?thesis by (intro exI [of _ "s_user_stack d"]) (simp add: parse_user_stack_def stack_layout_def opt_def)
next
  case True
  let ?sz = "stack_size (s_user_stack s)" and ?st = "\<lambda>r :: stack_dump. r\<lparr>stack_offset := of_nat pos\<rparr>"
  have 1: "ld ev pos = Inr ?sz" "pos + 8 \<le> unat endp"
    using h True l by (auto simp: stack_layout_def opt_def holds_append dest: ld_holds holds_le)
  show ?thesis
  proof (cases "?sz = 0")
    case z: True
    then show ?thesis using 1 True
      by (intro exI [of _ "(?st (s_user_stack d))\<lparr>stack_size := 0\<rparr>"])
        (simp add: parse_user_stack_def OVERFLOW_CHECK_u64_def overflow_word Let_def stack_layout_def opt_def set_user_stack_def same_stack_def)
  next
    case False
    obtain m where m: "stack_data (s_user_stack s) = Some m" "unat ?sz \<le> length m" using ok True False by (auto simp: sample_ok_def sample_wf_def)
    have lay: "stack_layout type (s_user_stack s) = le_bytes 8 ?sz @ take (unat ?sz) m @ le_bytes 8 ?sz"
      using True False m by (simp add: stack_layout_def opt_def)
    have h2: "bytes_at ev (pos + 8) (take (unat ?sz) m)" "bytes_at ev (pos + 8 + unat ?sz) (le_bytes 8 ?sz)"
      using h m unfolding lay holds_append by simp_all
    have fits: "pos + 8 + unat ?sz + 8 \<le> unat endp" using holds_le [OF h2(2)] l by simp
    have "same_bytes (unat ?sz) (stack_data (s_user_stack s)) (Some (drop (pos + 8) ev))" using same_bytesI [OF h2(1)] m by simp
    then show ?thesis using 1 True False fits m ld_holds [OF h2(2)]
      by (intro exI [of _ "(?st (s_user_stack d))\<lparr>stack_data := Some (drop (pos + 8) ev), stack_size := ?sz\<rparr>"])
        (simp add: parse_user_stack_def OVERFLOW_CHECK_u64_def OVERFLOW_CHECK_def overflow_word overflow_iff Let_def lay set_user_stack_def same_stack_def)
  qed
qed

lemma parse_tail_holds:
  assumes h: "bytes_at ev pos (tail_layout type s)" and l: "length ev = unat endp"
  shows "parse_tail ev endp type (pos, d) = Inr (Some (pos + length (tail_layout type s),
     d\<lparr>s_weight := if bit type PERF_SAMPLE_WEIGHT then s_weight s else 0,
       s_data_src := if bit type PERF_SAMPLE_DATA_SRC then s_data_src s else PERF_MEM_DATA_SRC_NONE,
       s_transaction := if bit type PERF_SAMPLE_TRANSACTION then s_transaction s else 0\<rparr>))"
proof -
  let ?w = "\<lambda>b v. opt (bit type b) (le_bytes 8 v)"
  let ?p1 = "pos + length (?w PERF_SAMPLE_WEIGHT (s_weight s))"
  let ?p2 = "?p1 + length (?w PERF_SAMPLE_DATA_SRC (s_data_src s))"
  have w: "bytes_at ev pos (?w PERF_SAMPLE_WEIGHT (s_weight s))" "bytes_at ev ?p1 (?w PERF_SAMPLE_DATA_SRC (s_data_src s))"
    "bytes_at ev ?p2 (?w PERF_SAMPLE_TRANSACTION (s_transaction s))"
    using h unfolding tail_layout_def holds_append by blast+
  show ?thesis
    unfolding parse_tail_def prod.case checked_word_holds [OF w(1) l] checked_word_holds [OF w(2) l] checked_word_holds [OF w(3) l] and_then_simps if_upd
    by (simp add: tail_layout_def)
qed

subsection \<open>The size of the fixed part\<close>

lemma bit_foldr_or: "\<forall>b \<in> set bs. b < 64 \<Longrightarrow> bit (foldr (\<lambda>b m. push_bit b 1 OR m) bs (0 :: u64)) i \<longleftrightarrow> i \<in> set bs"
proof (induction bs)
  case (Cons b bs)
  have "bit (push_bit b (1 :: u64)) i \<longleftrightarrow> i = b" using Cons.prems by (simp only: bit_push_bit_iff possible_bit_word bit_1_iff) auto
  then show ?case using Cons by (auto simp: bit_or_iff)
qed simp

lemmas sample_bits = PERF_SAMPLE_IP_def PERF_SAMPLE_TID_def PERF_SAMPLE_TIME_def PERF_SAMPLE_ADDR_def PERF_SAMPLE_ID_def
  PERF_SAMPLE_STREAM_ID_def PERF_SAMPLE_CPU_def PERF_SAMPLE_PERIOD_def PERF_SAMPLE_IDENTIFIER_def

lemma mask_bits_distinct: "distinct sample_mask_bits" "\<forall>b \<in> set sample_mask_bits. b < 64"
  by (simp_all add: sample_mask_bits_def sample_bits)

lemma mask_size_loop_card: "n \<le> 64 \<Longrightarrow> mask_size_loop n m sz = sz + int (card {i. 64 - n \<le> i \<and> i < 64 \<and> bit m i})"
proof (induction n arbitrary: sz)
  case 0
  have "{i. 64 \<le> i \<and> i < 64 \<and> bit m i} = {}" by auto
  then show ?case by (simp only: mask_size_loop.simps) simp
next
  case (Suc n)
  define k where "k = 63 - n"
  have k: "64 - n = Suc k" "64 - Suc n = k" "63 - n = k" "k < 64" using Suc.prems by (auto simp: k_def)
  let ?A = "{i. Suc k \<le> i \<and> i < 64 \<and> bit m i}"
  have split: "k \<le> i \<longleftrightarrow> i = k \<or> Suc k \<le> i" for i by auto
  have "{i. k \<le> i \<and> i < 64 \<and> bit m i} = (if bit m k then insert k ?A else ?A)"
    using k(4) unfolding split by auto
  moreover have "k \<notin> ?A" "finite ?A" by auto
  ultimately have "card {i. k \<le> i \<and> i < 64 \<and> bit m i} = (if bit m k then 1 else 0) + card ?A" by simp
  then show ?case using Suc.IH Suc.prems unfolding mask_size_loop.simps k by simp
qed

lemma sample_size_filter: "evsel_sample_size_of type = 8 * int (length (filter (bit type) sample_mask_bits))"
proof -
  let ?P = "\<lambda>i. bit type i"
  have "{i. 64 - 64 \<le> i \<and> i < 64 \<and> bit (type AND PERF_SAMPLE_MASK) i} = set (filter ?P sample_mask_bits)"
    using mask_bits_distinct(2) unfolding PERF_SAMPLE_MASK_def bit_and_iff bit_foldr_or [OF mask_bits_distinct(2)] by auto
  then have "card {i. 64 - 64 \<le> i \<and> i < 64 \<and> bit (type AND PERF_SAMPLE_MASK) i} = length (filter ?P sample_mask_bits)"
    using distinct_card [of "filter ?P sample_mask_bits"] mask_bits_distinct(1) by simp
  then show ?thesis unfolding evsel_sample_size_of_def by (subst mask_size_loop_card) simp_all
qed

lemma sample_size_fixed: "evsel_sample_size_of type = int (length (fixed_layout type sw s u))"
  unfolding sample_size_filter sample_mask_bits_def fixed_layout_def by simp

subsection \<open>A whole sample\<close>

definition variable_layout :: "u64 \<Rightarrow> u64 \<Rightarrow> perf_sample \<Rightarrow> u8 list" where
  "variable_layout type rf s = read_layout type rf s @
     opt (bit type PERF_SAMPLE_CALLCHAIN) (counted_bytes 8 (s_callchain s)) @ raw_layout type s @
     opt (bit type PERF_SAMPLE_BRANCH_STACK) (counted_bytes 24 (s_branch_stack s)) @
     regs_layout (bit type PERF_SAMPLE_REGS_USER) (s_user_regs s) @ stack_layout type (s_user_stack s) @
     tail_layout type s @ regs_layout (bit type PERF_SAMPLE_REGS_INTR) (s_intr_regs s)"

definition same_fixed :: "u64 \<Rightarrow> perf_sample \<Rightarrow> perf_sample \<Rightarrow> bool" where
  "same_fixed type s d \<longleftrightarrow>
     (bit type PERF_SAMPLE_IDENTIFIER \<or> bit type PERF_SAMPLE_ID \<longrightarrow> s_id d = s_id s) \<and>
     (bit type PERF_SAMPLE_IP \<longrightarrow> s_ip d = s_ip s) \<and>
     (bit type PERF_SAMPLE_TID \<longrightarrow> s_pid d = s_pid s \<and> s_tid d = s_tid s) \<and>
     (bit type PERF_SAMPLE_TIME \<longrightarrow> s_time d = s_time s) \<and>
     (bit type PERF_SAMPLE_ADDR \<longrightarrow> s_addr d = s_addr s) \<and>
     (bit type PERF_SAMPLE_STREAM_ID \<longrightarrow> s_stream_id d = s_stream_id s) \<and>
     (bit type PERF_SAMPLE_CPU \<longrightarrow> s_cpu d = s_cpu s) \<and>
     (bit type PERF_SAMPLE_PERIOD \<longrightarrow> s_period d = s_period s)"

definition same_variable :: "u64 \<Rightarrow> u64 \<Rightarrow> perf_sample \<Rightarrow> perf_sample \<Rightarrow> bool" where
  "same_variable type rf s d \<longleftrightarrow>
     (bit type PERF_SAMPLE_READ \<longrightarrow> same_read rf (s_read s) (s_read d)) \<and>
     (bit type PERF_SAMPLE_CALLCHAIN \<longrightarrow> same_counted 8 (s_callchain s) (s_callchain d)) \<and>
     (bit type PERF_SAMPLE_RAW \<longrightarrow> s_raw_size d = s_raw_size s \<and> same_bytes (unat (s_raw_size s)) (s_raw_data s) (s_raw_data d)) \<and>
     (bit type PERF_SAMPLE_BRANCH_STACK \<longrightarrow> same_counted 24 (s_branch_stack s) (s_branch_stack d)) \<and>
     (bit type PERF_SAMPLE_REGS_USER \<longrightarrow> same_regs (s_user_regs s) (s_user_regs d)) \<and>
     (bit type PERF_SAMPLE_STACK_USER \<longrightarrow> same_stack (s_user_stack s) (s_user_stack d)) \<and>
     (bit type PERF_SAMPLE_WEIGHT \<longrightarrow> s_weight d = s_weight s) \<and>
     (bit type PERF_SAMPLE_DATA_SRC \<longrightarrow> s_data_src d = s_data_src s) \<and>
     (bit type PERF_SAMPLE_TRANSACTION \<longrightarrow> s_transaction d = s_transaction s) \<and>
     (bit type PERF_SAMPLE_REGS_INTR \<longrightarrow> same_regs (s_intr_regs s) (s_intr_regs d))"

lemma parse_counted_opt:
  assumes "bytes_at ev pos (opt c (counted_bytes e p))" "length ev = unat endp" "0 < e" "e < 2 ^ 16" "elem = of_nat e" "c \<longrightarrow> counted_ok e p"
  shows "\<exists>q. (if c then parse_counted ev endp elem f (pos, d) else Inr (Some (pos, d))) =
     Inr (Some (pos + length (opt c (counted_bytes e p)), if c then f q d else d)) \<and> (c \<longrightarrow> same_counted e p q)"
proof (cases c)
  case True
  then show ?thesis using parse_counted_holds [of e p ev pos endp elem f d] same_countedI [of e p ev pos] assms
    by (intro exI [of _ "Some (drop pos ev)"]) (simp add: holds_opt)
qed (simp add: opt_def)

lemma parse_regs_same:
  assumes "bytes_at ev pos (regs_layout c r)" "length ev = unat endp"
    and "c \<Longrightarrow> regs_abi r \<noteq> 0 \<Longrightarrow> \<exists>m. regs_regs r = Some m \<and> 8 * unat (hweight_long (regs_mask r)) \<le> length m"
    and "\<And>g h d. f g (f h d) = f (g \<circ> h) d" "c \<longrightarrow> mk = regs_mask r"
  shows "\<exists>g. parse_regs ev endp c mk f (pos, d) = Inr (Some (pos + length (regs_layout c r), if c then f g d else d)) \<and>
     (c \<longrightarrow> (\<forall>q. same_regs r (g q)))"
proof (cases c)
  case True
  let ?g = "\<lambda>r'. if regs_abi r \<noteq> 0 then r'\<lparr>regs_abi := regs_abi r, regs_mask := regs_mask r, regs_regs := Some (drop (pos + 8) ev)\<rparr>
        else r'\<lparr>regs_abi := 0\<rparr>"
  have "same_bytes (8 * unat (hweight_long (regs_mask r))) (regs_regs r) (Some (drop (pos + 8) ev))" if abi: "regs_abi r \<noteq> 0"
  proof -
    obtain m where "regs_regs r = Some m" "8 * unat (hweight_long (regs_mask r)) \<le> length m" using assms(3) [OF True abi] by blast
    moreover then have "bytes_at ev (pos + 8) (take (8 * unat (hweight_long (regs_mask r))) m)"
      using assms(1) True abi by (simp add: regs_layout_def opt_def holds_append)
    ultimately show ?thesis using same_bytesI by simp
  qed
  then show ?thesis using parse_regs_holds [OF assms(1-4), of d] True assms(5) by (intro exI [of _ ?g]) (auto simp: same_regs_def)
qed (simp add: parse_regs_def regs_layout_def opt_def)

lemma set_regs_comp: "set_user_regs g (set_user_regs h d) = set_user_regs (g \<circ> h) d" "set_intr_regs g (set_intr_regs h d) = set_intr_regs (g \<circ> h) d"
  by (simp_all add: set_user_regs_def set_intr_regs_def)

text \<open>The configuration that the sample was written for.\<close>

definition evsel_for :: "perf_evsel \<Rightarrow> u64 \<Rightarrow> u64 \<Rightarrow> perf_sample \<Rightarrow> bool \<Rightarrow> bool" where
  "evsel_for evsel type rf s sw \<longleftrightarrow> attr_sample_type evsel = type \<and> attr_read_format evsel = rf \<and> evsel_needs_swap evsel = sw \<and>
     uint (evsel_sample_size evsel) = evsel_sample_size_of type \<and>
     (bit type PERF_SAMPLE_REGS_USER \<longrightarrow> attr_sample_regs_user evsel = regs_mask (s_user_regs s)) \<and>
     (bit type PERF_SAMPLE_REGS_INTR \<longrightarrow> attr_sample_regs_intr evsel = regs_mask (s_intr_regs s))"

lemma parse_variable_holds:
  assumes h: "bytes_at ev pos (variable_layout type rf s)" and l: "length ev = unat endp" and ok: "sample_ok type rf s"
    and e: "evsel_for evsel type rf s sw" and sw: "bit type PERF_SAMPLE_RAW \<longrightarrow> \<not> sw"
  shows "\<exists>d'. parse_variable evsel ev endp (pos, d) = Inr (Some (pos + length (variable_layout type rf s), d')) \<and>
     same_variable type rf s d' \<and> (same_fixed type s d \<longrightarrow> same_fixed type s d')"
proof -
  let ?cc = "opt (bit type PERF_SAMPLE_CALLCHAIN) (counted_bytes 8 (s_callchain s))"
  let ?bs = "opt (bit type PERF_SAMPLE_BRANCH_STACK) (counted_bytes 24 (s_branch_stack s))"
  let ?ur = "regs_layout (bit type PERF_SAMPLE_REGS_USER) (s_user_regs s)"
  let ?ir = "regs_layout (bit type PERF_SAMPLE_REGS_INTR) (s_intr_regs s)"
  let ?p1 = "pos + length (read_layout type rf s)"
  let ?p2 = "?p1 + length ?cc"
  let ?p3 = "?p2 + length (raw_layout type s)"
  let ?p4 = "?p3 + length ?bs"
  let ?p5 = "?p4 + length ?ur"
  let ?p6 = "?p5 + length (stack_layout type (s_user_stack s))"
  let ?p7 = "?p6 + length (tail_layout type s)"
  have w: "bytes_at ev pos (read_layout type rf s)" "bytes_at ev ?p1 ?cc" "bytes_at ev ?p2 (raw_layout type s)" "bytes_at ev ?p3 ?bs" "bytes_at ev ?p4 ?ur"
    "bytes_at ev ?p5 (stack_layout type (s_user_stack s))" "bytes_at ev ?p6 (tail_layout type s)" "bytes_at ev ?p7 ?ir"
    using h unfolding variable_layout_def holds_append by blast+
  have cok: "bit type PERF_SAMPLE_CALLCHAIN \<longrightarrow> counted_ok 8 (s_callchain s)" "bit type PERF_SAMPLE_BRANCH_STACK \<longrightarrow> counted_ok 24 (s_branch_stack s)"
    using ok by (simp_all add: sample_ok_def sample_wf_def)
  have rok: "\<exists>m. regs_regs (s_user_regs s) = Some m \<and> 8 * unat (hweight_long (regs_mask (s_user_regs s))) \<le> length m"
    if "bit type PERF_SAMPLE_REGS_USER" "regs_abi (s_user_regs s) \<noteq> 0" using ok that by (simp add: sample_ok_def sample_wf_def)
  have iok: "\<exists>m. regs_regs (s_intr_regs s) = Some m \<and> 8 * unat (hweight_long (regs_mask (s_intr_regs s))) \<le> length m"
    if "bit type PERF_SAMPLE_REGS_INTR" "regs_abi (s_intr_regs s) \<noteq> 0" using ok that by (simp add: sample_ok_def sample_wf_def)
  have mk: "bit type PERF_SAMPLE_REGS_USER \<longrightarrow> attr_sample_regs_user evsel = regs_mask (s_user_regs s)"
    "bit type PERF_SAMPLE_REGS_INTR \<longrightarrow> attr_sample_regs_intr evsel = regs_mask (s_intr_regs s)" using e by (simp_all add: evsel_for_def)
  obtain r where s1: "parse_read ev endp type rf (pos, d) = Inr (Some (?p1, d\<lparr>s_read := r\<rparr>))" "bit type PERF_SAMPLE_READ \<longrightarrow> same_read rf (s_read s) r"
    using parse_read_holds [OF w(1) l ok] by blast
  have n8: "(0 :: nat) < 8" "(8 :: nat) < 2 ^ 16" "(8 :: u64) = of_nat 8" and n24: "(0 :: nat) < 24" "(24 :: nat) < 2 ^ 16" "(24 :: u64) = of_nat 24" by simp_all
  define d1 where "d1 = d\<lparr>s_read := r\<rparr>"
  obtain q2 where s2: "parse_callchain ev endp type (?p1, d1) = Inr (Some (?p2, if bit type PERF_SAMPLE_CALLCHAIN then d1\<lparr>s_callchain := q2\<rparr> else d1))"
      "bit type PERF_SAMPLE_CALLCHAIN \<longrightarrow> same_counted 8 (s_callchain s) q2"
    using parse_counted_opt [OF w(2) l n8 cok(1), of "\<lambda>p d. d\<lparr>s_callchain := p\<rparr>" d1] unfolding parse_callchain_def by blast
  define d2 where "d2 = (if bit type PERF_SAMPLE_CALLCHAIN then d1\<lparr>s_callchain := q2\<rparr> else d1)"
  obtain n q3 where s3: "parse_raw ev endp type sw (?p2, d2) = Inr (Some (?p3, d2\<lparr>s_raw_size := n, s_raw_data := q3\<rparr>))"
      "bit type PERF_SAMPLE_RAW \<longrightarrow> n = s_raw_size s \<and> same_bytes (unat n) (s_raw_data s) q3"
    using parse_raw_holds [OF w(3) l ok sw] by blast
  define d3 where "d3 = d2\<lparr>s_raw_size := n, s_raw_data := q3\<rparr>"
  obtain q4 where s4: "parse_branch_stack ev endp type (?p3, d3) = Inr (Some (?p4, if bit type PERF_SAMPLE_BRANCH_STACK then d3\<lparr>s_branch_stack := q4\<rparr> else d3))"
      "bit type PERF_SAMPLE_BRANCH_STACK \<longrightarrow> same_counted 24 (s_branch_stack s) q4"
    using parse_counted_opt [OF w(4) l n24 cok(2), of "\<lambda>p d. d\<lparr>s_branch_stack := p\<rparr>" d3] unfolding parse_branch_stack_def by blast
  define d4 where "d4 = (if bit type PERF_SAMPLE_BRANCH_STACK then d3\<lparr>s_branch_stack := q4\<rparr> else d3)"
  obtain g5 where s5: "parse_regs ev endp (bit type PERF_SAMPLE_REGS_USER) (attr_sample_regs_user evsel) set_user_regs (?p4, d4) =
      Inr (Some (?p5, if bit type PERF_SAMPLE_REGS_USER then set_user_regs g5 d4 else d4))"
      "bit type PERF_SAMPLE_REGS_USER \<longrightarrow> (\<forall>q. same_regs (s_user_regs s) (g5 q))"
    using parse_regs_same [OF w(5) l rok set_regs_comp(1) mk(1), of d4] by blast
  define d5 where "d5 = (if bit type PERF_SAMPLE_REGS_USER then set_user_regs g5 d4 else d4)"
  obtain r6 where s6: "parse_user_stack ev endp type (?p5, d5) = Inr (Some (?p6, d5\<lparr>s_user_stack := r6\<rparr>))"
      "bit type PERF_SAMPLE_STACK_USER \<longrightarrow> same_stack (s_user_stack s) r6"
    using parse_user_stack_holds [OF w(6) l ok] by blast
  define d6 where "d6 = d5\<lparr>s_user_stack := r6\<rparr>"
  obtain d7 where s7: "parse_tail ev endp type (?p6, d6) = Inr (Some (?p7, d7))"
     "d7 = d6\<lparr>s_weight := if bit type PERF_SAMPLE_WEIGHT then s_weight s else 0,
       s_data_src := if bit type PERF_SAMPLE_DATA_SRC then s_data_src s else PERF_MEM_DATA_SRC_NONE,
       s_transaction := if bit type PERF_SAMPLE_TRANSACTION then s_transaction s else 0\<rparr>"
    using parse_tail_holds [OF w(7) l] by blast
  define d8 where "d8 = set_intr_regs (\<lambda>r. r\<lparr>regs_abi := 0\<rparr>) d7"
  obtain g9 where s9: "parse_regs ev endp (bit type PERF_SAMPLE_REGS_INTR) (attr_sample_regs_intr evsel) set_intr_regs (?p7, d8) =
      Inr (Some (?p7 + length ?ir, if bit type PERF_SAMPLE_REGS_INTR then set_intr_regs g9 d8 else d8))"
      "bit type PERF_SAMPLE_REGS_INTR \<longrightarrow> (\<forall>q. same_regs (s_intr_regs s) (g9 q))"
    using parse_regs_same [OF w(8) l iok set_regs_comp(2) mk(2), of d8] by blast
  define d9 where "d9 = (if bit type PERF_SAMPLE_REGS_INTR then set_intr_regs g9 d8 else d8)"
  have at: "attr_sample_type evsel = type" "attr_read_format evsel = rf" "evsel_needs_swap evsel = sw" using e by (simp_all add: evsel_for_def)
  have "parse_variable evsel ev endp (pos, d) = Inr (Some (?p7 + length ?ir, d9))"
    unfolding parse_variable_def at Let_def s1(1) and_then_simps d1_def [symmetric] s2(1) d2_def [symmetric] s3(1) d3_def [symmetric] s4(1) d4_def [symmetric]
      s5(1) d5_def [symmetric] s6(1) d6_def [symmetric] s7(1) prod.case d8_def [symmetric] s9(1) d9_def [symmetric] ..
  moreover have "?p7 + length ?ir = pos + length (variable_layout type rf s)" by (simp add: variable_layout_def)
  moreover have "same_variable type rf s d9"
    using s1(2) s2(2) s3(2) s4(2) s5(2) s6(2) s9(2)
    unfolding same_variable_def d9_def d8_def s7(2) d6_def d5_def d4_def d3_def d2_def d1_def set_user_regs_def set_intr_regs_def by (intro conjI; simp)
  moreover have "same_fixed type s d \<longrightarrow> same_fixed type s d9"
    unfolding same_fixed_def d9_def d8_def s7(2) d6_def d5_def d4_def d3_def d2_def d1_def set_user_regs_def set_intr_regs_def by simp
  ultimately show ?thesis by (intro exI [of _ d9]) simp
qed

subsection \<open>Writing\<close>

text \<open>
  A part of the writer, started with the value \<open>u\<close> of the union, appends the bytes \<open>bs\<close> to what is
  written so far, when they fit, and leaves the union at \<open>u'\<close>.
\<close>

definition writes :: "synth_state \<Rightarrow> u8 list \<Rightarrow> synth_state \<Rightarrow> bool" where
  "writes st bs st' \<longleftrightarrow> length (sy_ev st') = length (sy_ev st) \<and> sy_pos st' = sy_pos st + length bs \<and> sy_pos st' \<le> length (sy_ev st) \<and>
     take (sy_pos st') (sy_ev st') = take (sy_pos st) (sy_ev st) @ bs"

definition emits :: "(synth_state \<Rightarrow> synth_result) \<Rightarrow> u64 \<Rightarrow> u8 list \<Rightarrow> u64 \<Rightarrow> bool" where
  "emits f u bs u' \<longleftrightarrow> (\<forall>st. sy_u st = u \<longrightarrow> sy_pos st + length bs \<le> length (sy_ev st) \<longrightarrow>
     (\<exists>st'. f st = Inr st' \<and> writes st bs st' \<and> sy_u st' = u'))"

lemma writes_trans: "writes st a st1 \<Longrightarrow> writes st1 b st2 \<Longrightarrow> writes st (a @ b) st2"
  unfolding writes_def by (metis add.assoc append.assoc length_append)

lemma emits_bnd: "emits f u a v \<Longrightarrow> emits g v b w \<Longrightarrow> emits (\<lambda>st. bnd (f st) g) u (a @ b) w"
proof -
  assume f: "emits f u a v" and g: "emits g v b w"
  have "\<exists>st'. bnd (f st) g = Inr st' \<and> writes st (a @ b) st' \<and> sy_u st' = w"
    if st: "sy_u st = u" "sy_pos st + length (a @ b) \<le> length (sy_ev st)" for st
  proof -
    obtain st1 where 1: "f st = Inr st1" "writes st a st1" "sy_u st1 = v" using f st by (fastforce simp: emits_def)
    moreover then have "sy_pos st1 + length b \<le> length (sy_ev st1)" using st by (simp add: writes_def)
    ultimately obtain st2 where "g st1 = Inr st2" "writes st1 b st2" "sy_u st2 = w" using g by (auto simp: emits_def)
    then show ?thesis using 1 writes_trans by auto
  qed
  then show ?thesis by (simp add: emits_def)
qed

lemma emits_skip: "emits Inr u [] u"
  by (simp add: emits_def writes_def)

lemma emits_if: "(c \<Longrightarrow> emits f u bs u') \<Longrightarrow> emits (\<lambda>st. if c then f st else Inr st) u (opt c bs) (if c then u' else u)"
  using emits_skip [of u] by (cases c) (simp_all add: opt_def)

lemma emits_word: "emits (put_word v) u (le_bytes 8 v) u"
  by (auto simp: emits_def put_word_def store_def memcpy_def writes_def)

lemma emits_put_if: "emits (put_if c v) u (opt c (le_bytes 8 v)) u"
  using emits_if [OF emits_word, of c v u] by (simp add: put_if_def [abs_def])

lemma emits_put_u: "emits (\<lambda>st. put_u c (f (sy_u st)) st) u (opt c (le_bytes 8 (f u))) (if c then f u else u)"
proof -
  have "\<exists>st'. put_word (f u) (st\<lparr>sy_u := f u\<rparr>) = Inr st' \<and> writes st (le_bytes 8 (f u)) st' \<and> sy_u st' = f u"
    if "sy_pos st + 8 \<le> length (sy_ev st)" for st
    using that by (simp add: put_word_def store_def memcpy_def writes_def)
  then show ?thesis by (auto simp: emits_def put_u_def opt_def writes_def)
qed

lemma emits_bytes:
  assumes "sz \<noteq> 0 \<Longrightarrow> \<exists>m. p = Some m \<and> unat sz \<le> length m" "n = unat sz"
  shows "emits (put_bytes p sz) u (take n (the p)) u"
proof (cases "sz = 0")
  case False
  then obtain m where "p = Some m" "unat sz \<le> length m" using assms(1) by blast
  then show ?thesis using False assms(2) by (auto simp: emits_def put_bytes_def deref_def memcpy_def writes_def)
qed (use assms(2) in \<open>simp add: put_bytes_def [abs_def] emits_def writes_def\<close>)

lemma emits_fixed: "emits (synth_fixed type s sw) u (fixed_layout type sw s u) (after_cpu type sw s u)"
proof -
  have tid: "emits (\<lambda>st. put_u (bit type PERF_SAMPLE_TID) (swap_both sw (set_val32_1 (set_val32_0 (sy_u st) (s_pid s)) (s_tid s))) st)
      u (opt (bit type PERF_SAMPLE_TID) (le_bytes 8 (tid_word sw s u))) (after_tid type sw s u)"
    unfolding tid_word_def after_tid_def by (rule emits_put_u)
  have cpu: "emits (\<lambda>st. put_u (bit type PERF_SAMPLE_CPU) (swap_first sw (set_val32_0 (sy_u st) (s_cpu s))) st)
      (after_tid type sw s u) (opt (bit type PERF_SAMPLE_CPU) (le_bytes 8 (cpu_word sw s (after_tid type sw s u)))) (after_cpu type sw s u)"
    unfolding cpu_word_def after_cpu_def by (rule emits_put_u)
  show ?thesis unfolding synth_fixed_def fixed_layout_def
    by (rule emits_bnd [OF emits_put_if], rule emits_bnd [OF emits_put_if], rule emits_bnd [OF tid], rule emits_bnd [OF emits_put_if],
        rule emits_bnd [OF emits_put_if], rule emits_bnd [OF emits_put_if], rule emits_bnd [OF emits_put_if], rule emits_bnd [OF cpu],
        rule emits_put_if)
qed

lemma emits_read:
  assumes ok: "sample_ok type rf s" and small: "length (read_layout type rf s) < 2 ^ 16"
  shows "emits (synth_read type rf s) u (read_layout type rf s) u"
proof -
  let ?g = "if bit rf PERF_FORMAT_GROUP then take (16 * unat (read_group_nr (s_read s))) (the (read_group_values (s_read s))) else le_bytes 8 (read_one_id (s_read s))"
  have g: "emits (\<lambda>st. if bit rf PERF_FORMAT_GROUP then put_bytes (read_group_values (s_read s)) (read_group_nr (s_read s) * 16) st
      else put_word (read_one_id (s_read s)) st) u ?g u" if r: "bit type PERF_SAMPLE_READ"
  proof (cases "bit rf PERF_FORMAT_GROUP")
    case True
    then obtain m where m: "read_group_values (s_read s) = Some m" "16 * unat (read_group_nr (s_read s)) \<le> length m" using ok r by (auto simp: sample_ok_def sample_wf_def)
    then have "16 * unat (read_group_nr (s_read s)) < 2 ^ 16" using small r True by (simp add: read_layout_def)
    then have "unat (read_group_nr (s_read s) * 16) = 16 * unat (read_group_nr (s_read s))"
      using unat_mult_small [of "read_group_nr (s_read s)" 16] by simp
    then show ?thesis using emits_bytes [of "read_group_nr (s_read s) * 16" "read_group_values (s_read s)"] m True by simp
  qed (use emits_word in simp)
  have "emits (\<lambda>st. if bit type PERF_SAMPLE_READ then
      bnd (put_word (if bit rf PERF_FORMAT_GROUP then read_group_nr (s_read s) else read_one_value (s_read s)) st) (\<lambda>st.
        bnd (put_if (bit rf PERF_FORMAT_TOTAL_TIME_ENABLED) (read_time_enabled (s_read s)) st) (\<lambda>st.
        bnd (put_if (bit rf PERF_FORMAT_TOTAL_TIME_RUNNING) (read_time_running (s_read s)) st) (\<lambda>st.
        if bit rf PERF_FORMAT_GROUP then put_bytes (read_group_values (s_read s)) (read_group_nr (s_read s) * 16) st
        else put_word (read_one_id (s_read s)) st))) else Inr st) u (read_layout type rf s) (if bit type PERF_SAMPLE_READ then u else u)"
    unfolding read_layout_def by (rule emits_if, rule emits_bnd [OF emits_word], rule emits_bnd [OF emits_put_if], rule emits_bnd [OF emits_put_if], rule g)
  then show ?thesis by (simp add: synth_read_def [abs_def] Let_def)
qed

lemma emits_counted:
  assumes "c \<longrightarrow> counted_ok e p" "length (opt c (counted_bytes e p)) < 2 ^ 16" "elem = of_nat e" "e < 2 ^ 16"
  shows "emits (synth_counted c p elem) u (opt c (counted_bytes e p)) u"
proof (cases c)
  case True
  then obtain m nr where m: "p = Some m" "ld m 0 = Inr nr" "8 + e * unat nr \<le> length m" using assms(1) by (auto simp: counted_ok_def)
  then have b: "counted_bytes e p = take (8 + e * unat nr) m" by (simp add: counted_bytes_def)
  have small: "8 + e * unat nr < 2 ^ 16" using assms(2) True b m(3) by simp
  have "unat (of_nat e :: u64) = e" using assms(4) by (simp add: unat_of_nat)
  then have "unat (nr * elem) = e * unat nr" using unat_mult_small [of nr elem] small assms(3) by (simp add: mult.commute)
  then have sz: "unat (nr * elem + 8) = 8 + e * unat nr" using small by (simp add: unat_word_ariths)
  have "synth_counted c p elem = put_bytes p (nr * elem + 8)" using True m by (simp add: synth_counted_def [abs_def] deref_def)
  moreover have "emits (put_bytes p (nr * elem + 8)) u (take (8 + e * unat nr) (the p)) u"
    by (rule emits_bytes) (use m sz in simp_all)
  ultimately show ?thesis using True m b by (simp add: opt_def)
qed (use emits_skip in \<open>simp add: synth_counted_def [abs_def] opt_def\<close>)

lemma emits_regs:
  assumes "c \<Longrightarrow> regs_abi r \<noteq> 0 \<Longrightarrow> \<exists>m. regs_regs r = Some m \<and> 8 * unat (hweight_long (regs_mask r)) \<le> length m"
    and "length (regs_layout c r) < 2 ^ 16"
  shows "emits (synth_regs c r) u (regs_layout c r) u"
proof (cases "c \<and> regs_abi r \<noteq> 0")
  case True
  then obtain m where m: "regs_regs r = Some m" "8 * unat (hweight_long (regs_mask r)) \<le> length m" using assms(1) by blast
  then have "8 * unat (hweight_long (regs_mask r)) < 2 ^ 16" using assms(2) True by (simp add: regs_layout_def opt_def)
  then have sz: "unat (hweight_long (regs_mask r) * 8) = 8 * unat (hweight_long (regs_mask r))"
    using unat_mult_small [of "hweight_long (regs_mask r)" 8] by simp
  have "emits (\<lambda>st. bnd (put_word (regs_abi r) st) (put_bytes (regs_regs r) (hweight_long (regs_mask r) * 8))) u
    (le_bytes 8 (regs_abi r) @ take (8 * unat (hweight_long (regs_mask r))) (the (regs_regs r))) u"
    by (rule emits_bnd [OF emits_word]) (rule emits_bytes, use m sz in simp_all)
  then show ?thesis using True by (simp add: synth_regs_def [abs_def] regs_layout_def opt_def)
qed (use emits_skip emits_word [of 0] in \<open>auto simp: synth_regs_def [abs_def] regs_layout_def opt_def\<close>)

lemma emits_stack:
  assumes "sample_ok type rf s"
  shows "emits (synth_stack type s) u (stack_layout type (s_user_stack s)) u"
proof (cases "bit type PERF_SAMPLE_STACK_USER")
  case True
  let ?r = "s_user_stack s"
  have "emits (\<lambda>st. bnd (put_word (stack_size ?r) st) (\<lambda>st. if stack_size ?r \<noteq> 0 then bnd (put_bytes (stack_data ?r) (stack_size ?r) st) (put_word (stack_size ?r)) else Inr st)) u
     (le_bytes 8 (stack_size ?r) @ opt (stack_size ?r \<noteq> 0) (take (unat (stack_size ?r)) (the (stack_data ?r)) @ le_bytes 8 (stack_size ?r)))
     (if stack_size ?r \<noteq> 0 then u else u)"
    by (rule emits_bnd [OF emits_word], rule emits_if, rule emits_bnd [OF emits_bytes emits_word]) (use assms True in \<open>simp_all add: sample_ok_def sample_wf_def\<close>)
  then show ?thesis using True by (simp add: synth_stack_def [abs_def] Let_def stack_layout_def opt_def)
qed (use emits_skip in \<open>simp add: synth_stack_def [abs_def] stack_layout_def opt_def\<close>)

lemma le_bytes_low: "k \<le> n \<Longrightarrow> take k (le_bytes n w) = le_bytes k w"
proof (induction n arbitrary: k w)
  case (Suc n)
  then show ?case by (cases k) auto
qed simp

lemma le_bytes_cong:
  fixes v :: "'a::len word" and w :: "'b::len word"
  shows "\<forall>i < 8 * n. bit v i = bit w i \<Longrightarrow> le_bytes n v = le_bytes n w"
proof (induction n arbitrary: v w)
  case (Suc n)
  have "(ucast v :: u8) = ucast w" by (rule bit_word_eqI) (use Suc.prems in \<open>auto simp: bit_simps\<close>)
  moreover have "le_bytes n (drop_bit 8 v) = le_bytes n (drop_bit 8 w)" by (rule Suc.IH) (use Suc.prems in \<open>simp add: bit_simps\<close>)
  ultimately show ?case by simp
qed simp

lemma le_bytes_4_8: "take 4 (le_bytes 8 (w :: u64)) = le_bytes 4 (val32_0 w)"
proof -
  have "le_bytes 4 w = le_bytes 4 (ucast w :: u32)"
    by (rule le_bytes_cong) (simp add: bit_simps)
  then show ?thesis by (simp add: le_bytes_low val32_0_def)
qed

lemma emits_raw:
  assumes ok: "sample_ok type rf s" and sw: "bit type PERF_SAMPLE_RAW \<longrightarrow> \<not> sw"
  shows "\<exists>u'. emits (synth_raw type s sw) u (raw_layout type s) u'"
proof (cases "bit type PERF_SAMPLE_RAW")
  case True
  let ?n = "unat (s_raw_size s)"
  let ?u = "set_val32_0 u (s_raw_size s)"
  obtain m where m: "4 \<le> ?n" "s_raw_data s = Some m" "?n \<le> length m" using ok True by (auto simp: sample_ok_def sample_wf_def)
  have nz: "(ucast (s_raw_size s) :: u64) \<noteq> 0" using m(1) unat_ucast_32_64 [of "s_raw_size s"] by (metis not_numeral_le_zero unsigned_0)
  have low: "take 4 (le_bytes 8 ?u) = le_bytes 4 (s_raw_size s)" by (simp add: le_bytes_4_8)
  have "\<exists>st'. synth_raw type s sw st = Inr st' \<and> writes st (raw_layout type s) st' \<and> sy_u st' = ?u"
    if st: "sy_u st = u" "sy_pos st + length (raw_layout type s) \<le> length (sy_ev st)" for st
  proof -
    have fits: "sy_pos st + 4 + ?n \<le> length (sy_ev st)" using st(2) m True by (simp add: raw_layout_def opt_def)
    let ?ev = "take (sy_pos st) (sy_ev st) @ le_bytes 8 ?u @ drop (sy_pos st + 8) (sy_ev st)"
    have "take (sy_pos st + 4) ?ev = take (sy_pos st) (sy_ev st) @ le_bytes 4 (s_raw_size s)" using fits low m(1) by simp
    then show ?thesis using fits m nz True sw st(1) unat_ucast_32_64 [of "s_raw_size s"]
      by (simp add: synth_raw_def swap_both_def store_def memcpy_def put_bytes_def deref_def writes_def raw_layout_def opt_def)
  qed
  then show ?thesis unfolding emits_def by blast
qed (use emits_skip in \<open>auto simp: synth_raw_def [abs_def] raw_layout_def opt_def\<close>)

lemma emitsD: "emits f u bs u' \<Longrightarrow> sy_u st = u \<Longrightarrow> sy_pos st + length bs \<le> length (sy_ev st) \<Longrightarrow> \<exists>st'. f st = Inr st' \<and> writes st bs st'"
  unfolding emits_def by blast

definition sample_layout :: "u64 \<Rightarrow> u64 \<Rightarrow> bool \<Rightarrow> perf_sample \<Rightarrow> u64 \<Rightarrow> u8 list" where
  "sample_layout type rf sw s u = fixed_layout type sw s u @ variable_layout type rf s"

lemma sample_okD:
  assumes "sample_ok type rf s"
  shows "bit type PERF_SAMPLE_CALLCHAIN \<longrightarrow> counted_ok 8 (s_callchain s)" "bit type PERF_SAMPLE_BRANCH_STACK \<longrightarrow> counted_ok 24 (s_branch_stack s)"
    and "bit type PERF_SAMPLE_READ \<Longrightarrow> bit rf PERF_FORMAT_GROUP \<Longrightarrow>
      \<exists>m. read_group_values (s_read s) = Some m \<and> 16 * unat (read_group_nr (s_read s)) \<le> length m"
    and "bit type PERF_SAMPLE_RAW \<Longrightarrow> \<exists>m. s_raw_data s = Some m \<and> unat (s_raw_size s) \<le> length m"
    and "bit type PERF_SAMPLE_STACK_USER \<Longrightarrow> stack_size (s_user_stack s) \<noteq> 0 \<Longrightarrow>
      \<exists>m. stack_data (s_user_stack s) = Some m \<and> unat (stack_size (s_user_stack s)) \<le> length m"
    and "bit type PERF_SAMPLE_REGS_USER \<Longrightarrow> regs_abi (s_user_regs s) \<noteq> 0 \<Longrightarrow>
      \<exists>m. regs_regs (s_user_regs s) = Some m \<and> 8 * unat (hweight_long (regs_mask (s_user_regs s))) \<le> length m"
    and "bit type PERF_SAMPLE_REGS_INTR \<Longrightarrow> regs_abi (s_intr_regs s) \<noteq> 0 \<Longrightarrow>
      \<exists>m. regs_regs (s_intr_regs s) = Some m \<and> 8 * unat (hweight_long (regs_mask (s_intr_regs s))) \<le> length m"
  using assms by (simp_all add: sample_ok_def sample_wf_def)

lemma synthesize_writes:
  assumes ok: "sample_ok type rf s" and sw: "bit type PERF_SAMPLE_RAW \<longrightarrow> \<not> sw"
    and small: "length (sample_layout type rf sw s u) < 2 ^ 16" and fits: "8 + length (sample_layout type rf sw s u) \<le> length event"
  shows "\<exists>ev. perf_event__synthesize_sample u event type rf s sw = Inr ev \<and> length ev = length event \<and>
     take (8 + length (sample_layout type rf sw s u)) ev = take 8 event @ sample_layout type rf sw s u"
proof -
  have l: "length (read_layout type rf s) < 2 ^ 16" "length (opt (bit type PERF_SAMPLE_CALLCHAIN) (counted_bytes 8 (s_callchain s))) < 2 ^ 16"
    "length (opt (bit type PERF_SAMPLE_BRANCH_STACK) (counted_bytes 24 (s_branch_stack s))) < 2 ^ 16"
    "length (regs_layout (bit type PERF_SAMPLE_REGS_USER) (s_user_regs s)) < 2 ^ 16" "length (regs_layout (bit type PERF_SAMPLE_REGS_INTR) (s_intr_regs s)) < 2 ^ 16"
    using small unfolding sample_layout_def variable_layout_def length_append by linarith+
  let ?f = "\<lambda>st. bnd (synth_fixed type s sw st) (\<lambda>st.
      bnd (synth_read type rf s st) (\<lambda>st.
      bnd (synth_counted (bit type PERF_SAMPLE_CALLCHAIN) (s_callchain s) 8 st) (\<lambda>st.
      bnd (synth_raw type s sw st) (\<lambda>st.
      bnd (synth_counted (bit type PERF_SAMPLE_BRANCH_STACK) (s_branch_stack s) 24 st) (\<lambda>st.
      bnd (synth_regs (bit type PERF_SAMPLE_REGS_USER) (s_user_regs s) st) (\<lambda>st.
      bnd (synth_stack type s st) (\<lambda>st.
      bnd (put_if (bit type PERF_SAMPLE_WEIGHT) (s_weight s) st) (\<lambda>st.
      bnd (put_if (bit type PERF_SAMPLE_DATA_SRC) (s_data_src s) st) (\<lambda>st.
      bnd (put_if (bit type PERF_SAMPLE_TRANSACTION) (s_transaction s) st) (\<lambda>st.
      synth_regs (bit type PERF_SAMPLE_REGS_INTR) (s_intr_regs s) st))))))))))"
  obtain u' where raw: "emits (synth_raw type s sw) (after_cpu type sw s u) (raw_layout type s) u'" using emits_raw [OF ok sw] by blast
  have "emits ?f u (sample_layout type rf sw s u) u'"
    unfolding sample_layout_def variable_layout_def tail_layout_def append_assoc
    by (rule emits_bnd [OF emits_fixed], rule emits_bnd [OF emits_read [OF ok l(1)]],
        rule emits_bnd [OF emits_counted [OF sample_okD(1) [OF ok] l(2)]], simp, simp, rule emits_bnd [OF raw],
        rule emits_bnd [OF emits_counted [OF sample_okD(2) [OF ok] l(3)]], simp, simp,
        rule emits_bnd [OF emits_regs [OF sample_okD(6) [OF ok] l(4)]], assumption, assumption,
        rule emits_bnd [OF emits_stack [OF ok]], rule emits_bnd [OF emits_put_if], rule emits_bnd [OF emits_put_if],
        rule emits_bnd [OF emits_put_if], rule emits_regs [OF sample_okD(7) [OF ok] l(5)])
  note f = this
  obtain st' where st': "?f \<lparr>sy_ev = event, sy_pos = 8, sy_u = u\<rparr> = Inr st'"
      "writes \<lparr>sy_ev = event, sy_pos = 8, sy_u = u\<rparr> (sample_layout type rf sw s u) st'"
    using emitsD [OF f, of "\<lparr>sy_ev = event, sy_pos = 8, sy_u = u\<rparr>"] fits by (simp only: synth_state.simps) blast
  have "perf_event__synthesize_sample u event type rf s sw = bnd (?f \<lparr>sy_ev = event, sy_pos = 8, sy_u = u\<rparr>) (\<lambda>st. Inr (sy_ev st))"
    unfolding perf_event__synthesize_sample_def Let_def bnd_assoc ..
  then show ?thesis using st' by (auto simp: writes_def)
qed

subsection \<open>The size\<close>

lemma word_if_add: "word_if c r = r + of_nat (if c then 8 else 0)"
  by (simp add: word_if_def)

lemma size_fixed_layout: "size_fixed type r = r + of_nat (length (fixed_layout type sw s u))"
  unfolding size_fixed_def Let_def fixed_layout_def length_append of_nat_add
  by (simp only: word_if_add add.assoc length_opt length_le_bytes)

lemma size_read_layout: "sample_ok type rf s \<Longrightarrow> size_read s type rf r = r + of_nat (length (read_layout type rf s))"
proof (cases "bit type PERF_SAMPLE_READ")
  case True
  assume "sample_ok type rf s"
  then have "length (if bit rf PERF_FORMAT_GROUP then take (16 * unat (read_group_nr (s_read s))) (the (read_group_values (s_read s)))
     else le_bytes 8 (read_one_id (s_read s))) = (if bit rf PERF_FORMAT_GROUP then 16 * unat (read_group_nr (s_read s)) else 8)"
    using sample_okD(3) True by force
  then show ?thesis using True unfolding size_read_def read_layout_def Let_def by (simp add: word_if_add opt_def [of True])
qed (simp add: size_read_def read_layout_def)

lemma size_counted_layout:
  "c \<longrightarrow> counted_ok e p \<Longrightarrow> elem = of_nat e \<Longrightarrow> size_counted c p elem r = Inr (r + of_nat (length (opt c (counted_bytes e p))))"
  by (auto simp: size_counted_def counted_ok_def counted_bytes_def deref_def)

lemma size_regs_layout:
  "(c \<Longrightarrow> regs_abi g \<noteq> 0 \<Longrightarrow> \<exists>m. regs_regs g = Some m \<and> 8 * unat (hweight_long (regs_mask g)) \<le> length m) \<Longrightarrow>
    size_regs c g r = r + of_nat (length (regs_layout c g))"
  by (auto simp: size_regs_def regs_layout_def opt_def)

lemma size_stack_layout: "sample_ok type rf s \<Longrightarrow> size_stack s type r = r + of_nat (length (stack_layout type (s_user_stack s)))"
  by (auto simp: size_stack_def Let_def stack_layout_def opt_def dest!: sample_okD(5))

lemma sample_event_size_layout:
  assumes ok: "sample_ok type rf s"
  shows "perf_event__sample_event_size s type rf = Inr (of_nat (8 + length (sample_layout type rf sw s u)))"
proof -
  have raw: "(if bit type PERF_SAMPLE_RAW then r + 4 + ucast (s_raw_size s) else r) = r + (of_nat (length (raw_layout type s)) :: u64)" for r
    using sample_okD(4) [OF ok] by (auto simp: raw_layout_def opt_def)
  have ur: "size_regs (bit type PERF_SAMPLE_REGS_USER) (s_user_regs s) r = r + of_nat (length (regs_layout (bit type PERF_SAMPLE_REGS_USER) (s_user_regs s)))" for r
    by (rule size_regs_layout) (rule sample_okD(6) [OF ok])
  have ir: "size_regs (bit type PERF_SAMPLE_REGS_INTR) (s_intr_regs s) r = r + of_nat (length (regs_layout (bit type PERF_SAMPLE_REGS_INTR) (s_intr_regs s)))" for r
    by (rule size_regs_layout) (rule sample_okD(7) [OF ok])
  have cc: "size_counted (bit type PERF_SAMPLE_CALLCHAIN) (s_callchain s) 8 r = Inr (r + of_nat (length (opt (bit type PERF_SAMPLE_CALLCHAIN) (counted_bytes 8 (s_callchain s)))))" for r
    by (rule size_counted_layout [OF sample_okD(1) [OF ok]]) simp
  have bs: "size_counted (bit type PERF_SAMPLE_BRANCH_STACK) (s_branch_stack s) 24 r = Inr (r + of_nat (length (opt (bit type PERF_SAMPLE_BRANCH_STACK) (counted_bytes 24 (s_branch_stack s)))))" for r
    by (rule size_counted_layout [OF sample_okD(2) [OF ok]]) simp
  show ?thesis
    unfolding perf_event__sample_event_size_def Let_def size_fixed_layout [of type 8 sw s u] size_read_layout [OF ok]
      cc bnd_simps raw bs ur ir size_stack_layout [OF ok] word_if_add
      sample_layout_def variable_layout_def tail_layout_def length_append of_nat_add of_nat_numeral
    by (simp only: add.assoc length_opt length_le_bytes)
qed

lemma header_take: "take 8 ev = take 8 ev' \<Longrightarrow> length ev = length ev' \<Longrightarrow>
  header_type ev = header_type ev' \<and> header_misc ev = header_misc ev' \<and> header_size ev = header_size ev'"
proof -
  assume t: "take 8 ev = take 8 ev'" and l: "length ev = length ev'"
  have s: "take n (drop m ev) = take n (drop m ev')" if "m + n \<le> 8" for m n
  proof -
    have "take n (drop m ev) = drop m (take (m + n) (take 8 ev))" using that by (simp add: take_drop add.commute)
    also have "\<dots> = take n (drop m ev')" using that t by (simp add: take_drop add.commute)
    finally show ?thesis .
  qed
  show ?thesis using l s [of 0 4] s [of 4 2] s [of 6 2] by (simp add: header_type_def header_misc_def header_size_def get_le_def)
qed

lemma header_misc_Inr: "8 \<le> length ev \<Longrightarrow> \<exists>m. header_misc ev = Inr m"
  by (simp add: header_misc_def)

lemma parse_sample_layout:
  assumes ok: "sample_ok type rf s" and e: "evsel_for evsel type rf s sw" and sw: "bit type PERF_SAMPLE_RAW \<longrightarrow> \<not> sw"
    and ev: "length ev = 8 + length (sample_layout type rf sw s u)" "drop 8 ev = sample_layout type rf sw s u"
    and hd: "header_type ev = Inr PERF_RECORD_SAMPLE" "header_size ev = Inr sz" "unat sz = length ev"
  shows "\<exists>d. perf_evsel__parse_sample evsel ev = Inr (0, d) \<and> same_fixed type s d \<and> same_variable type rf s d"
proof -
  let ?f = "fixed_layout type sw s u"
  have h: "bytes_at ev 8 ?f" "bytes_at ev (8 + length ?f) (variable_layout type rf s)"
    using ev holds_append [of ev 8 ?f "variable_layout type rf s"] unfolding sample_layout_def by (simp_all add: bytes_at_def)
  have at: "attr_sample_type evsel = type" "evsel_needs_swap evsel = sw" "uint (evsel_sample_size evsel) = int (length ?f)"
    using e sample_size_fixed by (simp_all add: evsel_for_def)
  obtain misc where misc: "header_misc ev = Inr misc" using header_misc_Inr [of ev] ev(1) by auto
  have "int (unat sz) = 8 + int (length ?f) + int (length (variable_layout type rf s))" using hd(3) ev(1) by (simp add: sample_layout_def)
  then have small: "\<not> uint sz < int (length ?f) + 8" by simp
  obtain d where d: "parse_fixed ev type sw (8, (initial_sample evsel misc)\<lparr>s_id := - 1\<rparr>) = Inr (Some (8 + length ?f, d))" "same_fixed type s d"
    using parse_fixed_holds [OF h(1)] by (auto simp: same_fixed_def)
  obtain d' where d': "parse_variable evsel ev sz (8 + length ?f, d) = Inr (Some (8 + length ?f + length (variable_layout type rf s), d'))"
      "same_variable type rf s d'" "same_fixed type s d'"
    using parse_variable_holds [OF h(2) hd(3) [symmetric] ok e sw] d(2) by blast
  show ?thesis
    unfolding perf_evsel__parse_sample_def hd(1,2) misc bnd_simps Let_def at d(1) and_then_simps d'(1) using small d'(2,3) by simp
qed

text \<open>
  Claim C2.  Writing a sample and reading it back gives the sample: for every sample type, read format and byte
  order, \<open>perf_event__sample_event_size\<close> gives the size that \<open>perf_event__synthesize_sample\<close> fills without
  touching the header, and \<open>perf_evsel__parse_sample\<close> of the written event returns 0 and a sample with
  the same value in every field the type selects.  The samples are those where each variable-size part the type selects
  is present with as many bytes as its counts announce, raw data has at least 4 bytes and is selected only when the bytes are
  not swapped (with swapped bytes the writer moves the size of the raw data to a word that the raw data then overwrites), and the event is shorter than
  64 KiB; the event selector has the type, read format and register masks the sample was written with.
\<close>

theorem sample_roundtrip:
  assumes "sample_ok type rf s" and "evsel_for evsel type rf s sw" and "bit type PERF_SAMPLE_RAW \<longrightarrow> \<not> sw"
    and "length event = 8 + length (sample_layout type rf sw s u)" and "length event < 2 ^ 16"
    and "header_type event = Inr PERF_RECORD_SAMPLE" and "header_size event = Inr (of_nat (length event))"
  shows "perf_event__sample_event_size s type rf = Inr (of_nat (length event)) \<and>
    (\<exists>ev d. perf_event__synthesize_sample u event type rf s sw = Inr ev \<and> length ev = length event \<and> take 8 ev = take 8 event \<and>
       perf_evsel__parse_sample evsel ev = Inr (0, d) \<and> same_fixed type s d \<and> same_variable type rf s d)"
proof -
  let ?l = "sample_layout type rf sw s u"
  have "length ?l < 2 ^ 16" using assms(4,5) by linarith
  then obtain ev where ev: "perf_event__synthesize_sample u event type rf s sw = Inr ev" "length ev = length event" "take (8 + length ?l) ev = take 8 event @ ?l"
    using synthesize_writes [OF assms(1,3)] assms(4) by (metis order_refl)
  then have ev': "ev = take 8 event @ ?l" using assms(4) by simp
  then have t: "take 8 ev = take 8 event" "drop 8 ev = ?l" using assms(4) by simp_all
  have hd: "header_type ev = Inr PERF_RECORD_SAMPLE" "header_size ev = Inr (of_nat (length event))"
    using header_take [OF t(1) ev(2)] assms(6,7) by simp_all
  have "unat (of_nat (length event) :: u16) = length ev" using assms(5) ev(2) by (simp add: unat_of_nat)
  then obtain d where "perf_evsel__parse_sample evsel ev = Inr (0, d)" "same_fixed type s d" "same_variable type rf s d"
    using parse_sample_layout [OF assms(1-3) _ t(2) hd] ev(2) assms(4) by auto
  then show ?thesis using ev t sample_event_size_layout [OF assms(1), of sw u] assms(4) by auto
qed

definition rt_sample :: perf_sample where
  "rt_sample = zero_sample\<lparr>s_ip := 0x401000, s_pid := 7, s_tid := 8, s_raw_size := 4, s_raw_data := Some [1, 2, 3, 4],
     s_callchain := Some [1, 0, 0, 0, 0, 0, 0, 0, 5, 6, 7, 8, 9, 10, 11, 12]\<rparr>"

definition rt_evsel :: perf_evsel where
  "rt_evsel = \<lparr>attr_sample_type = 0x423, attr_sample_id_all = False, attr_sample_period = 0, attr_read_format = 0, attr_sample_regs_user = 0,
     attr_sample_regs_intr = 0, evsel_sample_size = 16, evsel_needs_swap = False, evsel_id_pos = - 1, evsel_is_pos = - 1\<rparr>"

theorem sample_roundtrip_witness:
  "perf_event__sample_event_size rt_sample 0x423 0 = Inr 48 \<and>
    (\<exists>ev d. perf_event__synthesize_sample 0 ([9, 0, 0, 0, 2, 0, 48, 0] @ replicate 40 0) 0x423 0 rt_sample False = Inr ev \<and>
       perf_evsel__parse_sample rt_evsel ev = Inr (0, d) \<and> s_ip d = 0x401000 \<and> s_tid d = 8 \<and> s_raw_size d = 4)"
proof -
  note bits = PERF_SAMPLE_READ_def PERF_SAMPLE_CALLCHAIN_def PERF_SAMPLE_RAW_def PERF_SAMPLE_BRANCH_STACK_def PERF_SAMPLE_REGS_USER_def
    PERF_SAMPLE_STACK_USER_def PERF_SAMPLE_REGS_INTR_def PERF_SAMPLE_WEIGHT_def PERF_SAMPLE_DATA_SRC_def PERF_SAMPLE_TRANSACTION_def sample_bits
  have ok: "sample_ok 0x423 0 rt_sample"
    by (simp add: sample_ok_def sample_wf_def counted_ok_def bits rt_sample_def ld_def get_le_def)
  have e: "evsel_for rt_evsel 0x423 0 rt_sample False"
    by (simp add: evsel_for_def rt_evsel_def bits) code_simp
  have l: "length (sample_layout 0x423 0 False rt_sample 0) = 40"
    by (simp add: sample_layout_def fixed_layout_def variable_layout_def read_layout_def raw_layout_def regs_layout_def stack_layout_def
        tail_layout_def bits rt_sample_def counted_bytes_def ld_def get_le_def)
  have hd: "header_type ([9, 0, 0, 0, 2, 0, 48, 0] @ replicate 40 0) = Inr PERF_RECORD_SAMPLE"
    "header_size ([9, 0, 0, 0, 2, 0, 48, 0] @ replicate 40 0) = Inr 48" by code_simp+
  show ?thesis
    using sample_roundtrip [OF ok e, of "[9, 0, 0, 0, 2, 0, 48, 0] @ replicate 40 0" 0] l hd
    by (auto simp: same_fixed_def same_variable_def bits rt_sample_def)
qed

subsection \<open>Any event\<close>

text \<open>
  A part of the reader on an event of the size its header gives: it gives up, or moves on inside the
  event and changes the sample as \<open>P\<close> says.
\<close>

definition step_safe :: "u8 list \<Rightarrow> (parse_state \<Rightarrow> parse_result) \<Rightarrow> (perf_sample \<Rightarrow> perf_sample \<Rightarrow> bool) \<Rightarrow> bool" where
  "step_safe ev f P \<longleftrightarrow> (\<forall>pos d. pos \<le> length ev \<longrightarrow>
     f (pos, d) = Inr None \<or> (\<exists>pos' d'. f (pos, d) = Inr (Some (pos', d')) \<and> pos' \<le> length ev \<and> P d d'))"

lemma step_safeD: "step_safe ev f P \<Longrightarrow> pos \<le> length ev \<Longrightarrow>
  f (pos, d) = Inr None \<or> (\<exists>pos' d'. f (pos, d) = Inr (Some (pos', d')) \<and> pos' \<le> length ev \<and> P d d')"
  by (simp add: step_safe_def)

lemma step_safeI:
  assumes "\<And>pos d. f (pos, d) = (if c pos d then Inr (Some (p pos d, g pos d)) else Inr None)"
    and "\<And>pos d. c pos d \<Longrightarrow> p pos d \<le> length ev" "\<And>pos d. c pos d \<Longrightarrow> P d (g pos d)"
  shows "step_safe ev f P"
  unfolding step_safe_def assms(1) using assms(2,3) by simp

lemma step_safe_then:
  assumes f: "step_safe ev f P" and g: "step_safe ev g Q"
  shows "step_safe ev (\<lambda>st. and_then (f st) g) (P OO Q)"
  unfolding step_safe_def
proof (intro allI impI)
  fix pos d assume "pos \<le> length ev"
  with step_safeD [OF f, of pos d] consider "f (pos, d) = Inr None"
    | pos' d' where "f (pos, d) = Inr (Some (pos', d'))" "pos' \<le> length ev" "P d d'" by blast
  then show "and_then (f (pos, d)) g = Inr None \<or> (\<exists>pos' d'. and_then (f (pos, d)) g = Inr (Some (pos', d')) \<and> pos' \<le> length ev \<and> (P OO Q) d d')"
    by cases (use step_safeD [OF g] in \<open>force+\<close>)
qed

lemma step_safe_if:
  "(c \<Longrightarrow> step_safe ev f P) \<Longrightarrow> step_safe ev (\<lambda>st. if c then f st else Inr (Some st)) (\<lambda>d d'. if c then P d d' else d' = d)"
  by (cases c) (simp_all add: step_safe_def)

lemma step_safe_mono: "step_safe ev f P \<Longrightarrow> (\<And>d d'. P d d' \<Longrightarrow> Q d d') \<Longrightarrow> step_safe ev f Q"
  unfolding step_safe_def by blast

lemma step_safe_word:
  assumes "length ev = unat endp"
  shows "step_safe ev (checked_word ev endp c f) (\<lambda>d d'. if c then \<exists>v. d' = f v d else d' = d)"
  using assms by (auto simp: step_safe_def checked_word_def OVERFLOW_CHECK_u64_def overflow_word ld_def)

lemma ld_drop: "ld (drop pos ev) 0 = (if pos \<le> length ev then ld ev pos else Inl Out_Of_Bounds)"
  by (auto simp: ld_def get_le_def)

lemma le_div_bound:
  assumes "\<not> (- 1 div of_nat e :: u64) < nr" "0 < e" "e < 2 ^ 64"
  shows "unat nr * e < 2 ^ 64"
proof -
  have "unat (of_nat e :: u64) = e" using assms(3) by (simp add: unat_of_nat)
  then have "unat (- 1 div of_nat e :: u64) = (2 ^ 64 - 1) div e"
    by (simp add: unat_div_distrib unsigned_minus_1_eq_mask mask_eq_exp_minus_1)
  then have "unat nr \<le> (2 ^ 64 - 1) div e" using assms(1) by (simp add: word_less_nat_alt)
  then have "unat nr * e \<le> 2 ^ 64 - 1" using assms(2) by (simp add: less_eq_div_iff_mult_less_eq)
  then show ?thesis by simp
qed

lemma step_safe_counted:
  assumes l: "length ev = unat endp" and e: "0 < e" "e < 2 ^ 16" "elem = of_nat e"
  shows "step_safe ev (parse_counted ev endp elem f) (\<lambda>d d'. \<exists>p. d' = f p d \<and> counted_ok e p)"
  unfolding step_safe_def
proof (intro allI impI disjCI)
  fix pos d assume pos: "pos \<le> length ev" and ne: "\<not> (\<exists>pos' d'. parse_counted ev endp elem f (pos, d) = Inr (Some (pos', d')) \<and> pos' \<le> length ev \<and>
    (\<exists>p. d' = f p d \<and> counted_ok e p))"
  show "parse_counted ev endp elem f (pos, d) = Inr None"
  proof (cases "pos + 8 \<le> length ev")
    case True
    then obtain nr where nr: "ld ev pos = Inr nr" by (simp add: ld_def)
    show ?thesis
    proof (cases "- 1 div elem < nr")
      case False
      have "unat (of_nat e :: u64) = e" using e(2) by (simp add: unat_of_nat)
      then have sz: "unat (nr * elem) = e * unat nr"
        using unat_mult_small [of nr elem] le_div_bound [of e nr] False e by (simp add: mult.commute)
      then show ?thesis using ne nr True False l pos
        by (auto simp: parse_counted_def OVERFLOW_CHECK_u64_def OVERFLOW_CHECK_def overflow_word overflow_iff Let_def counted_ok_def ld_drop split: if_splits)
    qed (use True nr l in \<open>simp add: parse_counted_def OVERFLOW_CHECK_u64_def overflow_word Let_def\<close>)
  qed (use l in \<open>simp add: parse_counted_def OVERFLOW_CHECK_u64_def overflow_word\<close>)
qed

definition bytes_ok :: "nat \<Rightarrow> u8 list option \<Rightarrow> bool" where
  "bytes_ok n p \<longleftrightarrow> (\<exists>m. p = Some m \<and> n \<le> length m)"

lemma step_safe_raw:
  assumes l: "length ev = unat endp"
  shows "step_safe ev (parse_raw ev endp type sw)
    (\<lambda>d d'. \<exists>n p. d' = d\<lparr>s_raw_size := n, s_raw_data := p\<rparr> \<and> (bit type PERF_SAMPLE_RAW \<longrightarrow> bytes_ok (unat n) p))"
proof (cases "bit type PERF_SAMPLE_RAW")
  case True
  define n where "n pos = val32_0 (unswap_both sw (le_word (take 8 (drop pos ev))))" for pos
  have eq: "parse_raw ev endp type sw (pos, d) = (if pos + 8 \<le> length ev \<and> pos + 4 + unat (n pos) \<le> length ev then
      Inr (Some (pos + 4 + unat (n pos), d\<lparr>s_raw_size := n pos, s_raw_data := Some (drop (pos + 4) ev)\<rparr>)) else Inr None)" for pos d
    using l True unat_ucast_32_64 [of "n pos"]
    by (simp add: n_def parse_raw_def OVERFLOW_CHECK_u64_def OVERFLOW_CHECK_def overflow_word overflow_iff Let_def ld_def)
  show ?thesis
  proof (rule step_safeI [where c = "\<lambda>pos d. pos + 8 \<le> length ev \<and> pos + 4 + unat (n pos) \<le> length ev" and p = "\<lambda>pos d. pos + 4 + unat (n pos)"
      and g = "\<lambda>pos d. d\<lparr>s_raw_size := n pos, s_raw_data := Some (drop (pos + 4) ev)\<rparr>", OF eq])
    fix pos and d :: perf_sample assume *: "pos + 8 \<le> length ev \<and> pos + 4 + unat (n pos) \<le> length ev"
    then show "pos + 4 + unat (n pos) \<le> length ev" by simp
    have ok: "bytes_ok (unat (n pos)) (Some (drop (pos + 4) ev))" using * by (auto simp: bytes_ok_def)
    show "\<exists>m p. d\<lparr>s_raw_size := n pos, s_raw_data := Some (drop (pos + 4) ev)\<rparr> = d\<lparr>s_raw_size := m, s_raw_data := p\<rparr> \<and>
      (bit type PERF_SAMPLE_RAW \<longrightarrow> bytes_ok (unat m) p)" by (intro exI conjI, rule refl) (use ok in simp)
  qed
next
  case False
  have "\<exists>n p. d = d\<lparr>s_raw_size := n, s_raw_data := p\<rparr>" for d :: perf_sample
    by (intro exI [of _ "s_raw_size d"] exI [of _ "s_raw_data d"]) simp
  then show ?thesis using False by (simp add: step_safe_def parse_raw_def)
qed

lemma unat_hweight_8: "unat (hweight_long mk * 8) = 8 * unat (hweight_long mk)"
proof -
  have "card {i. bit mk i} \<le> card {..<64 :: nat}" by (rule card_mono) (use bit_imp_le_length [of mk] in auto)
  then have "unat (hweight_long mk) \<le> 64" by (simp add: hweight_long_eq)
  then show ?thesis using unat_mult_small [of "hweight_long mk" 8] by (simp add: mult.commute)
qed

lemma step_safe_regs:
  assumes l: "length ev = unat endp" and f: "\<And>g h d. f g (f h d) = f (g \<circ> h) d"
  shows "step_safe ev (parse_regs ev endp c mk f) (\<lambda>d d'. if c then \<exists>g. d' = f g d \<and>
     (\<forall>r. regs_abi (g r) \<noteq> 0 \<longrightarrow> regs_mask (g r) = mk \<and> bytes_ok (8 * unat (hweight_long mk)) (regs_regs (g r))) else d' = d)"
proof (cases c)
  case True
  define abi where "abi pos = (le_word (take 8 (drop pos ev)) :: u64)" for pos
  define g where "g pos r = (if abi pos = 0 then r\<lparr>regs_abi := 0\<rparr> else r\<lparr>regs_abi := abi pos, regs_mask := mk, regs_regs := Some (drop (pos + 8) ev)\<rparr>)" for pos and r :: regs_dump
  define n where "n pos = (if abi pos = 0 then 0 else 8 * unat (hweight_long mk))" for pos
  have eq: "parse_regs ev endp c mk f (pos, d) = (if pos + 8 + n pos \<le> length ev then Inr (Some (pos + 8 + n pos, f (g pos) d)) else Inr None)" for pos d
    using l True unat_hweight_8
    by (simp add: n_def g_def [abs_def] abi_def parse_regs_def OVERFLOW_CHECK_u64_def OVERFLOW_CHECK_def overflow_word overflow_iff Let_def ld_def f comp_def)
  show ?thesis
  proof (rule step_safeI [where c = "\<lambda>pos d. pos + 8 + n pos \<le> length ev" and p = "\<lambda>pos d. pos + 8 + n pos" and g = "\<lambda>pos. f (g pos)", OF eq])
    fix pos d assume *: "pos + 8 + n pos \<le> length ev"
    then show "pos + 8 + n pos \<le> length ev" .
    have ok: "\<forall>r. regs_abi (g pos r) \<noteq> 0 \<longrightarrow> regs_mask (g pos r) = mk \<and> bytes_ok (8 * unat (hweight_long mk)) (regs_regs (g pos r))"
      using * by (auto simp: g_def n_def bytes_ok_def)
    show "if c then \<exists>h. f (g pos) d = f h d \<and> (\<forall>r. regs_abi (h r) \<noteq> 0 \<longrightarrow> regs_mask (h r) = mk \<and>
      bytes_ok (8 * unat (hweight_long mk)) (regs_regs (h r))) else f (g pos) d = d" unfolding if_P [OF True] by (intro exI conjI, rule refl, rule ok)
  qed
qed (simp add: step_safe_def parse_regs_def)

lemma step_safe_stack:
  assumes l: "length ev = unat endp"
  shows "step_safe ev (parse_user_stack ev endp type)
    (\<lambda>d d'. \<exists>r. d' = d\<lparr>s_user_stack := r\<rparr> \<and> (bit type PERF_SAMPLE_STACK_USER \<longrightarrow> stack_size r \<noteq> 0 \<longrightarrow> bytes_ok (unat (stack_size r)) (stack_data r)))"
proof (cases "bit type PERF_SAMPLE_STACK_USER")
  case True
  define sz where "sz pos = (le_word (take 8 (drop pos ev)) :: u64)" for pos
  define dyn where "dyn pos = (le_word (take 8 (drop (pos + 8 + unat (sz pos)) ev)) :: u64)" for pos
  define n where "n pos = (if sz pos = 0 then 8 else 16 + unat (sz pos))" for pos
  define g where "g pos r = (if sz pos = 0 then r\<lparr>stack_offset := of_nat pos, stack_size := 0\<rparr>
     else r\<lparr>stack_offset := of_nat pos, stack_size := dyn pos, stack_data := Some (drop (pos + 8) ev)\<rparr>)" for pos and r :: stack_dump
  let ?c = "\<lambda>pos. pos + n pos \<le> length ev \<and> (sz pos \<noteq> 0 \<longrightarrow> \<not> sz pos < dyn pos)"
  have ld2: "ld ev (pos + 8 + unat (sz pos)) = Inr (dyn pos)" if "pos + 16 + unat (sz pos) \<le> length ev" for pos using that by (simp add: ld_def dyn_def)
  have ld1: "ld ev pos = Inr (sz pos)" if "pos + 8 \<le> length ev" for pos using that by (simp add: ld_def sz_def)
  have eq: "parse_user_stack ev endp type (pos, d) = (if ?c pos then Inr (Some (pos + n pos, d\<lparr>s_user_stack := g pos (s_user_stack d)\<rparr>)) else Inr None)" for pos d
    using l True ld1 [of pos] ld2 [of pos]
    by (cases "pos + 8 \<le> length ev"; cases "sz pos = 0")
       (simp_all add: n_def g_def parse_user_stack_def OVERFLOW_CHECK_u64_def OVERFLOW_CHECK_def overflow_word overflow_iff Let_def set_user_stack_def)
  show ?thesis
  proof (rule step_safeI [where c = "\<lambda>pos d. ?c pos" and p = "\<lambda>pos d. pos + n pos" and g = "\<lambda>pos d. d\<lparr>s_user_stack := g pos (s_user_stack d)\<rparr>", OF eq])
    fix pos and d :: perf_sample assume *: "?c pos"
    then show "pos + n pos \<le> length ev" by simp
    have ok: "stack_size (g pos (s_user_stack d)) \<noteq> 0 \<longrightarrow> bytes_ok (unat (stack_size (g pos (s_user_stack d)))) (stack_data (g pos (s_user_stack d)))"
      using * by (auto simp: g_def n_def bytes_ok_def word_less_nat_alt)
    show "\<exists>r. d\<lparr>s_user_stack := g pos (s_user_stack d)\<rparr> = d\<lparr>s_user_stack := r\<rparr> \<and>
       (bit type PERF_SAMPLE_STACK_USER \<longrightarrow> stack_size r \<noteq> 0 \<longrightarrow> bytes_ok (unat (stack_size r)) (stack_data r))"
      by (intro exI conjI, rule refl) (use ok in blast)
  qed
next
  case False
  have "\<exists>r. d = d\<lparr>s_user_stack := r\<rparr>" for d :: perf_sample by (rule exI [of _ "s_user_stack d"]) simp
  then show ?thesis using False by (simp add: step_safe_def parse_user_stack_def)
qed

lemma step_safe_group:
  assumes l: "length ev = unat endp"
  shows "step_safe ev (\<lambda>(pos, d). if g then
      let max_group_nr = - 1 div 16; nr = read_group_nr (s_read d); sz = nr * 16 in
      if max_group_nr < nr then Inr None
      else OVERFLOW_CHECK endp pos sz (Inr (Some (pos + unat sz, set_read (\<lambda>r. r\<lparr>read_group_values := Some (drop pos ev)\<rparr>) d)))
    else checked_word ev endp True (\<lambda>v. set_read (\<lambda>r. r\<lparr>read_one_id := v\<rparr>)) (pos, d))
    (\<lambda>d d'. \<exists>r. d' = d\<lparr>s_read := r\<rparr> \<and> (g \<longrightarrow> bytes_ok (16 * unat (read_group_nr r)) (read_group_values r)))" (is "step_safe ev ?f ?P")
proof (cases g)
  case True
  let ?nr = "\<lambda>d. read_group_nr (s_read d)"
  let ?c = "\<lambda>pos d. \<not> (- 1 div 16 :: u64) < ?nr d \<and> pos + 16 * unat (?nr d) \<le> length ev"
  have eq: "?f (pos, d) = (if ?c pos d then Inr (Some (pos + 16 * unat (?nr d), d\<lparr>s_read := (s_read d)\<lparr>read_group_values := Some (drop pos ev)\<rparr>\<rparr>)) else Inr None)" for pos d
  proof -
    have sz: "unat (?nr d * 16) = 16 * unat (?nr d)" if "\<not> (- 1 div 16 :: u64) < ?nr d"
      using le_div_bound [of 16 "?nr d"] that unat_mult_small [of "?nr d" 16] by (simp add: mult.commute)
    show ?thesis
      using True l sz by (simp add: Let_def OVERFLOW_CHECK_def overflow_iff set_read_def)
  qed
  show ?thesis
  proof (rule step_safeI [where c = ?c and p = "\<lambda>pos d. pos + 16 * unat (?nr d)"
        and g = "\<lambda>pos d. d\<lparr>s_read := (s_read d)\<lparr>read_group_values := Some (drop pos ev)\<rparr>\<rparr>", OF eq])
    fix pos and d :: perf_sample assume *: "?c pos d"
    then show "pos + 16 * unat (?nr d) \<le> length ev" by simp
    have ok: "bytes_ok (16 * unat (?nr d)) (Some (drop pos ev))" using * by (auto simp: bytes_ok_def)
    show "?P d (d\<lparr>s_read := (s_read d)\<lparr>read_group_values := Some (drop pos ev)\<rparr>\<rparr>)"
      by (intro exI conjI, rule refl) (use ok in simp)
  qed
next
  case False
  then have "?f = checked_word ev endp True (\<lambda>v. set_read (\<lambda>r. r\<lparr>read_one_id := v\<rparr>))" by (simp add: fun_eq_iff)
  then show ?thesis using step_safe_mono [OF step_safe_word [OF l, of True "\<lambda>v. set_read (\<lambda>r. r\<lparr>read_one_id := v\<rparr>)"], of ?P] False
    by (auto simp: set_read_def)
qed

lemma step_safe_read:
  assumes l: "length ev = unat endp"
  shows "step_safe ev (parse_read ev endp type rf)
    (\<lambda>d d'. \<exists>r. d' = d\<lparr>s_read := r\<rparr> \<and> (bit type PERF_SAMPLE_READ \<and> bit rf PERF_FORMAT_GROUP \<longrightarrow> bytes_ok (16 * unat (read_group_nr r)) (read_group_values r)))"
    (is "step_safe ev _ ?P")
proof (cases "bit type PERF_SAMPLE_READ")
  case True
  let ?u = "\<lambda>d d' :: perf_sample. \<exists>r. d' = d\<lparr>s_read := r\<rparr>"
  have self: "\<exists>r. d = d\<lparr>s_read := r\<rparr>" for d :: perf_sample by (rule exI [of _ "s_read d"]) simp
  have w: "step_safe ev (checked_word ev endp c (\<lambda>v. set_read (h v))) ?u" for c h
    by (rule step_safe_mono [OF step_safe_word [OF l]])
       (auto simp: set_read_def self split: if_splits)
  have w1: "step_safe ev (checked_word ev endp True (\<lambda>v. if bit rf PERF_FORMAT_GROUP then set_read (\<lambda>r. r\<lparr>read_group_nr := v\<rparr>) else set_read (\<lambda>r. r\<lparr>read_one_value := v\<rparr>))) ?u"
    using w [of True "\<lambda>v r. r\<lparr>read_group_nr := v\<rparr>"] w [of True "\<lambda>v r. r\<lparr>read_one_value := v\<rparr>"] by (cases "bit rf PERF_FORMAT_GROUP") simp_all
  have "step_safe ev (parse_read ev endp type rf) (?u OO ?u OO ?u OO (\<lambda>d d'. \<exists>r. d' = d\<lparr>s_read := r\<rparr> \<and>
      (bit rf PERF_FORMAT_GROUP \<longrightarrow> bytes_ok (16 * unat (read_group_nr r)) (read_group_values r))))"
    unfolding parse_read_def [abs_def] if_P [OF True]
    by (rule step_safe_then [OF w1], rule step_safe_then [OF w], rule step_safe_then [OF w], rule step_safe_group [OF l])
  then show ?thesis by (rule step_safe_mono) auto
next
  case False
  have "\<exists>r. d = d\<lparr>s_read := r\<rparr>" for d :: perf_sample by (rule exI [of _ "s_read d"]) simp
  then show ?thesis using False by (simp add: step_safe_def parse_read_def)
qed

lemma step_safe_tail:
  assumes l: "length ev = unat endp"
  shows "step_safe ev (parse_tail ev endp type) (\<lambda>d d'. \<exists>w r t. d' = d\<lparr>s_weight := w, s_data_src := r, s_transaction := t\<rparr>)"
proof -
  let ?f1 = "\<lambda>(pos, d). checked_word ev endp (bit type PERF_SAMPLE_WEIGHT) (\<lambda>v d. d\<lparr>s_weight := v\<rparr>) (pos, d\<lparr>s_weight := 0\<rparr>)"
  let ?f2 = "\<lambda>(pos, d). checked_word ev endp (bit type PERF_SAMPLE_DATA_SRC) (\<lambda>v d. d\<lparr>s_data_src := v\<rparr>) (pos, d\<lparr>s_data_src := PERF_MEM_DATA_SRC_NONE\<rparr>)"
  let ?f3 = "\<lambda>(pos, d). checked_word ev endp (bit type PERF_SAMPLE_TRANSACTION) (\<lambda>v d. d\<lparr>s_transaction := v\<rparr>) (pos, d\<lparr>s_transaction := 0\<rparr>)"
  have "step_safe ev ?f1 (\<lambda>d d'. \<exists>v. d' = d\<lparr>s_weight := v\<rparr>)" "step_safe ev ?f2 (\<lambda>d d'. \<exists>v. d' = d\<lparr>s_data_src := v\<rparr>)" "step_safe ev ?f3 (\<lambda>d d'. \<exists>v. d' = d\<lparr>s_transaction := v\<rparr>)"
    using l by (auto simp: step_safe_def checked_word_def OVERFLOW_CHECK_u64_def overflow_word ld_def)
  then have "step_safe ev (\<lambda>st. and_then (?f1 st) (\<lambda>st. and_then (?f2 st) ?f3))
     ((\<lambda>d d'. \<exists>v. d' = d\<lparr>s_weight := v\<rparr>) OO (\<lambda>d d'. \<exists>v. d' = d\<lparr>s_data_src := v\<rparr>) OO (\<lambda>d d'. \<exists>v. d' = d\<lparr>s_transaction := v\<rparr>))"
    by (intro step_safe_then)
  moreover have "(\<lambda>st. and_then (?f1 st) (\<lambda>st. and_then (?f2 st) ?f3)) = parse_tail ev endp type"
    by (auto simp: fun_eq_iff parse_tail_def split_def)
  ultimately show ?thesis by (simp only:) (erule step_safe_mono, auto)
qed

definition wlen :: "u64 \<Rightarrow> nat \<Rightarrow> nat" where
  "wlen type b = (if bit type b then 8 else 0)"

lemma plain_word_in:
  "pos + wlen type b \<le> length ev \<Longrightarrow> plain_word ev (bit type b) f (pos, d) =
     Inr (Some (pos + wlen type b, if bit type b then f (le_word (take 8 (drop pos ev))) d else d))"
  by (cases "bit type b") (simp_all add: plain_word_def wlen_def ld_def)

lemma length_fixed: "length (fixed_layout type sw s u) = wlen type PERF_SAMPLE_IDENTIFIER + (wlen type PERF_SAMPLE_IP + (wlen type PERF_SAMPLE_TID +
  (wlen type PERF_SAMPLE_TIME + (wlen type PERF_SAMPLE_ADDR + (wlen type PERF_SAMPLE_ID + (wlen type PERF_SAMPLE_STREAM_ID +
  (wlen type PERF_SAMPLE_CPU + wlen type PERF_SAMPLE_PERIOD)))))))"
  unfolding fixed_layout_def wlen_def by simp

lemma parse_fixed_in:
  fixes d :: perf_sample
  assumes "int (pos) + evsel_sample_size_of type \<le> int (length ev)"
  shows "\<exists>d' p. parse_fixed ev type sw (pos, d) = Inr (Some (p, d')) \<and> p \<le> length ev \<and>
     s_id d' = (if bit type PERF_SAMPLE_ID then le_word (take 8 (drop (pos + wlen type PERF_SAMPLE_IDENTIFIER + wlen type PERF_SAMPLE_IP +
         wlen type PERF_SAMPLE_TID + wlen type PERF_SAMPLE_TIME + wlen type PERF_SAMPLE_ADDR) ev))
       else if bit type PERF_SAMPLE_IDENTIFIER then le_word (take 8 (drop pos ev)) else s_id d)"
proof -
  have l: "pos + length (fixed_layout type sw d 0) \<le> length ev" using assms sample_size_fixed [of type sw d 0] by simp
  let ?w = "wlen type"
  have i: "pos + ?w PERF_SAMPLE_IDENTIFIER \<le> length ev"
    "pos + ?w PERF_SAMPLE_IDENTIFIER + ?w PERF_SAMPLE_IP \<le> length ev"
    "pos + ?w PERF_SAMPLE_IDENTIFIER + ?w PERF_SAMPLE_IP + ?w PERF_SAMPLE_TID \<le> length ev"
    "pos + ?w PERF_SAMPLE_IDENTIFIER + ?w PERF_SAMPLE_IP + ?w PERF_SAMPLE_TID + ?w PERF_SAMPLE_TIME \<le> length ev"
    "pos + ?w PERF_SAMPLE_IDENTIFIER + ?w PERF_SAMPLE_IP + ?w PERF_SAMPLE_TID + ?w PERF_SAMPLE_TIME + ?w PERF_SAMPLE_ADDR \<le> length ev"
    "pos + ?w PERF_SAMPLE_IDENTIFIER + ?w PERF_SAMPLE_IP + ?w PERF_SAMPLE_TID + ?w PERF_SAMPLE_TIME + ?w PERF_SAMPLE_ADDR + ?w PERF_SAMPLE_ID \<le> length ev"
    "pos + ?w PERF_SAMPLE_IDENTIFIER + ?w PERF_SAMPLE_IP + ?w PERF_SAMPLE_TID + ?w PERF_SAMPLE_TIME + ?w PERF_SAMPLE_ADDR + ?w PERF_SAMPLE_ID + ?w PERF_SAMPLE_STREAM_ID \<le> length ev"
    "pos + ?w PERF_SAMPLE_IDENTIFIER + ?w PERF_SAMPLE_IP + ?w PERF_SAMPLE_TID + ?w PERF_SAMPLE_TIME + ?w PERF_SAMPLE_ADDR + ?w PERF_SAMPLE_ID + ?w PERF_SAMPLE_STREAM_ID + ?w PERF_SAMPLE_CPU \<le> length ev"
    "pos + ?w PERF_SAMPLE_IDENTIFIER + ?w PERF_SAMPLE_IP + ?w PERF_SAMPLE_TID + ?w PERF_SAMPLE_TIME + ?w PERF_SAMPLE_ADDR + ?w PERF_SAMPLE_ID + ?w PERF_SAMPLE_STREAM_ID + ?w PERF_SAMPLE_CPU + ?w PERF_SAMPLE_PERIOD \<le> length ev"
    using l unfolding length_fixed by linarith+
  show ?thesis
    unfolding parse_fixed_def i [THEN plain_word_in] and_then_simps fst_conv snd_conv Let_def if_upd
    by (intro exI conjI, rule refl, rule i(9)) simp
qed

lemma step_safe_optional:
  assumes "length ev = unat endp" "0 < e" "e < 2 ^ 16" "elem = of_nat e"
  shows "step_safe ev (\<lambda>st. if c then parse_counted ev endp elem f st else Inr (Some st)) (\<lambda>d d'. if c then \<exists>p. d' = f p d \<and> counted_ok e p else d' = d)"
  by (rule step_safe_if) (rule step_safe_counted [OF assms])

definition variable_ok :: "perf_evsel \<Rightarrow> perf_sample \<Rightarrow> perf_sample \<Rightarrow> bool" where
  "variable_ok evsel d d' \<longleftrightarrow> s_id d' = s_id d \<and> sample_wf (attr_sample_type evsel) (attr_read_format evsel) d'"

lemma step_safe_variable:
  assumes l: "length ev = unat endp"
  shows "step_safe ev (parse_variable evsel ev endp) (variable_ok evsel)"
proof -
  let ?t = "attr_sample_type evsel" and ?rf = "attr_read_format evsel"
  let ?P1 = "\<lambda>d d'. \<exists>r. d' = d\<lparr>s_read := r\<rparr> \<and> (bit ?t PERF_SAMPLE_READ \<and> bit ?rf PERF_FORMAT_GROUP \<longrightarrow> bytes_ok (16 * unat (read_group_nr r)) (read_group_values r))"
  let ?P2 = "\<lambda>d d'. if bit ?t PERF_SAMPLE_CALLCHAIN then \<exists>p. d' = d\<lparr>s_callchain := p\<rparr> \<and> counted_ok 8 p else d' = d"
  let ?P3 = "\<lambda>d d'. \<exists>n p. d' = d\<lparr>s_raw_size := n, s_raw_data := p\<rparr> \<and> (bit ?t PERF_SAMPLE_RAW \<longrightarrow> bytes_ok (unat n) p)"
  let ?P4 = "\<lambda>d d'. if bit ?t PERF_SAMPLE_BRANCH_STACK then \<exists>p. d' = d\<lparr>s_branch_stack := p\<rparr> \<and> counted_ok 24 p else d' = d"
  let ?R = "\<lambda>mk g. \<forall>r. regs_abi (g r) \<noteq> 0 \<longrightarrow> regs_mask (g r) = mk \<and> bytes_ok (8 * unat (hweight_long mk)) (regs_regs (g r))"
  let ?P5 = "\<lambda>d d'. if bit ?t PERF_SAMPLE_REGS_USER then \<exists>g. d' = set_user_regs g d \<and> ?R (attr_sample_regs_user evsel) g else d' = d"
  let ?P6 = "\<lambda>d d'. \<exists>r. d' = d\<lparr>s_user_stack := r\<rparr> \<and> (bit ?t PERF_SAMPLE_STACK_USER \<longrightarrow> stack_size r \<noteq> 0 \<longrightarrow> bytes_ok (unat (stack_size r)) (stack_data r))"
  let ?P7 = "\<lambda>d d'. \<exists>w r t. d' = d\<lparr>s_weight := w, s_data_src := r, s_transaction := t\<rparr>"
  let ?P8 = "\<lambda>d d'. if bit ?t PERF_SAMPLE_REGS_INTR then \<exists>g. d' = set_intr_regs g (set_intr_regs (\<lambda>r. r\<lparr>regs_abi := 0\<rparr>) d) \<and> ?R (attr_sample_regs_intr evsel) g
     else d' = set_intr_regs (\<lambda>r. r\<lparr>regs_abi := 0\<rparr>) d"
  have intr: "step_safe ev (\<lambda>(pos, d). parse_regs ev endp (bit ?t PERF_SAMPLE_REGS_INTR) (attr_sample_regs_intr evsel) set_intr_regs
      (pos, set_intr_regs (\<lambda>r. r\<lparr>regs_abi := 0\<rparr>) d)) ?P8"
    using step_safe_regs [OF l set_regs_comp(2), of "bit ?t PERF_SAMPLE_REGS_INTR" "attr_sample_regs_intr evsel"] unfolding step_safe_def prod.case by blast
  have cc: "step_safe ev (\<lambda>st. if bit ?t PERF_SAMPLE_CALLCHAIN then parse_counted ev endp 8 (\<lambda>p d. d\<lparr>s_callchain := p\<rparr>) st else Inr (Some st)) ?P2"
    by (rule step_safe_optional [OF l]) simp_all
  have bs: "step_safe ev (\<lambda>st. if bit ?t PERF_SAMPLE_BRANCH_STACK then parse_counted ev endp 24 (\<lambda>p d. d\<lparr>s_branch_stack := p\<rparr>) st else Inr (Some st)) ?P4"
    by (rule step_safe_optional [OF l]) simp_all
  have "step_safe ev (parse_variable evsel ev endp) (?P1 OO ?P2 OO ?P3 OO ?P4 OO ?P5 OO ?P6 OO ?P7 OO ?P8)"
    unfolding parse_variable_def [abs_def] Let_def parse_callchain_def parse_branch_stack_def
    by (rule step_safe_then [OF step_safe_read [OF l]], rule step_safe_then [OF cc],
        rule step_safe_then [OF step_safe_raw [OF l]], rule step_safe_then [OF bs],
        rule step_safe_then [OF step_safe_regs [OF l set_regs_comp(1)]], rule step_safe_then [OF step_safe_stack [OF l]],
        rule step_safe_then [OF step_safe_tail [OF l]], rule intr)
  then show ?thesis
  proof (rule step_safe_mono)
    fix d d' assume "(?P1 OO ?P2 OO ?P3 OO ?P4 OO ?P5 OO ?P6 OO ?P7 OO ?P8) d d'"
    then obtain d1 d2 d3 d4 d5 d6 d7 where p: "?P1 d d1" "?P2 d1 d2" "?P3 d2 d3" "?P4 d3 d4" "?P5 d4 d5" "?P6 d5 d6" "?P7 d6 d7" "?P8 d7 d'"
      by (elim relcomppE) blast
    have k1: "s_id d1 = s_id d" using p(1) by auto
    have k2: "s_id d2 = s_id d1" "s_read d2 = s_read d1" using p(2) by (auto split: if_splits)
    have k3: "s_id d3 = s_id d2" "s_read d3 = s_read d2" "s_callchain d3 = s_callchain d2" using p(3) by auto
    have k4: "s_id d4 = s_id d3" "s_read d4 = s_read d3" "s_callchain d4 = s_callchain d3" "s_raw_size d4 = s_raw_size d3" "s_raw_data d4 = s_raw_data d3"
      using p(4) by (auto split: if_splits)
    have k5: "s_id d5 = s_id d4" "s_read d5 = s_read d4" "s_callchain d5 = s_callchain d4" "s_raw_size d5 = s_raw_size d4" "s_raw_data d5 = s_raw_data d4"
        "s_branch_stack d5 = s_branch_stack d4"
      using p(5) by (auto simp: set_user_regs_def split: if_splits)
    have k6: "s_id d6 = s_id d5" "s_read d6 = s_read d5" "s_callchain d6 = s_callchain d5" "s_raw_size d6 = s_raw_size d5" "s_raw_data d6 = s_raw_data d5"
        "s_branch_stack d6 = s_branch_stack d5" "s_user_regs d6 = s_user_regs d5"
      using p(6) by auto
    have k7: "s_id d7 = s_id d6" "s_read d7 = s_read d6" "s_callchain d7 = s_callchain d6" "s_raw_size d7 = s_raw_size d6" "s_raw_data d7 = s_raw_data d6"
        "s_branch_stack d7 = s_branch_stack d6" "s_user_regs d7 = s_user_regs d6" "s_user_stack d7 = s_user_stack d6"
      using p(7) by auto
    have k8: "s_id d' = s_id d7" "s_read d' = s_read d7" "s_callchain d' = s_callchain d7" "s_raw_size d' = s_raw_size d7" "s_raw_data d' = s_raw_data d7"
        "s_branch_stack d' = s_branch_stack d7" "s_user_regs d' = s_user_regs d7" "s_user_stack d' = s_user_stack d7"
      using p(8) by (auto simp: set_intr_regs_def split: if_splits)
    note k = k8 k7 k6 k5 k4 k3 k2 k1
    have "bit ?t PERF_SAMPLE_READ \<and> bit ?rf PERF_FORMAT_GROUP \<longrightarrow> bytes_ok (16 * unat (read_group_nr (s_read d1))) (read_group_values (s_read d1))" using p(1) by auto
    moreover have "bit ?t PERF_SAMPLE_CALLCHAIN \<longrightarrow> counted_ok 8 (s_callchain d2)" using p(2) by auto
    moreover have "bit ?t PERF_SAMPLE_RAW \<longrightarrow> bytes_ok (unat (s_raw_size d3)) (s_raw_data d3)" using p(3) by auto
    moreover have "bit ?t PERF_SAMPLE_BRANCH_STACK \<longrightarrow> counted_ok 24 (s_branch_stack d4)" using p(4) by auto
    moreover have "bit ?t PERF_SAMPLE_REGS_USER \<and> regs_abi (s_user_regs d5) \<noteq> 0 \<longrightarrow>
        bytes_ok (8 * unat (hweight_long (regs_mask (s_user_regs d5)))) (regs_regs (s_user_regs d5))" using p(5) by (auto simp: set_user_regs_def)
    moreover have "bit ?t PERF_SAMPLE_STACK_USER \<and> stack_size (s_user_stack d6) \<noteq> 0 \<longrightarrow> bytes_ok (unat (stack_size (s_user_stack d6))) (stack_data (s_user_stack d6))"
      using p(6) by auto
    moreover have "bit ?t PERF_SAMPLE_REGS_INTR \<and> regs_abi (s_intr_regs d') \<noteq> 0 \<longrightarrow>
        bytes_ok (8 * unat (hweight_long (regs_mask (s_intr_regs d')))) (regs_regs (s_intr_regs d'))" using p(8) by (auto simp: set_intr_regs_def)
    ultimately show "variable_ok evsel d d'" unfolding variable_ok_def sample_wf_def k bytes_ok_def by blast
  qed
qed

lemma header_sizeD: "header_size ev = Inr sz \<Longrightarrow> 8 \<le> length ev"
  by (auto simp: header_size_def get_le_def split: if_splits)

text \<open>The configuration keeps a size that covers the fixed words, and the positions of the id.\<close>

definition evsel_inv :: "perf_evsel \<Rightarrow> bool" where
  "evsel_inv evsel \<longleftrightarrow> evsel_sample_size_of (attr_sample_type evsel) \<le> uint (evsel_sample_size evsel) \<and>
     evsel_id_pos evsel = calc_id_pos (attr_sample_type evsel) \<and> evsel_is_pos evsel = calc_is_pos (attr_sample_type evsel)"

lemma parse_sample_cases:
  assumes l: "header_size ev = Inr sz" "length ev = unat sz" and t: "header_type ev = Inr PERF_RECORD_SAMPLE" and inv: "evsel_inv evsel"
  obtains d where "perf_evsel__parse_sample evsel ev = Inr (- EFAULT, d)"
  | d0 p d d' misc where "perf_evsel__parse_sample evsel ev = Inr (0, d')" "variable_ok evsel d d'"
      "parse_fixed ev (attr_sample_type evsel) (evsel_needs_swap evsel) (8, (initial_sample evsel misc)\<lparr>s_id := - 1\<rparr>) = Inr (Some (p, d))"
      "8 + evsel_sample_size_of (attr_sample_type evsel) \<le> int (length ev)"
proof -
  note 8 = header_sizeD [OF l(1)]
  obtain misc where misc: "header_misc ev = Inr misc" using header_misc_Inr [OF 8] by blast
  let ?d = "(initial_sample evsel misc)\<lparr>s_id := - 1\<rparr>"
  show ?thesis
  proof (cases "uint sz < uint (evsel_sample_size evsel) + 8")
    case True
    then show ?thesis using that(1) l(1) t misc unfolding perf_evsel__parse_sample_def by simp
  next
    case False
    then have f: "int 8 + evsel_sample_size_of (attr_sample_type evsel) \<le> int (length ev)" using inv l(2) by (simp add: evsel_inv_def)
    obtain d p where d: "parse_fixed ev (attr_sample_type evsel) (evsel_needs_swap evsel) (8, ?d) = Inr (Some (p, d))" "p \<le> length ev"
      using parse_fixed_in [OF f, of "evsel_needs_swap evsel" ?d] by blast
    have pr: "perf_evsel__parse_sample evsel ev = bnd (parse_variable evsel ev sz (p, d))
        (\<lambda>r. case r of None \<Rightarrow> Inr (- EFAULT, initial_sample evsel misc) | Some (pos, data) \<Rightarrow> Inr (0, data))"
      unfolding perf_evsel__parse_sample_def l(1) t misc bnd_simps Let_def d(1) and_then_simps using False by simp
    from step_safeD [OF step_safe_variable [OF l(2)] d(2), of evsel d]
    consider "parse_variable evsel ev sz (p, d) = Inr None" | p' d' where "parse_variable evsel ev sz (p, d) = Inr (Some (p', d'))" "variable_ok evsel d d'" by blast
    then show ?thesis
      by cases (use that pr d f in auto)
  qed
qed

text \<open>
  Claim C3.  Reading a sample event is safe whatever the event holds: on an event as long as its header says,
  \<open>perf_evsel__parse_sample\<close> reads inside the event only and returns 0 or \<open>-EFAULT\<close>, and
  after 0 the sample is well formed: each of its pointers reaches as many bytes of the event as the
  count or size beside it says.
\<close>

theorem parsed_sample_well_formed:
  assumes "header_size ev = Inr sz" and "length ev = unat sz" and "header_type ev = Inr PERF_RECORD_SAMPLE" and "evsel_inv evsel"
  shows "\<exists>r d. perf_evsel__parse_sample evsel ev = Inr (r, d) \<and>
    (r = - EFAULT \<or> r = 0 \<and> sample_wf (attr_sample_type evsel) (attr_read_format evsel) d)"
  by (rule parse_sample_cases [OF assms]) (auto simp: variable_ok_def)

theorem parsed_sample_well_formed_witness:
  "\<exists>r d. perf_evsel__parse_sample (rt_evsel\<lparr>attr_sample_type := 0x420, evsel_sample_size := 0\<rparr>) [9, 0, 0, 0, 2, 0, 16, 0, 1, 0, 0, 0, 0, 0, 0, 0] = Inr (r, d) \<and>
    (r = - EFAULT \<or> r = 0 \<and> sample_wf 0x420 0 d)"
proof -
  have h: "header_size [9, 0, 0, 0, 2, 0, 16, 0, 1, 0, 0, 0, 0, 0, 0, 0] = Inr 16"
    "header_type [9, 0, 0, 0, 2, 0, 16, 0, 1, 0, 0, 0, 0, 0, 0, 0] = Inr PERF_RECORD_SAMPLE" by code_simp+
  have i: "evsel_inv (rt_evsel\<lparr>attr_sample_type := 0x420, evsel_sample_size := 0\<rparr>)" by (simp add: evsel_inv_def rt_evsel_def) code_simp
  show ?thesis using parsed_sample_well_formed [OF h(1) _ h(2) i] by (simp add: rt_evsel_def)
qed

subsection \<open>The id sample of the other events\<close>

definition event_words :: "u16 \<Rightarrow> nat" where
  "event_words sz = (unat sz - 8) div 8"

lemma array_words:
  assumes "8 \<le> unat sz"
  shows "sint (drop_bit 3 (ucast (sz :: u16) - 8 :: u64)) = int (event_words sz)"
proof -
  have "unat (ucast sz - 8 :: u64) = unat sz - 8" using assms by (simp add: unat_sub_if' unat_ucast_16_64)
  moreover have "take_bit 64 (unat sz - 8) = unat sz - 8" by (rule take_bit_nat_eq_self) (use unat_u16 [of sz] in simp)
  ultimately have "unat (drop_bit 3 (ucast sz - 8 :: u64)) = event_words sz" by (simp only: unsigned_drop_bit_eq event_words_def) (simp add: drop_bit_eq_div)
  then have u: "uint (drop_bit 3 (ucast sz - 8 :: u64)) = int (event_words sz)" by (metis uint_nat)
  moreover have "event_words sz < 2 ^ 63" using unat_u16 [of sz] by (simp add: event_words_def)
  ultimately show ?thesis unfolding sint_uint u by (subst signed_take_bit_int_eq_self) simp_all
qed

definition backs :: "nat \<Rightarrow> (int \<times> perf_sample \<Rightarrow> (int \<times> perf_sample) c_result) \<Rightarrow> nat \<Rightarrow> bool" where
  "backs n f k \<longleftrightarrow> (\<forall>q d. - 1 \<le> q \<longrightarrow> q \<le> int n \<longrightarrow>
     (if int k \<le> q + 1 then \<exists>d'. f (8 * q, d) = Inr (8 * (q - int k), d') else f (8 * q, d) = Inl Out_Of_Bounds))"

lemma backsD: "backs n f k \<Longrightarrow> - 1 \<le> q \<Longrightarrow> q \<le> int n \<Longrightarrow>
  if int k \<le> q + 1 then \<exists>d'. f (8 * q, d) = Inr (8 * (q - int k), d') else f (8 * q, d) = Inl Out_Of_Bounds"
  unfolding backs_def by blast

lemma backs_bnd: "backs n f a \<Longrightarrow> backs n g b \<Longrightarrow> backs n (\<lambda>st. bnd (f st) g) (a + b)"
proof -
  assume f: "backs n f a" and g: "backs n g b"
  have "if int (a + b) \<le> q + 1 then \<exists>d'. bnd (f (8 * q, d)) g = Inr (8 * (q - int (a + b)), d') else bnd (f (8 * q, d)) g = Inl Out_Of_Bounds"
    if q: "- 1 \<le> q" "q \<le> int n" for q d
  proof (cases "int a \<le> q + 1")
    case True
    then obtain d' where d': "f (8 * q, d) = Inr (8 * (q - int a), d')" using f q unfolding backs_def by (metis (full_types))
    have "if int b \<le> q - int a + 1 then \<exists>e. g (8 * (q - int a), d') = Inr (8 * (q - int a - int b), e) else g (8 * (q - int a), d') = Inl Out_Of_Bounds"
      using backsD [OF g, of "q - int a" d'] q True by (simp add: algebra_simps)
    then show ?thesis using d' by (auto simp: algebra_simps split: if_splits)
  next
    case False
    then show ?thesis using f q by (simp add: backs_def)
  qed
  then show ?thesis unfolding backs_def by blast
qed

lemma backs_word: "8 * n + 8 \<le> length ev \<Longrightarrow> backs n (back_word ev c f) (of_bool c)"
  unfolding backs_def back_word_def ldi_def ld_def
  by (auto simp: nat_mult_distrib)

definition id_words :: "u64 \<Rightarrow> nat" where
  "id_words type = of_bool (bit type PERF_SAMPLE_IDENTIFIER) + (of_bool (bit type PERF_SAMPLE_CPU) + (of_bool (bit type PERF_SAMPLE_STREAM_ID) +
     (of_bool (bit type PERF_SAMPLE_ID) + (of_bool (bit type PERF_SAMPLE_TIME) + of_bool (bit type PERF_SAMPLE_TID)))))"

lemma event_words_fit: "8 \<le> unat sz \<Longrightarrow> 8 * event_words sz + 8 \<le> unat sz"
  by (simp add: event_words_def)

lemma parse_id_sample_words:
  assumes "header_size ev = Inr sz" "length ev = unat sz"
  shows "if id_words (attr_sample_type evsel) \<le> event_words sz + 1 then \<exists>d'. perf_evsel__parse_id_sample evsel ev d = Inr (0, d')
     else perf_evsel__parse_id_sample evsel ev d = Inl Out_Of_Bounds"
proof -
  let ?t = "attr_sample_type evsel" and ?sw = "evsel_needs_swap evsel"
  have 8: "8 \<le> unat sz" using header_sizeD [OF assms(1)] assms(2) by simp
  let ?f = "\<lambda>st. bnd (back_word ev (bit ?t PERF_SAMPLE_IDENTIFIER) (\<lambda>v d. d\<lparr>s_id := v\<rparr>) st) (\<lambda>st.
      bnd (back_word ev (bit ?t PERF_SAMPLE_CPU) (\<lambda>v d. d\<lparr>s_cpu := val32_0 (unswap_first ?sw v)\<rparr>) st) (\<lambda>st.
      bnd (back_word ev (bit ?t PERF_SAMPLE_STREAM_ID) (\<lambda>v d. d\<lparr>s_stream_id := v\<rparr>) st) (\<lambda>st.
      bnd (back_word ev (bit ?t PERF_SAMPLE_ID) (\<lambda>v d. d\<lparr>s_id := v\<rparr>) st) (\<lambda>st.
      bnd (back_word ev (bit ?t PERF_SAMPLE_TIME) (\<lambda>v d. d\<lparr>s_time := v\<rparr>) st)
      (back_word ev (bit ?t PERF_SAMPLE_TID) (\<lambda>v d. let u = unswap_both ?sw v in d\<lparr>s_pid := val32_0 u, s_tid := val32_1 u\<rparr>))))))"
  have b: "backs (event_words sz) (back_word ev c h) (of_bool c)" for c h by (rule backs_word) (use event_words_fit [OF 8] assms(2) in simp)
  have f: "backs (event_words sz) ?f (id_words ?t)"
    unfolding id_words_def
    by (rule backs_bnd [OF b], rule backs_bnd [OF b], rule backs_bnd [OF b], rule backs_bnd [OF b], rule backs_bnd [OF b], rule b)
  have "perf_evsel__parse_id_sample evsel ev d = bnd (?f (8 * int (event_words sz), d)) (\<lambda>(pos, d). Inr (0, d))"
    unfolding perf_evsel__parse_id_sample_def assms(1) bnd_simps Let_def array_words [OF 8] bnd_assoc by (simp add: algebra_simps)
  moreover have "if id_words ?t \<le> event_words sz + 1 then \<exists>d'. ?f (8 * int (event_words sz), d) = Inr (8 * (int (event_words sz) - int (id_words ?t)), d')
      else ?f (8 * int (event_words sz), d) = Inl Out_Of_Bounds"
    using f unfolding backs_def by (elim allE [of _ "int (event_words sz)"] allE [of _ d]) (auto split: if_splits)
  ultimately show ?thesis by (auto split: if_splits)
qed

text \<open>
  Claim C36.  \<open>perf_evsel__parse_id_sample\<close> walks backwards from the end of an event without comparing its position
  with the start: it reads outside the event exactly when the sample type selects more words than the
  event has, its header included, although the size of the event comes from the input.
\<close>

theorem id_sample_reads_unchecked:
  assumes "header_size ev = Inr sz" and "length ev = unat sz"
    and "header_type ev = Inr etype" and "etype \<noteq> PERF_RECORD_SAMPLE" and "attr_sample_id_all evsel"
  shows "perf_evsel__parse_sample evsel ev = Inl Out_Of_Bounds \<longleftrightarrow> event_words sz + 1 < id_words (attr_sample_type evsel)"
proof -
  obtain misc where misc: "header_misc ev = Inr misc" using header_misc_Inr [OF header_sizeD [OF assms(1)]] by blast
  have "perf_evsel__parse_sample evsel ev = perf_evsel__parse_id_sample evsel ev (initial_sample evsel misc)"
    using assms misc by (simp add: perf_evsel__parse_sample_def)
  then show ?thesis using parse_id_sample_words [OF assms(1,2), of evsel "initial_sample evsel misc"] by (auto split: if_splits)
qed

theorem id_sample_reads_unchecked_witness:
  "perf_evsel__parse_sample (rt_evsel\<lparr>attr_sample_type := 0x46, attr_sample_id_all := True\<rparr>) [4, 0, 0, 0, 0, 0, 16, 0, 1, 2, 3, 4, 5, 6, 7, 8] = Inl Out_Of_Bounds"
proof -
  have h: "header_size [4, 0, 0, 0, 0, 0, 16, 0, 1, 2, 3, 4, 5, 6, 7, 8] = Inr 16" "header_type [4, 0, 0, 0, 0, 0, 16, 0, 1, 2, 3, 4, 5, 6, 7, 8] = Inr 4"
    by code_simp+
  have "event_words 16 + 1 < id_words 0x46" by code_simp
  then show ?thesis
    using id_sample_reads_unchecked [OF h(1) _ h(2), of "rt_evsel\<lparr>attr_sample_type := 0x46, attr_sample_id_all := True\<rparr>"]
    by (simp add: PERF_RECORD_SAMPLE_def rt_evsel_def)
qed

subsection \<open>The position of the id\<close>

lemma s_id_sample:
  assumes "header_size ev = Inr sz" "length ev = unat sz" "header_type ev = Inr PERF_RECORD_SAMPLE" "evsel_inv evsel"
    and "bit (attr_sample_type evsel) PERF_SAMPLE_IDENTIFIER \<noteq> bit (attr_sample_type evsel) PERF_SAMPLE_ID"
    and "perf_evsel__parse_sample evsel ev = Inr (0, d)"
  shows "perf_evlist__event2id (evsel_id_pos evsel) (evsel_is_pos evsel) ev = Inr (Some (s_id d))"
proof (rule parse_sample_cases [OF assms(1-4)])
  let ?t = "attr_sample_type evsel"
  fix d0 p d1 d' misc
  assume p: "perf_evsel__parse_sample evsel ev = Inr (0, d')" "variable_ok evsel d1 d'"
    "parse_fixed ev ?t (evsel_needs_swap evsel) (8, (initial_sample evsel misc)\<lparr>s_id := - 1\<rparr>) = Inr (Some (p, d1))"
    "8 + evsel_sample_size_of ?t \<le> int (length ev)"
  let ?w = "wlen ?t PERF_SAMPLE_IP + wlen ?t PERF_SAMPLE_TID + wlen ?t PERF_SAMPLE_TIME + wlen ?t PERF_SAMPLE_ADDR"
  let ?o = "if bit ?t PERF_SAMPLE_ID then ?w else 0"
  have i: "s_id d = le_word (take 8 (drop (8 + ?o) ev))"
    using p(1,2) assms(5,6) parse_fixed_in [of 8 ?t ev "evsel_needs_swap evsel" "(initial_sample evsel misc)\<lparr>s_id := - 1\<rparr>"] p(3,4)
    by (auto simp: variable_ok_def wlen_def [of _ PERF_SAMPLE_IDENTIFIER] add.assoc)
  have pos: "8 * evsel_id_pos evsel = int ?o" using assms(4,5) by (simp add: evsel_inv_def calc_id_pos_def wlen_def Let_def)
  have len: "16 + ?o \<le> length ev"
    using p(4) sample_size_fixed [of ?t False d 0] assms(5) unfolding length_fixed
    by (cases "bit ?t PERF_SAMPLE_ID") (simp_all add: wlen_def [of _ PERF_SAMPLE_ID] wlen_def [of _ PERF_SAMPLE_IDENTIFIER])
  have 8: "8 \<le> unat sz" using len assms(2) by simp
  have "evsel_id_pos evsel < int (event_words sz)" using pos len assms(2) by (simp add: event_words_def)
  moreover have "ldi ev (8 + 8 * evsel_id_pos evsel) = Inr (s_id d)" unfolding pos i using len by (simp add: ldi_def ld_def nat_add_distrib)
  ultimately show ?thesis unfolding perf_evlist__event2id_def assms(1,3) bnd_simps array_words [OF 8] Let_def by simp
qed (use assms(6) in \<open>simp add: EFAULT_def\<close>)

lemma back_word_Inr: "back_word ev c f (pos, d) = Inr st \<longleftrightarrow> (if c then \<exists>v. ldi ev pos = Inr v \<and> st = (pos - 8, f v d) else st = (pos, d))"
  by (auto simp: back_word_def bnd_Inr_iff)

lemma s_id_other:
  assumes "header_size ev = Inr sz" "length ev = unat sz" "header_type ev = Inr etype" "etype \<noteq> PERF_RECORD_SAMPLE" "attr_sample_id_all evsel" "evsel_inv evsel"
    and x: "bit (attr_sample_type evsel) PERF_SAMPLE_IDENTIFIER \<noteq> bit (attr_sample_type evsel) PERF_SAMPLE_ID"
    and n: "evsel_is_pos evsel \<le> int (event_words sz)"
    and "perf_evsel__parse_sample evsel ev = Inr (0, d)"
  shows "perf_evlist__event2id (evsel_id_pos evsel) (evsel_is_pos evsel) ev = Inr (Some (s_id d))"
proof -
  let ?t = "attr_sample_type evsel" and ?n = "int (event_words sz)"
  have 8: "8 \<le> unat sz" using header_sizeD [OF assms(1)] assms(2) by simp
  obtain misc where misc: "header_misc ev = Inr misc" using header_misc_Inr [OF header_sizeD [OF assms(1)]] by blast
  have "perf_evsel__parse_id_sample evsel ev (initial_sample evsel misc) = Inr (0, d)"
    using assms misc by (simp add: perf_evsel__parse_sample_def)
  then obtain st1 st2 st3 st4 st5 st6 where st: "back_word ev (bit ?t PERF_SAMPLE_IDENTIFIER) (\<lambda>v d. d\<lparr>s_id := v\<rparr>) (8 * ?n, initial_sample evsel misc) = Inr st1"
      "back_word ev (bit ?t PERF_SAMPLE_CPU) (\<lambda>v d. d\<lparr>s_cpu := val32_0 (unswap_first (evsel_needs_swap evsel) v)\<rparr>) st1 = Inr st2"
      "back_word ev (bit ?t PERF_SAMPLE_STREAM_ID) (\<lambda>v d. d\<lparr>s_stream_id := v\<rparr>) st2 = Inr st3"
      "back_word ev (bit ?t PERF_SAMPLE_ID) (\<lambda>v d. d\<lparr>s_id := v\<rparr>) st3 = Inr st4"
      "back_word ev (bit ?t PERF_SAMPLE_TIME) (\<lambda>v d. d\<lparr>s_time := v\<rparr>) st4 = Inr st5"
      "back_word ev (bit ?t PERF_SAMPLE_TID) (\<lambda>v d. let u = unswap_both (evsel_needs_swap evsel) v in d\<lparr>s_pid := val32_0 u, s_tid := val32_1 u\<rparr>) st5 = Inr st6"
      "d = snd st6"
    unfolding perf_evsel__parse_id_sample_def assms(1) bnd_simps Let_def array_words [OF 8] by (auto simp: bnd_Inr_iff algebra_simps)
  have k6: "s_id d = s_id (snd st4)" using st(5-7) by (cases st4; cases st5) (auto simp: back_word_Inr Let_def split: if_splits)
  have k3: "s_id (snd st3) = s_id (snd st1)" "fst st3 = fst st1 - 8 * of_bool (bit ?t PERF_SAMPLE_CPU) - 8 * of_bool (bit ?t PERF_SAMPLE_STREAM_ID)"
    using st(2,3) by (cases st1; cases st2; auto simp: back_word_Inr split: if_splits)+
  have "ldi ev (8 + 8 * (?n - evsel_is_pos evsel)) = Inr (s_id d)"
  proof (cases "bit ?t PERF_SAMPLE_ID")
    case True
    then have "ldi ev (fst st3) = Inr (s_id d)" "fst st1 = 8 * ?n" using st(1,4) x k6 by (cases st3; auto simp: back_word_Inr)+
    moreover have "8 + 8 * (?n - evsel_is_pos evsel) = 8 * ?n - 8 * of_bool (bit ?t PERF_SAMPLE_CPU) - 8 * of_bool (bit ?t PERF_SAMPLE_STREAM_ID)"
      using True x assms(6) by (simp add: evsel_inv_def calc_is_pos_def Let_def)
    ultimately show ?thesis using k3(2) by (simp only:)
  next
    case False
    then have "ldi ev (8 * ?n) = Inr (s_id d)" using st(1,4) x k6 k3(1) by (cases st3) (auto simp: back_word_Inr)
    then show ?thesis using False x assms(6) by (simp add: evsel_inv_def calc_is_pos_def)
  qed
  then show ?thesis using n assms(4) unfolding perf_evlist__event2id_def assms(1,3) bnd_simps array_words [OF 8] Let_def by simp
qed

text \<open>
  Claim C17.  The shortcut finds the same id as the full parse: when the sample type has one id word and the event holds it,
  \<open>perf_evlist__event2id\<close> with the positions of \<open>__perf_evsel__calc_id_pos\<close> and
  \<open>__perf_evsel__calc_is_pos\<close> returns the id that \<open>perf_evsel__parse_sample\<close> stores, for sample
  events and for the id sample at the end of the others.
\<close>

theorem event2id_agrees_with_parse:
  assumes "header_size ev = Inr sz" and "length ev = unat sz" and "header_type ev = Inr etype" and "evsel_inv evsel"
    and "bit (attr_sample_type evsel) PERF_SAMPLE_IDENTIFIER \<noteq> bit (attr_sample_type evsel) PERF_SAMPLE_ID"
    and "etype \<noteq> PERF_RECORD_SAMPLE \<longrightarrow> attr_sample_id_all evsel \<and> evsel_is_pos evsel \<le> int (event_words sz)"
    and "perf_evsel__parse_sample evsel ev = Inr (0, d)"
  shows "perf_evlist__event2id (evsel_id_pos evsel) (evsel_is_pos evsel) ev = Inr (Some (s_id d))"
proof (cases "etype = PERF_RECORD_SAMPLE")
  case True
  show ?thesis by (rule s_id_sample [OF assms(1,2) assms(3) [unfolded True] assms(4,5,7)])
next
  case False
  then show ?thesis using s_id_other [OF assms(1-3) False] assms(4-7) by blast
qed

theorem event2id_agrees_with_parse_witness:
  "perf_evlist__event2id 1 1 [4, 0, 0, 0, 0, 0, 24, 0, 1, 0, 0, 0, 2, 0, 0, 0, 77, 0, 0, 0, 0, 0, 0, 0] = Inr (Some 77)"
proof -
  let ?e = "rt_evsel\<lparr>attr_sample_type := 0x42, attr_sample_id_all := True, evsel_sample_size := 16, evsel_id_pos := 1, evsel_is_pos := 1\<rparr>"
  let ?ev = "[4, 0, 0, 0, 0, 0, 24, 0, 1, 0, 0, 0, 2, 0, 0, 0, 77, 0, 0, 0, 0, 0, 0, 0] :: u8 list"
  have h: "header_size ?ev = Inr 24" "header_type ?ev = Inr 4" by code_simp+
  have i: "evsel_inv ?e" by (simp add: evsel_inv_def rt_evsel_def) code_simp
  have "case perf_evsel__parse_sample ?e ?ev of Inr (r, d) \<Rightarrow> r = 0 \<and> s_id d = 77 | Inl _ \<Rightarrow> False"
    unfolding rt_evsel_def by code_simp
  then obtain d where p: "perf_evsel__parse_sample ?e ?ev = Inr (0, d)" "s_id d = 77" by (auto split: sum.splits)
  show ?thesis using p event2id_agrees_with_parse [OF h(1) _ h(2) i]
    by (auto simp: rt_evsel_def event_words_def sample_bits PERF_RECORD_SAMPLE_def)
qed

subsection \<open>Changing the sample type\<close>

lemma filter_imp: "(\<And>c. P c \<Longrightarrow> Q c) \<Longrightarrow> length (filter P xs) \<le> length (filter Q xs)"
  by (induction xs) (auto simp: le_SucI)

lemma filter_extra: "distinct xs \<Longrightarrow> length (filter (\<lambda>c. P c \<or> c = b) xs) \<le> length (filter P xs) + 1"
proof (induction xs)
  case (Cons x xs)
  show ?case
  proof (cases "x = b")
    case True
    then have "filter (\<lambda>c. P c \<or> c = b) xs = filter P xs" using Cons.prems by (intro filter_cong) auto
    then show ?thesis using True by simp
  qed (use Cons in auto)
qed simp

lemma filter_without: "P b \<Longrightarrow> b \<in> set xs \<Longrightarrow> length (filter (\<lambda>c. P c \<and> c \<noteq> b) xs) + 1 \<le> length (filter P xs)"
proof (induction xs)
  case (Cons x xs)
  show ?case
  proof (cases "x = b")
    case True
    have "length (filter (\<lambda>c. P c \<and> c \<noteq> b) xs) \<le> length (filter P xs)" by (induction xs) auto
    then show ?thesis using True Cons.prems by simp
  qed (use Cons in auto)
qed simp

lemma sample_size_of_set: "evsel_sample_size_of (t OR push_bit b 1) \<le> evsel_sample_size_of t + 8"
proof -
  have "bit (t OR push_bit b 1) c \<Longrightarrow> bit t c \<or> c = b" for c by (auto simp: bit_or_iff bit_push_bit_iff bit_1_iff simp del: push_bit_of_1)
  then have "length (filter (bit (t OR push_bit b 1)) sample_mask_bits) \<le> length (filter (\<lambda>c. bit t c \<or> c = b) sample_mask_bits)"
    by (rule filter_imp)
  then show ?thesis using filter_extra [OF mask_bits_distinct(1), of "bit t" b] unfolding sample_size_filter by simp
qed

lemma sample_size_of_reset:
  assumes "bit t b" "b \<in> set sample_mask_bits"
  shows "evsel_sample_size_of (t AND ucast (NOT (push_bit b 1) :: u32)) \<le> evsel_sample_size_of t - 8"
proof -
  have "b < 32" using assms(2) by (auto simp: sample_mask_bits_def sample_bits)
  then have "bit (t AND ucast (NOT (push_bit b 1) :: u32)) c \<Longrightarrow> bit t c \<and> c \<noteq> b" for c
    by (auto simp: bit_and_iff bit_unsigned_iff bit_not_iff bit_push_bit_iff bit_1_iff simp del: push_bit_of_1)
  then have "length (filter (bit (t AND ucast (NOT (push_bit b 1) :: u32))) sample_mask_bits) \<le> length (filter (\<lambda>c. bit t c \<and> c \<noteq> b) sample_mask_bits)"
    by (rule filter_imp)
  then show ?thesis using filter_without [of "bit t" b, OF assms] unfolding sample_size_filter by simp
qed

text \<open>
  Claim C18.  Switching parts of the sample on and off keeps the configuration consistent: after
  \<open>__perf_evsel__set_sample_bit\<close> of any bit and \<open>__perf_evsel__reset_sample_bit\<close> of a bit of
  \<open>PERF_SAMPLE_MASK\<close>, the sample size covers the fixed words of the new type and the two id positions are
  those of the new type (the size is an unsigned 32-bit number that does not wrap here).
\<close>

theorem sample_bits_keep_invariant:
  assumes "evsel_inv evsel" and "uint (evsel_sample_size evsel) + 8 < 2 ^ 32"
  shows "evsel_inv (perf_evsel__set_sample_bit evsel b) \<and> (b \<in> set sample_mask_bits \<longrightarrow> evsel_inv (perf_evsel__reset_sample_bit evsel b))"
proof -
  have plus: "uint (evsel_sample_size evsel + 8) = uint (evsel_sample_size evsel) + 8"
    using assms(2) by (simp add: uint_word_ariths)
  have minus: "uint (evsel_sample_size evsel - 8) = uint (evsel_sample_size evsel) - 8" if "8 \<le> uint (evsel_sample_size evsel)"
    using that assms(2) by (simp add: uint_word_ariths)
  have "evsel_inv (perf_evsel__set_sample_bit evsel b)"
    using assms(1) sample_size_of_set [of "attr_sample_type evsel" b]
    by (simp add: evsel_inv_def perf_evsel__set_sample_bit_def perf_evsel__calc_id_pos_def plus del: push_bit_of_1)
  moreover have "evsel_inv (perf_evsel__reset_sample_bit evsel b)" if b: "b \<in> set sample_mask_bits"
  proof (cases "bit (attr_sample_type evsel) b")
    case True
    have "0 \<le> evsel_sample_size_of (attr_sample_type evsel AND ucast (NOT (push_bit b 1) :: u32))" by (simp add: sample_size_filter)
    then show ?thesis using assms(1) sample_size_of_reset [OF True b] True minus
      by (simp add: evsel_inv_def perf_evsel__reset_sample_bit_def perf_evsel__calc_id_pos_def del: push_bit_of_1)
  qed (use assms(1) in \<open>simp add: perf_evsel__reset_sample_bit_def\<close>)
  ultimately show ?thesis by blast
qed

theorem sample_bits_keep_invariant_witness:
  "evsel_inv (perf_evsel__reset_sample_bit rt_evsel PERF_SAMPLE_TID)"
proof -
  have "evsel_inv rt_evsel" by (simp add: evsel_inv_def rt_evsel_def) code_simp
  moreover have "PERF_SAMPLE_TID \<in> set sample_mask_bits" by (simp add: sample_mask_bits_def)
  ultimately show ?thesis using sample_bits_keep_invariant [of rt_evsel PERF_SAMPLE_TID] by (simp add: rt_evsel_def)
qed

end
