(* ===== verification/Kbuffer.thy ===== *)
theory Kbuffer
  imports C_Bytes
begin

text \<open>
  The reader of the kernel's trace ring buffer pages, \<^verbatim>\<open>src/tools/lib/traceevent/kbuffer-parse.c\<close>: a page
  (sub-buffer) starts with a timestamp and the number of committed bytes, followed by records with a
  word that packs type, length and time delta.  The memory behind the sub-buffer pointer is a list of bytes
  and a pointer into it an offset; the host is little-endian, pages of both byte orders and both sizes
  of long are read.
\<close>

subsection \<open>Constants and state\<close>

definition MISSING_EVENTS :: u64 where "MISSING_EVENTS = 0xffffffff80000000"
definition MISSING_STORED :: u64 where "MISSING_STORED = push_bit 30 1"
definition COMMIT_MASK :: u32 where "COMMIT_MASK = push_bit 27 1 - 1"

definition KBUFFER_FL_HOST_BIG_ENDIAN :: u64 where "KBUFFER_FL_HOST_BIG_ENDIAN = push_bit 0 1"
definition KBUFFER_FL_BIG_ENDIAN :: u64 where "KBUFFER_FL_BIG_ENDIAN = push_bit 1 1"
definition KBUFFER_FL_LONG_8 :: u64 where "KBUFFER_FL_LONG_8 = push_bit 2 1"
definition KBUFFER_FL_OLD_FORMAT :: u64 where "KBUFFER_FL_OLD_FORMAT = push_bit 3 1"
definition ENDIAN_MASK :: u64 where "ENDIAN_MASK = KBUFFER_FL_HOST_BIG_ENDIAN OR KBUFFER_FL_BIG_ENDIAN"

definition TS_SHIFT :: nat where "TS_SHIFT = 27"

datatype kbuffer_endian = KBUFFER_ENDIAN_BIG | KBUFFER_ENDIAN_LITTLE
datatype kbuffer_long_size = KBUFFER_LSIZE_4 | KBUFFER_LSIZE_8

definition KBUFFER_TYPE_PADDING :: u32 where "KBUFFER_TYPE_PADDING = 29"
definition KBUFFER_TYPE_TIME_EXTEND :: u32 where "KBUFFER_TYPE_TIME_EXTEND = 30"
definition KBUFFER_TYPE_TIME_STAMP :: u32 where "KBUFFER_TYPE_TIME_STAMP = 31"

definition OLD_RINGBUF_TYPE_PADDING :: u32 where "OLD_RINGBUF_TYPE_PADDING = 0"
definition OLD_RINGBUF_TYPE_TIME_EXTEND :: u32 where "OLD_RINGBUF_TYPE_TIME_EXTEND = 1"
definition OLD_RINGBUF_TYPE_TIME_STAMP :: u32 where "OLD_RINGBUF_TYPE_TIME_STAMP = 2"

text \<open>
  The function pointers of \<open>struct kbuffer\<close> are the choices they stand for: the swapping readers or the
  plain ones, 8 or 4 byte longs, the old format or the new.  \<open>data\<close> is the offset of the data in the
  sub-buffer.
\<close>

record kbuffer =
  kb_timestamp :: u64
  kb_lost_events :: u64
  kb_flags :: u64
  kb_subbuffer :: "u8 list option"
  kb_data :: nat
  kb_index :: u32
  kb_curr :: u32
  kb_next :: u32
  kb_size :: u32
  kb_start :: u32
  kb_read_sw :: bool
  kb_read_long_8 :: bool
  kb_next_event_old :: bool

subsection \<open>Reading words\<close>

definition host_is_bigendian :: bool where
  "host_is_bigendian \<longleftrightarrow> (le_word [0x1, 0x2, 0x3, 0x4] :: u32) = 0x01020304"

definition do_swap :: "kbuffer \<Rightarrow> bool" where
  "do_swap kbuf \<longleftrightarrow> ((kb_flags kbuf AND KBUFFER_FL_HOST_BIG_ENDIAN) + kb_flags kbuf) AND ENDIAN_MASK \<noteq> 0"

definition read_8_plain :: "u8 list \<Rightarrow> nat \<Rightarrow> u64 c_result" where
  "read_8_plain m ptr = get_le m ptr 8"

definition read_8_sw :: "u8 list \<Rightarrow> nat \<Rightarrow> u64 c_result" where
  "read_8_sw m ptr = bnd (get_le m ptr 8) (\<lambda>data. Inr
     (push_bit 56 (data AND 0xff) OR push_bit 40 (data AND push_bit 8 0xff) OR push_bit 24 (data AND push_bit 16 0xff) OR
      push_bit 8 (data AND push_bit 24 0xff) OR drop_bit 8 (data AND push_bit 32 0xff) OR drop_bit 24 (data AND push_bit 40 0xff) OR
      drop_bit 40 (data AND push_bit 48 0xff) OR drop_bit 56 (data AND push_bit 56 0xff)))"

definition read_4_plain :: "u8 list \<Rightarrow> nat \<Rightarrow> u32 c_result" where
  "read_4_plain m ptr = get_le m ptr 4"

definition read_4_sw :: "u8 list \<Rightarrow> nat \<Rightarrow> u32 c_result" where
  "read_4_sw m ptr = bnd (get_le m ptr 4 :: u32 c_result) (\<lambda>data32. let data = ucast data32 :: u64 in Inr (ucast
     (push_bit 24 (data AND 0xff) OR push_bit 8 (data AND push_bit 8 0xff) OR drop_bit 8 (data AND push_bit 16 0xff) OR
      drop_bit 24 (data AND push_bit 24 0xff))))"

definition read_8 :: "kbuffer \<Rightarrow> u8 list \<Rightarrow> nat \<Rightarrow> u64 c_result" where
  "read_8 kbuf m ptr = (if kb_read_sw kbuf then read_8_sw m ptr else read_8_plain m ptr)"

definition read_4 :: "kbuffer \<Rightarrow> u8 list \<Rightarrow> nat \<Rightarrow> u32 c_result" where
  "read_4 kbuf m ptr = (if kb_read_sw kbuf then read_4_sw m ptr else read_4_plain m ptr)"

definition read_long :: "kbuffer \<Rightarrow> u8 list \<Rightarrow> nat \<Rightarrow> u64 c_result" where
  "read_long kbuf m ptr = (if kb_read_long_8 kbuf then read_8 kbuf m ptr else bnd (read_4 kbuf m ptr) (\<lambda>v. Inr (ucast v)))"

definition calc_index :: "kbuffer \<Rightarrow> nat \<Rightarrow> u32" where
  "calc_index kbuf ptr = of_nat ptr - of_nat (kb_data kbuf)"

subsection \<open>Allocation\<close>

text \<open>The parameter says whether \<open>calloc\<close> has memory.\<close>

definition kbuffer_alloc :: "bool \<Rightarrow> kbuffer_long_size \<Rightarrow> kbuffer_endian \<Rightarrow> kbuffer option" where
  "kbuffer_alloc mem size' endian =
     (let flags = (case size' of KBUFFER_LSIZE_4 \<Rightarrow> 0 | KBUFFER_LSIZE_8 \<Rightarrow> KBUFFER_FL_LONG_8);
          flags = (case endian of KBUFFER_ENDIAN_LITTLE \<Rightarrow> flags | KBUFFER_ENDIAN_BIG \<Rightarrow> flags OR KBUFFER_FL_BIG_ENDIAN) in
      if \<not> mem then None
      else let kbuf = \<lparr>kb_timestamp = 0, kb_lost_events = 0, kb_flags = flags, kb_subbuffer = None, kb_data = 0, kb_index = 0, kb_curr = 0,
               kb_next = 0, kb_size = 0, kb_start = 0, kb_read_sw = False, kb_read_long_8 = False, kb_next_event_old = False\<rparr>;
             kbuf = (if host_is_bigendian then kbuf\<lparr>kb_flags := kb_flags kbuf OR KBUFFER_FL_HOST_BIG_ENDIAN\<rparr> else kbuf);
             kbuf = kbuf\<lparr>kb_read_sw := do_swap kbuf\<rparr>;
             kbuf = kbuf\<lparr>kb_read_long_8 := kb_flags kbuf AND KBUFFER_FL_LONG_8 \<noteq> 0\<rparr>
           in Some (kbuf\<lparr>kb_next_event_old := False\<rparr>))"

definition kbuffer_set_old_format :: "kbuffer \<Rightarrow> kbuffer" where
  "kbuffer_set_old_format kbuf = kbuf\<lparr>kb_flags := kb_flags kbuf OR KBUFFER_FL_OLD_FORMAT, kb_next_event_old := True\<rparr>"

subsection \<open>The word of a record\<close>

definition big :: "kbuffer \<Rightarrow> bool" where
  "big kbuf \<longleftrightarrow> kb_flags kbuf AND KBUFFER_FL_BIG_ENDIAN \<noteq> 0"

definition type4host :: "kbuffer \<Rightarrow> u32 \<Rightarrow> u32" where
  "type4host kbuf w = (if big kbuf then drop_bit 29 w AND 3 else w AND 3)"

definition len4host :: "kbuffer \<Rightarrow> u32 \<Rightarrow> u32" where
  "len4host kbuf w = (if big kbuf then drop_bit 27 w AND 7 else drop_bit 2 w AND 7)"

definition type_len4host :: "kbuffer \<Rightarrow> u32 \<Rightarrow> u32" where
  "type_len4host kbuf w = (if big kbuf then drop_bit 27 w AND (push_bit 5 1 - 1) else w AND (push_bit 5 1 - 1))"

definition ts4host :: "kbuffer \<Rightarrow> u32 \<Rightarrow> u32" where
  "ts4host kbuf w = (if big kbuf then w AND (push_bit 27 1 - 1) else drop_bit 5 w)"

text \<open>The sub-buffer is read through a pointer that the callers have checked, except for a kbuffer without one.\<close>

definition subbuf :: "kbuffer \<Rightarrow> u8 list c_result" where
  "subbuf kbuf = (case kb_subbuffer kbuf of None \<Rightarrow> Inl Null_Deref | Some m \<Rightarrow> Inr m)"

subsection \<open>The old format\<close>

text \<open>
  After a time extension \<open>length\<close> has not been set when it is added to the index.
\<close>

definition old_update_pointers :: "kbuffer \<Rightarrow> u8 list \<Rightarrow> (u32 \<times> kbuffer) c_result" where
  "old_update_pointers kbuf m =
     (let ptr = kb_data kbuf + unat (kb_curr kbuf) in
      bnd (read_4 kbuf m ptr) (\<lambda>type_len_ts.
      let ptr = ptr + 4; type = type4host kbuf type_len_ts; len = len4host kbuf type_len_ts; delta = ts4host kbuf type_len_ts in
      if type = OLD_RINGBUF_TYPE_PADDING then Inr (0, kbuf\<lparr>kb_next := kb_size kbuf\<rparr>)
      else if type = OLD_RINGBUF_TYPE_TIME_EXTEND then
        bnd (read_4 kbuf m ptr) (\<lambda>extend. Inl Uninit_Read)
      else if type = OLD_RINGBUF_TYPE_TIME_STAMP then
        Inr (- 1, kbuf\<lparr>kb_curr := kb_size kbuf, kb_next := kb_size kbuf, kb_index := kb_size kbuf\<rparr>)
      else
        bnd (if len \<noteq> 0 then Inr (len * 4, ptr)
             else bnd (read_4 kbuf m ptr) (\<lambda>length'. Inr (length' - 4, ptr + 4))) (\<lambda>(length', ptr).
        let kbuf = kbuf\<lparr>kb_timestamp := kb_timestamp kbuf + ucast delta\<rparr>;
            kbuf = kbuf\<lparr>kb_index := calc_index kbuf ptr\<rparr>
        in Inr (type, kbuf\<lparr>kb_next := kb_index kbuf + length'\<rparr>))))"

partial_function (option) old_next_event_loop :: "u8 list \<Rightarrow> kbuffer \<Rightarrow> (int \<times> kbuffer) c_result option" where
  "old_next_event_loop m kbuf =
     (let kbuf = kbuf\<lparr>kb_curr := kb_next kbuf\<rparr> in
      if kb_size kbuf \<le> kb_next kbuf then Some (Inr (- 1, kbuf))
      else case old_update_pointers kbuf m of Inl e \<Rightarrow> Some (Inl e)
        | Inr (type, kbuf) \<Rightarrow>
            if type = OLD_RINGBUF_TYPE_TIME_EXTEND \<or> type = OLD_RINGBUF_TYPE_PADDING then old_next_event_loop m kbuf
            else Some (Inr (0, kbuf)))"

definition old_next_event :: "kbuffer \<Rightarrow> u8 list \<Rightarrow> (int \<times> kbuffer) c_result" where
  "old_next_event kbuf m = bnd (returns (old_next_event_loop m kbuf)) (\<lambda>r. r)"

subsection \<open>The new format\<close>

text \<open>Lengths are words of 32 bits: the code keeps them in an \<open>int\<close> and adds them to unsigned ones.\<close>

definition translate_data :: "kbuffer \<Rightarrow> u8 list \<Rightarrow> nat \<Rightarrow> (u32 \<times> nat \<times> u64 \<times> u32) c_result" where
  "translate_data kbuf m data =
     bnd (read_4 kbuf m data) (\<lambda>type_len_ts.
     let data = data + 4; type_len = type_len4host kbuf type_len_ts; delta = ucast (ts4host kbuf type_len_ts) :: u64 in
     if type_len = KBUFFER_TYPE_PADDING then bnd (read_4 kbuf m data) (\<lambda>length'. Inr (type_len, data, delta, length'))
     else if type_len = KBUFFER_TYPE_TIME_EXTEND then
       bnd (read_4 kbuf m data) (\<lambda>e. let extend = push_bit TS_SHIFT (ucast e :: u64) + delta in Inr (type_len, data + 4, extend, 0))
     else if type_len = KBUFFER_TYPE_TIME_STAMP then Inr (type_len, data + 12, delta, 0)
     else if type_len = 0 then
       bnd (read_4 kbuf m data) (\<lambda>v. let length' = v - 4 in Inr (type_len, data + 4, delta, (length' + 3) AND NOT 3))
     else Inr (type_len, data, delta, type_len * 4))"

definition update_pointers :: "kbuffer \<Rightarrow> u8 list \<Rightarrow> (u32 \<times> kbuffer) c_result" where
  "update_pointers kbuf m =
     bnd (translate_data kbuf m (kb_data kbuf + unat (kb_curr kbuf))) (\<lambda>(type_len, ptr, delta, length').
     let kbuf = kbuf\<lparr>kb_timestamp := kb_timestamp kbuf + delta\<rparr>;
         kbuf = kbuf\<lparr>kb_index := calc_index kbuf ptr\<rparr>
     in Inr (type_len, kbuf\<lparr>kb_next := kb_index kbuf + length'\<rparr>))"

text \<open>
  \<open>kbuffer_translate_data\<close>: the memory behind \<open>data\<close> is given from there on; the result is the
  offset of the event data and its size.
\<close>

definition kbuffer_translate_data :: "bool \<Rightarrow> u8 list \<Rightarrow> (nat \<times> u32) option c_result" where
  "kbuffer_translate_data swap m =
     (let kbuf = \<lparr>kb_timestamp = 0, kb_lost_events = 0,
          kb_flags = (if swap then if host_is_bigendian then 0 else KBUFFER_FL_BIG_ENDIAN
                      else if host_is_bigendian then KBUFFER_FL_BIG_ENDIAN else 0),
          kb_subbuffer = None, kb_data = 0, kb_index = 0, kb_curr = 0, kb_next = 0, kb_size = 0, kb_start = 0,
          kb_read_sw = swap, kb_read_long_8 = False, kb_next_event_old = False\<rparr> in
      bnd (translate_data kbuf m 0) (\<lambda>(type_len, ptr, delta, length').
      if type_len = KBUFFER_TYPE_PADDING \<or> type_len = KBUFFER_TYPE_TIME_EXTEND \<or> type_len = KBUFFER_TYPE_TIME_STAMP then Inr None
      else Inr (Some (ptr, length'))))"

partial_function (option) next_event_loop :: "u8 list \<Rightarrow> kbuffer \<Rightarrow> (int \<times> kbuffer) c_result option" where
  "next_event_loop m kbuf =
     (let kbuf = kbuf\<lparr>kb_curr := kb_next kbuf\<rparr> in
      if kb_size kbuf \<le> kb_next kbuf then Some (Inr (- 1, kbuf))
      else case update_pointers kbuf m of Inl e \<Rightarrow> Some (Inl e)
        | Inr (type, kbuf) \<Rightarrow>
            if type = KBUFFER_TYPE_TIME_EXTEND \<or> type = KBUFFER_TYPE_PADDING then next_event_loop m kbuf
            else Some (Inr (0, kbuf)))"

definition next_event :: "kbuffer \<Rightarrow> (int \<times> kbuffer) c_result" where
  "next_event kbuf = bnd (subbuf kbuf) (\<lambda>m.
     if kb_next_event_old kbuf then old_next_event kbuf m else bnd (returns (next_event_loop m kbuf)) (\<lambda>r. r))"

subsection \<open>Operations of a kbuffer\<close>

text \<open>
  \<open>ts\<close> is the place for the timestamp, \<open>None\<close> for a null pointer.  A returned pointer is an
  offset into the sub-buffer.
\<close>

definition set_ts :: "u64 option \<Rightarrow> kbuffer \<Rightarrow> u64 option" where
  "set_ts ts kbuf = (case ts of None \<Rightarrow> None | Some _ \<Rightarrow> Some (kb_timestamp kbuf))"

definition kbuffer_next_event :: "kbuffer option \<Rightarrow> u64 option \<Rightarrow> (nat option \<times> kbuffer option \<times> u64 option) c_result" where
  "kbuffer_next_event kb ts =
     (case kb of None \<Rightarrow> Inr (None, kb, ts)
      | Some kbuf \<Rightarrow>
          if kb_subbuffer kbuf = None then Inr (None, kb, ts)
          else bnd (next_event kbuf) (\<lambda>(ret, kbuf).
            if ret < 0 then Inr (None, Some kbuf, ts)
            else Inr (Some (kb_data kbuf + unat (kb_index kbuf)), Some kbuf, set_ts ts kbuf)))"

definition kbuffer_load_subbuffer :: "kbuffer option \<Rightarrow> u8 list option \<Rightarrow> (int \<times> kbuffer option) c_result" where
  "kbuffer_load_subbuffer kb subbuffer =
     (case (kb, subbuffer) of
        (Some kbuf, Some m) \<Rightarrow>
          let kbuf = kbuf\<lparr>kb_subbuffer := Some m\<rparr> in
          bnd (read_8 kbuf m 0) (\<lambda>t.
          let kbuf = kbuf\<lparr>kb_timestamp := t, kb_curr := 0, kb_start := if kb_flags kbuf AND KBUFFER_FL_LONG_8 \<noteq> 0 then 16 else 12\<rparr>;
              kbuf = kbuf\<lparr>kb_data := unat (kb_start kbuf)\<rparr> in
          bnd (read_long kbuf m 8) (\<lambda>flags.
          let kbuf = kbuf\<lparr>kb_size := ucast flags AND COMMIT_MASK\<rparr> in
          bnd (if flags AND MISSING_EVENTS \<noteq> 0 then
                 if flags AND MISSING_STORED \<noteq> 0 then
                   bnd (read_long kbuf m (kb_data kbuf + unat (kb_size kbuf))) (\<lambda>v. Inr (kbuf\<lparr>kb_lost_events := v\<rparr>))
                 else Inr (kbuf\<lparr>kb_lost_events := - 1\<rparr>)
               else Inr (kbuf\<lparr>kb_lost_events := 0\<rparr>)) (\<lambda>kbuf.
          bnd (next_event (kbuf\<lparr>kb_index := 0, kb_next := 0\<rparr>)) (\<lambda>(_, kbuf). Inr (0, Some kbuf)))))
      | _ \<Rightarrow> Inr (- 1, kb))"

definition kbuffer_read_event :: "kbuffer option \<Rightarrow> u64 option \<Rightarrow> nat option \<times> u64 option" where
  "kbuffer_read_event kb ts =
     (case kb of None \<Rightarrow> (None, ts)
      | Some kbuf \<Rightarrow>
          if kb_subbuffer kbuf = None then (None, ts)
          else if kb_size kbuf \<le> kb_curr kbuf then (None, ts)
          else (Some (kb_data kbuf + unat (kb_index kbuf)), set_ts ts kbuf))"

definition kbuffer_timestamp :: "kbuffer \<Rightarrow> u64" where
  "kbuffer_timestamp kbuf = kb_timestamp kbuf"

text \<open>
  \<open>kbuffer_read_at_offset\<close>: \<open>data\<close> starts uninitialised, which is the value \<open>None\<close> of the loop.
  The comparison of the offset with \<open>start\<close> and \<open>curr\<close> is unsigned.
\<close>

partial_function (option) at_offset_loop :: "u32 \<Rightarrow> nat option option \<Rightarrow> kbuffer \<Rightarrow> u64 option \<Rightarrow> (nat option option \<times> kbuffer \<times> u64 option) c_result option" where
  "at_offset_loop offset data kbuf ts =
     (if kb_curr kbuf < offset then
        case kbuffer_next_event (Some kbuf) ts of
          Inl e \<Rightarrow> Some (Inl e)
        | Inr (None, kb, ts) \<Rightarrow> Some (Inr (Some None, case kb of None \<Rightarrow> kbuf | Some k \<Rightarrow> k, ts))
        | Inr (Some p, kb, ts) \<Rightarrow> at_offset_loop offset (Some (Some p)) (case kb of None \<Rightarrow> kbuf | Some k \<Rightarrow> k) ts
      else Some (Inr (data, kbuf, ts)))"

definition kbuffer_read_at_offset :: "kbuffer \<Rightarrow> u32 \<Rightarrow> u64 option \<Rightarrow> (nat option \<times> kbuffer \<times> u64 option) c_result" where
  "kbuffer_read_at_offset kbuf offset ts =
     (let offset = if offset < kb_start kbuf then 0 else offset - kb_start kbuf in
      bnd (kbuffer_load_subbuffer (Some kbuf) (kb_subbuffer kbuf)) (\<lambda>(_, kb).
      let kbuf = (case kb of None \<Rightarrow> kbuf | Some k \<Rightarrow> k) in
      bnd (bnd (returns (at_offset_loop offset None kbuf ts)) (\<lambda>r. r)) (\<lambda>(data, kbuf, ts).
      case data of None \<Rightarrow> Inl Uninit_Read | Some d \<Rightarrow> Inr (d, kbuf, ts))))"

definition kbuffer_subbuffer_size :: "kbuffer \<Rightarrow> u32" where
  "kbuffer_subbuffer_size kbuf = kb_size kbuf"

definition kbuffer_curr_index :: "kbuffer \<Rightarrow> u32" where
  "kbuffer_curr_index kbuf = kb_curr kbuf"

definition kbuffer_curr_offset :: "kbuffer \<Rightarrow> u32" where
  "kbuffer_curr_offset kbuf = kb_curr kbuf + kb_start kbuf"

definition kbuffer_event_size :: "kbuffer \<Rightarrow> u32" where
  "kbuffer_event_size kbuf = kb_next kbuf - kb_index kbuf"

definition kbuffer_curr_size :: "kbuffer \<Rightarrow> u32" where
  "kbuffer_curr_size kbuf = kb_next kbuf - kb_curr kbuf"

definition kbuffer_missed_events :: "kbuffer \<Rightarrow> u32" where
  "kbuffer_missed_events kbuf = (if kb_curr kbuf \<noteq> 0 then 0 else ucast (kb_lost_events kbuf))"

definition kbuffer_start_of_data :: "kbuffer \<Rightarrow> u32" where
  "kbuffer_start_of_data kbuf = kb_start kbuf"

subsection \<open>Words in both byte orders\<close>

definition put4 :: "bool \<Rightarrow> u32 \<Rightarrow> u8 list" where
  "put4 be w = (if be then rev (le_bytes 4 w) else le_bytes 4 w)"

definition put8 :: "bool \<Rightarrow> u64 \<Rightarrow> u8 list" where
  "put8 be w = (if be then rev (le_bytes 8 w) else le_bytes 8 w)"

lemma length_put [simp]: "length (put4 be w) = 4" "length (put8 be v) = 8"
  by (simp_all add: put4_def put8_def)

lemma bit_le_word_iff:
  "bit (le_word bs :: 'a::len word) i \<longleftrightarrow> i < LENGTH('a) \<and> i div 8 < length bs \<and> bit (bs ! (i div 8)) (i mod 8)"
proof (induction bs arbitrary: i)
  case (Cons b bs)
  show ?case
  proof (cases "i < 8")
    case True
    then show ?thesis by (auto simp: bit_simps)
  next
    case False
    have "\<not> bit b i" using False bit_imp_le_length [of b i] by auto
    moreover have "i div 8 = Suc ((i - 8) div 8)" "i mod 8 = (i - 8) mod 8" using False by (simp_all add: le_div_geq le_mod_geq)
    ultimately show ?thesis using False Cons.IH [of "i - 8"] by (auto simp: bit_simps)
  qed
qed simp

lemma ff_mask: "(0xff :: u64) = mask 8"
  by (simp add: mask_eq_exp_minus_1)

lemma byte_mask:
  assumes "k < length bs" "k < 8"
  shows "(le_word bs :: u64) AND push_bit (8 * k) 0xff = push_bit (8 * k) (ucast (bs ! k))"
proof (rule bit_word_eqI)
  fix i assume i: "i < LENGTH(64)"
  have "bit (push_bit (8 * k) (mask 8 :: u64)) i \<longleftrightarrow> i div 8 = k" using i by (auto simp: bit_push_bit_iff bit_mask_iff)
  moreover have "i mod 8 = i - 8 * k \<and> 8 * k \<le> i" if "i div 8 = k" using that by (metis minus_mult_div_eq_mod mult.commute times_div_less_eq_dividend)
  moreover have "i div 8 = k" if "8 * k \<le> i" "i - 8 * k < 8" using that by auto
  ultimately show "bit ((le_word bs :: u64) AND push_bit (8 * k) 0xff) i = bit (push_bit (8 * k) (ucast (bs ! k)) :: u64) i"
    using i assms unfolding ff_mask bit_and_iff bit_le_word_iff by (auto simp: bit_push_bit_iff bit_unsigned_iff dest: bit_imp_le_length)
qed

lemma shift_byte: "j \<le> k \<Longrightarrow> k \<le> 56 \<Longrightarrow> drop_bit j (push_bit k (ucast (c :: u8) :: u64)) = push_bit (k - j) (ucast c)"
  by (rule bit_word_eqI) (auto simp: bit_simps add.commute dest: bit_imp_le_length)

lemma ucast_le_word: "length bs \<le> 4 \<Longrightarrow> ucast (le_word bs :: u32) = (le_word bs :: u64)"
  by (rule bit_word_eqI) (auto simp: bit_unsigned_iff bit_le_word_iff)

lemma read_4_sw_rev:
  assumes l: "length bs = 4" and h: "bytes_at m pos bs"
  shows "read_4_sw m pos = Inr (le_word (rev bs))"
proof -
  have "bs \<noteq> []" using l by auto
  then obtain a b c d where bs: "bs = [a, b, c, d]" using l by (auto simp: numeral_eq_Suc length_Suc_conv)
  have g: "get_le m pos 4 = Inr (le_word bs :: u32)" using h l by (simp add: bytes_at_def)
  have u: "ucast (le_word bs :: u32) = (le_word bs :: u64)" using l by (simp add: ucast_le_word)
  note k = byte_mask [of 0 bs] byte_mask [of 1 bs] byte_mask [of 2 bs] byte_mask [of 3 bs]
  have "read_4_sw m pos = Inr (ucast (push_bit 24 (ucast a :: u64) OR push_bit 16 (ucast b) OR push_bit 8 (ucast c) OR ucast d))"
    unfolding read_4_sw_def g bnd_simps Let_def u using k by (simp add: bs shift_byte)
  also have "\<dots> = Inr (le_word (rev bs))" unfolding bs
    by (simp add: ac_simps) (rule bit_word_eqI, auto simp: bit_simps)
  finally show ?thesis .
qed

lemma read_8_sw_rev:
  assumes l: "length bs = 8" and h: "bytes_at m pos bs"
  shows "read_8_sw m pos = Inr (le_word (rev bs))"
proof -
  obtain a b c d e f g' h' where bs: "bs = [a, b, c, d, e, f, g', h']" using l by (auto simp: numeral_eq_Suc length_Suc_conv)
  have g: "get_le m pos 8 = Inr (le_word bs :: u64)" using h l by (simp add: bytes_at_def)
  note k = byte_mask [of 0 bs] byte_mask [of 1 bs] byte_mask [of 2 bs] byte_mask [of 3 bs]
    byte_mask [of 4 bs] byte_mask [of 5 bs] byte_mask [of 6 bs] byte_mask [of 7 bs]
  have "read_8_sw m pos = Inr (push_bit 56 (ucast a) OR push_bit 48 (ucast b) OR push_bit 40 (ucast c) OR push_bit 32 (ucast d) OR
      push_bit 24 (ucast e) OR push_bit 16 (ucast f) OR push_bit 8 (ucast g') OR ucast h')"
    unfolding read_8_sw_def g bnd_simps using k by (simp add: bs shift_byte)
  also have "\<dots> = Inr (le_word (rev bs))" unfolding bs by (simp add: ac_simps)
  finally show ?thesis .
qed

lemma take_bit_word [simp]: "take_bit 32 (w :: u32) = w" "take_bit 64 (v :: u64) = v"
  by (rule bit_word_eqI, simp add: bit_simps)+

lemma read_4_at: "kb_read_sw kbuf = be \<Longrightarrow> bytes_at m pos (put4 be w) \<Longrightarrow> read_4 kbuf m pos = Inr w"
  using read_4_sw_rev [of "rev (le_bytes 4 w)" m pos] by (auto simp: read_4_def put4_def read_4_plain_def bytes_at_def)

lemma read_8_at: "kb_read_sw kbuf = be \<Longrightarrow> bytes_at m pos (put8 be w) \<Longrightarrow> read_8 kbuf m pos = Inr w"
  using read_8_sw_rev [of "rev (le_bytes 8 w)" m pos] by (auto simp: read_8_def put8_def read_8_plain_def bytes_at_def)

subsection \<open>The records of a page\<close>

text \<open>
  The records the kernel writes: data of up to 112 bytes, longer data with a length word, an
  extension of the time delta, and discarded space.
\<close>

datatype krec = KData u32 "u8 list" | KLong u32 "u8 list" | KExtend u64 | KPad u32 "u8 list"

definition hdr :: "bool \<Rightarrow> u32 \<Rightarrow> u32 \<Rightarrow> u32" where
  "hdr be ty ts = (if be then push_bit 27 ty OR ts else ty OR push_bit 5 ts)"

fun kenc :: "bool \<Rightarrow> krec \<Rightarrow> u8 list" where
  "kenc be (KData ts p) = put4 be (hdr be (of_nat (length p div 4)) ts) @ p"
| "kenc be (KLong ts p) = put4 be (hdr be 0 ts) @ put4 be (of_nat (length p + 4)) @ p"
| "kenc be (KExtend d) = put4 be (hdr be 30 (ucast (take_bit 27 d))) @ put4 be (ucast (drop_bit 27 d))"
| "kenc be (KPad ts p) = put4 be (hdr be 29 ts) @ put4 be (of_nat (length p + 4)) @ p"

fun krec_ok :: "krec \<Rightarrow> bool" where
  "krec_ok (KData ts p) \<longleftrightarrow> ts < 2 ^ 27 \<and> 4 dvd length p \<and> 0 < length p \<and> length p \<le> 112"
| "krec_ok (KLong ts p) \<longleftrightarrow> ts < 2 ^ 27 \<and> 4 dvd length p"
| "krec_ok (KExtend d) \<longleftrightarrow> d < 2 ^ 59"
| "krec_ok (KPad ts p) \<longleftrightarrow> ts < 2 ^ 27"

fun kdelta :: "krec \<Rightarrow> u64" where
  "kdelta (KData ts p) = ucast ts"
| "kdelta (KLong ts p) = ucast ts"
| "kdelta (KExtend d) = d"
| "kdelta (KPad ts p) = ucast ts"

fun ktype :: "krec \<Rightarrow> u32" where
  "ktype (KData ts p) = of_nat (length p div 4)"
| "ktype (KLong ts p) = 0"
| "ktype (KExtend d) = 30"
| "ktype (KPad ts p) = 29"

fun khead :: "krec \<Rightarrow> nat" where
  "khead (KData ts p) = 4"
| "khead (KLong ts p) = 8"
| "khead (KExtend d) = 8"
| "khead (KPad ts p) = 4"

lemma bits_below: "(w :: 'a::len word) < 2 ^ n \<Longrightarrow> n < LENGTH('a) \<Longrightarrow> bit w i \<Longrightarrow> i < n"
proof -
  assume a: "w < 2 ^ n" "n < LENGTH('a)" "bit w i"
  have "(2 :: 'a word) ^ n = of_nat (2 ^ n)" by simp
  then have "unat ((2 :: 'a word) ^ n) = 2 ^ n" using a(2) by (simp only: unat_of_nat) (simp add: take_bit_nat_eq_self)
  then have "take_bit n (unat w) = unat w" using a(1) by (simp add: word_less_nat_alt take_bit_nat_eq_self)
  moreover have "bit (unat w) i" using a(3) by (simp add: bit_unsigned_iff)
  ultimately show ?thesis by (metis bit_take_bit_iff)
qed

lemma hdr_fields:
  assumes "ty < 2 ^ 5" "ts < 2 ^ 27" "big kbuf = be"
  shows "type_len4host kbuf (hdr be ty ts) = ty" "ts4host kbuf (hdr be ty ts) = ts"
proof -
  have m: "push_bit 5 1 - 1 = (mask 5 :: u32)" "push_bit 27 1 - 1 = (mask 27 :: u32)" by (simp_all add: mask_eq_exp_minus_1)
  have b: "bit ty i \<Longrightarrow> i < 5" "bit ts i \<Longrightarrow> i < 27" for i using bits_below [OF assms(1)] bits_below [OF assms(2)] by simp_all
  show "type_len4host kbuf (hdr be ty ts) = ty"
    unfolding type_len4host_def hdr_def assms(3) m by (rule bit_word_eqI) (auto simp: bit_simps dest: b)
  show "ts4host kbuf (hdr be ty ts) = ts"
    unfolding ts4host_def hdr_def assms(3) m by (rule bit_word_eqI) (auto simp: bit_simps dest: b)
qed

lemma round_4: "4 dvd n \<Longrightarrow> (of_nat n + 3 :: u32) AND NOT 3 = of_nat n"
proof -
  assume "4 dvd n"
  then obtain k where k: "n = 4 * k" by blast
  have n: "(of_nat n :: u32) = push_bit 2 (of_nat k)" by (simp add: k push_bit_eq_mult)
  have 3: "(3 :: u32) = mask 2" by (simp add: mask_eq_exp_minus_1)
  have "push_bit 2 (of_nat k :: u32) + mask 2 = push_bit 2 (of_nat k) OR mask 2"
    by (rule disjunctive_add) (auto simp: bit_push_bit_iff bit_mask_iff)
  then show ?thesis unfolding n 3 by (intro bit_word_eqI) (auto simp: bit_simps)
qed

lemma extend_delta: "d < 2 ^ 59 \<Longrightarrow> push_bit 27 (ucast (ucast (drop_bit 27 d) :: u32)) + ucast (ucast (take_bit 27 d) :: u32) = (d :: u64)"
proof -
  assume d: "d < 2 ^ 59"
  have b: "bit d i \<Longrightarrow> i < 59" for i using bits_below [OF d, of i] by simp
  have "ucast (ucast (drop_bit 27 d) :: u32) = drop_bit 27 d"
  proof (rule bit_word_eqI)
    fix i assume "i < LENGTH(64)"
    show "bit (ucast (ucast (drop_bit 27 d) :: u32) :: u64) i = bit (drop_bit 27 d) i"
      using b [of "27 + i"] by (auto simp: bit_simps add.commute dest: bit_imp_le_length)
  qed
  moreover have "ucast (ucast (take_bit 27 d) :: u32) = take_bit 27 d" by (rule bit_word_eqI) (auto simp: bit_simps)
  ultimately show ?thesis by (simp only: bits_ident)
qed

lemma small_ts: "ucast (take_bit 27 (d :: u64)) < (2 ^ 27 :: u32)"
proof -
  have "ucast (take_bit 27 d) = (take_bit 27 (ucast d) :: u32)" by (rule bit_word_eqI) (auto simp: bit_simps)
  moreover have "unat (take_bit 27 (ucast d :: u32)) < 2 ^ 27" by (simp only: unsigned_take_bit_eq) (rule take_bit_nat_less_exp)
  ultimately show ?thesis by (simp add: word_less_nat_alt)
qed

lemma khead_le: "khead r \<le> length (kenc be r)"
  by (cases r) auto

lemma translate_rec:
  assumes kb: "kb_read_sw kbuf = be" "big kbuf = be" and ok: "krec_ok r" and h: "bytes_at m pos (kenc be r)"
  shows "translate_data kbuf m pos = Inr (ktype r, pos + khead r, kdelta r, of_nat (length (kenc be r) - khead r))"
proof (cases r)
  case (KData ts p)
  then have p: "ts < 2 ^ 27" "4 dvd length p" "0 < length p" "length p \<le> 112" using ok by simp_all
  let ?t = "of_nat (length p div 4) :: u32"
  have u: "unat ?t = length p div 4" using p(4) by (simp add: unat_of_nat take_bit_nat_eq_self)
  then have t: "?t < 2 ^ 5" "?t \<noteq> 0" "?t \<noteq> 29" "?t \<noteq> 30" "?t \<noteq> 31" using p(2-4) by (auto simp: word_less_nat_alt elim!: dvdE)
  have r: "read_4 kbuf m pos = Inr (hdr be ?t ts)" using read_4_at [OF kb(1)] h KData by (simp add: holds_append)
  have "?t * 4 = of_nat (length p)" using p(2) by (auto elim!: dvdE simp: mult.commute)
  then show ?thesis using t r hdr_fields [OF t(1) p(1) kb(2)]
    by (simp add: KData translate_data_def Let_def KBUFFER_TYPE_PADDING_def KBUFFER_TYPE_TIME_EXTEND_def KBUFFER_TYPE_TIME_STAMP_def)
next
  case (KLong ts p)
  then have p: "ts < 2 ^ 27" "4 dvd length p" using ok by simp_all
  have r: "read_4 kbuf m pos = Inr (hdr be 0 ts)" "read_4 kbuf m (pos + 4) = Inr (of_nat (length p + 4))"
    using read_4_at [OF kb(1)] h KLong by (simp_all add: holds_append)
  have rd: "3 + of_nat (length p) AND - 4 = (of_nat (length p) :: u32)" using round_4 [OF p(2)] by (simp add: add.commute [of 3])
  show ?thesis using r hdr_fields [OF _ p(1) kb(2), of 0] rd
    by (simp add: KLong translate_data_def Let_def KBUFFER_TYPE_PADDING_def KBUFFER_TYPE_TIME_EXTEND_def KBUFFER_TYPE_TIME_STAMP_def)
next
  case (KExtend d)
  have r: "read_4 kbuf m pos = Inr (hdr be 30 (ucast (take_bit 27 d)))" "read_4 kbuf m (pos + 4) = Inr (ucast (drop_bit 27 d))"
    using read_4_at [OF kb(1)] h KExtend by (simp_all add: holds_append)
  have "d < 2 ^ 59" using ok KExtend by simp
  then show ?thesis using r hdr_fields [OF _ small_ts [of d] kb(2), of 30] extend_delta [of d]
    by (simp add: KExtend translate_data_def Let_def KBUFFER_TYPE_PADDING_def KBUFFER_TYPE_TIME_EXTEND_def TS_SHIFT_def)
next
  case (KPad ts p)
  then have p: "ts < 2 ^ 27" using ok by simp
  have r: "read_4 kbuf m pos = Inr (hdr be 29 ts)" "read_4 kbuf m (pos + 4) = Inr (of_nat (length p + 4))"
    using read_4_at [OF kb(1)] h KPad by (simp_all add: holds_append)
  show ?thesis using r hdr_fields [OF _ p kb(2), of 29]
    by (simp add: KPad translate_data_def Let_def KBUFFER_TYPE_PADDING_def)
qed

lemma update_pointers_rec:
  assumes "kb_read_sw kbuf = be" "big kbuf = be" "krec_ok r" "bytes_at m (kb_data kbuf + unat (kb_curr kbuf)) (kenc be r)"
  shows "update_pointers kbuf m = Inr (ktype r, kbuf\<lparr>kb_timestamp := kb_timestamp kbuf + kdelta r,
     kb_index := kb_curr kbuf + of_nat (khead r), kb_next := kb_curr kbuf + of_nat (length (kenc be r))\<rparr>)"
  using khead_le [of r be] by (simp add: update_pointers_def translate_rec [OF assms] calc_index_def Let_def of_nat_diff)

subsection \<open>The events of a page\<close>

fun is_data :: "krec \<Rightarrow> bool" where
  "is_data (KData ts p) = True"
| "is_data (KLong ts p) = True"
| "is_data _ = False"

fun kpayload :: "krec \<Rightarrow> u8 list" where
  "kpayload (KData ts p) = p"
| "kpayload (KLong ts p) = p"
| "kpayload _ = []"

primrec kevents :: "u64 \<Rightarrow> krec list \<Rightarrow> (u64 \<times> u8 list) list" where
  "kevents t [] = []"
| "kevents t (r # rs) = (if is_data r then [(t + kdelta r, kpayload r)] else []) @ kevents (t + kdelta r) rs"

definition kpage :: "bool \<Rightarrow> krec list \<Rightarrow> u8 list" where
  "kpage be rs = concat (map (kenc be) rs)"

text \<open>A reader whose next record is the first of \<open>rs\<close>, and one that stands at a data record.\<close>

definition kb_before :: "bool \<Rightarrow> u8 list \<Rightarrow> kbuffer \<Rightarrow> krec list \<Rightarrow> bool" where
  "kb_before be m kbuf rs \<longleftrightarrow> kb_subbuffer kbuf = Some m \<and> kb_read_sw kbuf = be \<and> big kbuf = be \<and> \<not> kb_next_event_old kbuf \<and>
     bytes_at m (kb_data kbuf + unat (kb_next kbuf)) (kpage be rs) \<and> unat (kb_next kbuf) + length (kpage be rs) = unat (kb_size kbuf) \<and>
     list_all krec_ok rs"

definition kb_at :: "bool \<Rightarrow> u8 list \<Rightarrow> kbuffer \<Rightarrow> u8 list \<Rightarrow> krec list \<Rightarrow> bool" where
  "kb_at be m kbuf p rs \<longleftrightarrow> kb_before be m kbuf rs \<and> kb_curr kbuf < kb_size kbuf \<and>
     bytes_at m (kb_data kbuf + unat (kb_index kbuf)) p \<and> kb_next kbuf = kb_index kbuf + of_nat (length p) \<and> length p < 2 ^ 32"

lemma kb_step:
  assumes b: "kb_before be m kbuf (r # rs)"
  defines "kbuf1 \<equiv> kbuf\<lparr>kb_curr := kb_next kbuf\<rparr>"
  defines "kbuf2 \<equiv> kbuf\<lparr>kb_curr := kb_next kbuf, kb_timestamp := kb_timestamp kbuf + kdelta r,
     kb_index := kb_next kbuf + of_nat (khead r), kb_next := kb_next kbuf + of_nat (length (kenc be r))\<rparr>"
  shows "kb_next kbuf < kb_size kbuf" "update_pointers kbuf1 m = Inr (ktype r, kbuf2)" "kb_before be m kbuf2 rs"
    and "is_data r \<Longrightarrow> kb_at be m kbuf2 (kpayload r) rs"
proof -
  let ?l = "length (kenc be r)"
  have h: "bytes_at m (kb_data kbuf + unat (kb_next kbuf)) (kenc be r)" "bytes_at m (kb_data kbuf + unat (kb_next kbuf) + ?l) (kpage be rs)"
    using b by (simp_all add: kb_before_def kpage_def holds_append)
  have sz: "unat (kb_next kbuf) + ?l + length (kpage be rs) = unat (kb_size kbuf)" using b by (simp add: kb_before_def kpage_def)
  have l: "4 \<le> ?l" "?l < 2 ^ 32" using sz unat_u32 [of "kb_size kbuf"] by (cases r; simp)+
  then show s: "kb_next kbuf < kb_size kbuf" using sz by (simp add: word_less_nat_alt)
  have n: "unat (kb_next kbuf + of_nat ?l) = unat (kb_next kbuf) + ?l"
    using sz unat_u32 [of "kb_size kbuf"] l(2) by (simp add: unat_word_ariths unat_of_nat take_bit_nat_eq_self)
  have kh: "khead r \<le> ?l" by (rule khead_le)
  have i: "unat (kb_next kbuf + of_nat (khead r)) = unat (kb_next kbuf) + khead r"
    using sz unat_u32 [of "kb_size kbuf"] l(2) kh by (simp add: unat_word_ariths unat_of_nat take_bit_nat_eq_self)
  have kb: "kb_read_sw kbuf1 = be" "big kbuf1 = be" "krec_ok r" using b by (simp_all add: kb_before_def kbuf1_def big_def)
  show "update_pointers kbuf1 m = Inr (ktype r, kbuf2)"
    using update_pointers_rec [OF kb] h(1) by (simp add: kbuf1_def kbuf2_def)
  show b2: "kb_before be m kbuf2 rs" using b h(2) sz n by (simp add: kb_before_def kbuf2_def big_def add.assoc)
  assume "is_data r"
  then have "kenc be r = take (khead r) (kenc be r) @ kpayload r" "length (take (khead r) (kenc be r)) = khead r" by (cases r; simp)+
  then have "bytes_at m (kb_data kbuf + unat (kb_next kbuf) + khead r) (kpayload r)" "?l = khead r + length (kpayload r)"
    using h(1) holds_append [of m "kb_data kbuf + unat (kb_next kbuf)" "take (khead r) (kenc be r)" "kpayload r"] by (metis, metis length_append)
  then show "kb_at be m kbuf2 (kpayload r) rs" using b2 s i l(2) unfolding kb_at_def by (simp add: kbuf2_def add.assoc)
qed

declare next_event_loop.simps [simp del] old_next_event_loop.simps [simp del]

lemma ktype_data: "krec_ok r \<Longrightarrow> ktype r = KBUFFER_TYPE_TIME_EXTEND \<or> ktype r = KBUFFER_TYPE_PADDING \<longleftrightarrow> \<not> is_data r"
proof (cases r)
  case (KData ts p)
  assume "krec_ok r"
  then have p: "length p \<le> 112" using KData by simp
  then have "unat (of_nat (length p div 4) :: u32) = length p div 4" by (simp add: unat_of_nat take_bit_nat_eq_self)
  then have "(of_nat (length p div 4) :: u32) \<noteq> 29 \<and> (of_nat (length p div 4) :: u32) \<noteq> 30" using p by auto
  then show ?thesis using KData by (simp add: KBUFFER_TYPE_PADDING_def KBUFFER_TYPE_TIME_EXTEND_def)
qed (simp_all add: KBUFFER_TYPE_PADDING_def KBUFFER_TYPE_TIME_EXTEND_def)

lemma next_event_loop_rec:
  assumes b: "kb_before be m kbuf (r # rs)"
  defines "kbuf2 \<equiv> kbuf\<lparr>kb_curr := kb_next kbuf, kb_timestamp := kb_timestamp kbuf + kdelta r,
     kb_index := kb_next kbuf + of_nat (khead r), kb_next := kb_next kbuf + of_nat (length (kenc be r))\<rparr>"
  shows "next_event_loop m kbuf = (if is_data r then Some (Inr (0, kbuf2)) else next_event_loop m kbuf2)"
proof -
  note s = kb_step [OF b]
  have ok: "krec_ok r" using b by (simp add: kb_before_def)
  show ?thesis
    unfolding next_event_loop.simps [of m kbuf] Let_def kbuf2_def
    using s(1) [unfolded not_le [symmetric]] s(2) ktype_data [OF ok] by simp
qed

lemma next_event_loop_end: "kb_before be m kbuf [] \<Longrightarrow> next_event_loop m kbuf = Some (Inr (- 1, kbuf\<lparr>kb_curr := kb_next kbuf\<rparr>))"
  unfolding next_event_loop.simps [of m kbuf] Let_def by (simp add: kb_before_def kpage_def word_le_nat_alt)

definition kb_done :: "u8 list \<Rightarrow> kbuffer \<Rightarrow> bool" where
  "kb_done m kbuf \<longleftrightarrow> kb_subbuffer kbuf = Some m \<and> kb_size kbuf \<le> kb_curr kbuf"

text \<open>Moving on finds the next data record, or the end of the page.\<close>

lemma next_event_loop_events:
  assumes "kb_before be m kbuf rs"
  shows "case kevents (kb_timestamp kbuf) rs of
      [] \<Rightarrow> \<exists>k. next_event_loop m kbuf = Some (Inr (- 1, k)) \<and> kb_done m k \<and> kb_lost_events k = kb_lost_events kbuf
    | (t, p) # es \<Rightarrow> \<exists>k rs'. next_event_loop m kbuf = Some (Inr (0, k)) \<and> kb_at be m k p rs' \<and> kb_timestamp k = t \<and> kevents t rs' = es \<and>
        length es < length (kevents (kb_timestamp kbuf) rs) \<and> kb_lost_events k = kb_lost_events kbuf"
  using assms
proof (induction rs arbitrary: kbuf)
  case Nil
  then show ?case using next_event_loop_end [OF Nil] by (auto simp: kb_done_def kb_before_def kpage_def word_le_nat_alt)
next
  case (Cons r rs)
  let ?k = "kbuf\<lparr>kb_curr := kb_next kbuf, kb_timestamp := kb_timestamp kbuf + kdelta r,
     kb_index := kb_next kbuf + of_nat (khead r), kb_next := kb_next kbuf + of_nat (length (kenc be r))\<rparr>"
  note s = kb_step [OF Cons.prems] next_event_loop_rec [OF Cons.prems]
  show ?case
  proof (cases "is_data r")
    case True
    then show ?thesis using s(4,5) by (auto intro!: exI [of _ ?k] exI [of _ rs])
  next
    case False
    have "kb_timestamp ?k = kb_timestamp kbuf + kdelta r" "kb_lost_events ?k = kb_lost_events kbuf" by simp_all
    then show ?thesis using Cons.IH [OF s(3)] s(5) False by (simp split: list.splits prod.splits)
  qed
qed

text \<open>A client that reads the current event, moves on, and goes on until there is none.\<close>

primrec kb_collect :: "nat \<Rightarrow> kbuffer \<Rightarrow> (u64 \<times> u8 list) list c_result" where
  "kb_collect 0 kbuf = Inr []"
| "kb_collect (Suc n) kbuf =
     (case kbuffer_read_event (Some kbuf) (Some 0) of
        (Some ptr, Some ts) \<Rightarrow>
          bnd (subbuf kbuf) (\<lambda>m.
          bnd (kbuffer_next_event (Some kbuf) None) (\<lambda>(_, kb, _).
          case kb of None \<Rightarrow> Inr [] | Some kbuf' \<Rightarrow>
            bnd (kb_collect n kbuf') (\<lambda>es. Inr ((ts, take (unat (kbuffer_event_size kbuf)) (drop ptr m)) # es))))
      | _ \<Rightarrow> Inr [])"

lemma kb_collect_done: "kb_done m k \<Longrightarrow> kb_collect n k = Inr []"
  by (cases n) (simp_all add: kb_done_def kbuffer_read_event_def)

lemma kb_collect_at:
  "kb_at be m k p rs \<Longrightarrow> length (kevents (kb_timestamp k) rs) < n \<Longrightarrow>
     kb_collect n k = Inr ((kb_timestamp k, p) # kevents (kb_timestamp k) rs)"
proof (induction n arbitrary: k p rs)
  case (Suc n)
  have b: "kb_before be m k rs" "kb_curr k < kb_size k" and d: "bytes_at m (kb_data k + unat (kb_index k)) p" "kb_next k = kb_index k + of_nat (length p)" "length p < 2 ^ 32"
    using Suc.prems(1) by (simp_all add: kb_at_def)
  have sub: "kb_subbuffer k = Some m" "\<not> kb_next_event_old k" using b(1) by (simp_all add: kb_before_def)
  have sz: "unat (kbuffer_event_size k) = length p" using d(2,3) by (simp add: kbuffer_event_size_def unat_of_nat take_bit_nat_eq_self)
  have data: "take (length p) (drop (kb_data k + unat (kb_index k)) m) = p" using d(1) by (rule holds_drop)
  have nx: "next_event k = bnd (returns (next_event_loop m k)) (\<lambda>r. r)" using sub by (simp add: next_event_def subbuf_def)
  have "kb_collect (Suc n) k = bnd (kbuffer_next_event (Some k) None) (\<lambda>(_, kb, _).
      case kb of None \<Rightarrow> Inr [] | Some k' \<Rightarrow> bnd (kb_collect n k') (\<lambda>es.
        Inr ((kb_timestamp k, take (length p) (drop (kb_data k + unat (kb_index k)) m)) # es)))"
    unfolding kb_collect.simps sz using b(2) [unfolded not_le [symmetric]] by (simp add: sub kbuffer_read_event_def set_ts_def subbuf_def)
  note unf = this [unfolded data]
  show ?case
  proof (cases "kevents (kb_timestamp k) rs")
    case Nil
    then obtain k' where "next_event_loop m k = Some (Inr (- 1, k'))" "kb_done m k'" using next_event_loop_events [OF b(1)] by auto
    then show ?thesis using unf sub nx Nil kb_collect_done by (simp add: kbuffer_next_event_def)
  next
    case (Cons e es)
    obtain t q where e: "e = (t, q)" by (cases e)
    obtain k' rs' where k': "next_event_loop m k = Some (Inr (0, k'))" "kb_at be m k' q rs'" "kb_timestamp k' = t" "kevents t rs' = es"
      using next_event_loop_events [OF b(1)] Cons e by auto
    have "length es < n" using Suc.prems(2) Cons by simp
    then have "kb_collect n k' = Inr ((t, q) # es)" using Suc.IH [OF k'(2)] k'(3,4) by simp
    then show ?thesis using unf sub nx Cons e k'(1) by (simp add: kbuffer_next_event_def)
  qed
qed simp

subsection \<open>Loading a page\<close>

datatype lost = Lost_none | Lost_unknown | Lost_count u64

fun lost_flags :: "lost \<Rightarrow> u64" where
  "lost_flags Lost_none = 0"
| "lost_flags Lost_unknown = push_bit 31 1"
| "lost_flags (Lost_count n) = push_bit 31 1 OR push_bit 30 1"

fun lost_value :: "lost \<Rightarrow> u64" where
  "lost_value Lost_none = 0"
| "lost_value Lost_unknown = - 1"
| "lost_value (Lost_count n) = n"

definition putl :: "bool \<Rightarrow> bool \<Rightarrow> u64 \<Rightarrow> u8 list" where
  "putl be l8 v = (if l8 then put8 be v else put4 be (ucast v))"

text \<open>A page with its header, the records, the stored number of lost events and whatever follows.\<close>

definition sub_page :: "bool \<Rightarrow> bool \<Rightarrow> u64 \<Rightarrow> lost \<Rightarrow> krec list \<Rightarrow> u8 list \<Rightarrow> u8 list" where
  "sub_page be l8 ts lost rs rest = put8 be ts @ putl be l8 (of_nat (length (kpage be rs)) OR lost_flags lost) @ kpage be rs @
     (case lost of Lost_count n \<Rightarrow> putl be l8 n | _ \<Rightarrow> []) @ rest"

definition is_be :: "kbuffer_endian \<Rightarrow> bool" where "is_be en \<longleftrightarrow> en = KBUFFER_ENDIAN_BIG"
definition is_l8 :: "kbuffer_long_size \<Rightarrow> bool" where "is_l8 ls \<longleftrightarrow> ls = KBUFFER_LSIZE_8"

lemma kbuffer_alloc_ok:
  assumes "kbuffer_alloc True ls en = Some k"
  shows "kb_read_sw k = is_be en" "big k = is_be en" "kb_read_long_8 k = is_l8 ls" "(kb_flags k AND KBUFFER_FL_LONG_8 \<noteq> 0) = is_l8 ls" "\<not> kb_next_event_old k"
proof -
  have h: "\<not> host_is_bigendian" by (simp add: host_is_bigendian_def)
  show "kb_read_sw k = is_be en" "big k = is_be en" "kb_read_long_8 k = is_l8 ls" "(kb_flags k AND KBUFFER_FL_LONG_8 \<noteq> 0) = is_l8 ls" "\<not> kb_next_event_old k"
    using assms h by (cases ls; cases en; auto simp: kbuffer_alloc_def Let_def is_be_def is_l8_def big_def do_swap_def
        KBUFFER_FL_LONG_8_def KBUFFER_FL_BIG_ENDIAN_def KBUFFER_FL_HOST_BIG_ENDIAN_def ENDIAN_MASK_def)+
qed

lemma read_long_at:
  assumes "kb_read_sw kbuf = be" "kb_read_long_8 kbuf = l8" "bytes_at m pos (putl be l8 v)" "l8 \<or> v < 2 ^ 32"
  shows "read_long kbuf m pos = Inr v"
proof (cases l8)
  case False
  then have v: "v < 2 ^ 32" using assms(4) by simp
  have "ucast (ucast v :: u32) = v" by (rule bit_word_eqI) (use bits_below [OF v] in \<open>auto simp: bit_simps\<close>)
  then show ?thesis using False assms read_4_at [OF assms(1), of m pos "ucast v"] by (simp add: putl_def read_long_def)
qed (use assms read_8_at [OF assms(1)] in \<open>simp add: putl_def read_long_def\<close>)

lemma bit_of_nat_word_iff: "bit (of_nat n :: 'a::len word) i \<longleftrightarrow> i < LENGTH('a) \<and> bit n i"
proof -
  have "bit (unat (of_nat n :: 'a word)) i = bit (of_nat n :: 'a word) i" by (simp only: bit_unsigned_iff possible_bit_nat) auto
  moreover have "unat (of_nat n :: 'a word) = take_bit LENGTH('a) n" by (simp only: unat_of_nat take_bit_eq_mod)
  ultimately show ?thesis by (metis bit_take_bit_iff)
qed

lemma commit_word:
  fixes lost :: lost
  assumes "len < 2 ^ 27"
  defines "c \<equiv> of_nat len OR lost_flags lost"
  shows "unat (ucast c AND COMMIT_MASK) = len" "c < 2 ^ 32"
    and "(c AND MISSING_EVENTS \<noteq> 0) = (lost \<noteq> Lost_none)" "(c AND MISSING_STORED \<noteq> 0) = (\<exists>n. lost = Lost_count n)"
proof -
  have l: "(of_nat len :: u64) < 2 ^ 27" "(of_nat len :: u32) < 2 ^ 27" using assms by (simp_all add: word_less_nat_alt unat_of_nat take_bit_nat_eq_self)
  have b: "bit (of_nat len :: u64) i \<Longrightarrow> i < 27" "bit (of_nat len :: u32) i \<Longrightarrow> i < 27" for i using bits_below [OF l(1)] bits_below [OF l(2)] by simp_all
  have f: "bit (lost_flags lost) i \<longleftrightarrow> i = 31 \<and> lost \<noteq> Lost_none \<or> i = 30 \<and> (\<exists>n. lost = Lost_count n)" for i
    by (cases lost) (auto simp: bit_or_iff bit_push_bit_iff bit_1_iff simp del: push_bit_of_1)
  have ci: "bit c i \<longleftrightarrow> bit (of_nat len :: u64) i \<or> i = 31 \<and> lost \<noteq> Lost_none \<or> i = 30 \<and> (\<exists>n. lost = Lost_count n)" for i
    by (simp add: c_def bit_or_iff f)
  have m: "COMMIT_MASK = mask 27" by (simp add: COMMIT_MASK_def mask_eq_exp_minus_1)
  have "ucast c AND COMMIT_MASK = (of_nat len :: u32)"
  proof (rule bit_word_eqI)
    fix i assume "i < LENGTH(32)"
    then show "bit (ucast c AND COMMIT_MASK) i = bit (of_nat len :: u32) i"
      using b(2) [of i] by (auto simp: m bit_and_iff bit_mask_iff bit_unsigned_iff ci bit_of_nat_word_iff)
  qed
  then show "unat (ucast c AND COMMIT_MASK) = len" using assms by (simp add: unat_of_nat take_bit_nat_eq_self)
  have "take_bit 32 c = c" by (rule bit_word_eqI) (auto simp: bit_take_bit_iff ci dest: b(1))
  then have "unat c = take_bit 32 (unat c)" by (metis unsigned_take_bit_eq)
  then have "unat c < 2 ^ 32" by (metis take_bit_nat_less_exp)
  then show "c < 2 ^ 32" by (simp add: word_less_nat_alt)
  have me: "MISSING_EVENTS = NOT (mask 31)" by (simp add: MISSING_EVENTS_def mask_eq_exp_minus_1)
  have "c AND MISSING_EVENTS = 0 \<longleftrightarrow> (\<forall>i. \<not> (bit c i \<and> i < 64 \<and> 31 \<le> i))" unfolding me bit_eq_iff by (auto simp: bit_simps)
  also have "\<dots> \<longleftrightarrow> lost = Lost_none" using b(1) by (fastforce simp: ci)
  finally show "(c AND MISSING_EVENTS \<noteq> 0) = (lost \<noteq> Lost_none)" by simp
  have "c AND MISSING_STORED = 0 \<longleftrightarrow> \<not> bit c 30" unfolding MISSING_STORED_def push_bit_of_1 by (rule and_exp_eq_0_iff_not_bit)
  also have "\<dots> \<longleftrightarrow> \<not> (\<exists>n. lost = Lost_count n)" using b(1) [of 30] by (auto simp: ci)
  finally show "(c AND MISSING_STORED \<noteq> 0) = (\<exists>n. lost = Lost_count n)" by simp
qed

lemma kpage_at:
  assumes "length (kpage be rs) < 2 ^ 27"
  shows "bytes_at (sub_page be l8 ts lost rs rest) 0 (put8 be ts)"
    "bytes_at (sub_page be l8 ts lost rs rest) 8 (putl be l8 (of_nat (length (kpage be rs)) OR lost_flags lost))"
    "bytes_at (sub_page be l8 ts lost rs rest) (if l8 then 16 else 12) (kpage be rs)"
    "lost = Lost_count n \<Longrightarrow> bytes_at (sub_page be l8 ts lost rs rest) ((if l8 then 16 else 12) + length (kpage be rs)) (putl be l8 n)"
proof -
  define m where "m = sub_page be l8 ts lost rs rest"
  let ?c = "putl be l8 (of_nat (length (kpage be rs)) OR lost_flags lost)"
  let ?x = "case lost of Lost_count n \<Rightarrow> putl be l8 n | _ \<Rightarrow> []"
  have e: "m = put8 be ts @ ?c @ kpage be rs @ ?x @ rest" by (simp add: m_def sub_page_def)
  have "bytes_at m 0 (put8 be ts @ ?c @ kpage be rs @ ?x @ rest)" unfolding e [symmetric] by (simp add: bytes_at_def)
  then have h: "bytes_at m 0 (put8 be ts)" "bytes_at m 8 ?c" "bytes_at m (8 + length ?c) (kpage be rs)" "bytes_at m (8 + length ?c + length (kpage be rs)) ?x"
    by (simp_all add: holds_append)
  have l: "8 + length ?c = (if l8 then 16 else 12)" by (simp add: putl_def)
  show "bytes_at (sub_page be l8 ts lost rs rest) 0 (put8 be ts)"
    "bytes_at (sub_page be l8 ts lost rs rest) 8 (putl be l8 (of_nat (length (kpage be rs)) OR lost_flags lost))"
    "bytes_at (sub_page be l8 ts lost rs rest) (if l8 then 16 else 12) (kpage be rs)"
    "lost = Lost_count n \<Longrightarrow> bytes_at (sub_page be l8 ts lost rs rest) ((if l8 then 16 else 12) + length (kpage be rs)) (putl be l8 n)"
    using h unfolding l m_def by simp_all
qed

lemma load_before:
  fixes ts :: u64 and rest :: "u8 list"
  assumes k: "kb_read_sw kbuf = be" "big kbuf = be" "kb_read_long_8 kbuf = l8" "(kb_flags kbuf AND KBUFFER_FL_LONG_8 \<noteq> 0) = l8" "\<not> kb_next_event_old kbuf"
    and ok: "list_all krec_ok rs" and len: "length (kpage be rs) < 2 ^ 27" and n: "\<And>n. lost = Lost_count n \<Longrightarrow> l8 \<or> n < 2 ^ 32"
  defines "m \<equiv> sub_page be l8 ts lost rs rest"
  shows "\<exists>k0. kb_before be m k0 rs \<and> kb_timestamp k0 = ts \<and> kb_lost_events k0 = lost_value lost \<and>
    kbuffer_load_subbuffer (Some kbuf) (Some m) = bnd (next_event k0) (\<lambda>(_, k). Inr (0, Some k))"
proof -
  note h = kpage_at [OF len, where ?l8.0 = l8 and ts = ts and lost = lost and rest = rest, folded m_def]
  let ?c = "of_nat (length (kpage be rs)) OR lost_flags lost"
  note c = commit_word [OF len, of lost]
  let ?st = "if l8 then 16 else 12 :: u32"
  let ?k1 = "kbuf\<lparr>kb_subbuffer := Some m, kb_timestamp := ts, kb_curr := 0, kb_start := ?st, kb_data := unat ?st, kb_size := ucast ?c AND COMMIT_MASK\<rparr>"
  let ?k0 = "?k1\<lparr>kb_lost_events := lost_value lost, kb_index := 0, kb_next := 0\<rparr>"
  have r8: "read_8 (kbuf\<lparr>kb_subbuffer := Some m\<rparr>) m 0 = Inr ts" by (rule read_8_at [OF _ h(1)]) (simp add: k)
  have rl: "read_long (kbuf\<lparr>kb_subbuffer := Some m, kb_timestamp := ts, kb_curr := 0, kb_start := ?st, kb_data := unat ?st\<rparr>) m 8 = Inr ?c"
    by (rule read_long_at [OF _ _ h(2)]) (use k c(2) in simp_all)
  have dat: "unat ?st = (if l8 then 16 else 12)" by simp
  have rn: "read_long ?k1 m (unat ?st + length (kpage be rs)) = Inr n" if "lost = Lost_count n" for n
    by (rule read_long_at [where be = be and ?l8.0 = l8]) (use k h(4) [OF that] n [OF that] dat in simp_all)
  have "kb_before be m ?k0 rs" using k ok h(3) c(1) dat by (simp add: kb_before_def big_def)
  moreover have "kbuffer_load_subbuffer (Some kbuf) (Some m) = bnd (next_event ?k0) (\<lambda>(_, k). Inr (0, Some k))"
    unfolding kbuffer_load_subbuffer_def prod.case option.case Let_def r8 bnd_simps
    using rl rn c(1,3,4) k(4) by (cases lost) simp_all
  ultimately show ?thesis by (intro exI [of _ ?k0]) simp
qed

text \<open>
  Claim C8.  Reading a page of trace records: for pages of both byte orders and both sizes of long, after
  \<open>kbuffer_load_subbuffer\<close> a client that alternates \<open>kbuffer_read_event\<close> and
  \<open>kbuffer_next_event\<close> gets exactly the data records in order, each with its payload and the sum of the page's
  timestamp and all deltas before it, time extensions and discarded space included, and then the null
  pointer; the number of lost events is the stored one.
\<close>

theorem page_events_read_in_order:
  assumes "kbuffer_alloc True ls en = Some kbuf" and "list_all krec_ok rs" and "length (kpage (is_be en) rs) < 2 ^ 27"
    and "\<And>c. lost = Lost_count c \<Longrightarrow> is_l8 ls \<or> c < 2 ^ 32" and "length (kevents ts rs) < n"
  shows "\<exists>k. kbuffer_load_subbuffer (Some kbuf) (Some (sub_page (is_be en) (is_l8 ls) ts lost rs rest)) = Inr (0, Some k) \<and>
    kb_collect n k = Inr (kevents ts rs) \<and> kb_lost_events k = lost_value lost"
proof -
  let ?m = "sub_page (is_be en) (is_l8 ls) ts lost rs rest"
  note k = kbuffer_alloc_ok [OF assms(1)]
  obtain k0 where k0: "kb_before (is_be en) ?m k0 rs" "kb_timestamp k0 = ts" "kb_lost_events k0 = lost_value lost"
      "kbuffer_load_subbuffer (Some kbuf) (Some ?m) = bnd (next_event k0) (\<lambda>(_, k). Inr (0, Some k))"
    using load_before [OF k assms(2,3,4)] by blast
  have nx: "next_event k0 = bnd (returns (next_event_loop ?m k0)) (\<lambda>r. r)" using k0(1) by (simp add: next_event_def subbuf_def kb_before_def)
  note ev = next_event_loop_events [OF k0(1), unfolded k0(2,3)]
  show ?thesis
  proof (cases "kevents ts rs")
    case Nil
    then obtain k' where "next_event_loop ?m k0 = Some (Inr (- 1, k'))" "kb_done ?m k'" "kb_lost_events k' = lost_value lost" using ev by auto
    then show ?thesis using k0(4) nx Nil kb_collect_done by simp
  next
    case (Cons e es)
    obtain t p where e: "e = (t, p)" by (cases e)
    obtain k' rs' where k': "next_event_loop ?m k0 = Some (Inr (0, k'))" "kb_at (is_be en) ?m k' p rs'" "kb_timestamp k' = t" "kevents t rs' = es"
        "kb_lost_events k' = lost_value lost" using ev Cons e by auto
    have "kb_collect n k' = Inr ((t, p) # es)" using kb_collect_at [OF k'(2)] k'(3,4) assms(5) Cons by simp
    then show ?thesis using k0(4) nx Cons e k'(1,5) by simp
  qed
qed

lemma four_dvd: "4 dvd Suc (Suc (Suc (Suc 0)))"
  by (simp add: numeral_eq_Suc)

theorem page_events_read_in_order_witness:
  "\<exists>kbuf k. kbuffer_alloc True KBUFFER_LSIZE_4 KBUFFER_ENDIAN_BIG = Some kbuf \<and>
    kbuffer_load_subbuffer (Some kbuf) (Some (sub_page True False 1000 (Lost_count 3)
      [KExtend 0x8000001, KData 5 [1, 2, 3, 4], KPad 0 [0, 0], KLong 7 [5, 6, 7, 8]] [])) = Inr (0, Some k) \<and>
    kb_collect 3 k = Inr [(134218734, [1, 2, 3, 4]), (134218741, [5, 6, 7, 8])] \<and> kb_lost_events k = 3"
proof -
  obtain kbuf where kbuf: "kbuffer_alloc True KBUFFER_LSIZE_4 KBUFFER_ENDIAN_BIG = Some kbuf" by (simp add: kbuffer_alloc_def Let_def)
  let ?rs = "[KExtend 0x8000001, KData 5 [1, 2, 3, 4], KPad 0 [0, 0], KLong 7 [5, 6, 7, 8]]"
  have "is_be KBUFFER_ENDIAN_BIG" "\<not> is_l8 KBUFFER_LSIZE_4" by (simp_all add: is_be_def is_l8_def)
  moreover note four_dvd
  ultimately show ?thesis
    using kbuf page_events_read_in_order [OF kbuf, of ?rs "Lost_count 3" 1000 3 "[]"] by (simp add: kpage_def)
qed

text \<open>
  \<open>kbuffer_read_at_offset\<close> returns a pointer it never set when the offset is that of the first
  record or smaller: the loop that sets it is not entered, on every sub-buffer that can be loaded,
  although the offset of a record, or one in the header, is documented as valid.
\<close>

theorem read_at_first_offset_uninitialised:
  assumes "kbuffer_load_subbuffer (Some kbuf) (kb_subbuffer kbuf) = Inr r" and "offset \<le> kb_start kbuf"
  shows "kbuffer_read_at_offset kbuf offset ts = Inl Uninit_Read"
proof -
  have "(if offset < kb_start kbuf then 0 else offset - kb_start kbuf) = 0" using assms(2) by (auto simp: order_le_less)
  then show ?thesis using assms(1) by (cases r) (simp add: kbuffer_read_at_offset_def Let_def at_offset_loop.simps)
qed

theorem read_at_first_offset_uninitialised_witness:
  "\<exists>kbuf. kb_start kbuf = 16 \<and> kbuffer_read_at_offset kbuf 16 None = Inl Uninit_Read"
proof -
  let ?rs = "[KData 5 [1, 2, 3, 4]]"
  obtain k0 where k0: "kbuffer_alloc True KBUFFER_LSIZE_8 KBUFFER_ENDIAN_LITTLE = Some k0" by (simp add: kbuffer_alloc_def Let_def)
  note a = kbuffer_alloc_ok [OF k0, unfolded is_be_def is_l8_def]
  let ?m = "sub_page False True 0 Lost_none ?rs []"
  define kbuf where "kbuf = k0\<lparr>kb_subbuffer := Some ?m, kb_start := 16\<rparr>"
  have p: "length (kpage False ?rs) < 2 ^ 27" "list_all krec_ok ?rs" by (simp add: kpage_def, simp add: four_dvd)
  have "\<exists>b. kb_before False ?m b ?rs \<and> kbuffer_load_subbuffer (Some kbuf) (Some ?m) = bnd (next_event b) (\<lambda>(_, k). Inr (0, Some k))"
    using load_before [of kbuf False True ?rs Lost_none 0 "[]"] a p by (auto simp: kbuf_def big_def)
  then obtain b where b: "kb_before False ?m b ?rs" "kbuffer_load_subbuffer (Some kbuf) (Some ?m) = bnd (next_event b) (\<lambda>(_, k). Inr (0, Some k))" by blast
  have "\<exists>r. next_event b = Inr r"
    using b(1) next_event_loop_rec [OF b(1)] by (simp add: next_event_def subbuf_def kb_before_def)
  then have "\<exists>r. kbuffer_load_subbuffer (Some kbuf) (kb_subbuffer kbuf) = Inr r" using b(2) by (auto simp: kbuf_def)
  then show ?thesis using read_at_first_offset_uninitialised [of kbuf _ 16 None] by (intro exI [of _ kbuf]) (auto simp: kbuf_def)
qed

subsection \<open>Discarded space\<close>

lemma padding_loops:
  assumes w: "type_len4host k0 w = KBUFFER_TYPE_PADDING" "read_4 k0 m (kb_data k0 + unat (kb_next k0)) = Inr w"
    "read_4 k0 m (kb_data k0 + unat (kb_next k0) + 4) = Inr (- 4)" "kb_next k0 < kb_size k0"
  shows "next_event_loop m k0 = None"
proof -
  let ?same = "\<lambda>k. kb_data k = kb_data k0 \<and> kb_next k = kb_next k0 \<and> kb_size k = kb_size k0 \<and> kb_flags k = kb_flags k0 \<and> kb_read_sw k = kb_read_sw k0"
  have step: "\<exists>k'. update_pointers (k\<lparr>kb_curr := kb_next k\<rparr>) m = Inr (KBUFFER_TYPE_PADDING, k') \<and> ?same k'" if k: "?same k" for k
  proof -
    have r: "read_4 (k\<lparr>kb_curr := kb_next k\<rparr>) = read_4 k0" using k by (auto simp: read_4_def fun_eq_iff)
    have "type_len4host (k\<lparr>kb_curr := kb_next k\<rparr>) = type_len4host k0" using k by (auto simp: type_len4host_def big_def fun_eq_iff)
    then show ?thesis using k w r by (simp add: update_pointers_def translate_data_def Let_def calc_index_def)
  qed
  have "m' = m \<longrightarrow> \<not> ?same k" if "next_event_loop m' k = Some y" for m' k y
  proof (rule next_event_loop.raw_induct [where P = "\<lambda>m' k y. m' = m \<longrightarrow> \<not> ?same k", OF _ that], intro impI notI)
    fix rec m' k r
    assume IH: "\<And>m' k y. rec m' k = Some y \<Longrightarrow> m' = m \<longrightarrow> \<not> ?same k" and m: "m' = m" and k: "?same k"
      and eq: "(let kbuf = k\<lparr>kb_curr := kb_next k\<rparr> in
      if kb_size kbuf \<le> kb_next kbuf then Some (Inr (- 1, kbuf))
      else case update_pointers kbuf m' of Inl e \<Rightarrow> Some (Inl e)
        | Inr (type, kbuf) \<Rightarrow> if type = KBUFFER_TYPE_TIME_EXTEND \<or> type = KBUFFER_TYPE_PADDING then rec m' kbuf else Some (Inr (0, kbuf))) = Some r"
    obtain k' where k': "update_pointers (k\<lparr>kb_curr := kb_next k\<rparr>) m = Inr (KBUFFER_TYPE_PADDING, k')" "?same k'" using step [OF k] by blast
    have "rec m k' = Some r" using eq m k k'(1) w(4) [unfolded not_le [symmetric]] by (simp add: Let_def)
    then show False using IH [of m k' r] k'(2) by blast
  qed
  then show ?thesis by (cases "next_event_loop m k0") auto
qed

text \<open>
  Claim C37.  A discarded record whose length word is -4 keeps the reader on the same record for ever: moving on never
  returns, because the length is added to the position behind the header without a check that the
  position grows.
\<close>

theorem padding_length_hangs_reader:
  assumes "kb_subbuffer kbuf = Some m" and "\<not> kb_next_event_old kbuf" and "kb_next kbuf < kb_size kbuf"
    and "read_4 kbuf m (kb_data kbuf + unat (kb_next kbuf)) = Inr w" and "type_len4host kbuf w = KBUFFER_TYPE_PADDING"
    and "read_4 kbuf m (kb_data kbuf + unat (kb_next kbuf) + 4) = Inr (- 4)"
  shows "kbuffer_next_event (Some kbuf) ts = Inl Diverges"
  using assms padding_loops [OF assms(5,4,6,3)] by (simp add: kbuffer_next_event_def next_event_def subbuf_def)

theorem padding_length_hangs_reader_witness:
  "\<exists>kbuf. kbuffer_next_event (Some kbuf) None = Inl Diverges"
proof -
  let ?m = "[0, 0, 0, 0, 0, 0, 0, 0, 8, 0, 0, 0, 0, 0, 0, 0, 29, 0, 0, 0, 252, 255, 255, 255]"
  obtain k0 where k0: "kbuffer_alloc True KBUFFER_LSIZE_8 KBUFFER_ENDIAN_LITTLE = Some k0" by (simp add: kbuffer_alloc_def Let_def)
  note a = kbuffer_alloc_ok [OF k0, unfolded is_be_def is_l8_def]
  let ?k = "k0\<lparr>kb_subbuffer := Some ?m, kb_data := 16, kb_next := 0, kb_size := 8\<rparr>"
  have "read_4 ?k ?m 16 = Inr 29" "read_4 ?k ?m 20 = Inr (- 4)" "type_len4host ?k 29 = KBUFFER_TYPE_PADDING"
    using a by (simp_all add: read_4_def read_4_plain_def type_len4host_def big_def KBUFFER_TYPE_PADDING_def)
  then show ?thesis using padding_length_hangs_reader [of ?k ?m 29 None] a(5) by auto
qed

end
