(* ===== verification/Insn_X86.thy ===== *)
theory Insn_X86
  imports C_Bytes
begin

text \<open>
  The x86 instruction decoder behind the Intel PT walker: \<^verbatim>\<open>inat.h\<close>, \<^verbatim>\<open>inat.c\<close>, \<^verbatim>\<open>insn.h\<close>,
  \<^verbatim>\<open>insn.c\<close> and \<^verbatim>\<open>intel-pt-insn-decoder.c\<close> of
  \<^verbatim>\<open>src/tools/perf/util/intel-pt-decoder\<close>.  The attribute tables of \<^verbatim>\<open>inat-tables.c\<close> are generated by
  the build and a parameter of the model.  Addresses are offsets from \<open>kaddr\<close>; the memory there is a list of
  bytes on a little-endian host.
\<close>

subsection \<open>Attributes\<close>

definition INAT_PFX_OPNDSZ :: u32 where "INAT_PFX_OPNDSZ = 1"
definition INAT_PFX_ADDRSZ :: u32 where "INAT_PFX_ADDRSZ = 11"
definition INAT_PFX_REX :: u32 where "INAT_PFX_REX = 12"
definition INAT_PFX_VEX2 :: u32 where "INAT_PFX_VEX2 = 13"
definition INAT_PFX_VEX3 :: u32 where "INAT_PFX_VEX3 = 14"
definition INAT_PFX_EVEX :: u32 where "INAT_PFX_EVEX = 15"
definition INAT_LSTPFX_MAX :: u32 where "INAT_LSTPFX_MAX = 3"
definition INAT_LGCPFX_MAX :: u32 where "INAT_LGCPFX_MAX = 11"

definition INAT_PFX_MASK :: u32 where "INAT_PFX_MASK = push_bit 0 (push_bit 4 1 - 1)"
definition INAT_ESC_MASK :: u32 where "INAT_ESC_MASK = push_bit 4 (push_bit 2 1 - 1)"
definition INAT_GRP_MASK :: u32 where "INAT_GRP_MASK = push_bit 6 (push_bit 5 1 - 1)"
definition INAT_IMM_MASK :: u32 where "INAT_IMM_MASK = push_bit 11 (push_bit 3 1 - 1)"
definition INAT_MODRM :: u32 where "INAT_MODRM = push_bit 14 1"
definition INAT_FORCE64 :: u32 where "INAT_FORCE64 = push_bit 15 1"
definition INAT_SCNDIMM :: u32 where "INAT_SCNDIMM = push_bit 16 1"
definition INAT_MOFFSET :: u32 where "INAT_MOFFSET = push_bit 17 1"
definition INAT_VARIANT :: u32 where "INAT_VARIANT = push_bit 18 1"
definition INAT_VEXOK :: u32 where "INAT_VEXOK = push_bit 19 1"
definition INAT_VEXONLY :: u32 where "INAT_VEXONLY = push_bit 20 1"
definition INAT_EVEXONLY :: u32 where "INAT_EVEXONLY = push_bit 21 1"

definition inat_is_legacy_prefix :: "u32 \<Rightarrow> bool" where
  "inat_is_legacy_prefix attr \<longleftrightarrow> (let attr = attr AND INAT_PFX_MASK in attr \<noteq> 0 \<and> attr \<le> INAT_LGCPFX_MAX)"

definition inat_is_address_size_prefix :: "u32 \<Rightarrow> bool" where
  "inat_is_address_size_prefix attr \<longleftrightarrow> attr AND INAT_PFX_MASK = INAT_PFX_ADDRSZ"

definition inat_is_operand_size_prefix :: "u32 \<Rightarrow> bool" where
  "inat_is_operand_size_prefix attr \<longleftrightarrow> attr AND INAT_PFX_MASK = INAT_PFX_OPNDSZ"

definition inat_is_rex_prefix :: "u32 \<Rightarrow> bool" where
  "inat_is_rex_prefix attr \<longleftrightarrow> attr AND INAT_PFX_MASK = INAT_PFX_REX"

definition inat_last_prefix_id :: "u32 \<Rightarrow> u32" where
  "inat_last_prefix_id attr = (if INAT_LSTPFX_MAX < attr AND INAT_PFX_MASK then 0 else attr AND INAT_PFX_MASK)"

definition inat_is_vex_prefix :: "u32 \<Rightarrow> bool" where
  "inat_is_vex_prefix attr \<longleftrightarrow> (let attr = attr AND INAT_PFX_MASK in attr = INAT_PFX_VEX2 \<or> attr = INAT_PFX_VEX3 \<or> attr = INAT_PFX_EVEX)"

definition inat_is_evex_prefix :: "u32 \<Rightarrow> bool" where
  "inat_is_evex_prefix attr \<longleftrightarrow> attr AND INAT_PFX_MASK = INAT_PFX_EVEX"

definition inat_is_vex3_prefix :: "u32 \<Rightarrow> bool" where
  "inat_is_vex3_prefix attr \<longleftrightarrow> attr AND INAT_PFX_MASK = INAT_PFX_VEX3"

definition inat_is_escape :: "u32 \<Rightarrow> bool" where
  "inat_is_escape attr \<longleftrightarrow> attr AND INAT_ESC_MASK \<noteq> 0"

definition inat_escape_id :: "u32 \<Rightarrow> u32" where
  "inat_escape_id attr = drop_bit 4 (attr AND INAT_ESC_MASK)"

definition inat_is_group :: "u32 \<Rightarrow> bool" where
  "inat_is_group attr \<longleftrightarrow> attr AND INAT_GRP_MASK \<noteq> 0"

definition inat_group_id :: "u32 \<Rightarrow> u32" where
  "inat_group_id attr = drop_bit 6 (attr AND INAT_GRP_MASK)"

definition inat_group_common_attribute :: "u32 \<Rightarrow> u32" where
  "inat_group_common_attribute attr = attr AND NOT INAT_GRP_MASK"

definition inat_has_immediate :: "u32 \<Rightarrow> bool" where
  "inat_has_immediate attr \<longleftrightarrow> attr AND INAT_IMM_MASK \<noteq> 0"

definition inat_immediate_size :: "u32 \<Rightarrow> u32" where
  "inat_immediate_size attr = drop_bit 11 (attr AND INAT_IMM_MASK)"

definition inat_has_modrm :: "u32 \<Rightarrow> bool" where
  "inat_has_modrm attr \<longleftrightarrow> attr AND INAT_MODRM \<noteq> 0"

definition inat_is_force64 :: "u32 \<Rightarrow> bool" where
  "inat_is_force64 attr \<longleftrightarrow> attr AND INAT_FORCE64 \<noteq> 0"

definition inat_has_second_immediate :: "u32 \<Rightarrow> bool" where
  "inat_has_second_immediate attr \<longleftrightarrow> attr AND INAT_SCNDIMM \<noteq> 0"

definition inat_has_moffset :: "u32 \<Rightarrow> bool" where
  "inat_has_moffset attr \<longleftrightarrow> attr AND INAT_MOFFSET \<noteq> 0"

definition inat_has_variant :: "u32 \<Rightarrow> bool" where
  "inat_has_variant attr \<longleftrightarrow> attr AND INAT_VARIANT \<noteq> 0"

definition inat_accept_vex :: "u32 \<Rightarrow> bool" where
  "inat_accept_vex attr \<longleftrightarrow> attr AND INAT_VEXOK \<noteq> 0"

definition inat_must_vex :: "u32 \<Rightarrow> bool" where
  "inat_must_vex attr \<longleftrightarrow> attr AND (INAT_VEXONLY OR INAT_EVEXONLY) \<noteq> 0"

definition inat_must_evex :: "u32 \<Rightarrow> bool" where
  "inat_must_evex attr \<longleftrightarrow> attr AND INAT_EVEXONLY \<noteq> 0"

subsection \<open>The tables\<close>

text \<open>
  The generated arrays: \<open>inat_primary_table[256]\<close>, \<open>inat_escape_tables[4][4]\<close>,
  \<open>inat_group_tables[32][4]\<close> and \<open>inat_avx_tables[32][4]\<close>, whose entries are null or point to arrays
  of 256 (8 for groups) attributes.  An index outside a dimension is an error.
\<close>

record inat_tables =
  inat_primary_table :: "u8 \<Rightarrow> u32"
  inat_escape_tables :: "nat \<Rightarrow> nat \<Rightarrow> (u8 \<Rightarrow> u32) option"
  inat_group_tables :: "nat \<Rightarrow> nat \<Rightarrow> (u8 \<Rightarrow> u32) option"
  inat_avx_tables :: "nat \<Rightarrow> nat \<Rightarrow> (u8 \<Rightarrow> u32) option"

definition tab :: "nat \<Rightarrow> (nat \<Rightarrow> nat \<Rightarrow> 'a) \<Rightarrow> u32 \<Rightarrow> u32 \<Rightarrow> 'a c_result" where
  "tab bound t n p = (if unat n < bound \<and> unat p < 4 then Inr (t (unat n) (unat p)) else Inl Out_Of_Bounds)"

definition inat_get_opcode_attribute :: "inat_tables \<Rightarrow> u8 \<Rightarrow> u32" where
  "inat_get_opcode_attribute T opcode = inat_primary_table T opcode"

definition inat_get_last_prefix_id :: "inat_tables \<Rightarrow> u8 \<Rightarrow> u32" where
  "inat_get_last_prefix_id T last_pfx = inat_last_prefix_id (inat_get_opcode_attribute T last_pfx)"

definition inat_get_escape_attribute :: "inat_tables \<Rightarrow> u8 \<Rightarrow> u32 \<Rightarrow> u32 \<Rightarrow> u32 c_result" where
  "inat_get_escape_attribute T opcode lpfx_id esc_attr =
     (let n = inat_escape_id esc_attr in
      bnd (tab 4 (inat_escape_tables T) n 0) (\<lambda>t.
      case t of None \<Rightarrow> Inr 0
      | Some table \<Rightarrow>
          if inat_has_variant (table opcode) \<and> lpfx_id \<noteq> 0 then
            bnd (tab 4 (inat_escape_tables T) n lpfx_id) (\<lambda>t. case t of None \<Rightarrow> Inr 0 | Some table \<Rightarrow> Inr (table opcode))
          else Inr (table opcode)))"

definition X86_MODRM_MOD :: "u32 \<Rightarrow> u32" where "X86_MODRM_MOD modrm = drop_bit 6 (modrm AND 0xc0)"
definition X86_MODRM_REG :: "u8 \<Rightarrow> u8" where "X86_MODRM_REG modrm = drop_bit 3 (modrm AND 0x38)"
definition X86_MODRM_RM :: "u32 \<Rightarrow> u32" where "X86_MODRM_RM modrm = modrm AND 0x07"
definition X86_SIB_BASE :: "u32 \<Rightarrow> u32" where "X86_SIB_BASE sib = sib AND 0x07"
definition X86_REX_W :: "u8 \<Rightarrow> bool" where "X86_REX_W rex \<longleftrightarrow> rex AND 8 \<noteq> 0"
definition X86_VEX_W :: "u8 \<Rightarrow> bool" where "X86_VEX_W vex \<longleftrightarrow> vex AND 0x80 \<noteq> 0"
definition X86_EVEX_M :: "u8 \<Rightarrow> u8" where "X86_EVEX_M vex = vex AND 0x03"
definition X86_VEX3_M :: "u8 \<Rightarrow> u8" where "X86_VEX3_M vex = vex AND 0x1f"
definition X86_VEX2_M :: u8 where "X86_VEX2_M = 1"
definition X86_VEX_P :: "u8 \<Rightarrow> u8" where "X86_VEX_P vex = vex AND 0x03"
definition X86_VEX_M_MAX :: u8 where "X86_VEX_M_MAX = 0x1f"

definition inat_get_group_attribute :: "inat_tables \<Rightarrow> u8 \<Rightarrow> u32 \<Rightarrow> u32 \<Rightarrow> u32 c_result" where
  "inat_get_group_attribute T modrm lpfx_id grp_attr =
     (let n = inat_group_id grp_attr in
      bnd (tab 32 (inat_group_tables T) n 0) (\<lambda>t.
      case t of None \<Rightarrow> Inr (inat_group_common_attribute grp_attr)
      | Some table \<Rightarrow>
          if inat_has_variant (table (X86_MODRM_REG modrm)) \<and> lpfx_id \<noteq> 0 then
            bnd (tab 32 (inat_group_tables T) n lpfx_id) (\<lambda>t.
            case t of None \<Rightarrow> Inr (inat_group_common_attribute grp_attr)
            | Some table \<Rightarrow> Inr (table (X86_MODRM_REG modrm) OR inat_group_common_attribute grp_attr))
          else Inr (table (X86_MODRM_REG modrm) OR inat_group_common_attribute grp_attr)))"

definition inat_get_avx_attribute :: "inat_tables \<Rightarrow> u8 \<Rightarrow> u8 \<Rightarrow> u8 \<Rightarrow> u32 c_result" where
  "inat_get_avx_attribute T opcode vex_m vex_p =
     (if X86_VEX_M_MAX < vex_m \<or> INAT_LSTPFX_MAX < ucast vex_p then Inr 0
      else bnd (tab 32 (inat_avx_tables T) (ucast vex_m) 0) (\<lambda>t.
      case t of None \<Rightarrow> Inr 0
      | Some table \<Rightarrow>
          if \<not> inat_is_group (table opcode) \<and> vex_p \<noteq> 0 then
            bnd (tab 32 (inat_avx_tables T) (ucast vex_m) (ucast vex_p)) (\<lambda>t. case t of None \<Rightarrow> Inr 0 | Some table \<Rightarrow> Inr (table opcode))
          else Inr (table opcode)))"

subsection \<open>The instruction\<close>

text \<open>
  The union of \<open>value\<close> and \<open>bytes[4]\<close> is the value; \<open>immediate\<close> and \<open>immediate2\<close> stand for
  the unions with \<open>moffset1\<close>, \<open>immediate1\<close> and \<open>moffset2\<close>.
\<close>

record insn_field =
  fld_value :: u32
  fld_got :: bool
  fld_nbytes :: u8

record insn =
  i_prefixes :: insn_field
  i_rex_prefix :: insn_field
  i_vex_prefix :: insn_field
  i_opcode :: insn_field
  i_modrm :: insn_field
  i_sib :: insn_field
  i_displacement :: insn_field
  i_immediate :: insn_field
  i_immediate2 :: insn_field
  i_attr :: u32
  i_opnd_bytes :: u8
  i_addr_bytes :: u8
  i_length :: u8
  i_x86_64 :: bool
  i_end_kaddr :: int
  i_next_byte :: nat

definition MAX_INSN_SIZE :: int where "MAX_INSN_SIZE = 15"

definition fld_byte :: "insn_field \<Rightarrow> nat \<Rightarrow> u8" where
  "fld_byte f i = ucast (drop_bit (8 * i) (fld_value f))"

definition fld_set_byte :: "nat \<Rightarrow> u8 \<Rightarrow> insn_field \<Rightarrow> insn_field" where
  "fld_set_byte i b f = f\<lparr>fld_value := (fld_value f AND NOT (push_bit (8 * i) 0xff)) OR push_bit (8 * i) (ucast b)\<rparr>"

definition no_field :: insn_field where
  "no_field = \<lparr>fld_value = 0, fld_got = False, fld_nbytes = 0\<rparr>"

definition set_field :: "u32 \<Rightarrow> u8 \<Rightarrow> insn_field \<Rightarrow> insn_field" where
  "set_field v n f = f\<lparr>fld_value := v, fld_nbytes := n\<rparr>"

definition set_got :: "insn_field \<Rightarrow> insn_field" where
  "set_got f = f\<lparr>fld_got := True\<rparr>"

definition insn_init :: "int \<Rightarrow> bool \<Rightarrow> insn" where
  "insn_init buf_len x86_64 =
     (let buf_len = if MAX_INSN_SIZE < buf_len then MAX_INSN_SIZE else buf_len in
      \<lparr>i_prefixes = no_field, i_rex_prefix = no_field, i_vex_prefix = no_field, i_opcode = no_field, i_modrm = no_field, i_sib = no_field,
       i_displacement = no_field, i_immediate = no_field, i_immediate2 = no_field, i_attr = 0, i_opnd_bytes = 4,
       i_addr_bytes = if x86_64 then 8 else 4, i_length = 0, i_x86_64 = x86_64, i_end_kaddr = buf_len, i_next_byte = 0\<rparr>)"

text \<open>
  The functions of the decoder run on the instruction and leave by \<open>goto err_out\<close> when the bytes run out;
  that is the result \<open>None\<close>, with the instruction as it was then.
\<close>

type_synonym 'a insn_m = "insn \<Rightarrow> ('a option \<times> insn) c_result"

definition im_ret :: "'a \<Rightarrow> 'a insn_m" where "im_ret a = (\<lambda>s. Inr (Some a, s))"
definition im_err :: "'a insn_m" where "im_err = (\<lambda>s. Inr (None, s))"
definition im_upd :: "(insn \<Rightarrow> insn) \<Rightarrow> unit insn_m" where "im_upd f = (\<lambda>s. Inr (Some (), f s))"
definition im_get :: "(insn \<Rightarrow> 'a) \<Rightarrow> 'a insn_m" where "im_get f = (\<lambda>s. Inr (Some (f s), s))"
definition im_res :: "'a c_result \<Rightarrow> 'a insn_m" where "im_res r = (\<lambda>s. bnd r (\<lambda>a. Inr (Some a, s)))"
definition im_call :: "(insn \<Rightarrow> insn c_result) \<Rightarrow> unit insn_m" where "im_call f = (\<lambda>s. bnd (f s) (\<lambda>s. Inr (Some (), s)))"
definition im_when :: "bool \<Rightarrow> unit insn_m \<Rightarrow> unit insn_m" where "im_when c m = (if c then m else im_ret ())"

definition im_bind :: "'a insn_m \<Rightarrow> ('a \<Rightarrow> 'b insn_m) \<Rightarrow> 'b insn_m" where
  "im_bind m f = (\<lambda>s. bnd (m s) (\<lambda>(r, s). case r of None \<Rightarrow> Inr (None, s) | Some a \<Rightarrow> f a s))"

definition im_run :: "'a insn_m \<Rightarrow> insn \<Rightarrow> insn c_result" where
  "im_run m s = bnd (m s) (\<lambda>(_, s). Inr s)"

definition validate_next :: "nat \<Rightarrow> nat \<Rightarrow> insn \<Rightarrow> bool" where
  "validate_next t n s \<longleftrightarrow> int (i_next_byte s) + int t + int n \<le> i_end_kaddr s"

definition get_next :: "u8 list \<Rightarrow> nat \<Rightarrow> 'w::len word insn_m" where
  "get_next buf t = (\<lambda>s.
     if validate_next t 0 s then bnd (get_le buf (i_next_byte s) t) (\<lambda>r. Inr (Some r, s\<lparr>i_next_byte := i_next_byte s + t\<rparr>))
     else Inr (None, s))"

definition peek_nbyte_next :: "u8 list \<Rightarrow> nat \<Rightarrow> u8 insn_m" where
  "peek_nbyte_next buf n = (\<lambda>s.
     if validate_next 1 n s then bnd (rd buf (i_next_byte s + n)) (\<lambda>r. Inr (Some r, s)) else Inr (None, s))"

subsection \<open>Prefixes\<close>

definition prefix_seen :: "insn_field \<Rightarrow> nat \<Rightarrow> u8 \<Rightarrow> bool" where
  "prefix_seen f nb b = list_ex (\<lambda>i. fld_byte f i = b) [0..<nb]"

definition add_prefix :: "u32 \<Rightarrow> nat \<Rightarrow> u8 \<Rightarrow> insn \<Rightarrow> insn" where
  "add_prefix attr nb b s =
     (let s = s\<lparr>i_prefixes := fld_set_byte nb b (i_prefixes s)\<rparr> in
      if inat_is_address_size_prefix attr then s\<lparr>i_addr_bytes := i_addr_bytes s XOR (if i_x86_64 s then 12 else 6)\<rparr>
      else if inat_is_operand_size_prefix attr then s\<lparr>i_opnd_bytes := i_opnd_bytes s XOR 6\<rparr>
      else s)"

definition skip_prefix :: "insn \<Rightarrow> insn" where
  "skip_prefix s = s\<lparr>i_prefixes := (i_prefixes s)\<lparr>fld_nbytes := fld_nbytes (i_prefixes s) + 1\<rparr>, i_next_byte := i_next_byte s + 1\<rparr>"

lemma add_prefix_pos [simp]: "i_next_byte (add_prefix attr nb b s) = i_next_byte s" "i_end_kaddr (add_prefix attr nb b s) = i_end_kaddr s"
  by (simp_all add: add_prefix_def Let_def)

lemma skip_prefix_pos [simp]: "i_next_byte (skip_prefix s) = i_next_byte s + 1" "i_end_kaddr (skip_prefix s) = i_end_kaddr s"
  by (simp_all add: skip_prefix_def)

text \<open>The loop returns the number of distinct prefixes and the last prefix.\<close>

function prefix_loop :: "inat_tables \<Rightarrow> u8 list \<Rightarrow> nat \<Rightarrow> u8 \<Rightarrow> u8 \<Rightarrow> (nat \<times> u8) insn_m" where
  "prefix_loop T buf nb lb b s =
     (let attr = inat_get_opcode_attribute T b in
      if \<not> inat_is_legacy_prefix attr then Inr (Some (nb, lb), s)
      else let seen = prefix_seen (i_prefixes s) nb b in
        if \<not> seen \<and> nb = 4 then Inr (Some (nb, lb), s)
        else let (nb, s) = (if seen then (nb, s) else (nb + 1, add_prefix attr nb b s)); s = skip_prefix s in
          if validate_next 1 0 s then bnd (rd buf (i_next_byte s)) (\<lambda>b'. prefix_loop T buf nb b b' s)
          else Inr (None, s))"
  by pat_completeness auto
termination
  by (relation "measure (\<lambda>(T, buf, nb, lb, b, s). nat (i_end_kaddr s - int (i_next_byte s)))")
     (auto simp: validate_next_def split: if_splits)

declare prefix_loop.simps [simp del]

definition set_last_prefix :: "nat \<Rightarrow> u8 \<Rightarrow> insn \<Rightarrow> insn" where
  "set_last_prefix nb lb s =
     (let p = i_prefixes s; b3 = fld_byte p 3 in
      if lb \<noteq> 0 \<and> lb \<noteq> b3 then
        let p = (if b3 \<noteq> 0 then fold (\<lambda>i p. if fld_byte p i = lb then fld_set_byte i b3 p else p) [0..<nb] p else p)
        in s\<lparr>i_prefixes := fld_set_byte 3 lb p\<rparr>
      else s)"

definition get_rex :: "inat_tables \<Rightarrow> u8 list \<Rightarrow> unit insn_m" where
  "get_rex T buf = im_bind (im_get i_x86_64) (\<lambda>x. im_when x
     (im_bind (peek_nbyte_next buf 0) (\<lambda>b.
      im_when (inat_is_rex_prefix (inat_get_opcode_attribute T b)) (im_upd (\<lambda>s.
        s\<lparr>i_rex_prefix := set_field (ucast b) 1 (i_rex_prefix s), i_next_byte := i_next_byte s + 1,
          i_opnd_bytes := if X86_REX_W b then 8 else i_opnd_bytes s\<rparr>)))))"

definition vex_size :: "nat \<Rightarrow> bool \<Rightarrow> u8 \<Rightarrow> insn \<Rightarrow> insn" where
  "vex_size n w b2 s = s\<lparr>i_vex_prefix := (i_vex_prefix s)\<lparr>fld_nbytes := of_nat n\<rparr>, i_next_byte := i_next_byte s + n,
     i_opnd_bytes := if w \<and> i_x86_64 s \<and> X86_VEX_W b2 then 8 else i_opnd_bytes s\<rparr>"

definition set_vex :: "nat \<Rightarrow> u8 \<Rightarrow> insn \<Rightarrow> insn" where
  "set_vex i b s = s\<lparr>i_vex_prefix := fld_set_byte i b (i_vex_prefix s)\<rparr>"

definition get_vex :: "inat_tables \<Rightarrow> u8 list \<Rightarrow> unit insn_m" where
  "get_vex T buf =
     im_bind (peek_nbyte_next buf 0) (\<lambda>b. let attr = inat_get_opcode_attribute T b in
     im_when (inat_is_vex_prefix attr) (
       im_bind (peek_nbyte_next buf 1) (\<lambda>b2.
       im_bind (im_get i_x86_64) (\<lambda>x.
       if \<not> x \<and> X86_MODRM_MOD (ucast b2) \<noteq> 3 then im_ret ()
       else im_bind (im_upd (\<lambda>s. set_vex 1 b2 (set_vex 0 b s))) (\<lambda>_.
         if inat_is_evex_prefix attr then
           im_bind (peek_nbyte_next buf 2) (\<lambda>b2. im_bind (im_upd (set_vex 2 b2)) (\<lambda>_.
           im_bind (peek_nbyte_next buf 3) (\<lambda>b2. im_bind (im_upd (set_vex 3 b2)) (\<lambda>_. im_upd (vex_size 4 True b2)))))
         else if inat_is_vex3_prefix attr then
           im_bind (peek_nbyte_next buf 2) (\<lambda>b2. im_bind (im_upd (set_vex 2 b2)) (\<lambda>_. im_upd (vex_size 3 True b2)))
         else im_bind (im_upd (set_vex 2 (b2 AND 0x7f))) (\<lambda>_. im_upd (vex_size 2 False b2)))))))"

definition insn_get_prefixes :: "inat_tables \<Rightarrow> u8 list \<Rightarrow> insn \<Rightarrow> insn c_result" where
  "insn_get_prefixes T buf s =
     (if fld_got (i_prefixes s) then Inr s
      else im_run (
        im_bind (peek_nbyte_next buf 0) (\<lambda>b.
        im_bind (prefix_loop T buf 0 0 b) (\<lambda>(nb, lb).
        im_bind (im_upd (set_last_prefix nb lb)) (\<lambda>_.
        im_bind (get_rex T buf) (\<lambda>_.
        im_bind (im_upd (\<lambda>s. s\<lparr>i_rex_prefix := set_got (i_rex_prefix s)\<rparr>)) (\<lambda>_.
        im_bind (get_vex T buf) (\<lambda>_.
        im_upd (\<lambda>s. s\<lparr>i_vex_prefix := set_got (i_vex_prefix s), i_prefixes := set_got (i_prefixes s)\<rparr>)))))))) s)"

text \<open>The inline functions of \<^verbatim>\<open>insn.h\<close>.\<close>

definition insn_is_avx :: "inat_tables \<Rightarrow> u8 list \<Rightarrow> bool insn_m" where
  "insn_is_avx T buf = im_bind (im_call (insn_get_prefixes T buf)) (\<lambda>_. im_get (\<lambda>s. fld_value (i_vex_prefix s) \<noteq> 0))"

definition insn_is_evex :: "inat_tables \<Rightarrow> u8 list \<Rightarrow> bool insn_m" where
  "insn_is_evex T buf = im_bind (im_call (insn_get_prefixes T buf)) (\<lambda>_. im_get (\<lambda>s. fld_nbytes (i_vex_prefix s) = 4))"

definition insn_complete :: "insn \<Rightarrow> bool" where
  "insn_complete s \<longleftrightarrow> fld_got (i_opcode s) \<and> fld_got (i_modrm s) \<and> fld_got (i_sib s) \<and> fld_got (i_displacement s) \<and> fld_got (i_immediate s)"

definition insn_vex_m_bits :: "insn \<Rightarrow> u8" where
  "insn_vex_m_bits s =
     (let v = i_vex_prefix s in
      if fld_nbytes v = 2 then X86_VEX2_M else if fld_nbytes v = 3 then X86_VEX3_M (fld_byte v 1) else X86_EVEX_M (fld_byte v 1))"

definition insn_vex_p_bits :: "insn \<Rightarrow> u8" where
  "insn_vex_p_bits s =
     (let v = i_vex_prefix s in if fld_nbytes v = 2 then X86_VEX_P (fld_byte v 1) else X86_VEX_P (fld_byte v 2))"

definition insn_last_prefix_id :: "inat_tables \<Rightarrow> u8 list \<Rightarrow> u32 insn_m" where
  "insn_last_prefix_id T buf =
     im_bind (insn_is_avx T buf) (\<lambda>avx.
     if avx then im_get (\<lambda>s. ucast (insn_vex_p_bits s))
     else im_get (\<lambda>s. let b3 = fld_byte (i_prefixes s) 3 in if b3 \<noteq> 0 then inat_get_last_prefix_id T b3 else 0))"

subsection \<open>Opcode\<close>

lemma im_bind_cong [fundef_cong]:
  "m s = m' s' \<Longrightarrow> (\<And>a t. m' s' = Inr (Some a, t) \<Longrightarrow> f a t = f' a t) \<Longrightarrow> im_bind m f s = im_bind m' f' s'"
  by (auto simp: im_bind_def bnd_def split: sum.splits prod.splits option.splits)

text \<open>
  A byte of \<open>opcode.bytes\<close> is stored at the number of bytes so far.
\<close>

definition add_opcode :: "u8 \<Rightarrow> unit insn_m" where
  "add_opcode op = (\<lambda>s.
     let f = i_opcode s; n = unat (fld_nbytes f) in
     if n < 4 then Inr (Some (), s\<lparr>i_opcode := (fld_set_byte n op f)\<lparr>fld_nbytes := fld_nbytes f + 1\<rparr>\<rparr>) else Inl Out_Of_Bounds)"

text \<open>
  The loop over escapes; every round takes a byte of the instruction.
\<close>

primrec escape_loop :: "nat \<Rightarrow> inat_tables \<Rightarrow> u8 list \<Rightarrow> unit insn_m" where
  "escape_loop 0 T buf = (\<lambda>s. Inl Diverges)"
| "escape_loop (Suc fuel) T buf =
     im_bind (im_get i_attr) (\<lambda>attr.
     if inat_is_escape attr then
       im_bind (get_next buf 1) (\<lambda>op.
       im_bind (add_opcode op) (\<lambda>_.
       im_bind (insn_last_prefix_id T buf) (\<lambda>pfx_id.
       im_bind (im_get i_attr) (\<lambda>attr.
       im_bind (im_res (inat_get_escape_attribute T op pfx_id attr)) (\<lambda>attr.
       im_bind (im_upd (\<lambda>s. s\<lparr>i_attr := attr\<rparr>)) (\<lambda>_. escape_loop fuel T buf))))))
     else im_ret ())"

text \<open>An instruction has at most fifteen bytes, so seventeen rounds are enough.\<close>

definition insn_get_opcode :: "inat_tables \<Rightarrow> u8 list \<Rightarrow> insn \<Rightarrow> insn c_result" where
  "insn_get_opcode T buf s =
     (if fld_got (i_opcode s) then Inr s
      else bnd (insn_get_prefixes T buf s) (im_run (
        im_bind (get_next buf 1) (\<lambda>op.
        im_bind (im_upd (\<lambda>s. s\<lparr>i_opcode := (fld_set_byte 0 op (i_opcode s))\<lparr>fld_nbytes := 1\<rparr>\<rparr>)) (\<lambda>_.
        im_bind (insn_is_avx T buf) (\<lambda>avx.
        im_bind (if avx then
            im_bind (im_get insn_vex_m_bits) (\<lambda>m. im_bind (im_get insn_vex_p_bits) (\<lambda>p.
            im_bind (im_res (inat_get_avx_attribute T op m p)) (\<lambda>attr.
            im_bind (if inat_must_evex attr then im_bind (insn_is_evex T buf) (\<lambda>e. im_ret (\<not> e)) else im_ret False) (\<lambda>bad.
            im_upd (\<lambda>s. s\<lparr>i_attr := if bad \<or> \<not> inat_accept_vex attr \<and> \<not> inat_is_group attr then 0 else attr\<rparr>)))))
          else
            im_bind (im_upd (\<lambda>s. s\<lparr>i_attr := inat_get_opcode_attribute T op\<rparr>)) (\<lambda>_.
            im_bind (escape_loop 17 T buf) (\<lambda>_.
            im_upd (\<lambda>s. s\<lparr>i_attr := if inat_must_vex (i_attr s) then 0 else i_attr s\<rparr>)))) (\<lambda>_.
        im_upd (\<lambda>s. s\<lparr>i_opcode := set_got (i_opcode s)\<rparr>))))))))"

subsection \<open>ModRM, SIB and displacement\<close>

definition insn_get_modrm :: "inat_tables \<Rightarrow> u8 list \<Rightarrow> insn \<Rightarrow> insn c_result" where
  "insn_get_modrm T buf s =
     (if fld_got (i_modrm s) then Inr s
      else bnd (insn_get_opcode T buf s) (im_run (
        im_bind (im_get i_attr) (\<lambda>attr.
        im_bind (im_when (inat_has_modrm attr) (
          im_bind (get_next buf 1) (\<lambda>m.
          im_bind (im_upd (\<lambda>s. s\<lparr>i_modrm := set_field (ucast m) 1 (i_modrm s)\<rparr>)) (\<lambda>_.
          im_when (inat_is_group attr) (
            im_bind (insn_last_prefix_id T buf) (\<lambda>pfx_id.
            im_bind (im_get i_attr) (\<lambda>attr.
            im_bind (im_res (inat_get_group_attribute T m pfx_id attr)) (\<lambda>attr.
            im_bind (im_upd (\<lambda>s. s\<lparr>i_attr := attr\<rparr>)) (\<lambda>_.
            im_bind (insn_is_avx T buf) (\<lambda>avx.
            im_when (avx \<and> \<not> inat_accept_vex attr) (im_upd (\<lambda>s. s\<lparr>i_attr := 0\<rparr>)))))))))))) (\<lambda>_.
        im_upd (\<lambda>s. s\<lparr>i_opnd_bytes := if i_x86_64 s \<and> inat_is_force64 (i_attr s) then 8 else i_opnd_bytes s, i_modrm := set_got (i_modrm s)\<rparr>))))))"

definition insn_rip_relative :: "inat_tables \<Rightarrow> u8 list \<Rightarrow> insn \<Rightarrow> (bool \<times> insn) c_result" where
  "insn_rip_relative T buf s =
     (if \<not> i_x86_64 s then Inr (False, s)
      else bnd (insn_get_modrm T buf s) (\<lambda>s.
        Inr (fld_nbytes (i_modrm s) \<noteq> 0 \<and> fld_value (i_modrm s) AND 0xc7 = 0x5, s)))"

definition insn_get_sib :: "inat_tables \<Rightarrow> u8 list \<Rightarrow> insn \<Rightarrow> insn c_result" where
  "insn_get_sib T buf s =
     (if fld_got (i_sib s) then Inr s
      else bnd (insn_get_modrm T buf s) (im_run (
        im_bind (im_get (\<lambda>s. fld_nbytes (i_modrm s) \<noteq> 0 \<and> (let modrm = ucast (ucast (fld_value (i_modrm s)) :: u8) in
          i_addr_bytes s \<noteq> 2 \<and> X86_MODRM_MOD modrm \<noteq> 3 \<and> X86_MODRM_RM modrm = 4))) (\<lambda>c.
        im_bind (im_when c (im_bind (get_next buf 1) (\<lambda>v :: u8.
          im_upd (\<lambda>s. s\<lparr>i_sib := set_field (ucast v) 1 (i_sib s)\<rparr>)))) (\<lambda>_.
        im_upd (\<lambda>s. s\<lparr>i_sib := set_got (i_sib s)\<rparr>))))))"

definition set_disp :: "u32 \<Rightarrow> u8 \<Rightarrow> insn \<Rightarrow> insn" where
  "set_disp v n s = s\<lparr>i_displacement := set_field v n (i_displacement s)\<rparr>"

definition get_disp :: "u8 list \<Rightarrow> u32 \<Rightarrow> u32 \<Rightarrow> u32 \<Rightarrow> unit insn_m" where
  "get_disp buf md rm base =
     (if md = 3 then im_ret ()
      else if md = 1 then im_bind (get_next buf 1) (\<lambda>v :: u8. im_upd (set_disp (scast v) 1))
      else im_bind (im_get i_addr_bytes) (\<lambda>a.
        if a = 2 then
          im_when (md = 0 \<and> rm = 6 \<or> md = 2) (im_bind (get_next buf 2) (\<lambda>v :: u16. im_upd (set_disp (scast v) 2)))
        else
          im_when (md = 0 \<and> rm = 5 \<or> md = 2 \<or> md = 0 \<and> base = 5) (im_bind (get_next buf 4) (\<lambda>v :: u32. im_upd (set_disp v 4)))))"

definition insn_get_displacement :: "inat_tables \<Rightarrow> u8 list \<Rightarrow> insn \<Rightarrow> insn c_result" where
  "insn_get_displacement T buf s =
     (if fld_got (i_displacement s) then Inr s
      else bnd (insn_get_sib T buf s) (im_run (
        im_bind (im_get (\<lambda>s. s)) (\<lambda>s0.
        im_bind (im_when (fld_nbytes (i_modrm s0) \<noteq> 0)
          (get_disp buf (X86_MODRM_MOD (fld_value (i_modrm s0))) (X86_MODRM_RM (fld_value (i_modrm s0))) (X86_SIB_BASE (fld_value (i_sib s0))))) (\<lambda>_.
        im_upd (\<lambda>s. s\<lparr>i_displacement := set_got (i_displacement s)\<rparr>))))))"

subsection \<open>Immediates\<close>

definition set_imm :: "u32 \<Rightarrow> u8 \<Rightarrow> insn \<Rightarrow> insn" where
  "set_imm v n s = s\<lparr>i_immediate := set_field v n (i_immediate s)\<rparr>"

definition set_imm2 :: "u32 \<Rightarrow> u8 \<Rightarrow> insn \<Rightarrow> insn" where
  "set_imm2 v n s = s\<lparr>i_immediate2 := set_field v n (i_immediate2 s)\<rparr>"

definition imm_got :: "insn \<Rightarrow> insn" where
  "imm_got s = s\<lparr>i_immediate := set_got (i_immediate s), i_immediate2 := set_got (i_immediate2 s)\<rparr>"

definition next_imm8 :: "u8 list \<Rightarrow> unit insn_m" where
  "next_imm8 buf = im_bind (get_next buf 1) (\<lambda>v :: u8. im_upd (set_imm (scast v) 1))"

definition next_imm16 :: "u8 list \<Rightarrow> unit insn_m" where
  "next_imm16 buf = im_bind (get_next buf 2) (\<lambda>v :: u16. im_upd (set_imm (scast v) 2))"

definition next_imm32 :: "u8 list \<Rightarrow> unit insn_m" where
  "next_imm32 buf = im_bind (get_next buf 4) (\<lambda>v :: u32. im_upd (set_imm v 4))"

definition next_imm2_32 :: "u8 list \<Rightarrow> unit insn_m" where
  "next_imm2_32 buf = im_bind (get_next buf 4) (\<lambda>v :: u32. im_upd (set_imm2 v 4))"

text \<open>
  These return 0 after \<open>goto err_out\<close>, whereupon \<open>insn_get_immediate\<close> goes to its own \<open>err_out\<close>.
\<close>

definition get_moffset :: "u8 list \<Rightarrow> unit insn_m" where
  "get_moffset buf = im_bind (im_get i_addr_bytes) (\<lambda>a.
     im_bind (if a = 2 then next_imm16 buf else if a = 4 then next_imm32 buf
       else if a = 8 then im_bind (next_imm32 buf) (\<lambda>_. next_imm2_32 buf) else im_err) (\<lambda>_. im_upd imm_got))"

definition get_immv32 :: "u8 list \<Rightarrow> unit insn_m" where
  "get_immv32 buf = im_bind (im_get i_opnd_bytes) (\<lambda>a.
     if a = 2 then next_imm16 buf else if a = 4 \<or> a = 8 then next_imm32 buf else im_err)"

definition get_immv :: "u8 list \<Rightarrow> unit insn_m" where
  "get_immv buf = im_bind (im_get i_opnd_bytes) (\<lambda>a.
     im_bind (if a = 2 then next_imm16 buf else if a = 4 then next_imm32 buf
       else if a = 8 then im_bind (next_imm32 buf) (\<lambda>_. next_imm2_32 buf) else im_err) (\<lambda>_. im_upd imm_got))"

definition get_immptr :: "u8 list \<Rightarrow> unit insn_m" where
  "get_immptr buf = im_bind (im_get i_opnd_bytes) (\<lambda>a.
     im_bind (if a = 2 then next_imm16 buf else if a = 4 then next_imm32 buf else im_err) (\<lambda>_.
     im_bind (get_next buf 2) (\<lambda>v :: u16. im_bind (im_upd (set_imm2 (ucast v) 2)) (\<lambda>_. im_upd imm_got))))"

definition get_imm :: "u8 list \<Rightarrow> u32 \<Rightarrow> unit insn_m" where
  "get_imm buf sz =
     (if sz = 1 then next_imm8 buf
      else if sz = 2 then next_imm16 buf
      else if sz = 3 then next_imm32 buf
      else if sz = 4 then im_bind (next_imm32 buf) (\<lambda>_. next_imm2_32 buf)
      else if sz = 5 then get_immptr buf
      else if sz = 6 then get_immv32 buf
      else if sz = 7 then get_immv buf
      else im_err)"

definition insn_get_immediate :: "inat_tables \<Rightarrow> u8 list \<Rightarrow> insn \<Rightarrow> insn c_result" where
  "insn_get_immediate T buf s =
     (if fld_got (i_immediate s) then Inr s
      else bnd (insn_get_displacement T buf s) (im_run (
        im_bind (im_get i_attr) (\<lambda>attr.
        im_bind (
          if inat_has_moffset attr then get_moffset buf
          else im_when (inat_has_immediate attr) (
            im_bind (get_imm buf (inat_immediate_size attr)) (\<lambda>_.
            im_when (inat_has_second_immediate attr) (
              im_bind (get_next buf 1) (\<lambda>v :: u8. im_upd (set_imm2 (scast v) 1)))))) (\<lambda>_.
        im_upd (\<lambda>s. s\<lparr>i_immediate := set_got (i_immediate s)\<rparr>))))))"

definition insn_get_length :: "inat_tables \<Rightarrow> u8 list \<Rightarrow> insn \<Rightarrow> insn c_result" where
  "insn_get_length T buf s =
     (if i_length s \<noteq> 0 then Inr s
      else bnd (insn_get_immediate T buf s) (\<lambda>s. Inr (s\<lparr>i_length := of_nat (i_next_byte s)\<rparr>)))"

text \<open>The offsets of the parts of an instruction.\<close>

definition insn_offset_rex_prefix :: "insn \<Rightarrow> nat" where
  "insn_offset_rex_prefix s = unat (fld_nbytes (i_prefixes s))"

definition insn_offset_vex_prefix :: "insn \<Rightarrow> nat" where
  "insn_offset_vex_prefix s = insn_offset_rex_prefix s + unat (fld_nbytes (i_rex_prefix s))"

definition insn_offset_opcode :: "insn \<Rightarrow> nat" where
  "insn_offset_opcode s = insn_offset_vex_prefix s + unat (fld_nbytes (i_vex_prefix s))"

definition insn_offset_modrm :: "insn \<Rightarrow> nat" where
  "insn_offset_modrm s = insn_offset_opcode s + unat (fld_nbytes (i_opcode s))"

definition insn_offset_sib :: "insn \<Rightarrow> nat" where
  "insn_offset_sib s = insn_offset_modrm s + unat (fld_nbytes (i_modrm s))"

definition insn_offset_displacement :: "insn \<Rightarrow> nat" where
  "insn_offset_displacement s = insn_offset_sib s + unat (fld_nbytes (i_sib s))"

definition insn_offset_immediate :: "insn \<Rightarrow> nat" where
  "insn_offset_immediate s = insn_offset_displacement s + unat (fld_nbytes (i_displacement s))"

subsection \<open>Branches for the trace decoder\<close>

datatype intel_pt_insn_op =
    INTEL_PT_OP_OTHER | INTEL_PT_OP_CALL | INTEL_PT_OP_RET | INTEL_PT_OP_JCC | INTEL_PT_OP_JMP | INTEL_PT_OP_LOOP
  | INTEL_PT_OP_IRET | INTEL_PT_OP_INT | INTEL_PT_OP_SYSCALL | INTEL_PT_OP_SYSRET

datatype intel_pt_insn_branch = INTEL_PT_BR_NO_BRANCH | INTEL_PT_BR_INDIRECT | INTEL_PT_BR_CONDITIONAL | INTEL_PT_BR_UNCONDITIONAL

record intel_pt_insn =
  pi_op :: intel_pt_insn_op
  pi_branch :: intel_pt_insn_branch
  pi_length :: nat
  pi_rel :: u32
  pi_buf :: "u8 list"

definition branch_kind :: "u8 \<Rightarrow> u8 \<Rightarrow> u8 \<Rightarrow> intel_pt_insn_op \<times> intel_pt_insn_branch" where
  "branch_kind op0 op1 modrm =
     (if op0 = 0xf then
        if op1 = 0x05 \<or> op1 = 0x34 then (INTEL_PT_OP_SYSCALL, INTEL_PT_BR_INDIRECT)
        else if op1 = 0x07 \<or> op1 = 0x35 then (INTEL_PT_OP_SYSRET, INTEL_PT_BR_INDIRECT)
        else if 0x80 \<le> op1 \<and> op1 \<le> 0x8f then (INTEL_PT_OP_JCC, INTEL_PT_BR_CONDITIONAL)
        else (INTEL_PT_OP_OTHER, INTEL_PT_BR_NO_BRANCH)
      else if 0x70 \<le> op0 \<and> op0 \<le> 0x7f then (INTEL_PT_OP_JCC, INTEL_PT_BR_CONDITIONAL)
      else if op0 = 0xc2 \<or> op0 = 0xc3 \<or> op0 = 0xca \<or> op0 = 0xcb then (INTEL_PT_OP_RET, INTEL_PT_BR_INDIRECT)
      else if op0 = 0xcf then (INTEL_PT_OP_IRET, INTEL_PT_BR_INDIRECT)
      else if 0xcc \<le> op0 \<and> op0 \<le> 0xce then (INTEL_PT_OP_INT, INTEL_PT_BR_INDIRECT)
      else if op0 = 0xe8 then (INTEL_PT_OP_CALL, INTEL_PT_BR_UNCONDITIONAL)
      else if op0 = 0x9a then (INTEL_PT_OP_CALL, INTEL_PT_BR_INDIRECT)
      else if 0xe0 \<le> op0 \<and> op0 \<le> 0xe2 then (INTEL_PT_OP_LOOP, INTEL_PT_BR_CONDITIONAL)
      else if op0 = 0xe3 then (INTEL_PT_OP_JCC, INTEL_PT_BR_CONDITIONAL)
      else if op0 = 0xe9 \<or> op0 = 0xeb then (INTEL_PT_OP_JMP, INTEL_PT_BR_UNCONDITIONAL)
      else if op0 = 0xea then (INTEL_PT_OP_JMP, INTEL_PT_BR_INDIRECT)
      else if op0 = 0xff then
        let ext = drop_bit 3 modrm AND 0x7 in
        if ext = 2 \<or> ext = 3 then (INTEL_PT_OP_CALL, INTEL_PT_BR_INDIRECT)
        else if ext = 4 \<or> ext = 5 then (INTEL_PT_OP_JMP, INTEL_PT_BR_INDIRECT)
        else (INTEL_PT_OP_OTHER, INTEL_PT_BR_NO_BRANCH)
      else (INTEL_PT_OP_OTHER, INTEL_PT_BR_NO_BRANCH))"

definition intel_pt_insn_decoder :: "inat_tables \<Rightarrow> u8 list \<Rightarrow> insn \<Rightarrow> intel_pt_insn \<Rightarrow> (insn \<times> intel_pt_insn) c_result" where
  "intel_pt_insn_decoder T buf s pt =
     bnd (insn_get_prefixes T buf s) (\<lambda>s.
     if fld_value (i_vex_prefix s) \<noteq> 0 then
       Inr (s, pt\<lparr>pi_op := INTEL_PT_OP_OTHER, pi_branch := INTEL_PT_BR_NO_BRANCH, pi_length := unat (i_length s)\<rparr>)
     else
       let (op, branch) = branch_kind (fld_byte (i_opcode s) 0) (fld_byte (i_opcode s) 1) (fld_byte (i_modrm s) 0);
           pt = pt\<lparr>pi_op := op, pi_branch := branch, pi_length := unat (i_length s)\<rparr>
       in if branch = INTEL_PT_BR_CONDITIONAL \<or> branch = INTEL_PT_BR_UNCONDITIONAL
          then Inr (s, pt\<lparr>pi_rel := fld_value (i_immediate s)\<rparr>) else Inr (s, pt))"

definition INTEL_PT_INSN_DBG_BUF_SZ :: nat where "INTEL_PT_INSN_DBG_BUF_SZ = 16"
definition INTEL_PT_INSN_DESC_MAX :: nat where "INTEL_PT_INSN_DESC_MAX = 32"

text \<open>The length is a \<open>size_t\<close> that becomes an \<open>int\<close> for \<open>insn_init\<close>.\<close>

definition intel_pt_get_insn :: "inat_tables \<Rightarrow> u8 list \<Rightarrow> u64 \<Rightarrow> bool \<Rightarrow> intel_pt_insn \<Rightarrow> (int \<times> intel_pt_insn) c_result" where
  "intel_pt_get_insn T buf len x86_64 pt =
     bnd (insn_get_length T buf (insn_init (sint (ucast len :: u32)) x86_64)) (\<lambda>s.
     if \<not> insn_complete s \<or> len < ucast (i_length s) then Inr (- 1, pt)
     else bnd (intel_pt_insn_decoder T buf s pt) (\<lambda>(s, pt).
       let n = (if unat (i_length s) < INTEL_PT_INSN_DBG_BUF_SZ then unat (i_length s) else INTEL_PT_INSN_DBG_BUF_SZ) in
       bnd (memcpy (pi_buf pt) 0 buf 0 n) (\<lambda>b. Inr (0, pt\<lparr>pi_buf := b\<rparr>))))"

definition intel_pt_insn_name :: "intel_pt_insn_op \<Rightarrow> string" where
  "intel_pt_insn_name op = (case op of
      INTEL_PT_OP_OTHER \<Rightarrow> ''Other'' | INTEL_PT_OP_CALL \<Rightarrow> ''Call'' | INTEL_PT_OP_RET \<Rightarrow> ''Ret'' | INTEL_PT_OP_JCC \<Rightarrow> ''Jcc''
    | INTEL_PT_OP_JMP \<Rightarrow> ''Jmp'' | INTEL_PT_OP_LOOP \<Rightarrow> ''Loop'' | INTEL_PT_OP_IRET \<Rightarrow> ''IRet'' | INTEL_PT_OP_INT \<Rightarrow> ''Int''
    | INTEL_PT_OP_SYSCALL \<Rightarrow> ''Syscall'' | INTEL_PT_OP_SYSRET \<Rightarrow> ''Sysret'')"

definition intel_pt_insn_desc :: "intel_pt_insn \<Rightarrow> char list \<Rightarrow> u64 \<Rightarrow> (nat \<times> char list) c_result" where
  "intel_pt_insn_desc pt buf buf_len =
     (case pi_branch pt of
        INTEL_PT_BR_CONDITIONAL \<Rightarrow> snprintf buf 0 buf_len (intel_pt_insn_name (pi_op pt) @ '' '' @ (if 0 < sint (pi_rel pt) then ''+'' else []) @ format_d (sint (pi_rel pt)))
      | INTEL_PT_BR_UNCONDITIONAL \<Rightarrow> snprintf buf 0 buf_len (intel_pt_insn_name (pi_op pt) @ '' '' @ (if 0 < sint (pi_rel pt) then ''+'' else []) @ format_d (sint (pi_rel pt)))
      | INTEL_PT_BR_NO_BRANCH \<Rightarrow> snprintf buf 0 buf_len (intel_pt_insn_name (pi_op pt))
      | INTEL_PT_BR_INDIRECT \<Rightarrow> snprintf buf 0 buf_len (intel_pt_insn_name (pi_op pt)))"

definition PERF_IP_FLAG_BRANCH :: u64 where "PERF_IP_FLAG_BRANCH = push_bit 0 1"
definition PERF_IP_FLAG_CALL :: u64 where "PERF_IP_FLAG_CALL = push_bit 1 1"
definition PERF_IP_FLAG_RETURN :: u64 where "PERF_IP_FLAG_RETURN = push_bit 2 1"
definition PERF_IP_FLAG_CONDITIONAL :: u64 where "PERF_IP_FLAG_CONDITIONAL = push_bit 3 1"
definition PERF_IP_FLAG_SYSCALLRET :: u64 where "PERF_IP_FLAG_SYSCALLRET = push_bit 4 1"
definition PERF_IP_FLAG_INTERRUPT :: u64 where "PERF_IP_FLAG_INTERRUPT = push_bit 6 1"

definition intel_pt_insn_type :: "intel_pt_insn_op \<Rightarrow> u64" where
  "intel_pt_insn_type op = (case op of
      INTEL_PT_OP_OTHER \<Rightarrow> 0
    | INTEL_PT_OP_CALL \<Rightarrow> PERF_IP_FLAG_BRANCH OR PERF_IP_FLAG_CALL
    | INTEL_PT_OP_RET \<Rightarrow> PERF_IP_FLAG_BRANCH OR PERF_IP_FLAG_RETURN
    | INTEL_PT_OP_JCC \<Rightarrow> PERF_IP_FLAG_BRANCH OR PERF_IP_FLAG_CONDITIONAL
    | INTEL_PT_OP_JMP \<Rightarrow> PERF_IP_FLAG_BRANCH
    | INTEL_PT_OP_LOOP \<Rightarrow> PERF_IP_FLAG_BRANCH OR PERF_IP_FLAG_CONDITIONAL
    | INTEL_PT_OP_IRET \<Rightarrow> PERF_IP_FLAG_BRANCH OR PERF_IP_FLAG_RETURN OR PERF_IP_FLAG_INTERRUPT
    | INTEL_PT_OP_INT \<Rightarrow> PERF_IP_FLAG_BRANCH OR PERF_IP_FLAG_CALL OR PERF_IP_FLAG_INTERRUPT
    | INTEL_PT_OP_SYSCALL \<Rightarrow> PERF_IP_FLAG_BRANCH OR PERF_IP_FLAG_CALL OR PERF_IP_FLAG_SYSCALLRET
    | INTEL_PT_OP_SYSRET \<Rightarrow> PERF_IP_FLAG_BRANCH OR PERF_IP_FLAG_RETURN OR PERF_IP_FLAG_SYSCALLRET)"

subsection \<open>Running in bounds\<close>

text \<open>From every state in \<open>P\<close> the run returns: to \<open>Q\<close> with a value, or to \<open>E\<close> through \<open>err_out\<close>.\<close>

definition im_ok :: "(insn \<Rightarrow> bool) \<Rightarrow> 'a insn_m \<Rightarrow> ('a \<Rightarrow> insn \<Rightarrow> bool) \<Rightarrow> (insn \<Rightarrow> bool) \<Rightarrow> bool" where
  "im_ok P m Q E \<longleftrightarrow> (\<forall>s. P s \<longrightarrow> (\<exists>r s'. m s = Inr (r, s') \<and> (case r of None \<Rightarrow> E s' | Some a \<Rightarrow> Q a s')))"

lemma im_okI: "(\<And>s. P s \<Longrightarrow> \<exists>r s'. m s = Inr (r, s') \<and> (case r of None \<Rightarrow> E s' | Some a \<Rightarrow> Q a s')) \<Longrightarrow> im_ok P m Q E"
  by (simp add: im_ok_def)

lemma im_okD: "im_ok P m Q E \<Longrightarrow> P s \<Longrightarrow> \<exists>r s'. m s = Inr (r, s') \<and> (case r of None \<Rightarrow> E s' | Some a \<Rightarrow> Q a s')"
  by (simp add: im_ok_def)

lemma im_ok_bind: "im_ok P m R E \<Longrightarrow> (\<And>a. im_ok (R a) (f a) Q E) \<Longrightarrow> im_ok P (im_bind m f) Q E"
proof (rule im_okI)
  fix s assume m: "im_ok P m R E" and f: "\<And>a. im_ok (R a) (f a) Q E" and "P s"
  then obtain r s' where r: "m s = Inr (r, s')" "case r of None \<Rightarrow> E s' | Some a \<Rightarrow> R a s'" using im_okD by blast
  show "\<exists>r s'. im_bind m f s = Inr (r, s') \<and> (case r of None \<Rightarrow> E s' | Some a \<Rightarrow> Q a s')"
  proof (cases r)
    case None
    then show ?thesis using r by (simp add: im_bind_def)
  next
    case (Some a)
    then show ?thesis using r im_okD [OF f, of a s'] by (simp add: im_bind_def)
  qed
qed

lemma im_ok_conseq: "im_ok P m Q E \<Longrightarrow> (\<And>s. P' s \<Longrightarrow> P s) \<Longrightarrow> (\<And>a s. Q a s \<Longrightarrow> Q' a s) \<Longrightarrow> (\<And>s. E s \<Longrightarrow> E' s) \<Longrightarrow> im_ok P' m Q' E'"
proof (rule im_okI)
  fix s assume m: "im_ok P m Q E" "\<And>s. P' s \<Longrightarrow> P s" "\<And>a s. Q a s \<Longrightarrow> Q' a s" "\<And>s. E s \<Longrightarrow> E' s" and "P' s"
  then obtain r s' where "m s = Inr (r, s')" "case r of None \<Rightarrow> E s' | Some a \<Rightarrow> Q a s'" using im_okD [OF m(1)] by blast
  then show "\<exists>r s'. m s = Inr (r, s') \<and> (case r of None \<Rightarrow> E' s' | Some a \<Rightarrow> Q' a s')" using m by (cases r) auto
qed

lemma im_ok_ret: "(\<And>s. P s \<Longrightarrow> Q a s) \<Longrightarrow> im_ok P (im_ret a) Q E"
  by (simp add: im_ok_def im_ret_def)

lemma im_ok_err: "(\<And>s. P s \<Longrightarrow> E s) \<Longrightarrow> im_ok P im_err Q E"
  by (simp add: im_ok_def im_err_def)

lemma im_ok_upd: "(\<And>s. P s \<Longrightarrow> Q () (f s)) \<Longrightarrow> im_ok P (im_upd f) Q E"
  by (simp add: im_ok_def im_upd_def)

lemma im_ok_get: "im_ok P (im_get f) (\<lambda>a s. P s \<and> a = f s) E"
  by (simp add: im_ok_def im_get_def)

lemma im_ok_when: "(c \<Longrightarrow> im_ok P m (\<lambda>_. Q) E) \<Longrightarrow> (\<not> c \<Longrightarrow> (\<And>s. P s \<Longrightarrow> Q s)) \<Longrightarrow> im_ok P (im_when c m) (\<lambda>_. Q) E"
  unfolding im_when_def by (cases c) (simp_all add: im_ok_def im_ret_def)

lemma im_ok_if: "(c \<Longrightarrow> im_ok P m Q E) \<Longrightarrow> (\<not> c \<Longrightarrow> im_ok P m' Q E) \<Longrightarrow> im_ok P (if c then m else m') Q E"
  by simp

lemma im_run_ok: "im_ok P m Q E \<Longrightarrow> P s \<Longrightarrow> (\<And>a s. Q a s \<Longrightarrow> R s) \<Longrightarrow> (\<And>s. E s \<Longrightarrow> R s) \<Longrightarrow> \<exists>s'. im_run m s = Inr s' \<and> R s'"
  by (drule (1) im_okD) (auto simp: im_run_def split: option.splits)

text \<open>
  The decoder stays between the start and the end of the bytes.  \<open>n\<close> is a bound of the position from below;
  \<open>oc\<close> and \<open>at\<close> fix the opcode with the length, and the attribute, where a part does not touch them.
\<close>

definition insn_inv :: "u8 list \<Rightarrow> nat \<Rightarrow> insn \<Rightarrow> bool" where
  "insn_inv buf n s \<longleftrightarrow> i_end_kaddr s \<le> int (length buf) \<and> i_end_kaddr s \<le> MAX_INSN_SIZE \<and> (i_next_byte s = 0 \<or> int (i_next_byte s) \<le> i_end_kaddr s) \<and>
     (fld_got (i_opcode s) \<longrightarrow> 0 < i_next_byte s) \<and> n \<le> i_next_byte s"

definition inv3 :: "u8 list \<Rightarrow> nat \<Rightarrow> insn_field \<times> u8 \<Rightarrow> u32 \<Rightarrow> insn \<Rightarrow> bool" where
  "inv3 buf n oc at s \<longleftrightarrow> insn_inv buf n s \<and> (i_opcode s, i_length s) = oc \<and> i_attr s = at"

lemma get_next_ok: "im_ok (inv3 buf n oc at) (get_next buf t) (\<lambda>_. inv3 buf (n + t) oc at) (inv3 buf n oc at)"
  by (rule im_okI) (auto simp: get_next_def inv3_def insn_inv_def validate_next_def get_le_def)

lemma peek_ok: "im_ok (inv3 buf n oc at) (peek_nbyte_next buf k) (\<lambda>_ s. inv3 buf n oc at s \<and> int (i_next_byte s) + int k + 1 \<le> i_end_kaddr s) (inv3 buf n oc at)"
  by (rule im_okI) (auto simp: peek_nbyte_next_def inv3_def insn_inv_def validate_next_def rd_def)

lemma inv3_weaken: "inv3 buf n oc at s \<Longrightarrow> k \<le> n \<Longrightarrow> inv3 buf k oc at s"
  by (simp add: inv3_def insn_inv_def)

subsection \<open>Prefixes in bounds\<close>

lemma add_prefix_frame [simp]: "i_opcode (add_prefix a nb b s) = i_opcode s" "i_attr (add_prefix a nb b s) = i_attr s" "i_length (add_prefix a nb b s) = i_length s"
  by (simp_all add: add_prefix_def Let_def)

lemma skip_prefix_frame [simp]: "i_opcode (skip_prefix s) = i_opcode s" "i_attr (skip_prefix s) = i_attr s" "i_length (skip_prefix s) = i_length s"
  by (simp_all add: skip_prefix_def)

lemma prefix_loop_ok:
  "inv3 buf n oc at s \<Longrightarrow> int (i_next_byte s) + 1 \<le> i_end_kaddr s \<Longrightarrow> nb \<le> 4 \<Longrightarrow>
    \<exists>r s'. prefix_loop T buf nb lb b s = Inr (r, s') \<and> inv3 buf n oc at s'"
proof (induction "nat (i_end_kaddr s - int (i_next_byte s))" arbitrary: nb lb b s rule: less_induct)
  case less
  let ?attr = "inat_get_opcode_attribute T b"
  let ?seen = "prefix_seen (i_prefixes s) nb b"
  let ?nb = "if ?seen then nb else nb + 1"
  let ?s = "skip_prefix (if ?seen then s else add_prefix ?attr nb b s)"
  show ?case
  proof (cases "\<not> inat_is_legacy_prefix ?attr \<or> \<not> ?seen \<and> nb = 4")
    case True
    then show ?thesis using less(2) by (auto simp: prefix_loop.simps [of T buf nb lb b s] Let_def)
  next
    case False
    have inv: "inv3 buf n oc at ?s" using less(2,3) by (auto simp: inv3_def insn_inv_def)
    have eq: "prefix_loop T buf nb lb b s = (if validate_next 1 0 ?s then bnd (rd buf (i_next_byte ?s)) (\<lambda>b'. prefix_loop T buf ?nb b b' ?s) else Inr (None, ?s))"
      using False by (subst prefix_loop.simps, cases ?seen) (simp_all add: Let_def)
    show ?thesis
    proof (cases "validate_next 1 0 ?s")
      case v: True
      then have e: "int (i_next_byte ?s) + 1 \<le> i_end_kaddr ?s" by (simp add: validate_next_def)
      moreover have "i_end_kaddr ?s \<le> int (length buf)" using inv by (simp only: inv3_def insn_inv_def)
      ultimately have r: "rd buf (i_next_byte ?s) = Inr (buf ! i_next_byte ?s)" by simp
      have "\<exists>r s'. prefix_loop T buf ?nb b (buf ! i_next_byte ?s) ?s = Inr (r, s') \<and> inv3 buf n oc at s'"
        by (rule less(1) [OF _ inv e]) (use False less(3,4) e in auto)
      then show ?thesis unfolding eq if_P [OF v] r bnd_simps .
    next
      case v: False
      then show ?thesis unfolding eq if_not_P [OF v] using inv by blast
    qed
  qed
qed

definition room :: "nat \<Rightarrow> insn \<Rightarrow> bool" where
  "room k s \<longleftrightarrow> int (i_next_byte s) + int k \<le> i_end_kaddr s"

lemma peek_room: "im_ok (inv3 buf n oc at) (peek_nbyte_next buf k) (\<lambda>_ s. inv3 buf n oc at s \<and> room (k + 1) s) (inv3 buf n oc at)"
  by (rule im_ok_conseq [OF peek_ok]) (auto simp: room_def)

lemma set_last_prefix_frame [simp]:
  "i_opcode (set_last_prefix nb lb s) = i_opcode s" "i_attr (set_last_prefix nb lb s) = i_attr s" "i_length (set_last_prefix nb lb s) = i_length s"
  "i_next_byte (set_last_prefix nb lb s) = i_next_byte s" "i_end_kaddr (set_last_prefix nb lb s) = i_end_kaddr s"
  by (simp_all add: set_last_prefix_def Let_def)

lemma set_vex_frame [simp]:
  "i_opcode (set_vex i b s) = i_opcode s" "i_attr (set_vex i b s) = i_attr s" "i_length (set_vex i b s) = i_length s"
  "i_next_byte (set_vex i b s) = i_next_byte s" "i_end_kaddr (set_vex i b s) = i_end_kaddr s"
  by (simp_all add: set_vex_def)

lemma inv3_set_vex [simp]: "inv3 buf n oc at (set_vex i b s) = inv3 buf n oc at s" "room k (set_vex i b s) = room k s"
  by (simp_all add: inv3_def insn_inv_def room_def)

lemma inv3_vex_size: "inv3 buf n oc at s \<Longrightarrow> room k s \<Longrightarrow> inv3 buf n oc at (vex_size k w b s)"
  by (auto simp: inv3_def insn_inv_def room_def vex_size_def)

lemma get_rex_ok: "im_ok (inv3 buf n oc at) (get_rex T buf) (\<lambda>_. inv3 buf n oc at) (inv3 buf n oc at)"
proof -
  let ?I = "inv3 buf n oc at"
  have u: "im_ok (\<lambda>s. ?I s \<and> room 1 s) (im_upd (\<lambda>s. s\<lparr>i_rex_prefix := set_field (ucast b) 1 (i_rex_prefix s), i_next_byte := i_next_byte s + 1,
          i_opnd_bytes := if X86_REX_W b then 8 else i_opnd_bytes s\<rparr>)) (\<lambda>_. ?I) ?I" for b
    by (rule im_ok_upd) (auto simp: inv3_def insn_inv_def room_def)
  have g: "im_ok ?I (im_get i_x86_64) (\<lambda>_. ?I) ?I" by (rule im_ok_conseq [OF im_ok_get]) auto
  have p: "im_ok ?I (peek_nbyte_next buf 0) (\<lambda>_ s. ?I s \<and> room 1 s) ?I" using peek_room [of buf n oc at 0] by simp
  show ?thesis unfolding get_rex_def
    by (rule im_ok_bind [OF g], rule im_ok_when, rule im_ok_bind [OF p], rule im_ok_when, rule u) auto
qed

lemma get_vex_ok: "im_ok (inv3 buf n oc at) (get_vex T buf) (\<lambda>_. inv3 buf n oc at) (inv3 buf n oc at)"
proof -
  let ?I = "inv3 buf n oc at"
  have p: "im_ok (\<lambda>s. ?I s \<and> room j s) (peek_nbyte_next buf k) (\<lambda>_ s. ?I s \<and> room (k + 1) s) ?I" for j k
    by (rule im_ok_conseq [OF peek_room]) auto
  have g: "im_ok (\<lambda>s. ?I s \<and> room k s) (im_get i_x86_64) (\<lambda>_ s. ?I s \<and> room k s) ?I" for k by (rule im_ok_conseq [OF im_ok_get]) auto
  have v: "im_ok (\<lambda>s. ?I s \<and> room k s) (im_upd (set_vex i b)) (\<lambda>_ s. ?I s \<and> room k s) ?I"
    "im_ok (\<lambda>s. ?I s \<and> room k s) (im_upd (\<lambda>s. set_vex i b (set_vex j c s))) (\<lambda>_ s. ?I s \<and> room k s) ?I" for i b j c k
    by (rule im_ok_upd, simp)+
  have w: "im_ok (\<lambda>s. ?I s \<and> room k s) (im_upd (vex_size k x b)) (\<lambda>_. ?I) ?I" for k x b by (rule im_ok_upd) (simp add: inv3_vex_size)
  have evex: "im_ok (\<lambda>s. ?I s \<and> room (1 + 1) s) (im_bind (peek_nbyte_next buf 2) (\<lambda>b2. im_bind (im_upd (set_vex 2 b2)) (\<lambda>_.
           im_bind (peek_nbyte_next buf 3) (\<lambda>b2. im_bind (im_upd (set_vex 3 b2)) (\<lambda>_. im_upd (vex_size 4 True b2)))))) (\<lambda>_. ?I) ?I"
    by (rule im_ok_bind [OF p], rule im_ok_bind [OF v(1)], rule im_ok_bind [OF p], rule im_ok_bind [OF v(1)]) (use w [of 4] in simp)
  have vex3: "im_ok (\<lambda>s. ?I s \<and> room (1 + 1) s) (im_bind (peek_nbyte_next buf 2) (\<lambda>b2. im_bind (im_upd (set_vex 2 b2)) (\<lambda>_. im_upd (vex_size 3 True b2)))) (\<lambda>_. ?I) ?I"
    by (rule im_ok_bind [OF p], rule im_ok_bind [OF v(1)]) (use w [of 3] in simp)
  have vex2: "im_ok (\<lambda>s. ?I s \<and> room (1 + 1) s) (im_bind (im_upd (set_vex 2 b)) (\<lambda>_. im_upd (vex_size 2 False c))) (\<lambda>_. ?I) ?I" for b c
    by (rule im_ok_bind [OF v(1)]) (use w [of 2] in \<open>simp add: numeral_2_eq_2\<close>)
  show ?thesis unfolding get_vex_def Let_def
    by (rule im_ok_bind [OF peek_room], rule im_ok_when, rule im_ok_bind [OF p], rule im_ok_bind [OF g], rule im_ok_if, rule im_ok_ret, simp,
        rule im_ok_bind [OF v(2)], rule im_ok_if, rule evex, rule im_ok_if, rule vex3, rule vex2) auto
qed

lemma prefix_loop_im: "im_ok (\<lambda>s. inv3 buf n oc at s \<and> room 1 s) (prefix_loop T buf 0 0 b) (\<lambda>_. inv3 buf n oc at) (inv3 buf n oc at)"
proof (rule im_okI)
  fix s assume s: "inv3 buf n oc at s \<and> room 1 s"
  then obtain r s' where "prefix_loop T buf 0 0 b s = Inr (r, s')" "inv3 buf n oc at s'"
    using prefix_loop_ok [of buf n oc at s 0 T 0 b] by (auto simp: room_def)
  then show "\<exists>r s'. prefix_loop T buf 0 0 b s = Inr (r, s') \<and> (case r of None \<Rightarrow> inv3 buf n oc at s' | Some a \<Rightarrow> inv3 buf n oc at s')"
    by (auto split: option.splits)
qed

lemma insn_get_prefixes_ok:
  assumes "inv3 buf n oc at s"
  shows "\<exists>s'. insn_get_prefixes T buf s = Inr s' \<and> inv3 buf n oc at s'"
proof (cases "fld_got (i_prefixes s)")
  case False
  let ?I = "inv3 buf n oc at"
  have u: "im_ok ?I (im_upd (set_last_prefix nb lb)) (\<lambda>_. ?I) ?I" "im_ok ?I (im_upd (\<lambda>s. s\<lparr>i_rex_prefix := set_got (i_rex_prefix s)\<rparr>)) (\<lambda>_. ?I) ?I"
    "im_ok ?I (im_upd (\<lambda>s. s\<lparr>i_vex_prefix := set_got (i_vex_prefix s), i_prefixes := set_got (i_prefixes s)\<rparr>)) (\<lambda>_. ?I) ?I" for nb lb
    by (rule im_ok_upd, simp add: inv3_def insn_inv_def)+
  have p: "im_ok ?I (peek_nbyte_next buf 0) (\<lambda>_ s. ?I s \<and> room 1 s) ?I" using peek_room [of buf n oc at 0] by simp
  have "im_ok ?I (im_bind (peek_nbyte_next buf 0) (\<lambda>b.
        im_bind (prefix_loop T buf 0 0 b) (\<lambda>(nb, lb).
        im_bind (im_upd (set_last_prefix nb lb)) (\<lambda>_.
        im_bind (get_rex T buf) (\<lambda>_.
        im_bind (im_upd (\<lambda>s. s\<lparr>i_rex_prefix := set_got (i_rex_prefix s)\<rparr>)) (\<lambda>_.
        im_bind (get_vex T buf) (\<lambda>_.
        im_upd (\<lambda>s. s\<lparr>i_vex_prefix := set_got (i_vex_prefix s), i_prefixes := set_got (i_prefixes s)\<rparr>)))))))) (\<lambda>_. ?I) ?I"
    by (rule im_ok_bind [OF p], rule im_ok_bind [OF prefix_loop_im], simp only: split_beta, rule im_ok_bind [OF u(1)], rule im_ok_bind [OF get_rex_ok],
        rule im_ok_bind [OF u(2)], rule im_ok_bind [OF get_vex_ok], rule u(3))
  from im_run_ok [OF this assms] False show ?thesis unfolding insn_get_prefixes_def by auto
qed (use assms in \<open>simp add: insn_get_prefixes_def\<close>)

lemma im_ok_call: "(\<And>s. P s \<Longrightarrow> \<exists>s'. f s = Inr s' \<and> Q s') \<Longrightarrow> im_ok P (im_call f) (\<lambda>_. Q) E"
  unfolding im_ok_def im_call_def by fastforce

lemma insn_is_avx_ok: "im_ok (inv3 buf n oc at) (insn_is_avx T buf) (\<lambda>_. inv3 buf n oc at) (inv3 buf n oc at)"
  unfolding insn_is_avx_def by (rule im_ok_bind, rule im_ok_call, erule insn_get_prefixes_ok, rule im_ok_conseq [OF im_ok_get]) auto

lemma insn_is_evex_ok: "im_ok (inv3 buf n oc at) (insn_is_evex T buf) (\<lambda>_. inv3 buf n oc at) (inv3 buf n oc at)"
  unfolding insn_is_evex_def by (rule im_ok_bind, rule im_ok_call, erule insn_get_prefixes_ok, rule im_ok_conseq [OF im_ok_get]) auto

lemma unat_and_le: "unat (a AND b :: 'a::len word) \<le> unat b"
  by (metis and.commute word_and_le1 word_le_nat_alt)

lemma vex_p_small: "unat (insn_vex_p_bits s) < 4"
  using unat_and_le [of "fld_byte (i_vex_prefix s) 1" 3] unat_and_le [of "fld_byte (i_vex_prefix s) 2" 3]
  by (simp add: insn_vex_p_bits_def X86_VEX_P_def Let_def)

lemma last_prefix_small: "unat (inat_last_prefix_id a) < 4"
  by (simp add: inat_last_prefix_id_def INAT_LSTPFX_MAX_def word_less_nat_alt not_less)

lemma insn_last_prefix_id_ok:
  "im_ok (inv3 buf n oc at) (insn_last_prefix_id T buf) (\<lambda>p s. inv3 buf n oc at s \<and> unat p < 4) (inv3 buf n oc at)"
proof -
  have 1: "unat (ucast (insn_vex_p_bits s) :: u32) < 4" for s
    using vex_p_small [of s] by (simp add: unsigned_ucast_eq le_less_trans [OF take_bit_nat_less_eq_self])
  have 2: "unat (let b3 = fld_byte (i_prefixes s) 3 in if b3 \<noteq> 0 then inat_get_last_prefix_id T b3 else 0) < 4" for s
    by (simp add: Let_def inat_get_last_prefix_id_def last_prefix_small)
  show ?thesis unfolding insn_last_prefix_id_def
    by (rule im_ok_bind [OF insn_is_avx_ok], rule im_ok_if; rule im_ok_conseq [OF im_ok_get]) (use 1 2 in auto)
qed

subsection \<open>The whole decoder in bounds\<close>

text \<open>
  The opcode map has escapes in the primary table and in the table of escape 1 (the byte 0x0f) only, and the
  latter lead to other tables.
\<close>

definition inat_tables_ok :: "inat_tables \<Rightarrow> bool" where
  "inat_tables_ok T \<longleftrightarrow> (\<forall>n p t b. inat_escape_tables T n p = Some t \<and> inat_is_escape (t b) \<longrightarrow> n = 1 \<and> inat_escape_id (t b) \<noteq> 1)"

definition esc_rank :: "u32 \<Rightarrow> nat" where
  "esc_rank at = (if \<not> inat_is_escape at then 0 else if inat_escape_id at = 1 then 2 else 1)"

lemma escape_id_small: "unat (inat_escape_id a) < 4"
proof -
  have "inat_escape_id a = drop_bit 4 a AND 3" by (simp add: inat_escape_id_def INAT_ESC_MASK_def drop_bit_and)
  then show ?thesis using unat_and_le [of "drop_bit 4 a" 3] by simp
qed

lemma group_id_small: "unat (inat_group_id a) < 32"
proof -
  have "inat_group_id a = drop_bit 6 a AND 31" by (simp add: inat_group_id_def INAT_GRP_MASK_def drop_bit_and)
  then show ?thesis using unat_and_le [of "drop_bit 6 a" 31] by simp
qed

lemma escape_attribute_ok:
  assumes "inat_tables_ok T" "unat p < 4"
  shows "\<exists>a'. inat_get_escape_attribute T op p a = Inr a' \<and> (inat_is_escape a \<longrightarrow> esc_rank a' < esc_rank a)"
proof -
  have n: "unat (inat_escape_id a) = 1 \<longleftrightarrow> inat_escape_id a = 1" by (metis unat_1 word_unat_eq_iff)
  have r: "esc_rank (t op) < esc_rank a" if "inat_escape_tables T (unat (inat_escape_id a)) q = Some t" "inat_is_escape a" for q t
  proof -
    have "inat_is_escape (t op) \<longrightarrow> inat_escape_id a = 1 \<and> inat_escape_id (t op) \<noteq> 1"
      using assms(1) that(1) n unfolding inat_tables_ok_def by blast
    with that(2) show ?thesis by (simp add: esc_rank_def)
  qed
  have z: "esc_rank 0 < esc_rank a" if "inat_is_escape a" using that by (simp add: esc_rank_def inat_is_escape_def)
  have t: "tab 4 (inat_escape_tables T) (inat_escape_id a) q = Inr (inat_escape_tables T (unat (inat_escape_id a)) (unat q))" if "unat q < 4" for q
    using that escape_id_small by (simp add: tab_def)
  have e: "inat_get_escape_attribute T op p a =
      (case inat_escape_tables T (unat (inat_escape_id a)) 0 of None \<Rightarrow> Inr 0
       | Some u \<Rightarrow> if inat_has_variant (u op) \<and> p \<noteq> 0
           then case inat_escape_tables T (unat (inat_escape_id a)) (unat p) of None \<Rightarrow> Inr 0 | Some v \<Rightarrow> Inr (v op) else Inr (u op))"
    using t [of 0] t [OF assms(2)] by (simp add: inat_get_escape_attribute_def Let_def split: option.split)
  show ?thesis unfolding e using r z by (simp split: option.split)
qed

lemma group_attribute_ok: "unat p < 4 \<Longrightarrow> \<exists>a'. inat_get_group_attribute T m p a = Inr a'"
  using group_id_small [of a] by (auto simp: inat_get_group_attribute_def Let_def tab_def split: option.splits)

lemma unat_ucast_u8: "8 \<le> LENGTH('w::len) \<Longrightarrow> unat (ucast (x :: u8) :: 'w word) = unat x"
proof -
  assume "8 \<le> LENGTH('w)"
  then have "(2 :: nat) ^ 8 \<le> 2 ^ LENGTH('w)" by (rule power_increasing) simp
  moreover have "unat x < 2 ^ LENGTH(8)" by (rule unsigned_less)
  ultimately have "unat x < 2 ^ LENGTH('w)" by simp
  then show ?thesis by (simp add: unsigned_ucast_eq take_bit_nat_eq_self)
qed

lemma sint_ucast_le: "sint (ucast (x :: u64) :: u32) \<le> uint x"
proof -
  have "sint (ucast x :: u32) \<le> uint (ucast x :: u32)" unfolding sint_uint by (simp add: signed_take_bit_int_less_eq_self_iff order_trans [OF _ uint_nonnegative])
  also have "\<dots> \<le> uint x" by (simp add: unsigned_ucast_eq take_bit_int_less_eq_self_iff)
  finally show ?thesis .
qed

lemma avx_attribute_ok: "\<exists>a'. inat_get_avx_attribute T op m p = Inr a'"
proof (cases "X86_VEX_M_MAX < m \<or> INAT_LSTPFX_MAX < ucast p")
  case False
  then have "unat m < 32" "unat (ucast p :: u32) < 4" by (simp_all add: X86_VEX_M_MAX_def INAT_LSTPFX_MAX_def not_less word_le_nat_alt)
  then show ?thesis by (auto simp: inat_get_avx_attribute_def tab_def unat_ucast_u8 split: option.splits)
qed (auto simp: inat_get_avx_attribute_def)

lemma im_ok_res: "(\<exists>a. r = Inr a \<and> S a) \<Longrightarrow> im_ok P (im_res r) (\<lambda>a s. P s \<and> S a) E"
  by (auto simp: im_ok_def im_res_def)

lemma frame_ok:
  assumes "\<And>oc at. im_ok (inv3 buf n oc at) m (\<lambda>a s. inv3 buf k oc at s \<and> S a) (inv3 buf n oc at)"
  shows "im_ok (\<lambda>s. insn_inv buf n s \<and> R (i_opcode s) (i_attr s)) m (\<lambda>a s. (insn_inv buf k s \<and> R (i_opcode s) (i_attr s)) \<and> S a) (insn_inv buf n)"
proof (rule im_okI)
  fix s assume "insn_inv buf n s \<and> R (i_opcode s) (i_attr s)"
  then have i: "inv3 buf n (i_opcode s, i_length s) (i_attr s) s" and R: "R (i_opcode s) (i_attr s)" by (simp_all add: inv3_def)
  from im_okD [OF assms i] obtain r s' where r: "m s = Inr (r, s')"
    "case r of None \<Rightarrow> inv3 buf n (i_opcode s, i_length s) (i_attr s) s' | Some a \<Rightarrow> inv3 buf k (i_opcode s, i_length s) (i_attr s) s' \<and> S a" by blast
  then show "\<exists>r s'. m s = Inr (r, s') \<and> (case r of None \<Rightarrow> insn_inv buf n s' | Some a \<Rightarrow> (insn_inv buf k s' \<and> R (i_opcode s') (i_attr s')) \<and> S a)"
    using R by (cases r) (auto simp: inv3_def)
qed

lemma keeps_ok:
  assumes "\<And>oc at. im_ok (inv3 buf n oc at) m (\<lambda>a s. inv3 buf k oc at s) (inv3 buf n oc at)" "n \<le> k"
  shows "im_ok (insn_inv buf n) m (\<lambda>_. insn_inv buf n) (insn_inv buf n)"
  by (rule im_ok_conseq [OF frame_ok [where S = "\<lambda>_. True" and R = "\<lambda>_ _. True", OF im_ok_conseq [OF assms(1)]]])
     (use assms(2) in \<open>auto simp: insn_inv_def inv3_def\<close>)

lemma insn_inv_mono: "insn_inv buf k s \<Longrightarrow> n \<le> k \<Longrightarrow> insn_inv buf n s"
  by (simp add: insn_inv_def)

lemma im_ok_pure: "(S \<Longrightarrow> im_ok P m Q E) \<Longrightarrow> im_ok (\<lambda>s. P s \<and> S) m Q E"
  by (auto simp: im_ok_def)

text \<open>The state in the escape loop, with room for \<open>k\<close> more bytes of the opcode.\<close>

definition esc_inv :: "u8 list \<Rightarrow> nat \<Rightarrow> nat \<Rightarrow> u32 \<Rightarrow> insn \<Rightarrow> bool" where
  "esc_inv buf n k a s \<longleftrightarrow> insn_inv buf n s \<and> (unat (fld_nbytes (i_opcode s)) + k \<le> 3 \<and> i_attr s = a)"

lemma esc_inv_frame:
  assumes "\<And>oc at. im_ok (inv3 buf n oc at) m (\<lambda>a s. inv3 buf n oc at s \<and> S a) (inv3 buf n oc at)"
  shows "im_ok (esc_inv buf n k a) m (\<lambda>x s. esc_inv buf n k a s \<and> S x) (insn_inv buf n)"
  by (rule im_ok_conseq [OF frame_ok [where R = "\<lambda>o' a'. unat (fld_nbytes o') + k \<le> 3 \<and> a' = a", OF assms]]) (auto simp: esc_inv_def)

lemma esc_inv_next: "im_ok (esc_inv buf n k a) (get_next buf 1) (\<lambda>_. esc_inv buf n k a) (insn_inv buf n)"
  by (rule im_ok_conseq [OF esc_inv_frame [where S = "\<lambda>_. True", OF im_ok_conseq [OF get_next_ok]]]) (auto intro: inv3_weaken)

lemma esc_inv_add: "im_ok (esc_inv buf n (Suc k) a) (add_opcode b) (\<lambda>_. esc_inv buf n k a) (insn_inv buf n)"
  by (rule im_okI) (auto simp: add_opcode_def Let_def esc_inv_def insn_inv_def unat_word_ariths fld_set_byte_def)

lemma esc_inv_attr: "im_ok (esc_inv buf n k a) (im_get i_attr) (\<lambda>x s. esc_inv buf n k a s \<and> x = a) E"
  by (rule im_ok_conseq [OF im_ok_get]) (auto simp: esc_inv_def)

lemma esc_inv_upd: "im_ok (esc_inv buf n k a) (im_upd (\<lambda>s. s\<lparr>i_attr := a'\<rparr>)) (\<lambda>_. esc_inv buf n k a') E"
  by (rule im_ok_upd) (simp add: esc_inv_def insn_inv_def)

lemma escape_loop_ok:
  assumes T: "inat_tables_ok T"
  shows "esc_rank at \<le> k \<Longrightarrow> esc_rank at < fuel \<Longrightarrow>
    im_ok (esc_inv buf n k at) (escape_loop fuel T buf) (\<lambda>_. insn_inv buf n) (insn_inv buf n)"
proof (induction fuel arbitrary: at k)
  case (Suc fuel)
  let ?I = "insn_inv buf n"
  show ?case
  proof (cases "inat_is_escape at")
    case True
    then obtain j where k: "k = Suc j" using Suc.prems(1) by (cases k) (auto simp: esc_rank_def split: if_splits)
    have tail: "im_ok (esc_inv buf n j at) (im_bind (im_upd (\<lambda>s. s\<lparr>i_attr := a\<rparr>)) (\<lambda>_. escape_loop fuel T buf)) (\<lambda>_. ?I) ?I" if "esc_rank a < esc_rank at" for a
      by (rule im_ok_bind [OF esc_inv_upd], rule Suc.IH) (use that k Suc.prems in auto)
    have res: "im_ok (esc_inv buf n j at) (im_res (inat_get_escape_attribute T op p at)) (\<lambda>a s. esc_inv buf n j at s \<and> esc_rank a < esc_rank at) ?I"
      if "unat p < 4" for op p
      by (rule im_ok_res) (use escape_attribute_ok [OF T that, of op at] True in blast)
    show ?thesis unfolding k escape_loop.simps
      by (rule im_ok_bind [OF esc_inv_attr], rule im_ok_pure, simp only: True if_True, rule im_ok_bind [OF esc_inv_next], rule im_ok_bind [OF esc_inv_add],
          rule im_ok_bind [OF esc_inv_frame [OF insn_last_prefix_id_ok]], rule im_ok_pure, rule im_ok_bind [OF esc_inv_attr], rule im_ok_pure, hypsubst,
          rule im_ok_bind [OF res], assumption, rule im_ok_pure, rule tail)
  next
    case False
    show ?thesis unfolding escape_loop.simps
      by (rule im_ok_bind [OF esc_inv_attr], rule im_ok_pure, simp only: False if_False, rule im_ok_ret) (simp add: esc_inv_def)
  qed
qed simp

text \<open>A step that keeps the position in bounds, whatever it does to the parts of the instruction.\<close>

definition keeps :: "u8 list \<Rightarrow> nat \<Rightarrow> 'a insn_m \<Rightarrow> bool" where
  "keeps buf n m \<longleftrightarrow> im_ok (insn_inv buf n) m (\<lambda>_. insn_inv buf n) (insn_inv buf n)"

named_theorems keeps_rules

lemma keeps_bind [keeps_rules]: "keeps buf n m \<Longrightarrow> (\<And>a. keeps buf n (f a)) \<Longrightarrow> keeps buf n (im_bind m f)"
  unfolding keeps_def by (rule im_ok_bind)

lemma keeps_when [keeps_rules]: "keeps buf n m \<Longrightarrow> keeps buf n (im_when c m)"
  unfolding keeps_def by (rule im_ok_when)

lemma keeps_if [keeps_rules]: "keeps buf n m \<Longrightarrow> keeps buf n m' \<Longrightarrow> keeps buf n (if c then m else m')"
  by simp

lemma keeps_get [keeps_rules]: "keeps buf n (im_get f)"
  unfolding keeps_def by (rule im_ok_conseq [OF im_ok_get]) auto

lemma keeps_ret [keeps_rules]: "keeps buf n (im_ret a)" "keeps buf n im_err"
  unfolding keeps_def by (rule im_ok_ret im_ok_err, assumption)+

lemma keeps_next [keeps_rules]: "keeps buf n (get_next buf k)"
  unfolding keeps_def by (rule keeps_ok [OF get_next_ok]) simp

lemma keeps_prefixes [keeps_rules]: "keeps buf n (insn_is_avx T buf)" "keeps buf n (insn_is_evex T buf)"
  unfolding keeps_def by (rule keeps_ok [OF insn_is_avx_ok] keeps_ok [OF insn_is_evex_ok], simp)+

lemma last_prefix_id_keeps: "im_ok (insn_inv buf n) (insn_last_prefix_id T buf) (\<lambda>p s. insn_inv buf n s \<and> unat p < 4) (insn_inv buf n)"
  by (rule im_ok_conseq [OF frame_ok [where R = "\<lambda>_ _. True", OF insn_last_prefix_id_ok]]) auto

lemma keeps_upd: "(\<And>s. insn_inv buf n s \<Longrightarrow> insn_inv buf n (f s)) \<Longrightarrow> keeps buf n (im_upd f)"
  unfolding keeps_def by (rule im_ok_upd)

lemma keeps_upds [keeps_rules]:
  "keeps buf n (im_upd (\<lambda>s. s\<lparr>i_attr := a s\<rparr>))" "keeps buf n (im_upd (\<lambda>s. s\<lparr>i_modrm := b s\<rparr>))" "keeps buf n (im_upd (\<lambda>s. s\<lparr>i_sib := b s\<rparr>))"
  "keeps buf n (im_upd (\<lambda>s. s\<lparr>i_opnd_bytes := c s, i_modrm := b s\<rparr>))" "keeps buf n (im_upd (\<lambda>s. s\<lparr>i_displacement := b s\<rparr>))"
  "keeps buf n (im_upd (\<lambda>s. s\<lparr>i_immediate := b s\<rparr>))" "keeps buf n (im_upd (set_disp v d))" "keeps buf n (im_upd (set_imm v d))"
  "keeps buf n (im_upd (set_imm2 v d))" "keeps buf n (im_upd imm_got)"
  by (rule keeps_upd, simp add: insn_inv_def set_disp_def set_imm_def set_imm2_def imm_got_def)+

lemma keeps_imm [keeps_rules]: "keeps buf n (next_imm8 buf)" "keeps buf n (next_imm16 buf)" "keeps buf n (next_imm32 buf)" "keeps buf n (next_imm2_32 buf)"
  unfolding next_imm8_def next_imm16_def next_imm32_def next_imm2_32_def by (intro keeps_rules)+

lemma keeps_imms [keeps_rules]: "keeps buf n (get_moffset buf)" "keeps buf n (get_immv32 buf)" "keeps buf n (get_immv buf)" "keeps buf n (get_immptr buf)"
  unfolding get_moffset_def get_immv32_def get_immv_def get_immptr_def by (intro keeps_rules)+

lemma keeps_get_imm [keeps_rules]: "keeps buf n (get_imm buf sz)" "keeps buf n (get_disp buf md rm base)"
  unfolding get_imm_def get_disp_def by (intro keeps_rules)+

lemma keeps_run: "keeps buf n m \<Longrightarrow> insn_inv buf n s \<Longrightarrow> \<exists>s'. im_run m s = Inr s' \<and> insn_inv buf n s'"
  unfolding keeps_def by (erule im_run_ok) auto

lemma keeps_stage:
  assumes "\<exists>s'. r = Inr s' \<and> insn_inv buf n s'" "keeps buf n m"
  shows "\<exists>s'. bnd r (im_run m) = Inr s' \<and> insn_inv buf n s'"
  using assms keeps_run by fastforce

lemma insn_get_opcode_ok:
  assumes T: "inat_tables_ok T" and s: "insn_inv buf 0 s"
  shows "\<exists>s'. insn_get_opcode T buf s = Inr s' \<and> insn_inv buf 0 s'"
proof (cases "fld_got (i_opcode s)")
  case False
  have p: "\<exists>s'. insn_get_prefixes T buf s = Inr s' \<and> insn_inv buf 0 s'"
    using insn_get_prefixes_ok [of buf 0 "(i_opcode s, i_length s)" "i_attr s" s T] s by (auto simp: inv3_def)
  let ?J = "\<lambda>s. insn_inv buf 1 s \<and> fld_nbytes (i_opcode s) = 1"
  have nx: "im_ok (insn_inv buf 0) (get_next buf 1) (\<lambda>_. insn_inv buf 1) (insn_inv buf 0)"
    by (rule im_ok_conseq [OF frame_ok [where n = 0 and k = 1 and S = "\<lambda>_. True" and R = "\<lambda>_ _. True", OF im_ok_conseq [OF get_next_ok]]]) auto
  have op: "im_ok (insn_inv buf 1) (im_upd (\<lambda>s. s\<lparr>i_opcode := (fld_set_byte 0 b (i_opcode s))\<lparr>fld_nbytes := 1\<rparr>\<rparr>)) (\<lambda>_. ?J) (insn_inv buf 0)" for b
    by (rule im_ok_upd) (auto simp: insn_inv_def fld_set_byte_def)
  have avx: "im_ok ?J (insn_is_avx T buf) (\<lambda>_. ?J) (insn_inv buf 0)"
    by (rule im_ok_conseq [OF frame_ok [where n = 1 and k = 1 and S = "\<lambda>_. True" and R = "\<lambda>oc _. fld_nbytes oc = 1", OF im_ok_conseq [OF insn_is_avx_ok]]])
       (auto simp: insn_inv_def)
  have got: "im_ok (insn_inv buf 1) (im_upd (\<lambda>s. s\<lparr>i_opcode := set_got (i_opcode s)\<rparr>)) (\<lambda>_. insn_inv buf 0) (insn_inv buf 0)"
    by (rule im_ok_upd) (auto simp: insn_inv_def)
  have at: "im_ok ?J (im_upd (\<lambda>s. s\<lparr>i_attr := a\<rparr>)) (\<lambda>_. esc_inv buf 1 2 a) (insn_inv buf 1)" for a
    by (rule im_ok_upd) (auto simp: esc_inv_def insn_inv_def)
  have esc: "im_ok ?J (im_bind (im_upd (\<lambda>s. s\<lparr>i_attr := a\<rparr>)) (\<lambda>_. im_bind (escape_loop 17 T buf) (\<lambda>_.
      im_upd (\<lambda>s. s\<lparr>i_attr := if inat_must_vex (i_attr s) then 0 else i_attr s\<rparr>)))) (\<lambda>_. insn_inv buf 1) (insn_inv buf 0)" for a
    by (rule im_ok_conseq, rule im_ok_bind [OF at], rule im_ok_bind [OF escape_loop_ok [OF T]])
       (auto simp: esc_rank_def insn_inv_def intro!: im_ok_upd)
  have k: "im_ok ?J m (\<lambda>_. insn_inv buf 1) (insn_inv buf 0)" if "keeps buf 1 m" for m :: "unit insn_m"
    using that unfolding keeps_def by (rule im_ok_conseq) (auto intro: insn_inv_mono)
  have res: "keeps buf 1 (im_res (inat_get_avx_attribute T b m p))" for b m p
    unfolding keeps_def by (rule im_ok_conseq [OF im_ok_res [where S = "\<lambda>_. True"]]) (use avx_attribute_ok in auto)
  have "im_ok (insn_inv buf 0) (
        im_bind (get_next buf 1) (\<lambda>op.
        im_bind (im_upd (\<lambda>s. s\<lparr>i_opcode := (fld_set_byte 0 op (i_opcode s))\<lparr>fld_nbytes := 1\<rparr>\<rparr>)) (\<lambda>_.
        im_bind (insn_is_avx T buf) (\<lambda>avx.
        im_bind (if avx then
            im_bind (im_get insn_vex_m_bits) (\<lambda>m. im_bind (im_get insn_vex_p_bits) (\<lambda>p.
            im_bind (im_res (inat_get_avx_attribute T op m p)) (\<lambda>attr.
            im_bind (if inat_must_evex attr then im_bind (insn_is_evex T buf) (\<lambda>e. im_ret (\<not> e)) else im_ret False) (\<lambda>bad.
            im_upd (\<lambda>s. s\<lparr>i_attr := if bad \<or> \<not> inat_accept_vex attr \<and> \<not> inat_is_group attr then 0 else attr\<rparr>)))))
          else
            im_bind (im_upd (\<lambda>s. s\<lparr>i_attr := inat_get_opcode_attribute T op\<rparr>)) (\<lambda>_.
            im_bind (escape_loop 17 T buf) (\<lambda>_.
            im_upd (\<lambda>s. s\<lparr>i_attr := if inat_must_vex (i_attr s) then 0 else i_attr s\<rparr>)))) (\<lambda>_.
        im_upd (\<lambda>s. s\<lparr>i_opcode := set_got (i_opcode s)\<rparr>)))))) (\<lambda>_. insn_inv buf 0) (insn_inv buf 0)"
    by (rule im_ok_bind [OF nx], rule im_ok_bind [OF op], rule im_ok_bind [OF avx], rule im_ok_bind, rule im_ok_if, rule k, intro keeps_rules res, rule esc, rule got)
  then show ?thesis unfolding insn_get_opcode_def if_not_P [OF False] by (intro keeps_stage [OF p]) (simp only: keeps_def)
qed (use s in \<open>simp add: insn_get_opcode_def\<close>)

lemma insn_get_modrm_ok:
  assumes T: "inat_tables_ok T" and s: "insn_inv buf 0 s"
  shows "\<exists>s'. insn_get_modrm T buf s = Inr s' \<and> insn_inv buf 0 s'"
proof (cases "fld_got (i_modrm s)")
  case False
  have grp: "keeps buf 0 (im_bind (insn_last_prefix_id T buf) (\<lambda>p. im_bind (im_get i_attr) (\<lambda>a. im_bind (im_res (inat_get_group_attribute T m p a)) f)))"
    if "\<And>x. keeps buf 0 (f x)" for m and f :: "u32 \<Rightarrow> unit insn_m"
  proof -
    have r: "im_ok (insn_inv buf 0) (im_res (inat_get_group_attribute T m p a)) (\<lambda>_ . insn_inv buf 0) (insn_inv buf 0)" if "unat p < 4" for p a
      by (rule im_ok_conseq [OF im_ok_res [where S = "\<lambda>_. True"]]) (use group_attribute_ok [OF that] in auto)
    show ?thesis unfolding keeps_def
      by (rule im_ok_bind [OF last_prefix_id_keeps], rule im_ok_pure, rule im_ok_bind [OF keeps_get [unfolded keeps_def]], rule im_ok_bind [OF r], assumption)
         (rule that [unfolded keeps_def])
  qed
  show ?thesis unfolding insn_get_modrm_def if_not_P [OF False]
    by (intro keeps_stage [OF insn_get_opcode_ok [OF T s]] grp keeps_rules)
qed (use s in \<open>simp add: insn_get_modrm_def\<close>)

lemma insn_get_sib_ok: "inat_tables_ok T \<Longrightarrow> insn_inv buf 0 s \<Longrightarrow> \<exists>s'. insn_get_sib T buf s = Inr s' \<and> insn_inv buf 0 s'"
  unfolding insn_get_sib_def by (cases "fld_got (i_sib s)") (simp, simp only: if_False, intro keeps_stage insn_get_modrm_ok keeps_rules)

lemma insn_get_displacement_ok: "inat_tables_ok T \<Longrightarrow> insn_inv buf 0 s \<Longrightarrow> \<exists>s'. insn_get_displacement T buf s = Inr s' \<and> insn_inv buf 0 s'"
  unfolding insn_get_displacement_def by (cases "fld_got (i_displacement s)") (simp, simp only: if_False, intro keeps_stage insn_get_sib_ok keeps_rules)

lemma insn_get_immediate_ok: "inat_tables_ok T \<Longrightarrow> insn_inv buf 0 s \<Longrightarrow> \<exists>s'. insn_get_immediate T buf s = Inr s' \<and> insn_inv buf 0 s'"
  unfolding insn_get_immediate_def by (cases "fld_got (i_immediate s)") (simp, simp only: if_False, intro keeps_stage insn_get_displacement_ok keeps_rules)

lemma insn_get_length_ok:
  assumes T: "inat_tables_ok T" and n: "n \<le> int (length buf)"
  shows "\<exists>s. insn_get_length T buf (insn_init n x) = Inr s \<and> insn_inv buf 0 s \<and> (insn_complete s \<longrightarrow> 1 \<le> unat (i_length s) \<and> unat (i_length s) \<le> 15 \<and> unat (i_length s) \<le> length buf)"
proof -
  have i: "insn_inv buf 0 (insn_init n x)" "i_length (insn_init n x) = 0" using n by (auto simp: insn_inv_def insn_init_def Let_def no_field_def)
  from insn_get_immediate_ok [OF T i(1)] obtain s where s: "insn_get_immediate T buf (insn_init n x) = Inr s" "insn_inv buf 0 s" by blast
  have "i_next_byte s \<le> 15" "i_next_byte s \<le> length buf" using s(2) by (auto simp: insn_inv_def MAX_INSN_SIZE_def)
  moreover have "0 < i_next_byte s" if "insn_complete s" using that s(2) by (simp add: insn_inv_def insn_complete_def)
  ultimately show ?thesis using s i(2) by (auto simp: insn_get_length_def insn_inv_def insn_complete_def unat_of_nat)
qed

lemma intel_pt_insn_decoder_ok:
  assumes "insn_inv buf 0 s"
  shows "\<exists>s' pt'. intel_pt_insn_decoder T buf s pt = Inr (s', pt') \<and> i_length s' = i_length s \<and> pi_length pt' = unat (i_length s) \<and> pi_buf pt' = pi_buf pt"
proof -
  from assms have "inv3 buf 0 (i_opcode s, i_length s) (i_attr s) s" by (simp add: inv3_def)
  from insn_get_prefixes_ok [OF this, of T] obtain s' where "insn_get_prefixes T buf s = Inr s'" "i_length s' = i_length s" by (auto simp: inv3_def)
  then show ?thesis by (simp add: intel_pt_insn_decoder_def Let_def split: prod.split)
qed

text \<open>
  Claim C9.  With tables as the opcode map makes them, and a buffer of at least the given length, decoding an
  instruction reads inside the buffer and returns: either it refuses and leaves the result alone, or it gives an
  instruction of one to fifteen bytes, not longer than the buffer, whose bytes are copied in front of the debug
  buffer.
\<close>

theorem get_insn_stays_in_buffer:
  assumes T: "inat_tables_ok T" and len: "unat len \<le> length buf" and pt: "length (pi_buf pt) = INTEL_PT_INSN_DBG_BUF_SZ"
  shows "intel_pt_get_insn T buf len x pt = Inr (- 1, pt) \<or>
    (\<exists>pt'. intel_pt_get_insn T buf len x pt = Inr (0, pt') \<and> 1 \<le> pi_length pt' \<and> pi_length pt' \<le> 15 \<and> pi_length pt' \<le> unat len \<and>
      pi_buf pt' = take (pi_length pt') buf @ drop (pi_length pt') (pi_buf pt))"
proof -
  have n: "sint (ucast len :: u32) \<le> int (length buf)" using sint_ucast_le [of len] len uint_nat [of len] by linarith
  from insn_get_length_ok [OF T n, of x] obtain s where s: "insn_get_length T buf (insn_init (sint (ucast len :: u32)) x) = Inr s" "insn_inv buf 0 s"
    and c: "insn_complete s \<longrightarrow> 1 \<le> unat (i_length s) \<and> unat (i_length s) \<le> 15 \<and> unat (i_length s) \<le> length buf" by blast
  show ?thesis
  proof (cases "\<not> insn_complete s \<or> len < ucast (i_length s)")
    case True
    then show ?thesis using s by (simp add: intel_pt_get_insn_def)
  next
    case False
    from intel_pt_insn_decoder_ok [OF s(2), of T pt] obtain s' pt' where d: "intel_pt_insn_decoder T buf s pt = Inr (s', pt')" "i_length s' = i_length s"
      "pi_length pt' = unat (i_length s)" "pi_buf pt' = pi_buf pt" by blast
    have l: "unat (i_length s) \<le> unat len" using False unat_ucast_u8 [where x = "i_length s" and 'w = 64] by (simp add: not_less word_le_nat_alt)
    show ?thesis using False c pt d s(1) l by (simp add: intel_pt_get_insn_def INTEL_PT_INSN_DBG_BUF_SZ_def memcpy_def Let_def)
  qed
qed

definition jcc_tables :: inat_tables where
  "jcc_tables = \<lparr>inat_primary_table = (\<lambda>b. if b = 0x0f then 0x10 else if b = 0xf2 then 3 else if b = 0x62 then 15 else 0),
     inat_escape_tables = (\<lambda>n p. if n = 1 \<and> p = 0 then Some (\<lambda>b. if b = 0x38 then 0x20 else if b = 0x84 then 0x3000 else 0) else None),
     inat_group_tables = (\<lambda>_ _. None), inat_avx_tables = (\<lambda>_ _. None)\<rparr>"

definition no_insn :: intel_pt_insn where
  "no_insn = \<lparr>pi_op = INTEL_PT_OP_OTHER, pi_branch = INTEL_PT_BR_NO_BRANCH, pi_length = 0, pi_rel = 0, pi_buf = replicate 16 0\<rparr>"

lemma jcc_tables_ok: "inat_tables_ok jcc_tables"
  by (auto simp: inat_tables_ok_def jcc_tables_def inat_is_escape_def inat_escape_id_def INAT_ESC_MASK_def split: if_splits)

lemma jcc_decodes: "intel_pt_get_insn jcc_tables [0x0f, 0x84, 0x10, 0, 0, 0, 0x90] 6 True no_insn =
    Inr (0, \<lparr>pi_op = INTEL_PT_OP_JCC, pi_branch = INTEL_PT_BR_CONDITIONAL, pi_length = 6, pi_rel = 0x10, pi_buf = [0x0f, 0x84, 0x10, 0, 0, 0, 0, 0, 0, 0, 0, 0, 0, 0, 0, 0]\<rparr>)"
  by code_simp

theorem get_insn_stays_in_buffer_witness:
  "let buf = [0x0f, 0x84, 0x10, 0, 0, 0, 0x90]; r = intel_pt_get_insn jcc_tables buf 6 True no_insn in
     inat_tables_ok jcc_tables \<and> fst (projr r) = 0 \<and> pi_op (snd (projr r)) = INTEL_PT_OP_JCC \<and> pi_rel (snd (projr r)) = 0x10 \<and>
     pi_length (snd (projr r)) = 6 \<and>
     (r = Inr (- 1, no_insn) \<or> (\<exists>pt'. r = Inr (0, pt') \<and> 1 \<le> pi_length pt' \<and> pi_length pt' \<le> 15 \<and> pi_length pt' \<le> 6 \<and>
        pi_buf pt' = take (pi_length pt') buf @ drop (pi_length pt') (pi_buf no_insn)))"
  using get_insn_stays_in_buffer [OF jcc_tables_ok, of 6 "[0x0f, 0x84, 0x10, 0, 0, 0, 0x90]" no_insn True] jcc_tables_ok jcc_decodes
  by (simp add: no_insn_def INTEL_PT_INSN_DBG_BUF_SZ_def)

lemmas im_simps = im_bind_def im_get_def im_upd_def im_ret_def im_err_def im_call_def im_res_def im_when_def im_run_def

lemma not_prefix_byte:
  assumes "a AND INAT_PFX_MASK = c" "c = 0 \<or> c = INAT_PFX_EVEX"
  shows "\<not> inat_is_legacy_prefix a" "\<not> inat_is_rex_prefix a" "inat_is_vex_prefix a \<longleftrightarrow> c = INAT_PFX_EVEX" "inat_is_evex_prefix a \<longleftrightarrow> c = INAT_PFX_EVEX"
  using assms by (auto simp: inat_is_legacy_prefix_def inat_is_rex_prefix_def inat_is_vex_prefix_def inat_is_evex_prefix_def Let_def
      INAT_PFX_EVEX_def INAT_PFX_REX_def INAT_PFX_VEX2_def INAT_PFX_VEX3_def INAT_LGCPFX_MAX_def)

definition evex_vex :: "u8 \<Rightarrow> insn_field" where "evex_vex b = fld_set_byte 1 b (fld_set_byte 0 0x62 no_field)"

lemma evex_vex_simps:
  "fld_got (evex_vex b) = False" "fld_nbytes (evex_vex b) = 0" "fld_nbytes (set_got (evex_vex b)) = 0"
  by (simp_all add: evex_vex_def fld_set_byte_def no_field_def set_got_def)

lemma evex_vex_bytes:
  "fld_byte (set_got (evex_vex b)) (Suc 0) = b" "fld_byte (set_got (evex_vex b)) 2 = 0" "fld_value (set_got (evex_vex b)) \<noteq> 0"
proof -
  have v: "fld_value (set_got (evex_vex b)) = 0x62 OR push_bit 8 (ucast b)"
    by (simp add: evex_vex_def fld_set_byte_def no_field_def set_got_def)
  show "fld_byte (set_got (evex_vex b)) (Suc 0) = b" "fld_byte (set_got (evex_vex b)) 2 = 0"
    by (rule bit_eqI, auto simp: fld_byte_def v bit_simps dest: bit_imp_le_length)+
  have "bit (fld_value (set_got (evex_vex b))) 1" by (simp add: v bit_simps)
  then show "fld_value (set_got (evex_vex b)) \<noteq> 0" by auto
qed

definition evex1 :: "u8 \<Rightarrow> insn" where
  "evex1 b = (insn_init 2 True)\<lparr>i_rex_prefix := \<lparr>fld_value = 0, fld_got = True, fld_nbytes = 0\<rparr>, i_vex_prefix := evex_vex b\<rparr>"

lemma evex_prefixes_cut:
  assumes "inat_primary_table T 0x62 AND INAT_PFX_MASK = INAT_PFX_EVEX"
  shows "insn_get_prefixes T [0x62, b] (insn_init 2 True) = Inr (evex1 b)"
  using not_prefix_byte [OF assms]
  by (simp add: insn_get_prefixes_def im_simps peek_nbyte_next_def validate_next_def insn_init_def evex1_def MAX_INSN_SIZE_def no_field_def prefix_loop.simps
      inat_get_opcode_attribute_def set_last_prefix_def get_rex_def get_vex_def set_vex_def evex_vex_def set_got_def Let_def rd_def)

text \<open>The second run starts at the byte after the one taken for the opcode and finds no prefix.\<close>

definition evex2 :: "u8 \<Rightarrow> insn" where
  "evex2 b = (evex1 b)\<lparr>i_next_byte := 1, i_opcode := \<lparr>fld_value = 0x62, fld_got = False, fld_nbytes = 1\<rparr>\<rparr>"

definition evex3 :: "u8 \<Rightarrow> insn" where
  "evex3 b = (evex2 b)\<lparr>i_vex_prefix := set_got (evex_vex b), i_prefixes := \<lparr>fld_value = 0, fld_got = True, fld_nbytes = 0\<rparr>\<rparr>"

lemma evex_prefixes_again:
  assumes "inat_primary_table T b AND INAT_PFX_MASK = 0"
  shows "insn_get_prefixes T [0x62, b] (evex2 b) = Inr (evex3 b)"
  using not_prefix_byte [OF assms]
  by (simp add: insn_get_prefixes_def im_simps peek_nbyte_next_def validate_next_def insn_init_def evex1_def evex2_def evex3_def MAX_INSN_SIZE_def no_field_def
      prefix_loop.simps inat_get_opcode_attribute_def set_last_prefix_def get_rex_def get_vex_def set_vex_def set_got_def Let_def rd_def fld_byte_def INAT_PFX_EVEX_def evex_vex_simps)

lemma evex_opcode:
  assumes "inat_primary_table T 0x62 AND INAT_PFX_MASK = INAT_PFX_EVEX" "inat_primary_table T b AND INAT_PFX_MASK = 0"
    "inat_get_avx_attribute T 0x62 (X86_EVEX_M b) 0 = Inr a" "\<not> inat_accept_vex a" "\<not> inat_is_group a"
  shows "insn_get_opcode T [0x62, b] (insn_init 2 True) = Inr ((evex3 b)\<lparr>i_attr := 0, i_opcode := \<lparr>fld_value = 0x62, fld_got = True, fld_nbytes = 1\<rparr>\<rparr>)"
proof -
  have g: "get_next [0x62, b] 1 (evex1 b) = Inr (Some (0x62 :: u8), (evex1 b)\<lparr>i_next_byte := 1\<rparr>)"
    by (simp add: get_next_def validate_next_def evex1_def insn_init_def MAX_INSN_SIZE_def get_le_def)
  have o2: "(evex1 b)\<lparr>i_next_byte := 1, i_opcode := (fld_set_byte 0 0x62 (i_opcode (evex1 b)))\<lparr>fld_nbytes := 1\<rparr>\<rparr> = (evex2 b)"
    by (simp add: evex1_def evex2_def insn_init_def no_field_def fld_set_byte_def Let_def)
  have n: "\<not> fld_got (i_opcode (insn_init 2 True))" by (simp add: insn_init_def no_field_def Let_def)
  have p: "insn_get_prefixes T buf (evex3 b) = Inr (evex3 b)" "fld_value (i_vex_prefix (evex3 b)) \<noteq> 0" "insn_vex_m_bits (evex3 b) = X86_EVEX_M b" "insn_vex_p_bits (evex3 b) = 0" for buf
    by (simp_all add: insn_get_prefixes_def evex3_def insn_vex_m_bits_def insn_vex_p_bits_def X86_VEX_P_def evex_vex_simps evex_vex_bytes)
  show ?thesis unfolding insn_get_opcode_def if_not_P [OF n] evex_prefixes_cut [OF assms(1)]
    by (simp add: im_simps g o2 evex_prefixes_again [OF assms(2)] insn_is_avx_def insn_is_evex_def p assms(3-5) del: One_nat_def)
       (simp add: evex2_def evex3_def set_got_def)
qed

definition evex4 :: "u8 \<Rightarrow> insn" where
  "evex4 b = (let got = \<lparr>fld_value = 0, fld_got = True, fld_nbytes = 0\<rparr> in
     (evex3 b)\<lparr>i_attr := 0, i_opcode := \<lparr>fld_value = 0x62, fld_got = True, fld_nbytes = 1\<rparr>, i_modrm := got, i_sib := got, i_displacement := got,
       i_immediate := got, i_length := 1\<rparr>)"

lemma evex_length:
  assumes "insn_get_opcode T [0x62, b] (insn_init 2 True) = Inr ((evex3 b)\<lparr>i_attr := 0, i_opcode := \<lparr>fld_value = 0x62, fld_got = True, fld_nbytes = 1\<rparr>\<rparr>)"
  shows "insn_get_length T [0x62, b] (insn_init 2 True) = Inr (evex4 b)"
proof -
  have z: "\<not> inat_has_modrm 0" "\<not> inat_is_force64 0" "\<not> inat_has_moffset 0" "\<not> inat_has_immediate 0"
    by (simp_all add: inat_has_modrm_def inat_is_force64_def inat_has_moffset_def inat_has_immediate_def)
  have n: "\<not> fld_got (i_modrm (insn_init 2 True))" "\<not> fld_got (i_sib (insn_init 2 True))" "\<not> fld_got (i_displacement (insn_init 2 True))"
    "\<not> fld_got (i_immediate (insn_init 2 True))" "i_length (insn_init 2 True) = 0" by (simp_all add: insn_init_def no_field_def Let_def)
  show ?thesis
    unfolding insn_get_length_def insn_get_immediate_def insn_get_displacement_def insn_get_sib_def insn_get_modrm_def assms
    by (simp add: n im_simps z)
       (simp add: evex4_def evex3_def evex2_def evex1_def insn_init_def no_field_def set_got_def Let_def)
qed

text \<open>
  Claim C38.  \<open>insn_get_opcode\<close> goes on when \<open>insn_get_prefixes\<close> ran out of bytes.  Take 64-bit mode
  and tables where the byte 0x62 starts an EVEX prefix, the byte behind it is no prefix, and the opcode map that byte
  selects has no AVX instruction and no group at 0x62.  Then an instruction cut off after these two bytes is accepted as
  a complete instruction of one byte, in place of being refused as truncated.  (Cut off later, the length found depends
  on the tables.)
\<close>

theorem truncated_evex_accepted:
  assumes "inat_primary_table T 0x62 AND INAT_PFX_MASK = INAT_PFX_EVEX" "inat_primary_table T b AND INAT_PFX_MASK = 0"
    "inat_get_avx_attribute T 0x62 (X86_EVEX_M b) 0 = Inr a" "\<not> inat_accept_vex a" "\<not> inat_is_group a"
    and pt: "length (pi_buf pt) = INTEL_PT_INSN_DBG_BUF_SZ"
  shows "\<exists>pt'. intel_pt_get_insn T [0x62, b] 2 True pt = Inr (0, pt') \<and> pi_length pt' = 1"
proof -
  have e: "insn_complete (evex4 b)" "i_length (evex4 b) = 1" "insn_get_prefixes T buf (evex4 b) = Inr (evex4 b)" "fld_value (i_vex_prefix (evex4 b)) \<noteq> 0" for buf
    by (simp_all add: insn_complete_def evex4_def evex3_def Let_def insn_get_prefixes_def evex_vex_bytes)
  show ?thesis using evex_length [OF evex_opcode [OF assms(1-5)]] pt
    by (simp add: intel_pt_get_insn_def e intel_pt_insn_decoder_def memcpy_def INTEL_PT_INSN_DBG_BUF_SZ_def Let_def)
qed

theorem truncated_evex_accepted_witness:
  "inat_tables_ok jcc_tables \<and> (\<exists>pt'. intel_pt_get_insn jcc_tables [0x62, 0xf1] 2 True no_insn = Inr (0, pt') \<and> pi_length pt' = 1)"
  using truncated_evex_accepted [where T = jcc_tables and b = "0xf1" and a = 0 and pt = no_insn] jcc_tables_ok
  by (simp add: jcc_tables_def INAT_PFX_MASK_def INAT_PFX_EVEX_def inat_get_avx_attribute_def X86_EVEX_M_def X86_VEX_M_MAX_def INAT_LSTPFX_MAX_def tab_def
      inat_accept_vex_def inat_is_group_def no_insn_def INTEL_PT_INSN_DBG_BUF_SZ_def)

subsection \<open>Near branches\<close>

text \<open>The instruction after its prefixes when it has none, after its opcode, and at its end.\<close>

definition got0 :: insn_field where "got0 = \<lparr>fld_value = 0, fld_got = True, fld_nbytes = 0\<rparr>"

definition near1 :: "int \<Rightarrow> bool \<Rightarrow> insn" where
  "near1 n x = (insn_init n x)\<lparr>i_prefixes := got0, i_rex_prefix := got0, i_vex_prefix := got0\<rparr>"

definition near2 :: "int \<Rightarrow> bool \<Rightarrow> u8 \<Rightarrow> u32 \<Rightarrow> insn" where
  "near2 n x op a = (near1 n x)\<lparr>i_opcode := \<lparr>fld_value = ucast op, fld_got = True, fld_nbytes = 1\<rparr>, i_next_byte := 1, i_attr := a\<rparr>"

definition near3 :: "int \<Rightarrow> bool \<Rightarrow> u8 \<Rightarrow> u32 \<Rightarrow> u32 \<Rightarrow> insn" where
  "near3 n x op a rel = (near2 n x op a)\<lparr>i_opnd_bytes := if x \<and> inat_is_force64 a then 8 else 4, i_modrm := got0, i_sib := got0, i_displacement := got0,
     i_immediate := \<lparr>fld_value = rel, fld_got = True, fld_nbytes = 4\<rparr>, i_next_byte := 5, i_length := 5\<rparr>"

lemma near_prefixes:
  assumes "inat_primary_table T op AND INAT_PFX_MASK = 0" "5 \<le> n"
  shows "insn_get_prefixes T (op # bs) (insn_init n x) = Inr (near1 n x)"
  using not_prefix_byte [OF assms(1)] assms(2)
  by (cases x) (simp_all add: insn_get_prefixes_def im_simps peek_nbyte_next_def validate_next_def insn_init_def near1_def got0_def MAX_INSN_SIZE_def no_field_def
      prefix_loop.simps inat_get_opcode_attribute_def set_last_prefix_def get_rex_def get_vex_def set_got_def Let_def rd_def INAT_PFX_EVEX_def)

lemma near_opcode:
  assumes a: "inat_primary_table T op AND INAT_PFX_MASK = 0" "\<not> inat_is_escape (inat_primary_table T op)" "\<not> inat_must_vex (inat_primary_table T op)" and n: "5 \<le> n"
  shows "insn_get_opcode T (op # bs) (insn_init n x) = Inr (near2 n x op (inat_primary_table T op))"
proof -
  have g: "get_next (op # bs) 1 (near1 n x) = Inr (Some op, (near1 n x)\<lparr>i_next_byte := 1\<rparr>)"
    using n by (simp add: get_next_def validate_next_def near1_def insn_init_def MAX_INSN_SIZE_def get_le_def Let_def)
  have ng: "\<not> fld_got (i_opcode (insn_init n x))" by (simp add: insn_init_def no_field_def Let_def)
  have b: "fld_set_byte 0 op no_field = \<lparr>fld_value = ucast op, fld_got = False, fld_nbytes = 0\<rparr>" by (simp add: fld_set_byte_def no_field_def)
  have e: "\<not> inat_is_escape (i_attr s) \<Longrightarrow> escape_loop 17 T buf s = Inr (Some (), s)" for buf s
    using escape_loop.simps(2) [of 16] by (simp add: im_simps)
  have o2: "i_opcode (near1 n x) = no_field" by (simp add: near1_def insn_init_def Let_def)
  have p: "fld_got (i_prefixes s) \<Longrightarrow> insn_get_prefixes T buf s = Inr s" for buf s by (simp add: insn_get_prefixes_def)
  have f: "fld_got (i_prefixes (near1 n x))" "fld_value (i_vex_prefix (near1 n x)) = 0" by (simp_all add: near1_def got0_def)
  show ?thesis unfolding insn_get_opcode_def if_not_P [OF ng] near_prefixes [OF a(1) n]
    by (simp add: im_simps g e insn_is_avx_def p f o2 b inat_get_opcode_attribute_def a del: One_nat_def)
       (simp add: near2_def set_got_def)
qed

lemma near_length:
  assumes a: "inat_primary_table T op AND INAT_PFX_MASK = 0" "\<not> inat_is_escape (inat_primary_table T op)" "\<not> inat_must_vex (inat_primary_table T op)"
    "\<not> inat_has_modrm (inat_primary_table T op)" "\<not> inat_has_moffset (inat_primary_table T op)" "\<not> inat_has_second_immediate (inat_primary_table T op)"
    "inat_immediate_size (inat_primary_table T op) = 6" and n: "5 \<le> n"
  shows "insn_get_length T (op # le_bytes 4 rel @ bs) (insn_init n x) = Inr (near3 n x op (inat_primary_table T op) rel)"
proof -
  let ?a = "inat_primary_table T op"
  have i: "inat_has_immediate ?a" using a(7) by (auto simp: inat_has_immediate_def inat_immediate_size_def simp del: drop_bit_and)
  have ni: "\<not> fld_got (i_modrm (insn_init n x))" "\<not> fld_got (i_sib (insn_init n x))" "\<not> fld_got (i_displacement (insn_init n x))"
    "\<not> fld_got (i_immediate (insn_init n x))" "i_length (insn_init n x) = 0" by (simp_all add: insn_init_def no_field_def Let_def)
  define s2 where "s2 = near2 n x op ?a"
  have f: "i_attr s2 = ?a" "i_modrm s2 = no_field" "i_sib s2 = no_field" "i_displacement s2 = no_field"
    "i_immediate s2 = no_field" "i_opnd_bytes s2 = 4" "i_x86_64 s2 = x" "i_next_byte s2 = 1"
    by (simp_all add: s2_def near2_def near1_def insn_init_def Let_def)
  have e: "5 \<le> i_end_kaddr s2" using n by (simp add: s2_def near2_def near1_def insn_init_def Let_def MAX_INSN_SIZE_def)
  have b: "get_le (op # le_bytes 4 rel @ bs) (Suc 0) 4 = Inr rel" by (simp add: get_le_def take_bit_word_eq_self)
  let ?m = "s2\<lparr>i_opnd_bytes := if x \<and> inat_is_force64 ?a then 8 else 4, i_modrm := got0\<rparr>"
  have m: "insn_get_modrm T (op # le_bytes 4 rel @ bs) (insn_init n x) = Inr ?m"
    unfolding insn_get_modrm_def near_opcode [OF a(1-3) n] s2_def [symmetric] using ni(1) a(4) by (simp add: im_simps f got0_def set_got_def no_field_def)
  have d: "insn_get_displacement T (op # le_bytes 4 rel @ bs) (insn_init n x) = Inr (?m\<lparr>i_sib := got0, i_displacement := got0\<rparr>)"
    unfolding insn_get_displacement_def insn_get_sib_def m using ni by (simp add: im_simps f got0_def set_got_def no_field_def)
  show ?thesis
    unfolding insn_get_length_def insn_get_immediate_def d using e
    by (simp add: ni im_simps a i f get_imm_def get_immv32_def next_imm32_def get_next_def validate_next_def b set_imm_def set_field_def no_field_def)
       (simp_all add: near3_def got0_def set_got_def s2_def)
qed

text \<open>What the opcode map says of a near call and a near jump: a 32-bit immediate, whatever the operand size above 16 bits.\<close>

definition near_branch_attr :: "u32 \<Rightarrow> bool" where
  "near_branch_attr a \<longleftrightarrow> a AND INAT_PFX_MASK = 0 \<and> \<not> inat_is_escape a \<and> \<not> inat_must_vex a \<and> \<not> inat_has_modrm a \<and> \<not> inat_has_moffset a \<and>
     \<not> inat_has_second_immediate a \<and> inat_immediate_size a = 6"

lemma sint_small: "len < 2 ^ 31 \<Longrightarrow> sint (ucast (len :: u64) :: u32) = uint len"
proof -
  assume "len < 2 ^ 31"
  then have l: "uint len < 2 ^ 31" by (simp add: word_less_def)
  then have "uint (ucast len :: u32) = uint len" by (simp add: unsigned_ucast_eq take_bit_int_eq_self)
  then show ?thesis using l by (simp add: sint_uint signed_take_bit_int_eq_self order_trans [OF _ uint_nonnegative])
qed

lemma ucast_byte_back: "ucast (ucast (b :: u8) :: u32) = b"
  by (rule bit_word_eqI) (auto simp: bit_simps)

text \<open>
  A near call (0xe8) or jump (0xe9) with a 32-bit displacement, whose attribute the tables give as the
  opcode map does, is decoded, in either mode and whatever bytes follow, as an unconditional branch of five bytes
  with that displacement, and its bytes are kept for the log.
\<close>

theorem near_branch_decoded:
  assumes a: "near_branch_attr (inat_primary_table T op)" and op: "op = 0xe8 \<or> op = 0xe9" and len: "5 \<le> len" "len < 2 ^ 31"
    and pt: "length (pi_buf pt) = INTEL_PT_INSN_DBG_BUF_SZ"
  shows "intel_pt_get_insn T (op # le_bytes 4 rel @ bs) len x pt =
    Inr (0, pt\<lparr>pi_op := if op = 0xe8 then INTEL_PT_OP_CALL else INTEL_PT_OP_JMP, pi_branch := INTEL_PT_BR_UNCONDITIONAL, pi_length := 5, pi_rel := rel,
      pi_buf := op # le_bytes 4 rel @ drop 5 (pi_buf pt)\<rparr>)"
proof -
  let ?n = "sint (ucast len :: u32)" and ?a = "inat_primary_table T op"
  have n: "5 \<le> ?n" using len unfolding sint_small [OF len(2)] word_le_def by simp
  have l: "insn_get_length T (op # le_bytes 4 rel @ bs) (insn_init ?n x) = Inr (near3 ?n x op ?a rel)"
    using a by (intro near_length n) (simp_all add: near_branch_attr_def)
  have f: "insn_complete (near3 ?n x op ?a rel)" "i_length (near3 ?n x op ?a rel) = 5" "insn_get_prefixes T b (near3 ?n x op ?a rel) = Inr (near3 ?n x op ?a rel)"
    "fld_value (i_vex_prefix (near3 ?n x op ?a rel)) = 0" "fld_byte (i_opcode (near3 ?n x op ?a rel)) 0 = op" "fld_value (i_immediate (near3 ?n x op ?a rel)) = rel" for b
    by (simp_all add: insn_complete_def near3_def near2_def near1_def got0_def insn_get_prefixes_def fld_byte_def ucast_byte_back)
  have k: "branch_kind op b c = (if op = 0xe8 then INTEL_PT_OP_CALL else INTEL_PT_OP_JMP, INTEL_PT_BR_UNCONDITIONAL)" for b c
    using op by (auto simp: branch_kind_def)
  show ?thesis using len(1) pt
    by (simp add: intel_pt_get_insn_def l f intel_pt_insn_decoder_def k memcpy_def INTEL_PT_INSN_DBG_BUF_SZ_def not_less Let_def)
qed

theorem near_branch_decoded_witness:
  "let T = jcc_tables\<lparr>inat_primary_table := (\<lambda>b. if b = 0xe8 then 0xb000 else 0)\<rparr> in near_branch_attr (inat_primary_table T 0xe8) \<and>
     intel_pt_get_insn T (0xe8 # le_bytes 4 (- 16 :: u32) @ [0x90]) 6 True no_insn =
       Inr (0, no_insn\<lparr>pi_op := INTEL_PT_OP_CALL, pi_branch := INTEL_PT_BR_UNCONDITIONAL, pi_length := 5, pi_rel := - 16,
         pi_buf := 0xe8 # le_bytes 4 (- 16 :: u32) @ drop 5 (pi_buf no_insn)\<rparr>)"
proof -
  have a: "near_branch_attr 0xb000"
    by (simp add: near_branch_attr_def INAT_PFX_MASK_def inat_is_escape_def INAT_ESC_MASK_def inat_must_vex_def INAT_VEXONLY_def INAT_EVEXONLY_def inat_has_modrm_def
        INAT_MODRM_def inat_has_moffset_def INAT_MOFFSET_def inat_has_second_immediate_def INAT_SCNDIMM_def inat_immediate_size_def INAT_IMM_MASK_def)
  then show ?thesis
    using near_branch_decoded [of "jcc_tables\<lparr>inat_primary_table := (\<lambda>b. if b = 0xe8 then 0xb000 else 0)\<rparr>" "0xe8" 6 no_insn "- 16" "[0x90]" True]
    by (simp add: no_insn_def INTEL_PT_INSN_DBG_BUF_SZ_def)
qed

end
