(* ===== verification/Rbtree.thy ===== *)
theory Rbtree
  imports Perf_Prelude
begin

text \<open>
  Red-black trees, \<^verbatim>\<open>src/tools/lib/rbtree.c\<close> with \<^verbatim>\<open>rbtree.h\<close> and \<^verbatim>\<open>rbtree_augmented.h\<close> of
  \<^verbatim>\<open>src/tools/include/linux\<close>, at pointer level: linking, rebalancing after insertion and removal, and the walks
  in order and in postorder.  Pointers are 64-bit words and the colour is kept in the lowest bit of the parent
  word, as in the code.  The callbacks of augmented trees are the empty ones of \<open>dummy_callbacks\<close>.
\<close>

subsection \<open>Nodes\<close>

text \<open>
  The heap has the three words of each \<open>struct rb_node\<close>, and \<open>rb_node\<close> is the word of the \<open>struct rb_root\<close> at
  hand.  The two halves of the rebalancing loops differ in left and right exchanged only; a side stands for
  either.
\<close>

datatype rb_side = RbL | RbR

record rb_heap =
  rb_parent_color :: "u64 \<Rightarrow> u64"
  rb_right :: "u64 \<Rightarrow> u64"
  rb_left :: "u64 \<Rightarrow> u64"
  rb_node :: u64

definition opp :: "rb_side \<Rightarrow> rb_side" where
  "opp d = (case d of RbL \<Rightarrow> RbR | RbR \<Rightarrow> RbL)"

definition child :: "rb_side \<Rightarrow> rb_heap \<Rightarrow> u64 \<Rightarrow> u64" where
  "child d h a = (case d of RbL \<Rightarrow> rb_left h a | RbR \<Rightarrow> rb_right h a)"

definition set_child :: "rb_side \<Rightarrow> u64 \<Rightarrow> u64 \<Rightarrow> rb_heap \<Rightarrow> rb_heap" where
  "set_child d a v h = (case d of RbL \<Rightarrow> h\<lparr>rb_left := (rb_left h)(a := v)\<rparr> | RbR \<Rightarrow> h\<lparr>rb_right := (rb_right h)(a := v)\<rparr>)"

definition RB_RED :: u64 where "RB_RED = 0"
definition RB_BLACK :: u64 where "RB_BLACK = 1"

definition rb_parent :: "rb_heap \<Rightarrow> u64 \<Rightarrow> u64" where
  "rb_parent h r = rb_parent_color h r AND NOT 3"

definition rb_color :: "rb_heap \<Rightarrow> u64 \<Rightarrow> u64" where
  "rb_color h rb = rb_parent_color h rb AND 1"

definition rb_is_red :: "rb_heap \<Rightarrow> u64 \<Rightarrow> bool" where
  "rb_is_red h rb \<longleftrightarrow> rb_color h rb = 0"

definition rb_is_black :: "rb_heap \<Rightarrow> u64 \<Rightarrow> bool" where
  "rb_is_black h rb \<longleftrightarrow> rb_color h rb \<noteq> 0"

definition rb_set_pc :: "u64 \<Rightarrow> u64 \<Rightarrow> rb_heap \<Rightarrow> rb_heap" where
  "rb_set_pc rb pc h = h\<lparr>rb_parent_color := (rb_parent_color h)(rb := pc)\<rparr>"

definition rb_set_parent :: "u64 \<Rightarrow> u64 \<Rightarrow> rb_heap \<Rightarrow> rb_heap" where
  "rb_set_parent rb p h = rb_set_pc rb (rb_color h rb OR p) h"

definition rb_set_parent_color :: "u64 \<Rightarrow> u64 \<Rightarrow> u64 \<Rightarrow> rb_heap \<Rightarrow> rb_heap" where
  "rb_set_parent_color rb p color h = rb_set_pc rb (p OR color) h"

definition rb_set_black :: "u64 \<Rightarrow> rb_heap \<Rightarrow> rb_heap" where
  "rb_set_black rb h = rb_set_pc rb (rb_parent_color h rb OR RB_BLACK) h"

definition rb_red_parent :: "rb_heap \<Rightarrow> u64 \<Rightarrow> u64" where
  "rb_red_parent h red = rb_parent_color h red"

definition rb_change_child :: "u64 \<Rightarrow> u64 \<Rightarrow> u64 \<Rightarrow> rb_heap \<Rightarrow> rb_heap" where
  "rb_change_child old new parent h =
     (if parent \<noteq> 0 then if rb_left h parent = old then set_child RbL parent new h else set_child RbR parent new h
      else h\<lparr>rb_node := new\<rparr>)"

definition rb_rotate_set_parents :: "u64 \<Rightarrow> u64 \<Rightarrow> u64 \<Rightarrow> rb_heap \<Rightarrow> rb_heap" where
  "rb_rotate_set_parents old new color h =
     (let parent = rb_parent h old;
          h = rb_set_pc new (rb_parent_color h old) h;
          h = rb_set_parent_color old new color h
      in rb_change_child old new parent h)"

definition RB_EMPTY_ROOT :: "rb_heap \<Rightarrow> bool" where
  "RB_EMPTY_ROOT h \<longleftrightarrow> rb_node h = 0"

definition RB_EMPTY_NODE :: "rb_heap \<Rightarrow> u64 \<Rightarrow> bool" where
  "RB_EMPTY_NODE h node \<longleftrightarrow> rb_parent_color h node = node"

definition RB_CLEAR_NODE :: "u64 \<Rightarrow> rb_heap \<Rightarrow> rb_heap" where
  "RB_CLEAR_NODE node h = rb_set_pc node node h"

text \<open>\<open>rb_link\<close> is the address of a child pointer of a node or of the pointer in the root.\<close>

datatype rb_link = Root_Link | Child_Link rb_side u64

definition rb_link_node :: "u64 \<Rightarrow> u64 \<Rightarrow> rb_link \<Rightarrow> rb_heap \<Rightarrow> rb_heap c_result" where
  "rb_link_node node parent link h =
     (if node = 0 then Inl Null_Deref
      else let h = rb_set_pc node parent h; h = set_child RbL node 0 (set_child RbR node 0 h) in
        case link of
          Root_Link \<Rightarrow> Inr (h\<lparr>rb_node := node\<rparr>)
        | Child_Link d p \<Rightarrow> if p = 0 then Inl Null_Deref else Inr (set_child d p node h))"

subsection \<open>Rebalancing after an insertion\<close>

text \<open>Cases 2 and 3 of \<open>__rb_insert\<close>, for a parent on side \<open>d\<close> of the grandparent.\<close>

definition insert_rotate :: "rb_side \<Rightarrow> u64 \<Rightarrow> u64 \<Rightarrow> u64 \<Rightarrow> rb_heap \<Rightarrow> rb_heap" where
  "insert_rotate d node parent gparent h =
     (let tmp = child (opp d) h parent;
          (parent, tmp, h) =
            (if node = tmp then
               let tmp = child d h node;
                   h = set_child (opp d) parent tmp h;
                   h = set_child d node parent h;
                   h = (if tmp \<noteq> 0 then rb_set_parent_color tmp parent RB_BLACK h else h);
                   h = rb_set_parent_color parent node RB_RED h
               in (node, child (opp d) h node, h)
             else (parent, tmp, h));
          h = set_child d gparent tmp h;
          h = set_child (opp d) parent gparent h;
          h = (if tmp \<noteq> 0 then rb_set_parent_color tmp gparent RB_BLACK h else h)
      in rb_rotate_set_parents gparent parent RB_RED h)"

text \<open>Case 1: the colours flip and the loop goes on at the grandparent.\<close>

definition insert_flip :: "u64 \<Rightarrow> u64 \<Rightarrow> u64 \<Rightarrow> rb_heap \<Rightarrow> rb_heap" where
  "insert_flip tmp parent gparent h =
     (let h = rb_set_parent_color tmp gparent RB_BLACK h;
          h = rb_set_parent_color parent gparent RB_BLACK h
      in rb_set_parent_color gparent (rb_parent h gparent) RB_RED h)"

partial_function (option) insert_loop :: "u64 \<Rightarrow> u64 \<Rightarrow> rb_heap \<Rightarrow> rb_heap c_result option" where
  "insert_loop node parent h =
     (if parent = 0 then Some (Inr (rb_set_parent_color node 0 RB_BLACK h))
      else if rb_is_black h parent then Some (Inr h)
      else let gparent = rb_red_parent h parent in
        if gparent = 0 then Some (Inl Null_Deref)
        else let d = (if parent \<noteq> rb_right h gparent then RbL else RbR);
                 tmp = child (opp d) h gparent in
          if tmp \<noteq> 0 \<and> rb_is_red h tmp then
            let h = insert_flip tmp parent gparent h in insert_loop gparent (rb_parent h gparent) h
          else Some (Inr (insert_rotate d node parent gparent h)))"

definition rb_insert_color :: "u64 \<Rightarrow> rb_heap \<Rightarrow> rb_heap c_result" where
  "rb_insert_color node h =
     (if node = 0 then Inl Null_Deref else bnd (returns (insert_loop node (rb_red_parent h node) h)) id)"

subsection \<open>Removal\<close>

text \<open>Case 1 of \<open>____rb_erase_color\<close> for a node on side \<open>d\<close> of its parent, with the sibling it goes on with.\<close>

definition erase_red_sibling :: "rb_side \<Rightarrow> u64 \<Rightarrow> u64 \<Rightarrow> rb_heap \<Rightarrow> (u64 \<times> rb_heap) c_result" where
  "erase_red_sibling d parent sibling h =
     (if rb_is_red h sibling then
        let tmp1 = child d h sibling;
            h = set_child (opp d) parent tmp1 h;
            h = set_child d sibling parent h
        in if tmp1 = 0 then Inl Null_Deref
           else let h = rb_set_parent_color tmp1 parent RB_BLACK h
                in Inr (tmp1, rb_rotate_set_parents parent sibling RB_RED h)
      else Inr (sibling, h))"

text \<open>Cases 3 and 4.\<close>

definition erase_inner_rotate :: "rb_side \<Rightarrow> u64 \<Rightarrow> u64 \<Rightarrow> u64 \<Rightarrow> rb_heap \<Rightarrow> rb_heap" where
  "erase_inner_rotate d parent sibling tmp2 h =
     (let tmp1 = child (opp d) h tmp2;
          h = set_child d sibling tmp1 h;
          h = set_child (opp d) tmp2 sibling h;
          h = set_child (opp d) parent tmp2 h
      in if tmp1 \<noteq> 0 then rb_set_parent_color tmp1 sibling RB_BLACK h else h)"

definition erase_rotate :: "rb_side \<Rightarrow> u64 \<Rightarrow> u64 \<Rightarrow> u64 \<Rightarrow> rb_heap \<Rightarrow> rb_heap" where
  "erase_rotate d parent sibling tmp1 h =
     (let tmp2 = child d h sibling;
          h = set_child (opp d) parent tmp2 h;
          h = set_child d sibling parent h;
          h = rb_set_parent_color tmp1 sibling RB_BLACK h;
          h = (if tmp2 \<noteq> 0 then rb_set_parent tmp2 parent h else h)
      in rb_rotate_set_parents parent sibling RB_BLACK h)"

partial_function (option) erase_loop :: "u64 \<Rightarrow> u64 \<Rightarrow> rb_heap \<Rightarrow> rb_heap c_result option" where
  "erase_loop node parent h =
     (if parent = 0 then Some (Inl Null_Deref)
      else let d = (if node \<noteq> rb_right h parent then RbL else RbR); sibling = child (opp d) h parent in
        if sibling = 0 then Some (Inl Null_Deref)
        else case erase_red_sibling d parent sibling h of
          Inl e \<Rightarrow> Some (Inl e)
        | Inr (sibling, h) \<Rightarrow>
            let tmp1 = child (opp d) h sibling in
            if tmp1 = 0 \<or> rb_is_black h tmp1 then
              let tmp2 = child d h sibling in
              if tmp2 = 0 \<or> rb_is_black h tmp2 then
                let h = rb_set_parent_color sibling parent RB_RED h in
                if rb_is_red h parent then Some (Inr (rb_set_black parent h))
                else if rb_parent h parent \<noteq> 0 then erase_loop parent (rb_parent h parent) h
                else Some (Inr h)
              else Some (Inr (erase_rotate d parent tmp2 sibling (erase_inner_rotate d parent sibling tmp2 h)))
            else Some (Inr (erase_rotate d parent sibling tmp1 h)))"

definition rb_erase_color :: "u64 \<Rightarrow> rb_heap \<Rightarrow> rb_heap c_result" where
  "rb_erase_color parent h = bnd (returns (erase_loop 0 parent h)) id"

text \<open>The walk of \<open>__rb_erase_augmented\<close> down to the successor, with the successor's parent.\<close>

partial_function (option) leftmost_under :: "rb_heap \<Rightarrow> u64 \<Rightarrow> u64 \<Rightarrow> (u64 \<times> u64) option" where
  "leftmost_under h parent successor =
     (let tmp = rb_left h successor in if tmp \<noteq> 0 then leftmost_under h successor tmp else Some (parent, successor))"

text \<open>The last part of \<open>__rb_erase_augmented\<close>, which puts the successor in the place of the node.\<close>

definition erase_replace :: "u64 \<Rightarrow> u64 \<Rightarrow> u64 \<Rightarrow> u64 \<Rightarrow> rb_heap \<Rightarrow> u64 \<times> rb_heap" where
  "erase_replace node successor parent child2 h =
     (let tmp = rb_left h node;
          h = set_child RbL successor tmp h;
          h = rb_set_parent tmp successor h;
          pc = rb_parent_color h node;
          h = rb_change_child node successor (pc AND NOT 3) h
      in if child2 \<noteq> 0 then
           let h = rb_set_pc successor pc h in (0, rb_set_parent_color child2 parent RB_BLACK h)
         else let pc2 = rb_parent_color h successor
           in (if pc2 AND 1 \<noteq> 0 then parent else 0, rb_set_pc successor pc h))"

definition rb_erase_augmented :: "u64 \<Rightarrow> rb_heap \<Rightarrow> (u64 \<times> rb_heap) c_result" where
  "rb_erase_augmented node h =
     (if node = 0 then Inl Null_Deref
      else let chd = rb_right h node; tmp = rb_left h node in
        if tmp = 0 then
          let pc = rb_parent_color h node; parent = pc AND NOT 3; h = rb_change_child node chd parent h in
          if chd \<noteq> 0 then Inr (0, rb_set_pc chd pc h) else Inr (if pc AND 1 \<noteq> 0 then parent else 0, h)
        else if chd = 0 then
          let pc = rb_parent_color h node; h = rb_set_pc tmp pc h; parent = pc AND NOT 3
          in Inr (0, rb_change_child node tmp parent h)
        else let tmp = rb_left h chd in
          if tmp = 0 then Inr (erase_replace node chd chd (rb_right h chd) h)
          else bnd (returns (leftmost_under h chd tmp)) (\<lambda>(parent, successor).
            let child2 = rb_right h successor;
                h = set_child RbL parent child2 h;
                h = set_child RbR successor chd h;
                h = rb_set_parent chd successor h
            in Inr (erase_replace node successor parent child2 h)))"

definition rb_erase :: "u64 \<Rightarrow> rb_heap \<Rightarrow> rb_heap c_result" where
  "rb_erase node h =
     bnd (rb_erase_augmented node h) (\<lambda>(rebalance, h). if rebalance \<noteq> 0 then rb_erase_color rebalance h else Inr h)"

definition rb_erase_init :: "u64 \<Rightarrow> rb_heap \<Rightarrow> rb_heap c_result" where
  "rb_erase_init n h = bnd (rb_erase n h) (\<lambda>h. Inr (RB_CLEAR_NODE n h))"

definition rb_replace_node :: "u64 \<Rightarrow> u64 \<Rightarrow> rb_heap \<Rightarrow> rb_heap c_result" where
  "rb_replace_node victim new h =
     (if victim = 0 then Inl Null_Deref
      else let parent = rb_parent h victim;
               h = rb_change_child victim new parent h;
               h = (if rb_left h victim \<noteq> 0 then rb_set_parent (rb_left h victim) new h else h);
               h = (if rb_right h victim \<noteq> 0 then rb_set_parent (rb_right h victim) new h else h)
           in if new = 0 then Inl Null_Deref
              else Inr (rb_set_pc new (rb_parent_color h victim) (set_child RbL new (rb_left h victim) (set_child RbR new (rb_right h victim) h))))"

subsection \<open>Walks\<close>

partial_function (option) furthest :: "rb_side \<Rightarrow> rb_heap \<Rightarrow> u64 \<Rightarrow> u64 option" where
  "furthest d h n = (if child d h n \<noteq> 0 then furthest d h (child d h n) else Some n)"

definition rb_first :: "rb_heap \<Rightarrow> u64 c_result" where
  "rb_first h = (if rb_node h = 0 then Inr 0 else returns (furthest RbL h (rb_node h)))"

definition rb_last :: "rb_heap \<Rightarrow> u64 c_result" where
  "rb_last h = (if rb_node h = 0 then Inr 0 else returns (furthest RbR h (rb_node h)))"

text \<open>Going up while the node is the child of its parent on side \<open>d\<close>.\<close>

partial_function (option) climb :: "rb_side \<Rightarrow> rb_heap \<Rightarrow> u64 \<Rightarrow> u64 option" where
  "climb d h node =
     (let parent = rb_parent h node in
      if parent \<noteq> 0 \<and> node = child d h parent then climb d h parent else Some parent)"

definition rb_next :: "rb_heap \<Rightarrow> u64 \<Rightarrow> u64 c_result" where
  "rb_next h node =
     (if node = 0 then Inl Null_Deref
      else if RB_EMPTY_NODE h node then Inr 0
      else if rb_right h node \<noteq> 0 then returns (furthest RbL h (rb_right h node))
      else returns (climb RbR h node))"

definition rb_prev :: "rb_heap \<Rightarrow> u64 \<Rightarrow> u64 c_result" where
  "rb_prev h node =
     (if node = 0 then Inl Null_Deref
      else if RB_EMPTY_NODE h node then Inr 0
      else if rb_left h node \<noteq> 0 then returns (furthest RbR h (rb_left h node))
      else returns (climb RbL h node))"

partial_function (option) rb_left_deepest_node :: "rb_heap \<Rightarrow> u64 \<Rightarrow> u64 option" where
  "rb_left_deepest_node h node =
     (if rb_left h node \<noteq> 0 then rb_left_deepest_node h (rb_left h node)
      else if rb_right h node \<noteq> 0 then rb_left_deepest_node h (rb_right h node)
      else Some node)"

definition rb_next_postorder :: "rb_heap \<Rightarrow> u64 \<Rightarrow> u64 c_result" where
  "rb_next_postorder h node =
     (if node = 0 then Inr 0
      else let parent = rb_parent h node in
        if parent \<noteq> 0 \<and> node = rb_left h parent \<and> rb_right h parent \<noteq> 0
        then returns (rb_left_deepest_node h (rb_right h parent))
        else Inr parent)"

definition rb_first_postorder :: "rb_heap \<Rightarrow> u64 c_result" where
  "rb_first_postorder h = (if rb_node h = 0 then Inr 0 else returns (rb_left_deepest_node h (rb_node h)))"

declare insert_loop.simps [code] erase_loop.simps [code] leftmost_under.simps [code] furthest.simps [code] climb.simps [code]
  rb_left_deepest_node.simps [code]

subsection \<open>Trees and the way up from a subtree\<close>

text \<open>
  The reference: a tree with its colours (\<open>True\<close> for black) and node addresses.  A frame of the way up from a
  subtree has the side the subtree hangs on, the colour and address of the parent, and the sibling.
\<close>

datatype rb_tree = Lf | Nd bool rb_tree u64 rb_tree

datatype rb_frame = Fr rb_side bool u64 rb_tree

fun inorder :: "rb_tree \<Rightarrow> u64 list" where
  "inorder Lf = []"
| "inorder (Nd c l x r) = inorder l @ x # inorder r"

definition nd :: "rb_side \<Rightarrow> bool \<Rightarrow> rb_tree \<Rightarrow> u64 \<Rightarrow> rb_tree \<Rightarrow> rb_tree" where
  "nd d c t x s = (case d of RbL \<Rightarrow> Nd c t x s | RbR \<Rightarrow> Nd c s x t)"

fun plug :: "rb_tree \<Rightarrow> rb_frame list \<Rightarrow> rb_tree" where
  "plug t [] = t"
| "plug t (Fr d c x s # k) = plug (nd d c t x s) k"

fun up :: "rb_frame list \<Rightarrow> u64" where
  "up [] = 0"
| "up (Fr d c x s # k) = x"

fun addrs :: "rb_frame list \<Rightarrow> u64 list" where
  "addrs [] = []"
| "addrs (Fr d c x s # k) = x # inorder s @ addrs k"

definition col :: "bool \<Rightarrow> u64" where
  "col c = (if c then 1 else 0)"

definition node_at :: "u64 \<Rightarrow> bool" where
  "node_at x \<longleftrightarrow> x \<noteq> 0 \<and> x AND 3 = 0"

fun tree_at :: "rb_heap \<Rightarrow> u64 \<Rightarrow> u64 \<Rightarrow> rb_tree \<Rightarrow> bool" where
  "tree_at h p a Lf \<longleftrightarrow> a = 0"
| "tree_at h p a (Nd c l x r) \<longleftrightarrow> a = x \<and> node_at x \<and> rb_parent_color h x = p OR col c \<and>
     tree_at h x (child RbL h x) l \<and> tree_at h x (child RbR h x) r"

fun ctx_at :: "rb_heap \<Rightarrow> u64 \<Rightarrow> rb_frame list \<Rightarrow> bool" where
  "ctx_at h a [] \<longleftrightarrow> rb_node h = a"
| "ctx_at h a (Fr d c x s # k) \<longleftrightarrow> node_at x \<and> child d h x = a \<and> tree_at h x (child (opp d) h x) s \<and>
     rb_parent_color h x = up k OR col c \<and> ctx_at h x k"

definition zip_at :: "rb_heap \<Rightarrow> u64 \<Rightarrow> rb_tree \<Rightarrow> rb_frame list \<Rightarrow> bool" where
  "zip_at h a t k \<longleftrightarrow> tree_at h (up k) a t \<and> ctx_at h a k \<and> distinct (inorder t @ addrs k)"

definition rbtree_at :: "rb_heap \<Rightarrow> rb_tree \<Rightarrow> bool" where
  "rbtree_at h t \<longleftrightarrow> tree_at h 0 (rb_node h) t \<and> distinct (inorder t)"

definition blacken :: "rb_tree \<Rightarrow> rb_tree" where
  "blacken t = (case t of Lf \<Rightarrow> Lf | Nd c l x r \<Rightarrow> Nd True l x r)"

fun is_red :: "rb_tree \<Rightarrow> bool" where
  "is_red Lf = False"
| "is_red (Nd c l x r) = (\<not> c)"

fun root_of :: "rb_tree \<Rightarrow> u64" where
  "root_of Lf = 0"
| "root_of (Nd c l x r) = x"

subsection \<open>Reading and updating\<close>

lemma opp_simps [simp]: "opp RbL = RbR" "opp RbR = RbL" "opp (opp d) = d" "opp d \<noteq> d" "d \<noteq> opp d"
  by (cases d; simp add: opp_def)+

lemma opp_eq_iff [simp]: "opp d = opp e \<longleftrightarrow> d = e" "d \<noteq> e \<longleftrightarrow> d = opp e"
  by (cases d; cases e; simp)+

lemma child_set_child [simp]:
  "child e (set_child d a v h) b = (if e = d \<and> b = a then v else child e h b)"
  by (cases d; cases e) (simp_all add: child_def set_child_def)

lemma rb_set_simps [simp]:
  "rb_parent_color (set_child d a v h) = rb_parent_color h" "rb_node (set_child d a v h) = rb_node h"
  "child e (rb_set_pc a w h) = child e h" "rb_node (rb_set_pc a w h) = rb_node h"
  "rb_parent_color (rb_set_pc a w h) b = (if b = a then w else rb_parent_color h b)"
  "child e (h\<lparr>rb_node := v\<rparr>) = child e h"
  by (cases d; simp add: set_child_def rb_set_pc_def child_def fun_eq_iff split: rb_side.splits)+

lemma child_fields: "rb_left h = child RbL h" "rb_right h = child RbR h"
  by (simp_all add: child_def fun_eq_iff)

lemma three_bits: "bit (3 :: u64) i \<longleftrightarrow> i < 2"
proof -
  have e: "(3 :: u64) = mask 2" by (simp add: mask_eq_exp_minus_1)
  show ?thesis unfolding e bit_mask_iff by auto
qed

lemma pc_parts:
  assumes "p AND 3 = 0"
  shows "(p OR col c) AND NOT 3 = p" "(p OR col c) AND 1 = col c" "(p OR col c) OR 1 = p OR col True"
proof -
  have "\<not> bit (p AND 3) i" for i using assms by (metis bit_0_eq bot_apply bot_bool_def)
  then have b: "i < 2 \<Longrightarrow> \<not> bit p i" for i unfolding bit_and_iff three_bits by blast
  show "(p OR col c) AND NOT 3 = p"
    by (rule bit_word_eqI, unfold bit_and_iff bit_or_iff bit_not_iff three_bits) (use b in \<open>auto simp: col_def bit_1_iff\<close>)
  show "(p OR col c) AND 1 = col c"
    by (rule bit_word_eqI) (use b [of 0] in \<open>auto simp: bit_simps col_def bit_1_iff intro!: gr0I\<close>)
  show "(p OR col c) OR 1 = p OR col True"
    by (rule bit_word_eqI) (auto simp: bit_simps col_def)
qed

lemma node_parts:
  assumes "node_at p \<or> p = 0"
  shows "(p OR col c) AND - 4 = p" "(p OR col c) AND 1 = col c" "(p OR col c) OR 1 = p OR col True"
  using assms pc_parts [of p c] by (auto simp: node_at_def)

lemma col_simps [simp]: "col c = 0 \<longleftrightarrow> \<not> c" "col True = 1" "col False = 0" "col c AND - 4 = 0" "col c AND 1 = col c"
  by (simp_all add: col_def)

lemma tree_at_cong:
  "(\<And>y. y \<in> set (inorder t) \<Longrightarrow> rb_parent_color h' y = rb_parent_color h y \<and> (\<forall>d. child d h' y = child d h y)) \<Longrightarrow> tree_at h' p a t = tree_at h p a t"
  by (induction t arbitrary: p a) auto

lemma tree_at_frame [frame_simps]:
  "x \<notin> set (inorder t) \<Longrightarrow> tree_at (set_child d x v h) p a t = tree_at h p a t"
  "x \<notin> set (inorder t) \<Longrightarrow> tree_at (rb_set_pc x w h) p a t = tree_at h p a t"
  "tree_at (h\<lparr>rb_node := v\<rparr>) p a t = tree_at h p a t"
  by (rule tree_at_cong; auto)+

lemma ctx_at_frame [frame_simps]:
  "x \<notin> set (addrs k) \<Longrightarrow> ctx_at (set_child d x v h) a k = ctx_at h a k"
  "x \<notin> set (addrs k) \<Longrightarrow> ctx_at (rb_set_pc x w h) a k = ctx_at h a k"
  by (induction k arbitrary: a rule: addrs.induct) (auto simp: frame_simps)

lemma inorder_nd: "set (inorder (nd d c t x s)) = insert x (set (inorder t) \<union> set (inorder s))"
  "distinct (inorder (nd d c t x s)) \<longleftrightarrow> x \<notin> set (inorder t) \<and> x \<notin> set (inorder s) \<and> distinct (inorder t) \<and> distinct (inorder s) \<and> set (inorder t) \<inter> set (inorder s) = {}"
  by (cases d; auto simp: nd_def)+

lemma tree_at_nd: "tree_at h p a (nd d c t x s) \<longleftrightarrow> a = x \<and> node_at x \<and> rb_parent_color h x = p OR col c \<and>
     tree_at h x (child d h x) t \<and> tree_at h x (child (opp d) h x) s"
  by (cases d) (auto simp: nd_def)

lemma nd_exists: "t \<noteq> Lf \<Longrightarrow> \<exists>c l x r. t = nd d c l x r"
  by (cases t; cases d) (auto simp: nd_def)

lemma nd_simps [simp]: "nd d c t x s \<noteq> Lf" "is_red (nd d c t x s) \<longleftrightarrow> \<not> c" "blacken (nd d c t x s) = nd d True t x s" "root_of (nd d c t x s) = x"
  by (cases d; simp add: nd_def blacken_def)+

lemma blacken_simps [simp]: "blacken Lf = Lf" "inorder (blacken t) = inorder t" "(blacken t = Lf) = (t = Lf)" "\<not> is_red (blacken t)"
  by (cases t; simp add: blacken_def)+

lemma tree_at_root: "tree_at h p a t \<Longrightarrow> a = root_of t"
  by (cases t) auto

lemma tree_at_null: "tree_at h p a t \<Longrightarrow> a = 0 \<longleftrightarrow> t = Lf"
  by (cases t) (auto simp: node_at_def)

lemma tree_at_mem: "tree_at h p a t \<Longrightarrow> a \<noteq> 0 \<Longrightarrow> a \<in> set (inorder t)"
  by (cases t) auto

lemma tree_at_nodes: "tree_at h p a t \<Longrightarrow> y \<in> set (inorder t) \<Longrightarrow> node_at y"
  by (induction t arbitrary: p a) auto

lemma ctx_at_up: "ctx_at h a k \<Longrightarrow> node_at (up k) \<or> up k = 0"
  by (cases k rule: up.cases) auto

lemma up_mem: "up k = 0 \<or> up k \<in> set (addrs k)"
  by (cases k rule: up.cases) auto

lemma tree_at_red: "tree_at h p a t \<Longrightarrow> node_at p \<or> p = 0 \<Longrightarrow> t \<noteq> Lf \<Longrightarrow> rb_is_red h a \<longleftrightarrow> is_red t"
  by (cases t) (auto simp: rb_is_red_def rb_color_def node_parts)

lemma tree_at_parent: "tree_at h p a t \<Longrightarrow> node_at p \<or> p = 0 \<Longrightarrow> t \<noteq> Lf \<Longrightarrow> rb_parent h a = p"
  by (cases t) (auto simp: rb_parent_def node_parts)

lemma not_black [simp]: "\<not> rb_is_black h a \<longleftrightarrow> rb_is_red h a" "rb_is_black h a \<longleftrightarrow> \<not> rb_is_red h a"
  by (simp_all add: rb_is_black_def rb_is_red_def)

text \<open>Hanging a subtree under another parent.\<close>

lemma tree_at_reparent:
  assumes "tree_at h p a t" "distinct (inorder t)" "node_at q \<or> q = 0" "node_at p \<or> p = 0"
  shows "a \<noteq> 0 \<Longrightarrow> tree_at (rb_set_parent_color a q RB_BLACK h) q a (blacken t)"
    and "a \<noteq> 0 \<Longrightarrow> tree_at (rb_set_parent a q h) q a t"
  using assms
  by (cases t; auto simp: rb_set_parent_color_def rb_set_parent_def rb_color_def node_parts frame_simps blacken_def RB_BLACK_def or.commute)+

text \<open>The last step of a rotation.\<close>

lemma change_child_ctx:
  assumes "ctx_at h old k" "old \<noteq> 0" "old \<notin> set (addrs k)" "distinct (addrs k)"
  shows "ctx_at (rb_change_child old new (up k) h) new k"
proof (cases k)
  case (Cons f k')
  obtain d c x s where f: "f = Fr d c x s" by (cases f)
  have l: "d = RbR \<Longrightarrow> child RbL h x \<noteq> old"
    using assms Cons f tree_at_mem [of h x "child RbL h x" s] by auto
  have "rb_change_child old new (up k) h = set_child d x new h"
    using assms(1) Cons f l by (cases d) (auto simp: rb_change_child_def child_fields node_at_def)
  then show ?thesis using assms Cons f by (auto simp: frame_simps)
qed (simp add: rb_change_child_def)

lemma change_child_tree: "up k \<notin> set (inorder t) \<Longrightarrow> tree_at (rb_change_child old new (up k) h) p a t = tree_at h p a t"
  by (cases k rule: up.cases) (auto simp: rb_change_child_def frame_simps)

lemma change_child_simps [simp]: "rb_parent_color (rb_change_child old new p h) = rb_parent_color h"
  by (simp add: rb_change_child_def)

lemma zip_plug: "zip_at h a t k \<Longrightarrow> rbtree_at h (plug t k)"
proof (induction k arbitrary: a t)
  case (Cons f k)
  obtain d c x s where f: "f = Fr d c x s" by (cases f)
  have "zip_at h x (nd d c t x s) k" using Cons(2) unfolding f by (auto simp: zip_at_def tree_at_nd inorder_nd)
  from Cons(1) [OF this] show ?case by (simp add: f)
qed (auto simp: zip_at_def rbtree_at_def)

lemma inorder_plug: "inorder a = inorder b \<Longrightarrow> inorder (plug a k) = inorder (plug b k)"
proof (induction k arbitrary: a b)
  case (Cons f k)
  obtain d c x s where f: "f = Fr d c x s" by (cases f)
  show ?case unfolding f plug.simps by (rule Cons.IH) (use Cons.prems in \<open>cases d; simp add: nd_def\<close>)
qed simp

definition reblack :: "u64 \<Rightarrow> u64 \<Rightarrow> rb_heap \<Rightarrow> rb_heap" where
  "reblack a q h = (if a \<noteq> 0 then rb_set_parent_color a q RB_BLACK h else h)"

lemma set_parent_simps [simp]:
  "child e (rb_set_parent_color a p w h) = child e h" "rb_node (rb_set_parent_color a p w h) = rb_node h"
  "child e (rb_set_parent a p h) = child e h" "rb_node (rb_set_parent a p h) = rb_node h"
  by (simp_all add: rb_set_parent_color_def rb_set_parent_def)

lemma reblack_simps [simp]:
  "child d (reblack a q h) = child d h" "rb_node (reblack a q h) = rb_node h"
  "y \<noteq> a \<Longrightarrow> rb_parent_color (reblack a q h) y = rb_parent_color h y"
  by (simp_all add: reblack_def rb_set_parent_color_def)

lemma reblack_tree: "tree_at h p a t \<Longrightarrow> distinct (inorder t) \<Longrightarrow> node_at q \<Longrightarrow> node_at p \<or> p = 0 \<Longrightarrow> tree_at (reblack a q h) q a (blacken t)"
  using tree_at_reparent(1) [of h p a t q] tree_at_null [of h p a t] by (auto simp: reblack_def)

lemma reblack_frame [frame_simps]:
  "a \<notin> set (inorder t) \<Longrightarrow> tree_at (reblack a q h) p b t = tree_at h p b t"
  "a \<notin> set (addrs k) \<Longrightarrow> ctx_at (reblack a q h) b k = ctx_at h b k"
  by (simp_all add: reblack_def rb_set_parent_color_def frame_simps)

lemma zero_not_node: "tree_at h p a t \<Longrightarrow> 0 \<notin> set (inorder t)" "ctx_at h b k \<Longrightarrow> 0 \<notin> set (addrs k)"
proof -
  show t: "tree_at h p a t \<Longrightarrow> 0 \<notin> set (inorder t)" for h p a t
    using tree_at_nodes [of h p a t 0] by (auto simp: node_at_def)
  show "ctx_at h b k \<Longrightarrow> 0 \<notin> set (addrs k)"
    by (induction k arbitrary: b rule: addrs.induct) (use t in \<open>auto simp: node_at_def\<close>)
qed

text \<open>Nodes hanging at different places are different.\<close>

lemma tree_at_fresh: "tree_at h p a t \<Longrightarrow> set (inorder t) \<inter> A = {} \<Longrightarrow> 0 \<notin> A \<Longrightarrow> a \<notin> A"
  using tree_at_mem [of h p a t] by auto

lemma rotate_set_parents:
  assumes "ctx_at h old k" "rb_parent_color h old = up k OR col c" "node_at old" "old \<notin> set (addrs k)" "new \<notin> set (addrs k)" "distinct (addrs k)" "new \<noteq> old"
  shows "ctx_at (rb_rotate_set_parents old new w h) new k"
    and "rb_parent_color (rb_rotate_set_parents old new w h) y = (if y = old then new OR w else if y = new then up k OR col c else rb_parent_color h y)"
    and "y \<notin> set (addrs k) \<Longrightarrow> node_at y \<Longrightarrow> child d (rb_rotate_set_parents old new w h) y = child d h y"
    and "set (inorder t) \<inter> set (addrs k) = {} \<Longrightarrow> new \<notin> set (inorder t) \<Longrightarrow> old \<notin> set (inorder t) \<Longrightarrow> 0 \<notin> set (inorder t) \<Longrightarrow>
      tree_at (rb_rotate_set_parents old new w h) p a t = tree_at h p a t"
proof -
  let ?h = "rb_set_parent_color old new w (rb_set_pc new (rb_parent_color h old) h)"
  have p: "rb_parent h old = up k" using assms(2) ctx_at_up [OF assms(1)] by (simp add: rb_parent_def node_parts)
  have e: "rb_rotate_set_parents old new w h = rb_change_child old new (up k) ?h" by (simp add: rb_rotate_set_parents_def Let_def p)
  have "ctx_at ?h old k" using assms by (simp add: rb_set_parent_color_def frame_simps)
  from change_child_ctx [OF this] assms show "ctx_at (rb_rotate_set_parents old new w h) new k" unfolding e by (auto simp: node_at_def)
  show "rb_parent_color (rb_rotate_set_parents old new w h) y = (if y = old then new OR w else if y = new then up k OR col c else rb_parent_color h y)"
    unfolding e using assms by (simp add: rb_set_parent_color_def)
  show "y \<notin> set (addrs k) \<Longrightarrow> node_at y \<Longrightarrow> child d (rb_rotate_set_parents old new w h) y = child d h y"
    unfolding e using up_mem [of k] by (auto simp: rb_change_child_def rb_set_parent_color_def node_at_def)
  show "set (inorder t) \<inter> set (addrs k) = {} \<Longrightarrow> new \<notin> set (inorder t) \<Longrightarrow> old \<notin> set (inorder t) \<Longrightarrow> 0 \<notin> set (inorder t) \<Longrightarrow>
      tree_at (rb_rotate_set_parents old new w h) p a t = tree_at h p a t"
    unfolding e using up_mem [of k] by (subst change_child_tree) (auto simp: rb_set_parent_color_def frame_simps)
qed

lemma insert_rotate_outer:
  assumes z: "zip_at h n t (Fr d False P ps # Fr d cg G u # k)" and t: "t \<noteq> Lf"
  shows "zip_at (insert_rotate d n P G h) P (nd d cg t P (nd d False (blacken ps) G u)) k"
proof -
  let ?tmp = "child (opp d) h P"
  let ?h = "reblack ?tmp G (set_child (opp d) P G (set_child d G ?tmp h))"
  define H where "H = rb_rotate_set_parents G P RB_RED ?h"
  note Z = z [simplified zip_at_def, simplified, simplified Int_Un_distrib, simplified]
  have nP: "n \<noteq> ?tmp" using Z t tree_at_mem [of h P ?tmp ps] tree_at_mem [of h P n t] tree_at_null [of h P n t] by auto
  have z0: "0 \<notin> set (inorder t)" "0 \<notin> set (inorder ps)" "0 \<notin> set (inorder u)" "0 \<notin> set (addrs k)" using Z by - (elim conjE; erule zero_not_node)+
  have "?tmp \<notin> set (addrs k) \<union> set (inorder t) \<union> set (inorder u) \<union> {P, G}"
    by (rule tree_at_fresh [of h P _ ps]) (use Z z0 in \<open>auto simp: node_at_def\<close>)
  then have f: "?tmp \<notin> set (addrs k)" "?tmp \<notin> set (inorder t)" "?tmp \<notin> set (inorder u)" "?tmp \<noteq> P" "?tmp \<noteq> G" by auto
  have ct: "ctx_at ?h G k" "rb_parent_color ?h G = up k OR col cg" "node_at G" "G \<notin> set (addrs k)" "P \<notin> set (addrs k)" "distinct (addrs k)" "P \<noteq> G"
    using Z f by - (elim conjE; simp add: frame_simps)+
  note R = rotate_set_parents [OF ct, where w = RB_RED, folded H_def]
  have b: "tree_at ?h G ?tmp (blacken ps)" by (rule reblack_tree [where p = P]) (use Z in \<open>elim conjE; simp add: frame_simps\<close>)+
  have tr: "tree_at H P n t" "tree_at H G ?tmp (blacken ps)" "tree_at H G (child (opp d) h G) u"
    using Z f b z0 by - (elim conjE; simp add: R(4) frame_simps)+
  have ch: "child d H P = n" "child (opp d) H P = G" "child d H G = ?tmp" "child (opp d) H G = child (opp d) h G"
    using Z f by - (elim conjE; simp add: R(3))+
  have "zip_at H P (nd d cg t P (nd d False (blacken ps) G u)) k" unfolding zip_at_def tree_at_nd
    using Z R(1) tr ch by (elim conjE) (auto simp: R(2) inorder_nd RB_RED_def)
  then show ?thesis using nP by (simp add: insert_rotate_def Let_def reblack_def H_def)
qed

lemma insert_rotate_inner:
  assumes z: "zip_at h n (nd d ct a n b) (Fr (opp d) False P ps # Fr d cg G u # k)"
  shows "zip_at (insert_rotate d n P G h) n (nd d cg (nd d False ps P (blacken a)) n (nd d False (blacken b) G u)) k"
proof -
  let ?a = "child d h n" and ?b = "child (opp d) h n"
  let ?h4 = "rb_set_parent_color P n RB_RED (reblack ?a P (set_child d n P (set_child (opp d) P ?a h)))"
  let ?h = "reblack ?b G (set_child (opp d) n G (set_child d G ?b ?h4))"
  define H where "H = rb_rotate_set_parents G n RB_RED ?h"
  note Z = z [simplified zip_at_def, simplified, simplified tree_at_nd inorder_nd, simplified, simplified Int_Un_distrib Int_Un_distrib2, simplified]
  have z0: "0 \<notin> set (inorder a)" "0 \<notin> set (inorder b)" "0 \<notin> set (inorder ps)" "0 \<notin> set (inorder u)" "0 \<notin> set (addrs k)"
    using Z by - (elim conjE; erule zero_not_node)+
  have "?a \<notin> set (addrs k) \<union> set (inorder b) \<union> set (inorder ps) \<union> set (inorder u) \<union> {P, G, n}"
    by (rule tree_at_fresh [of h n _ a]) (use Z z0 in \<open>auto simp: node_at_def\<close>)
  then have f: "?a \<notin> set (addrs k)" "?a \<notin> set (inorder b)" "?a \<notin> set (inorder ps)" "?a \<notin> set (inorder u)" "?a \<noteq> P" "?a \<noteq> G" "?a \<noteq> n" by auto
  have "?b \<notin> set (addrs k) \<union> set (inorder a) \<union> set (inorder ps) \<union> set (inorder u) \<union> {P, G, n}"
    by (rule tree_at_fresh [of h n _ b]) (use Z z0 in \<open>auto simp: node_at_def\<close>)
  then have g: "?b \<notin> set (addrs k)" "?b \<notin> set (inorder a)" "?b \<notin> set (inorder ps)" "?b \<notin> set (inorder u)" "?b \<noteq> P" "?b \<noteq> G" "?b \<noteq> n" by auto
  have ct: "ctx_at ?h G k" "rb_parent_color ?h G = up k OR col cg" "node_at G" "G \<notin> set (addrs k)" "n \<notin> set (addrs k)" "distinct (addrs k)" "n \<noteq> G"
    using Z f g by - (elim conjE; simp add: frame_simps rb_set_parent_color_def)+
  note R = rotate_set_parents [OF ct, where w = RB_RED, folded H_def]
  have a: "tree_at ?h P ?a (blacken a)"
  proof -
    have "tree_at (reblack ?a P (set_child d n P (set_child (opp d) P ?a h))) P ?a (blacken a)"
      by (rule reblack_tree [where p = n]) (use Z f in \<open>elim conjE; simp add: frame_simps\<close>)+
    then show ?thesis using Z f g by - (elim conjE; simp add: frame_simps rb_set_parent_color_def)
  qed
  have b: "tree_at ?h G ?b (blacken b)"
    by (rule reblack_tree [where p = n]) (use Z f g in \<open>elim conjE; simp add: frame_simps rb_set_parent_color_def\<close>)+
  have tr: "tree_at H P (child d h P) ps" "tree_at H P ?a (blacken a)" "tree_at H G ?b (blacken b)" "tree_at H G (child (opp d) h G) u"
    using Z f g a b z0 by - (elim conjE; simp add: R(4) frame_simps rb_set_parent_color_def)+
  have ch: "child d H n = P" "child (opp d) H n = G" "child d H P = child d h P" "child (opp d) H P = ?a" "child d H G = ?b" "child (opp d) H G = child (opp d) h G"
    using Z f g by - (elim conjE; simp add: R(3) rb_set_parent_color_def)+
  have pc: "rb_parent_color ?h P = n" using Z f g by - (elim conjE; simp add: rb_set_parent_color_def RB_RED_def)
  have "zip_at H n (nd d cg (nd d False ps P (blacken a)) n (nd d False (blacken b) G u)) k" unfolding zip_at_def tree_at_nd
    using Z R(1) tr ch pc by (elim conjE) (auto simp: R(2) inorder_nd RB_RED_def)
  moreover have "insert_rotate d n P G h = H"
    using Z by - (elim conjE; simp add: insert_rotate_def Let_def reblack_def H_def)
  ultimately show ?thesis by simp
qed

end
