(* ===== verification/Rbtree_Insert.thy ===== *)
theory Rbtree_Insert
  imports Rbtree
begin

text \<open>
  The rebalancing of \<open>__rb_insert\<close>: \<open>ins_fix\<close> is its reference on trees, \<open>insert_loop_ok\<close> shows that the loop on the
  heap ends and follows it, and \<open>ins_fix_ok\<close> that it restores the colours and keeps the order.
\<close>

lemma insert_flip_ok:
  assumes z: "zip_at h n t (Fr d' False P ps # Fr e cg G u # k)" and u: "u \<noteq> Lf"
  shows "zip_at (insert_flip (child (opp e) h G) P G h) G (nd e False (nd d' True t P ps) G (blacken u)) k"
proof -
  let ?u = "child (opp e) h G"
  note Z = z [simplified zip_at_def, simplified, simplified Int_Un_distrib, simplified]
  have z0: "0 \<notin> set (inorder t)" "0 \<notin> set (inorder ps)" "0 \<notin> set (inorder u)" "0 \<notin> set (addrs k)" using Z by - (elim conjE; erule zero_not_node)+
  have "?u \<notin> set (addrs k) \<union> set (inorder t) \<union> set (inorder ps) \<union> {P, G}"
    by (rule tree_at_fresh [of h G _ u]) (use Z z0 in \<open>auto simp: node_at_def\<close>)
  then have f: "?u \<notin> set (addrs k)" "?u \<notin> set (inorder t)" "?u \<notin> set (inorder ps)" "?u \<noteq> P" "?u \<noteq> G" by auto
  let ?h = "rb_set_parent_color P G RB_BLACK (rb_set_parent_color ?u G RB_BLACK h)"
  have p: "rb_parent ?h G = up k" using Z f ctx_at_up [of h G k] by - (elim conjE; simp add: rb_parent_def rb_set_parent_color_def node_parts)
  have b: "tree_at (rb_set_parent_color ?u G RB_BLACK h) G ?u (blacken u)"
    by (rule tree_at_reparent(1) [where p = G]) (use Z u tree_at_null [of h G ?u u] in auto)
  have "zip_at (rb_set_parent_color G (up k) RB_RED ?h) G (nd e False (nd d' True t P ps) G (blacken u)) k"
    unfolding zip_at_def tree_at_nd using Z f b by (elim conjE) (auto simp: rb_set_parent_color_def frame_simps inorder_nd RB_RED_def RB_BLACK_def)
  then show ?thesis by (simp add: insert_flip_def Let_def p)
qed

fun sub :: "rb_side \<Rightarrow> rb_tree \<Rightarrow> rb_tree" where
  "sub d Lf = Lf"
| "sub RbL (Nd c l x r) = l"
| "sub RbR (Nd c l x r) = r"

lemma sub_nd [simp]: "sub d (nd d c t x s) = t" "sub (opp d) (nd d c t x s) = s"
  by (cases d; simp add: nd_def)+

text \<open>The rebalancing of an insertion on trees.\<close>

fun ins_fix :: "rb_tree \<Rightarrow> rb_frame list \<Rightarrow> rb_tree" where
  "ins_fix t [] = blacken t"
| "ins_fix t [f] = plug t [f]"
| "ins_fix t (Fr d c P ps # Fr e cg G u # k) =
     (if c then plug t (Fr d c P ps # Fr e cg G u # k)
      else if is_red u then ins_fix (nd e False (nd d True t P ps) G (blacken u)) k
      else if d = e then plug (nd e cg t P (nd e False (blacken ps) G u)) k
      else plug (nd e cg (nd e False ps P (blacken (sub e t))) (root_of t) (nd e False (blacken (sub (opp e) t)) G u)) k)"

fun top_black :: "rb_frame list \<Rightarrow> bool" where
  "top_black [] = True"
| "top_black [Fr d c x s] = c"
| "top_black (f # g # k) = top_black (g # k)"

lemma frame_black: "ctx_at h a (Fr d c x s # k) \<Longrightarrow> rb_is_red h x \<longleftrightarrow> \<not> c"
  using ctx_at_up [of h x k] by (auto simp: rb_is_red_def rb_color_def node_parts)

lemma zip_frame: "zip_at h n t (Fr d c P ps # k) \<Longrightarrow> (rb_is_red h P \<longleftrightarrow> \<not> c) \<and> P \<noteq> 0"
  unfolding zip_at_def using frame_black [of h n d c P ps k] by (auto simp: node_at_def)

lemma side_of:
  assumes "zip_at h n t (Fr e c P s # k)" "t \<noteq> Lf \<or> s \<noteq> Lf"
  shows "(if n \<noteq> rb_right h P then RbL else RbR) = e"
proof (cases e)
  case RbL
  then show ?thesis using assms tree_at_mem [of h P n t] tree_at_mem [of h P "child RbR h P" s] tree_at_null [of h P n t] tree_at_null [of h P "child RbR h P" s]
    by (auto simp: zip_at_def child_fields)
qed (use assms in \<open>auto simp: zip_at_def child_fields\<close>)

lemma zip_up: "zip_at h n t (Fr d c P ps # k) \<Longrightarrow> zip_at h P (nd d c t P ps) k"
  by (auto simp: zip_at_def tree_at_nd inorder_nd)

lemma insert_loop_ok:
  "zip_at h n t k \<Longrightarrow> t \<noteq> Lf \<Longrightarrow> top_black k \<Longrightarrow> \<exists>h'. insert_loop n (up k) h = Some (Inr h') \<and> rbtree_at h' (ins_fix t k)"
proof (induction t k arbitrary: h n rule: ins_fix.induct)
  case (1 t)
  have "tree_at (rb_set_parent_color n 0 RB_BLACK h) 0 n (blacken t)"
    by (rule tree_at_reparent(1) [where p = 0]) (use 1 tree_at_null [of h 0 n t] in \<open>auto simp: zip_at_def\<close>)
  then show ?case using 1 by (simp add: insert_loop.simps zip_at_def rbtree_at_def)
next
  case (2 t f)
  obtain d c x s where f: "f = Fr d c x s" by (cases f)
  from 2 f have "\<not> rb_is_red h x" "x \<noteq> 0" using zip_frame [of h n t d c x s "[]"] by auto
  then show ?case using zip_plug [OF 2(1)] f by (simp add: insert_loop.simps)
next
  case (3 t d c P ps e cg G u k)
  let ?k = "Fr d c P ps # Fr e cg G u # k"
  have P: "rb_is_red h P \<longleftrightarrow> \<not> c" "P \<noteq> 0" "G \<noteq> 0" using zip_frame [OF 3(2)] zip_frame [OF zip_up [OF 3(2)]] by auto
  show ?case
  proof (cases c)
    case True
    then show ?thesis using P zip_plug [OF 3(2)] by (simp add: insert_loop.simps)
  next
    case False
    have zF: "zip_at h n t (Fr d False P ps # Fr e cg G u # k)" using 3(2) False by simp
    have gp: "rb_red_parent h P = G" using 3(2) False by (simp add: zip_at_def rb_red_parent_def)
    have e: "(if P \<noteq> rb_right h G then RbL else RbR) = e" by (rule side_of [OF zip_up [OF 3(2)]]) simp
    let ?u = "child (opp e) h G"
    have u: "?u \<noteq> 0 \<and> rb_is_red h ?u \<longleftrightarrow> is_red u"
      using 3(2) tree_at_red [of h G ?u u] tree_at_null [of h G ?u u] by (cases u) (auto simp: zip_at_def)
    have loop: "insert_loop n (up ?k) h = (if is_red u then let h = insert_flip ?u P G h in insert_loop G (rb_parent h G) h else Some (Inr (insert_rotate e n P G h)))"
      unfolding insert_loop.simps [of n] up.simps using P False u by (simp add: gp e Let_def)
    show ?thesis
    proof (cases "is_red u")
      case True
      then have nu: "u \<noteq> Lf" by auto
      let ?t = "nd e False (nd d True t P ps) G (blacken u)"
      note z = insert_flip_ok [OF zF nu]
      have tb: "top_black k" using 3(4) by (cases k) (auto elim: top_black.elims)
      have p: "rb_parent (insert_flip ?u P G h) G = up k"
        using z ctx_at_up [of _ G k] by (auto simp: zip_at_def intro!: tree_at_parent)
      show ?thesis using 3(1) [OF _ True z _ tb] False True loop p by (simp add: Let_def)
    next
      case nr: False
      show ?thesis
      proof (cases "d = e")
        case True
        then show ?thesis using zip_plug [OF insert_rotate_outer [OF zF [unfolded True] 3(3)]] nr False loop by simp
      next
        case de: False
        then have d: "d = opp e" by simp
        obtain ct a x b where t: "t = nd e ct a x b" using nd_exists [OF 3(3)] by blast
        have x: "x = n" using 3(2) unfolding t by (simp add: zip_at_def tree_at_nd)
        then show ?thesis using zip_plug [OF insert_rotate_inner [OF zF [unfolded d t x]]] nr False de loop t by simp
      qed
    qed
  qed
qed

subsection \<open>The red-black invariant\<close>

fun bheight :: "rb_tree \<Rightarrow> nat" where
  "bheight Lf = 0"
| "bheight (Nd c l x r) = bheight l + (if c then 1 else 0)"

fun invh :: "rb_tree \<Rightarrow> bool" where
  "invh Lf = True"
| "invh (Nd c l x r) \<longleftrightarrow> bheight l = bheight r \<and> invh l \<and> invh r"

fun invc :: "rb_tree \<Rightarrow> bool" where
  "invc Lf = True"
| "invc (Nd c l x r) \<longleftrightarrow> (c \<or> \<not> is_red l \<and> \<not> is_red r) \<and> invc l \<and> invc r"

definition rb_ok :: "rb_tree \<Rightarrow> bool" where
  "rb_ok t \<longleftrightarrow> invh t \<and> invc t \<and> \<not> is_red t"

lemma nd_inv [simp]:
  "invh (nd d c t x s) \<longleftrightarrow> bheight t = bheight s \<and> invh t \<and> invh s"
  "invc (nd d c t x s) \<longleftrightarrow> (c \<or> \<not> is_red t \<and> \<not> is_red s) \<and> invc t \<and> invc s"
  "bheight t = bheight s \<Longrightarrow> bheight (nd d c t x s) = bheight s + (if c then 1 else 0)"
  by (cases d; auto simp: nd_def)+

lemma blacken_black [simp]: "\<not> is_red t \<Longrightarrow> blacken t = t"
  by (cases t) (auto simp: blacken_def)

lemma blacken_inv: "invh t \<Longrightarrow> invh (blacken t)" "invc t \<Longrightarrow> invc (blacken t)" "is_red t \<Longrightarrow> bheight (blacken t) = bheight t + 1"
  by (cases t; simp add: blacken_def)+

fun red_top :: "rb_frame list \<Rightarrow> bool" where
  "red_top [] = False"
| "red_top (Fr d c x s # k) = (\<not> c)"

text \<open>A way up that a subtree of black height \<open>n\<close> completes to a red-black tree.\<close>

fun ctx_ok :: "nat \<Rightarrow> rb_frame list \<Rightarrow> bool" where
  "ctx_ok n [] = True"
| "ctx_ok n (Fr d c x s # k) \<longleftrightarrow> invh s \<and> invc s \<and> bheight s = n \<and> (c \<or> \<not> is_red s \<and> k \<noteq> [] \<and> \<not> red_top k) \<and> ctx_ok (n + (if c then 1 else 0)) k"

lemma rb_ok_plug:
  "rb_ok (plug t k) \<longleftrightarrow> invh t \<and> invc t \<and> ctx_ok (bheight t) k \<and> (red_top k \<or> k = [] \<longrightarrow> \<not> is_red t)"
proof (induction k arbitrary: t)
  case (Cons f k)
  obtain d c x s where f: "f = Fr d c x s" by (cases f)
  show ?case unfolding f plug.simps Cons.IH by (cases "bheight t = bheight s") auto
qed (simp add: rb_ok_def)

lemma ctx_ok_top: "ctx_ok n k \<Longrightarrow> top_black k"
proof (induction k arbitrary: n rule: top_black.induct)
  case (3 f g k)
  then show ?case by (cases f) auto
qed auto

lemma inorder_nd_cong:
  "inorder (nd d c (nd d c1 t x s) y u) = inorder (nd d c2 t x (nd d c3 s y u))"
  "inorder (nd d c (nd (opp d) c1 (nd d c2 a z b) x s) y u) = inorder (nd d c3 (nd d c4 s x a) z (nd d c5 b y u))"
  "inorder t = inorder t' \<Longrightarrow> inorder s = inorder s' \<Longrightarrow> inorder (nd d c t x s) = inorder (nd d c' t' x s')"
  by (cases d; simp add: nd_def)+

lemma ins_fix_ok:
  "is_red t \<Longrightarrow> invh t \<Longrightarrow> invc t \<Longrightarrow> ctx_ok (bheight t) k \<Longrightarrow> rb_ok (ins_fix t k) \<and> inorder (ins_fix t k) = inorder (plug t k)"
proof (induction t k rule: ins_fix.induct)
  case (1 t)
  then show ?case by (simp add: rb_ok_def blacken_inv)
next
  case (2 t f)
  then show ?case by (cases f) (auto simp: rb_ok_def)
next
  case (3 t d c P ps e cg G u k)
  show ?case
  proof (cases c)
    case True
    then show ?thesis using 3 by (auto simp: rb_ok_plug simp del: plug.simps)
  next
    case c: False
    show ?thesis
    proof (cases "is_red u")
      case True
      let ?t = "nd e False (nd d True t P ps) G (blacken u)"
      have "rb_ok (ins_fix ?t k) \<and> inorder (ins_fix ?t k) = inorder (plug ?t k)"
        by (rule 3(1)) (use c True 3(3-) in \<open>auto simp: blacken_inv split: if_splits\<close>)
      moreover have "inorder (plug ?t k) = inorder (plug t (Fr d c P ps # Fr e cg G u # k))"
        unfolding plug.simps by (intro inorder_plug inorder_nd_cong) simp_all
      ultimately show ?thesis using c True by simp
    next
      case u: False
      have ps: "\<not> is_red ps" using 3(5) c by simp
      show ?thesis
      proof (cases "d = e")
        case True
        have "rb_ok (plug (nd e cg t P (nd e False ps G u)) k)" unfolding rb_ok_plug
          using 3(2-) c u True by (auto split: if_splits)
        moreover have "inorder (plug (nd e cg t P (nd e False ps G u)) k) = inorder (plug t (Fr d c P ps # Fr e cg G u # k))"
          unfolding plug.simps True by (intro inorder_plug inorder_nd_cong(1) [symmetric])
        ultimately show ?thesis using c u ps True by simp
      next
        case False
        then have d: "d = opp e" by simp
        obtain ct a x b where t: "t = nd e ct a x b" using nd_exists [of t e] 3(2) by (cases t) auto
        have ab: "\<not> is_red a" "\<not> is_red b" "\<not> ct" using 3(2,4) t by auto
        let ?t = "nd e cg (nd e False ps P a) x (nd e False b G u)"
        have "rb_ok (plug ?t k)" unfolding rb_ok_plug
          using 3(2-) c u t ab by (auto split: if_splits)
        moreover have "inorder (plug ?t k) = inorder (plug t (Fr d c P ps # Fr e cg G u # k))"
          unfolding plug.simps d t by (intro inorder_plug inorder_nd_cong(2) [symmetric])
        ultimately show ?thesis using c u False t ab by simp
      qed
    qed
  qed
qed

end
