(* ===== verification/Rbtree_Erase.thy ===== *)
theory Rbtree_Erase
  imports Rbtree_Insert
begin

text \<open>
  The removal: \<open>erase_only_child\<close> and \<open>erase_two_children\<close> follow \<open>__rb_erase_augmented\<close>, \<open>er_fix\<close> is the reference of
  \<open>____rb_erase_color\<close> on trees, \<open>erase_loop_ok\<close> shows that the loop on the heap ends and follows it, and
  \<open>er_fix_ok\<close> that it restores the colours and keeps the order.
\<close>

definition reparent :: "u64 \<Rightarrow> u64 \<Rightarrow> rb_heap \<Rightarrow> rb_heap" where
  "reparent a q h = (if a \<noteq> 0 then rb_set_parent a q h else h)"

lemma reparent_simps [simp]:
  "child d (reparent a q h) = child d h" "rb_node (reparent a q h) = rb_node h"
  "y \<noteq> a \<Longrightarrow> rb_parent_color (reparent a q h) y = rb_parent_color h y"
  by (simp_all add: reparent_def rb_set_parent_def)

lemma reparent_tree: "tree_at h p a t \<Longrightarrow> distinct (inorder t) \<Longrightarrow> node_at q \<Longrightarrow> node_at p \<or> p = 0 \<Longrightarrow> tree_at (reparent a q h) q a t"
  using tree_at_reparent(2) [of h p a t q] tree_at_null [of h p a t] by (auto simp: reparent_def)

lemma reparent_frame [frame_simps]:
  "a \<notin> set (inorder t) \<Longrightarrow> tree_at (reparent a q h) p b t = tree_at h p b t"
  "a \<notin> set (addrs k) \<Longrightarrow> ctx_at (reparent a q h) b k = ctx_at h b k"
  by (simp_all add: reparent_def rb_set_parent_def frame_simps)

lemma erase_red_sibling_ok:
  assumes z: "zip_at h n t (Fr d c P (nd d False near S far) # k)" and near: "near \<noteq> Lf"
  shows "\<exists>h'. erase_red_sibling d P S h = Inr (root_of near, h') \<and> zip_at h' n t (Fr d False P (blacken near) # Fr d c S far # k)"
proof -
  let ?a = "child d h S"
  let ?h = "reblack ?a P (set_child d S P (set_child (opp d) P ?a h))"
  define H where "H = rb_rotate_set_parents P S RB_RED ?h"
  note Z = z [simplified zip_at_def, simplified, simplified tree_at_nd inorder_nd, simplified, simplified Int_Un_distrib Int_Un_distrib2, simplified]
  have z0: "0 \<notin> set (inorder t)" "0 \<notin> set (inorder near)" "0 \<notin> set (inorder far)" "0 \<notin> set (addrs k)"
    using Z by - (elim conjE; erule zero_not_node)+
  have "?a \<notin> set (addrs k) \<union> set (inorder t) \<union> set (inorder far) \<union> {P, S}"
    by (rule tree_at_fresh [of h S _ near]) (use Z z0 in \<open>auto simp: node_at_def\<close>)
  then have f: "?a \<notin> set (addrs k)" "?a \<notin> set (inorder t)" "?a \<notin> set (inorder far)" "?a \<noteq> P" "?a \<noteq> S" by auto
  have a: "?a = root_of near" "?a \<noteq> 0" using Z near tree_at_root [of h S ?a near] tree_at_null [of h S ?a near] by auto
  have ct: "ctx_at ?h P k" "rb_parent_color ?h P = up k OR col c" "node_at P" "P \<notin> set (addrs k)" "S \<notin> set (addrs k)" "distinct (addrs k)" "S \<noteq> P"
    using Z f by - (elim conjE; simp add: frame_simps)+
  note R = rotate_set_parents [OF ct, where w = RB_RED, folded H_def]
  have b: "tree_at ?h P ?a (blacken near)" by (rule reblack_tree [where p = S]) (use Z f in \<open>elim conjE; simp add: frame_simps\<close>)+
  have tr: "tree_at H P n t" "tree_at H P ?a (blacken near)" "tree_at H S (child (opp d) h S) far"
    using Z f b z0 by - (elim conjE; simp add: R(4) frame_simps)+
  have ch: "child d H P = n" "child (opp d) H P = ?a" "child d H S = P" "child (opp d) H S = child (opp d) h S"
    using Z f by - (elim conjE; simp add: R(3))+
  have zH: "zip_at H n t (Fr d False P (blacken near) # Fr d c S far # k)" unfolding zip_at_def
    using Z R(1) tr ch by (elim conjE) (auto simp: R(2) RB_RED_def)
  have red: "rb_is_red h S" using z tree_at_red [of h P "child (opp d) h P" "nd d False near S far"] by (auto simp: zip_at_def tree_at_nd)
  show ?thesis using zH red a by (simp add: erase_red_sibling_def Let_def reblack_def H_def)
qed

lemma erase_flip_ok:
  assumes z: "zip_at h n t (Fr d c P (nd d cs near S far) # k)"
  shows "zip_at (rb_set_parent_color S P RB_RED h) n t (Fr d c P (nd d False near S far) # k)"
proof -
  note Z = z [simplified zip_at_def, simplified, simplified tree_at_nd inorder_nd, simplified]
  show ?thesis unfolding zip_at_def using Z by (elim conjE) (auto simp: rb_set_parent_color_def frame_simps tree_at_nd inorder_nd RB_RED_def)
qed

lemma erase_black_ok:
  assumes z: "zip_at h n t (Fr d c P s # k)"
  shows "zip_at (rb_set_black P h) n t (Fr d True P s # k)"
proof -
  note Z = z [simplified zip_at_def, simplified]
  show ?thesis unfolding zip_at_def using Z ctx_at_up [of h P k] by (elim conjE) (auto simp: rb_set_black_def frame_simps RB_BLACK_def node_parts)
qed

lemma erase_rotate_ok:
  assumes z: "zip_at h n t (Fr d c P (nd d cs near S far) # k)" and far: "far \<noteq> Lf"
  shows "zip_at (erase_rotate d P S (child (opp d) h S) h) S (nd d c (nd d True t P near) S (blacken far)) k"
proof -
  let ?a = "child d h S" and ?b = "child (opp d) h S"
  let ?h = "reparent ?a P (reblack ?b S (set_child d S P (set_child (opp d) P ?a h)))"
  define H where "H = rb_rotate_set_parents P S RB_BLACK ?h"
  note Z = z [simplified zip_at_def, simplified, simplified tree_at_nd inorder_nd, simplified, simplified Int_Un_distrib Int_Un_distrib2, simplified]
  have z0: "0 \<notin> set (inorder t)" "0 \<notin> set (inorder near)" "0 \<notin> set (inorder far)" "0 \<notin> set (addrs k)"
    using Z by - (elim conjE; erule zero_not_node)+
  have "?a \<notin> set (addrs k) \<union> set (inorder t) \<union> set (inorder far) \<union> {P, S}"
    by (rule tree_at_fresh [of h S _ near]) (use Z z0 in \<open>auto simp: node_at_def\<close>)
  then have f: "?a \<notin> set (addrs k)" "?a \<notin> set (inorder t)" "?a \<notin> set (inorder far)" "?a \<noteq> P" "?a \<noteq> S" by auto
  have "?b \<notin> set (addrs k) \<union> set (inorder t) \<union> set (inorder near) \<union> {P, S}"
    by (rule tree_at_fresh [of h S _ far]) (use Z z0 in \<open>auto simp: node_at_def\<close>)
  then have g: "?b \<notin> set (addrs k)" "?b \<notin> set (inorder t)" "?b \<notin> set (inorder near)" "?b \<noteq> P" "?b \<noteq> S" by auto
  have b0: "?b \<noteq> 0" using Z far tree_at_null [of h S ?b far] by auto
  have ct: "ctx_at ?h P k" "rb_parent_color ?h P = up k OR col c" "node_at P" "P \<notin> set (addrs k)" "S \<notin> set (addrs k)" "distinct (addrs k)" "S \<noteq> P"
    using Z f g by - (elim conjE; simp add: frame_simps)+
  note R = rotate_set_parents [OF ct, where w = RB_BLACK, folded H_def]
  have b: "tree_at ?h S ?b (blacken far)"
  proof -
    have "tree_at (reblack ?b S (set_child d S P (set_child (opp d) P ?a h))) S ?b (blacken far)"
      by (rule reblack_tree [where p = S]) (use Z f g in \<open>elim conjE; simp add: frame_simps\<close>)+
    then show ?thesis using f by (simp add: frame_simps)
  qed
  have a: "tree_at ?h P ?a near" by (rule reparent_tree [where p = S]) (use Z f g in \<open>elim conjE; simp add: frame_simps\<close>)+
  have tr: "tree_at H P n t" "tree_at H P ?a near" "tree_at H S ?b (blacken far)"
    using Z f g a b z0 by - (elim conjE; simp add: R(4) frame_simps)+
  have ch: "child d H P = n" "child (opp d) H P = ?a" "child d H S = P" "child (opp d) H S = ?b"
    using Z f g by - (elim conjE; simp add: R(3))+
  have zH: "zip_at H S (nd d c (nd d True t P near) S (blacken far)) k" unfolding zip_at_def tree_at_nd
    using Z R(1) tr ch by (elim conjE) (auto simp: R(2) inorder_nd RB_BLACK_def)
  then show ?thesis using b0 by (simp add: erase_rotate_def Let_def reblack_def reparent_def H_def)
qed

lemma erase_double_ok:
  assumes z: "zip_at h n t (Fr d c P (nd d cs (nd d cn a N b) S far) # k)"
  shows "zip_at (erase_rotate d P N S (erase_inner_rotate d P S N h)) N (nd d c (nd d True t P a) N (nd d True (blacken b) S far)) k"
proof -
  let ?a = "child d h N" and ?b = "child (opp d) h N"
  let ?h3 = "reblack ?b S (set_child (opp d) P N (set_child (opp d) N S (set_child d S ?b h)))"
  let ?h = "reparent ?a P (rb_set_parent_color S N RB_BLACK (set_child d N P (set_child (opp d) P ?a ?h3)))"
  define H where "H = rb_rotate_set_parents P N RB_BLACK ?h"
  note Z = z [simplified zip_at_def, simplified, simplified tree_at_nd inorder_nd, simplified, simplified Int_Un_distrib Int_Un_distrib2, simplified]
  have z0: "0 \<notin> set (inorder t)" "0 \<notin> set (inorder a)" "0 \<notin> set (inorder b)" "0 \<notin> set (inorder far)" "0 \<notin> set (addrs k)"
    using Z by - (elim conjE; erule zero_not_node)+
  have "?a \<notin> set (addrs k) \<union> set (inorder t) \<union> set (inorder b) \<union> set (inorder far) \<union> {P, S, N}"
    by (rule tree_at_fresh [of h N _ a]) (use Z z0 in \<open>auto simp: node_at_def\<close>)
  then have f: "?a \<notin> set (addrs k)" "?a \<notin> set (inorder t)" "?a \<notin> set (inorder b)" "?a \<notin> set (inorder far)" "?a \<noteq> P" "?a \<noteq> S" "?a \<noteq> N" by auto
  have "?b \<notin> set (addrs k) \<union> set (inorder t) \<union> set (inorder a) \<union> set (inorder far) \<union> {P, S, N}"
    by (rule tree_at_fresh [of h N _ b]) (use Z z0 in \<open>auto simp: node_at_def\<close>)
  then have g: "?b \<notin> set (addrs k)" "?b \<notin> set (inorder t)" "?b \<notin> set (inorder a)" "?b \<notin> set (inorder far)" "?b \<noteq> P" "?b \<noteq> S" "?b \<noteq> N" by auto
  have ct: "ctx_at ?h P k" "rb_parent_color ?h P = up k OR col c" "node_at P" "P \<notin> set (addrs k)" "N \<notin> set (addrs k)" "distinct (addrs k)" "N \<noteq> P"
    using Z f g by - (elim conjE; simp add: frame_simps rb_set_parent_color_def)+
  note R = rotate_set_parents [OF ct, where w = RB_BLACK, folded H_def]
  have b: "tree_at ?h S ?b (blacken b)"
  proof -
    have "tree_at ?h3 S ?b (blacken b)" by (rule reblack_tree [where p = N]) (use Z f g in \<open>elim conjE; simp add: frame_simps\<close>)+
    then show ?thesis using Z f g by - (elim conjE; simp add: frame_simps rb_set_parent_color_def)
  qed
  have a: "tree_at ?h P ?a a" by (rule reparent_tree [where p = N]) (use Z f g in \<open>elim conjE; simp add: frame_simps rb_set_parent_color_def\<close>)+
  have tr: "tree_at H P n t" "tree_at H P ?a a" "tree_at H S ?b (blacken b)" "tree_at H S (child (opp d) h S) far"
    using Z f g a b z0 by - (elim conjE; simp add: R(4) frame_simps rb_set_parent_color_def)+
  have ch: "child d H P = n" "child (opp d) H P = ?a" "child d H N = P" "child (opp d) H N = S" "child d H S = ?b" "child (opp d) H S = child (opp d) h S"
    using Z f g by - (elim conjE; simp add: R(3))+
  have pc: "rb_parent_color ?h S = N OR col True" using Z f g by - (elim conjE; simp add: rb_set_parent_color_def RB_BLACK_def)
  have zH: "zip_at H N (nd d c (nd d True t P a) N (nd d True (blacken b) S far)) k" unfolding zip_at_def tree_at_nd
    using Z R(1) tr ch pc by (elim conjE) (auto simp: R(2) inorder_nd RB_BLACK_def)
  moreover have "erase_inner_rotate d P S N h = ?h3" by (simp add: erase_inner_rotate_def Let_def reblack_def)
  moreover have "child d ?h3 N = ?a" using Z f g by - (elim conjE; simp)
  ultimately show ?thesis by (simp add: erase_rotate_def Let_def reparent_def H_def)
qed

definition redden :: "rb_tree \<Rightarrow> rb_tree" where
  "redden t = (case t of Lf \<Rightarrow> Lf | Nd c l x r \<Rightarrow> Nd False l x r)"

lemma redden_nd [simp]: "redden (nd d c t x s) = nd d False t x s"
  by (cases d) (simp_all add: redden_def nd_def)

text \<open>
  The rebalancing of a removal on trees: the cases that end it, for a black sibling \<open>s\<close>, and the loop.
\<close>

definition er_end :: "rb_side \<Rightarrow> bool \<Rightarrow> u64 \<Rightarrow> rb_tree \<Rightarrow> rb_tree \<Rightarrow> rb_frame list \<Rightarrow> rb_tree" where
  "er_end d c P s t k =
     (let near = sub d s; S = root_of s; far = sub (opp d) s in
      if is_red far then plug (nd d c (nd d True t P near) S (blacken far)) k
      else if is_red near then
        plug (nd d c (nd d True t P (sub d near)) (root_of near) (nd d True (blacken (sub (opp d) near)) S far)) k
      else plug (nd d True t P (redden s)) k)"

fun er_fix :: "rb_tree \<Rightarrow> rb_frame list \<Rightarrow> rb_tree" where
  "er_fix t [] = t"
| "er_fix t (Fr d c P s # k) =
     (if is_red s then er_end d False P (blacken (sub d s)) t (Fr d c (root_of s) (sub (opp d) s) # k)
      else if c \<and> \<not> is_red (sub d s) \<and> \<not> is_red (sub (opp d) s) then er_fix (nd d True t P (redden s)) k
      else er_end d c P s t k)"

definition sib_ok :: "rb_frame \<Rightarrow> bool" where
  "sib_ok f = (case f of Fr d c P s \<Rightarrow> s \<noteq> Lf \<and> (is_red s \<longrightarrow> sub d s \<noteq> Lf))"

text \<open>What the loop does behind case 1.\<close>

definition erase_rest :: "rb_side \<Rightarrow> u64 \<Rightarrow> u64 \<Rightarrow> rb_heap \<Rightarrow> rb_heap c_result option" where
  "erase_rest d parent sibling h =
     (let tmp1 = child (opp d) h sibling in
      if tmp1 = 0 \<or> rb_is_black h tmp1 then
        let tmp2 = child d h sibling in
        if tmp2 = 0 \<or> rb_is_black h tmp2 then
          let h = rb_set_parent_color sibling parent RB_RED h in
          if rb_is_red h parent then Some (Inr (rb_set_black parent h))
          else if rb_parent h parent \<noteq> 0 then erase_loop parent (rb_parent h parent) h
          else Some (Inr h)
        else Some (Inr (erase_rotate d parent tmp2 sibling (erase_inner_rotate d parent sibling tmp2 h)))
      else Some (Inr (erase_rotate d parent sibling tmp1 h)))"

lemma erase_loop_rest:
  "erase_loop node parent h =
     (if parent = 0 then Some (Inl Null_Deref)
      else let d = (if node \<noteq> rb_right h parent then RbL else RbR); sibling = child (opp d) h parent in
        if sibling = 0 then Some (Inl Null_Deref)
        else case erase_red_sibling d parent sibling h of
          Inl e \<Rightarrow> Some (Inl e) | Inr (sibling, h) \<Rightarrow> erase_rest d parent sibling h)"
  unfolding erase_loop.simps [of node parent h] erase_rest_def ..

lemma nephew_red: "tree_at h S a t \<Longrightarrow> node_at S \<Longrightarrow> (a = 0 \<or> rb_is_black h a) \<longleftrightarrow> \<not> is_red t"
  using tree_at_red [of h S a t] tree_at_null [of h S a t] by (cases t) auto

lemma erase_rest_ok:
  assumes z: "zip_at h n t (Fr d c P s # k)" and s: "s \<noteq> Lf"
    and loop: "\<And>h'. c \<Longrightarrow> \<not> is_red (sub d s) \<Longrightarrow> \<not> is_red (sub (opp d) s) \<Longrightarrow> zip_at h' P (nd d True t P (redden s)) k \<Longrightarrow> k \<noteq> [] \<Longrightarrow>
      \<exists>h''. erase_loop P (up k) h' = Some (Inr h'') \<and> rbtree_at h'' (er_fix (nd d True t P (redden s)) k)"
  shows "\<exists>h'. erase_rest d P (root_of s) h = Some (Inr h') \<and>
    rbtree_at h' (if c \<and> \<not> is_red (sub d s) \<and> \<not> is_red (sub (opp d) s) then er_fix (nd d True t P (redden s)) k else er_end d c P s t k)"
proof -
  obtain cs near S far where nd: "s = nd d cs near S far" using nd_exists [OF s] by blast
  have ts: "tree_at h S (child d h S) near" "tree_at h S (child (opp d) h S) far" "node_at S"
    using z unfolding nd by (auto simp: zip_at_def tree_at_nd)
  note fr = nephew_red [OF ts(2,3)] and nr = nephew_red [OF ts(1,3)]
  show ?thesis
  proof (cases "is_red far")
    case True
    then have "far \<noteq> Lf" by auto
    from zip_plug [OF erase_rotate_ok [OF z [unfolded nd] this]] show ?thesis
      using True fr nd by (simp add: erase_rest_def er_end_def Let_def)
  next
    case far: False
    show ?thesis
    proof (cases "is_red near")
      case True
      then obtain cn a N b where near: "near = nd d cn a N b" using nd_exists [of near d] by (cases near) auto
      have N: "child d h S = N" using ts(1) unfolding near by (simp add: tree_at_nd)
      from zip_plug [OF erase_double_ok [OF z [unfolded nd near]]] show ?thesis
        using True far fr nr nd near N by (simp add: erase_rest_def er_end_def Let_def)
    next
      case near: False
      let ?h = "rb_set_parent_color S P RB_RED h"
      note zf = erase_flip_ok [OF z [unfolded nd]]
      have c: "rb_is_red ?h P \<longleftrightarrow> \<not> c" "P \<noteq> 0" using zip_frame [OF zf] by auto
      have p: "rb_parent ?h P = up k" using zip_up [OF zf] ctx_at_up [of ?h P k] by (intro tree_at_parent) (auto simp: zip_at_def)
      have e: "erase_rest d P S h = (if \<not> c then Some (Inr (rb_set_black P ?h)) else if up k \<noteq> 0 then erase_loop P (up k) ?h else Some (Inr ?h))"
        using fr nr near far c p by (simp add: erase_rest_def Let_def)
      show ?thesis
      proof (cases c)
        case True
        have k0: "up k = 0 \<longleftrightarrow> k = []" using zip_up [OF zf] by (cases k rule: up.cases) (auto simp: zip_at_def node_at_def)
        show ?thesis
        proof (cases "k = []")
          case True
          then show ?thesis using e \<open>c\<close> k0 zip_plug [OF zip_up [OF zf]] near far nd by simp
        next
          case False
          have "zip_at ?h P (nd d True t P (redden s)) k" using zip_up [OF zf] \<open>c\<close> nd by simp
          then show ?thesis using loop [of ?h] e \<open>c\<close> k0 near far nd False by simp
        qed
      next
        case False
        then show ?thesis using e zip_plug [OF erase_black_ok [OF zf]] near far nd by (simp add: er_end_def Let_def)
      qed
    qed
  qed
qed

lemma erase_loop_ok:
  "zip_at h n t k \<Longrightarrow> list_all sib_ok k \<Longrightarrow> k \<noteq> [] \<Longrightarrow> \<exists>h'. erase_loop n (up k) h = Some (Inr h') \<and> rbtree_at h' (er_fix t k)"
proof (induction t k arbitrary: h n rule: er_fix.induct)
  case (2 t d c P s k)
  have s: "s \<noteq> Lf" "is_red s \<longrightarrow> sub d s \<noteq> Lf" using 2(3) by (simp_all add: sib_ok_def)
  have P: "P \<noteq> 0" using zip_frame [OF 2(2)] by simp
  have S: "child (opp d) h P = root_of s" "root_of s \<noteq> 0"
    using 2(2) s(1) tree_at_root [of h P "child (opp d) h P" s] tree_at_null [of h P "child (opp d) h P" s] by (auto simp: zip_at_def)
  have e: "erase_loop n P h = (case erase_red_sibling d P (root_of s) h of Inl e \<Rightarrow> Some (Inl e) | Inr (sibling, h) \<Rightarrow> erase_rest d P sibling h)"
    unfolding erase_loop_rest [of n] side_of [OF 2(2) disjI2 [OF s(1)]] Let_def using P S by simp
  show ?case
  proof (cases "is_red s")
    case True
    obtain cs near S far where nd: "s = nd d cs near S far" using nd_exists [OF s(1)] by blast
    have near: "near \<noteq> Lf" "\<not> cs" using s(2) True nd by auto
    from erase_red_sibling_ok [of h n t d c P near S far k] 2(2) near nd
    obtain h' where h': "erase_red_sibling d P S h = Inr (root_of near, h')" "zip_at h' n t (Fr d False P (blacken near) # Fr d c S far # k)" by auto
    have "root_of (blacken near) = root_of near" by (cases near) (simp_all add: blacken_def)
    with erase_rest_ok [OF h'(2)] near(1)
    have "\<exists>h''. erase_rest d P (root_of near) h' = Some (Inr h'') \<and> rbtree_at h'' (er_end d False P (blacken near) t (Fr d c S far # k))" by simp
    then show ?thesis using e h'(1) True nd by simp
  next
    case False
    have "erase_red_sibling d P (root_of s) h = Inr (root_of s, h)"
      using False tree_at_red [of h P "child (opp d) h P" s] 2(2) s(1) S by (auto simp: erase_red_sibling_def zip_at_def)
    moreover have "\<exists>h'. erase_rest d P (root_of s) h = Some (Inr h') \<and>
      rbtree_at h' (if c \<and> \<not> is_red (sub d s) \<and> \<not> is_red (sub (opp d) s) then er_fix (nd d True t P (redden s)) k else er_end d c P s t k)"
      by (rule erase_rest_ok [OF 2(2) s(1)]) (use 2(1,3) False in auto)
    ultimately show ?thesis using e False by simp
  qed
qed simp

text \<open>Part of a way up: from \<open>a\<close> through the frames to \<open>b\<close>, which hangs under \<open>p\<close>.\<close>

fun seg_at :: "rb_heap \<Rightarrow> u64 \<Rightarrow> rb_frame list \<Rightarrow> u64 \<Rightarrow> u64 \<Rightarrow> bool" where
  "seg_at h a [] p b \<longleftrightarrow> a = b"
| "seg_at h a (Fr d c x s # ks) p b \<longleftrightarrow> node_at x \<and> child d h x = a \<and> tree_at h x (child (opp d) h x) s \<and>
     rb_parent_color h x = (if ks = [] then p else up ks) OR col c \<and> seg_at h x ks p b"

lemma up_append: "up (ks @ k) = (if ks = [] then up k else up ks)"
  by (cases ks rule: up.cases) auto

lemma addrs_append [simp]: "addrs (ks @ k) = addrs ks @ addrs k"
  by (induction ks rule: addrs.induct) auto

lemma ctx_at_append: "ctx_at h a (ks @ k) \<longleftrightarrow> (\<exists>b. seg_at h a ks (up k) b \<and> ctx_at h b k)"
  by (induction ks arbitrary: a rule: addrs.induct) (auto simp: up_append)

lemma seg_at_cong:
  "(\<And>y. y \<in> set (addrs ks) \<Longrightarrow> rb_parent_color h' y = rb_parent_color h y \<and> (\<forall>d. child d h' y = child d h y)) \<Longrightarrow> seg_at h' a ks p b = seg_at h a ks p b"
proof (induction ks arbitrary: a rule: addrs.induct)
  case (2 d c x s k)
  have "tree_at h' x (child (opp d) h x) s = tree_at h x (child (opp d) h x) s" by (rule tree_at_cong) (use 2(2) in auto)
  then show ?case using 2 by simp
qed simp

lemma seg_at_frame [frame_simps]:
  "x \<notin> set (addrs k) \<Longrightarrow> seg_at (set_child d x v h) a k p b = seg_at h a k p b"
  "x \<notin> set (addrs k) \<Longrightarrow> seg_at (rb_set_pc x w h) a k p b = seg_at h a k p b"
  "x \<notin> set (addrs k) \<Longrightarrow> seg_at (reblack x q h) a k p b = seg_at h a k p b"
  "x \<notin> set (addrs k) \<Longrightarrow> seg_at (rb_set_parent x q h) a k p b = seg_at h a k p b"
  "up k' \<notin> set (addrs k) \<Longrightarrow> seg_at (rb_change_child old new (up k') h) a k p b = seg_at h a k p b"
  by (rule seg_at_cong; auto simp: reblack_def rb_set_parent_color_def rb_set_parent_def rb_change_child_def)+

lemma set_parent_frame [frame_simps]:
  "a \<notin> set (inorder t) \<Longrightarrow> tree_at (rb_set_parent a q h) p b t = tree_at h p b t"
  "a \<notin> set (addrs k) \<Longrightarrow> ctx_at (rb_set_parent a q h) b k = ctx_at h b k"
  by (simp_all add: rb_set_parent_def frame_simps)

text \<open>A way up along left children whose lowest child and upper parent change.\<close>

lemma all_side: "(\<forall>d. P d) \<longleftrightarrow> P RbL \<and> P RbR"
  by (auto intro: rb_side.induct)

lemma tree_at_same:
  "(\<And>z. z \<in> set (inorder t) \<Longrightarrow> rb_parent_color H z = rb_parent_color h z \<and> child RbL H z = child RbL h z \<and> child RbR H z = child RbR h z) \<Longrightarrow>
    tree_at H p a t = tree_at h p a t"
  by (rule tree_at_cong) (simp add: all_side)

lemma seg_end: "seg_at h a ks p b \<Longrightarrow> ks \<noteq> [] \<Longrightarrow> b \<in> set (addrs ks)"
proof (induction ks arbitrary: a)
  case (Cons f ks)
  then show ?case by (cases f; cases ks) auto
qed simp

definition left_only :: "rb_frame list \<Rightarrow> bool" where
  "left_only ks = list_all (\<lambda>f. case f of Fr d c x s \<Rightarrow> d = RbL) ks"

lemma seg_at_move:
  assumes "seg_at h a ks p b" "ks \<noteq> []" "left_only ks" "distinct (addrs ks)"
    "child RbL H (up ks) = a'" "\<And>c. rb_parent_color h b = p OR col c \<Longrightarrow> rb_parent_color H b = q OR col c"
    "\<And>z. z \<in> set (addrs ks) \<Longrightarrow> z \<noteq> up ks \<Longrightarrow> child RbL H z = child RbL h z"
    "\<And>z. z \<in> set (addrs ks) \<Longrightarrow> child RbR H z = child RbR h z"
    "\<And>z. z \<in> set (addrs ks) \<Longrightarrow> z \<noteq> b \<Longrightarrow> rb_parent_color H z = rb_parent_color h z"
  shows "seg_at H a' ks q b"
  using assms
proof (induction ks arbitrary: a a')
  case (Cons f ks)
  obtain c x s where f: "f = Fr RbL c x s" using Cons(4) by (cases f) (auto simp: left_only_def)
  have D: "x \<notin> set (inorder s)" "x \<notin> set (addrs ks)" "set (inorder s) \<inter> set (addrs ks) = {}" "distinct (addrs ks)"
    and A: "node_at x" "tree_at h x (child RbR h x) s" "rb_parent_color h x = (if ks = [] then p else up ks) OR col c" "seg_at h x ks p b" "child RbL H x = a'"
    and lo: "left_only ks"
    using Cons(2,4-6) by (auto simp: f left_only_def)
  have b: "b \<notin> set (inorder s)" "ks \<noteq> [] \<Longrightarrow> b \<noteq> x" "ks = [] \<Longrightarrow> b = x" using A(4) D seg_end [OF A(4)] by (cases "ks = []"; auto)+
  have "tree_at H x (child RbR h x) s = tree_at h x (child RbR h x) s"
    by (rule tree_at_same) (use Cons(8-10) D b f in auto)
  then have s: "tree_at H x (child RbR H x) s" using A(2) Cons(9) [of x] f by simp
  show ?case
  proof (cases "ks = []")
    case True
    then show ?thesis using A s b Cons(7) [of c] f by simp
  next
    case False
    have u: "up ks \<in> set (addrs ks)" using False by (cases ks rule: up.cases) auto
    have "child RbL h (up ks) = x" using A(4) lo False by (cases ks rule: up.cases) (auto simp: left_only_def)
    moreover have "child RbL H (up ks) = child RbL h (up ks)" using Cons(8) [of "up ks"] u D f by auto
    ultimately have "seg_at H x ks q b"
      by (intro Cons.IH [OF A(4) False lo D(4)]) (use Cons(7-10) D f in auto)
    moreover have "rb_parent_color H x = rb_parent_color h x" using Cons(10) [of x] b(2) False f by simp
    ultimately show ?thesis using A s False f by simp
  qed
qed simp

lemma zip_down: "zip_at h a (plug t ks) k \<Longrightarrow> \<exists>b. zip_at h b t (ks @ k)"
proof (induction ks arbitrary: t)
  case (Cons f ks)
  obtain d c x s where f: "f = Fr d c x s" by (cases f)
  from Cons obtain b where "zip_at h b (nd d c t x s) (ks @ k)" unfolding f by fastforce
  then have "zip_at h (child d h x) t (f # ks @ k)" unfolding f by (auto simp: zip_at_def tree_at_nd inorder_nd)
  then show ?case by auto
qed auto

lemma leftmost_exists: "t \<noteq> Lf \<Longrightarrow> \<exists>c y b ks. t = plug (Nd c Lf y b) ks \<and> left_only ks"
proof (induction t)
  case (Nd c l x r)
  show ?case
  proof (cases "l = Lf")
    case True
    then show ?thesis by (intro exI [of _ c] exI [of _ x] exI [of _ r] exI [of _ "[]"]) (simp add: left_only_def)
  next
    case False
    with Nd(1) obtain c' y b ks where l: "l = plug (Nd c' Lf y b) ks" "left_only ks" by blast
    have "plug t (ks @ [Fr RbL c x r]) = Nd c (plug t ks) x r" for t
      by (induction ks arbitrary: t rule: addrs.induct) (auto simp: nd_def)
    then show ?thesis using l by (intro exI [of _ c'] exI [of _ y] exI [of _ b] exI [of _ "ks @ [Fr RbL c x r]"]) (simp add: left_only_def)
  qed
qed simp

lemma plug_not_leaf [simp]: "plug (Nd c l z r) ks \<noteq> Lf"
  by (induction ks arbitrary: c l z r rule: addrs.induct) (auto simp: nd_def split: rb_side.splits)

lemma leftmost_under_ok:
  assumes "tree_at h p a (plug (Nd c Lf y b) ks)" "left_only ks"
  shows "leftmost_under h q a = Some (if ks = [] then q else up ks, y)"
  using assms
proof (induction ks arbitrary: p a q rule: rev_induct)
  case Nil
  then show ?case by (simp add: leftmost_under.simps child_fields)
next
  case (snoc f ks)
  obtain c' x s where f: "f = Fr RbL c' x s" using snoc(3) by (cases f) (auto simp: left_only_def)
  have pl: "plug t (ks @ [Fr RbL c' x s]) = Nd c' (plug t ks) x s" for t
    by (induction ks arbitrary: t rule: addrs.induct) (auto simp: nd_def)
  have t: "tree_at h x (child RbL h x) (plug (Nd c Lf y b) ks)" "a = x" using snoc(2) unfolding f pl by simp_all
  have "child RbL h x \<noteq> 0" using tree_at_null [OF t(1)] by simp
  then show ?case using snoc(1) [OF t(1), of x] snoc(3) t(2) unfolding f
    by (simp add: leftmost_under.simps [of h q x] child_fields Let_def left_only_def up_append)
qed

lemma change_child_other:
  "y \<noteq> up k \<Longrightarrow> y \<noteq> 0 \<Longrightarrow> child d (rb_change_child old new (up k) h) y = child d h y"
  by (auto simp: rb_change_child_def)

lemma change_child_null: "set (inorder t) \<inter> set (addrs k) = {} \<Longrightarrow> 0 \<notin> set (inorder t) \<Longrightarrow> tree_at (rb_change_child old new (up k) h) p a t = tree_at h p a t"
  using up_mem [of k] by (intro change_child_tree) auto

lemma erase_replace_ok:
  assumes x: "ctx_at h x k" "rb_parent_color h x = up k OR col c" "node_at x" "child RbL h x = l0" "tree_at h x l0 l" "l \<noteq> Lf"
    and y: "node_at y" "seg_at h b0 ks y (child RbR h y)" "tree_at h y b0 b"
    and d: "distinct (x # y # inorder l @ inorder b @ addrs ks @ addrs k)" "0 \<notin> set (addrs ks)"
    and pa: "pa = up (ks @ [Fr RbR c y l])"
  shows "\<exists>H. erase_replace x y pa b0 h = (if b0 = 0 \<and> rb_parent_color h y AND 1 \<noteq> 0 then pa else 0, H) \<and> zip_at H b0 (blacken b) (ks @ Fr RbR c y l # k)"
proof -
  let ?h5 = "rb_set_parent l0 y (set_child RbL y l0 h)"
  let ?h7 = "rb_set_pc y (up k OR col c) (rb_change_child x y (up k) ?h5)"
  let ?H = "reblack b0 pa ?h7"
  have D: "x \<noteq> y" "x \<notin> set (inorder l)" "x \<notin> set (inorder b)" "x \<notin> set (addrs ks)" "x \<notin> set (addrs k)"
    "y \<notin> set (inorder l)" "y \<notin> set (inorder b)" "y \<notin> set (addrs ks)" "y \<notin> set (addrs k)" "distinct (inorder l)" "distinct (inorder b)"
    "set (inorder l) \<inter> set (inorder b) = {}" "set (inorder l) \<inter> set (addrs ks) = {}" "set (inorder l) \<inter> set (addrs k) = {}"
    "set (inorder b) \<inter> set (addrs ks) = {}" "set (inorder b) \<inter> set (addrs k) = {}" "distinct (addrs ks)" "distinct (addrs k)" "set (addrs ks) \<inter> set (addrs k) = {}"
    using d(1) by auto
  have z0: "0 \<notin> set (inorder l)" "0 \<notin> set (inorder b)" "0 \<notin> set (addrs k)" by (rule zero_not_node(1) [OF x(5)] zero_not_node(1) [OF y(3)] zero_not_node(2) [OF x(1)])+
  have l0: "l0 \<in> set (inorder l)" "l0 \<noteq> 0" using tree_at_mem [OF x(5)] tree_at_null [OF x(5)] x(6) by auto
  have "b0 \<notin> set (addrs k) \<union> set (addrs ks) \<union> set (inorder l) \<union> {x, y}"
    by (rule tree_at_fresh [OF y(3)]) (use D z0 d(2) x(3) y(1) in \<open>auto simp: node_at_def\<close>)
  then have f: "b0 \<notin> set (addrs k)" "b0 \<notin> set (addrs ks)" "b0 \<notin> set (inorder l)" "b0 \<noteq> x" "b0 \<noteq> y" by auto
  have ul: "up k \<notin> set (addrs ks)" "up k \<noteq> y" using up_mem [of k] D d(2) y(1) by (auto simp: node_at_def)
  have L: "l0 \<notin> set (addrs k)" "l0 \<notin> set (addrs ks)" "l0 \<notin> set (inorder b)" "l0 \<noteq> x" "l0 \<noteq> y" using l0 D by auto
  have k: "ctx_at ?H y k"
  proof -
    have "ctx_at ?h5 x k" using x(1) D L by (simp add: frame_simps)
    from change_child_ctx [OF this] have "ctx_at (rb_change_child x y (up k) ?h5) y k" using D x(3) by (auto simp: node_at_def)
    then show ?thesis using D f by (simp add: frame_simps)
  qed
  have l: "tree_at ?H y l0 l"
  proof -
    have "tree_at ?h5 y l0 l"
      by (rule tree_at_reparent(2) [where p = x]) (use x D y l0 in \<open>simp_all add: frame_simps\<close>)
    then show ?thesis using D f z0 by (simp add: frame_simps change_child_null)
  qed
  have b: "tree_at ?H pa b0 (blacken b)"
  proof (rule reblack_tree [where p = y])
    show "tree_at ?h7 y b0 b" using y(3) D L z0 by (simp add: frame_simps change_child_null)
    show "node_at pa" using y(2) y(1) pa by (cases ks rule: up.cases) auto
  qed (use D y in auto)
  have s: "seg_at ?H b0 ks y (child RbR h y)" using y(2) D L f ul by (simp add: frame_simps)
  have ch: "child RbR ?H y = child RbR h y" "child RbL ?H y = l0" using ul y(1) D by (simp_all add: change_child_other node_at_def)
  have pc: "rb_parent_color ?H y = up k OR col c" using f by simp
  have z: "zip_at ?H b0 (blacken b) (ks @ Fr RbR c y l # k)"
    unfolding zip_at_def ctx_at_append using s ch pc l k b y(1) D pa by (auto simp: up_append)
  have pcx: "rb_parent_color ?h5 x = up k OR col c" using x(2) L by (simp add: rb_set_parent_def)
  have pcy: "rb_parent_color ?h5 y = rb_parent_color h y" using L by (simp add: rb_set_parent_def)
  have "(up k OR col c) AND - 4 = up k" using ctx_at_up [OF x(1)] by (simp add: node_parts)
  then have "erase_replace x y pa b0 h = (if b0 = 0 \<and> rb_parent_color h y AND 1 \<noteq> 0 then pa else 0, ?H)"
    using x(4) pcx pcy by (simp add: erase_replace_def Let_def child_fields reblack_def)
  then show ?thesis using z by blast
qed

definition paint :: "bool \<Rightarrow> rb_tree \<Rightarrow> rb_tree" where
  "paint c t = (case t of Lf \<Rightarrow> Lf | Nd c' l x r \<Rightarrow> Nd c l x r)"

lemma paint_simps [simp]: "paint c Lf = Lf" "inorder (paint c t) = inorder t"
  by (cases t; simp add: paint_def)+

lemma paint_tree: "tree_at h p a t \<Longrightarrow> distinct (inorder t) \<Longrightarrow> a \<noteq> 0 \<Longrightarrow> tree_at (rb_set_pc a (q OR col c) h) q a (paint c t)"
  by (cases t) (auto simp: paint_def frame_simps)

lemma pc_is_black: "node_at p \<or> p = 0 \<Longrightarrow> (p OR col c) AND 1 \<noteq> 0 \<longleftrightarrow> c"
  by (simp add: node_parts)

lemma erase_only_child:
  assumes z: "zip_at h x (Nd c l x r) k" and s: "l = Lf \<and> s = r \<or> r = Lf \<and> s = l"
  shows "\<exists>H a. rb_erase_augmented x h = Inr (if s = Lf \<and> c then up k else 0, H) \<and> zip_at H a (paint c s) k"
proof -
  define d where "d = (if l = Lf then RbR else RbL)"
  let ?a = "child d h x"
  have Z: "node_at x" "rb_parent_color h x = up k OR col c" "tree_at h x (child RbL h x) l" "tree_at h x (child RbR h x) r" "ctx_at h x k"
    "x \<notin> set (addrs k)" "distinct (addrs k)" and sd: "tree_at h x ?a s" "distinct (inorder s)" "set (inorder s) \<inter> set (addrs k) = {}" "x \<notin> set (inorder s)"
    using z s by (auto simp: zip_at_def d_def)
  have z0: "0 \<notin> set (inorder s)" "0 \<notin> set (addrs k)" using zero_not_node(1) [OF sd(1)] zero_not_node(2) [OF Z(5)] by auto
  have a: "?a \<notin> set (addrs k)" "?a \<noteq> x" using tree_at_fresh [OF sd(1), of "insert x (set (addrs k))"] sd Z(1) z0 by (auto simp: node_at_def)
  have p: "(up k OR col c) AND - 4 = up k" "(up k OR col c) AND 1 \<noteq> 0 \<longleftrightarrow> c" using ctx_at_up [OF Z(5)] by (simp_all add: node_parts)
  let ?g = "rb_change_child x ?a (up k) h"
  have g: "ctx_at ?g ?a k" by (rule change_child_ctx) (use Z in \<open>auto simp: node_at_def\<close>)
  have nl: "child RbL h x = 0 \<longleftrightarrow> l = Lf" "child RbR h x = 0 \<longleftrightarrow> r = Lf" using tree_at_null Z(3,4) by auto
  show ?thesis
  proof (cases "s = Lf")
    case True
    then have "?a = 0" "l = Lf" "r = Lf" using sd(1) s by auto
    moreover have "zip_at ?g 0 Lf k" using g Z calculation by (simp add: zip_at_def)
    ultimately show ?thesis using True Z p nl by (auto simp: rb_erase_augmented_def Let_def child_fields node_at_def d_def)
  next
    case False
    then have a0: "?a \<noteq> 0" using tree_at_null [OF sd(1)] by simp
    let ?H = "rb_set_pc ?a (up k OR col c) ?g"
    have "tree_at ?g x ?a s" using sd z0 by (simp add: change_child_null)
    from paint_tree [OF this sd(2) a0] have "tree_at ?H (up k) ?a (paint c s)" .
    then have zH: "zip_at ?H ?a (paint c s) k" using g a sd Z by (auto simp: zip_at_def frame_simps)
    have comm: "rb_change_child x ?a (up k) (rb_set_pc ?a (up k OR col c) h) = ?H"
      using a up_mem [of k] z0 by (cases d) (auto simp: rb_change_child_def rb_set_pc_def set_child_def fun_eq_iff)
    show ?thesis
    proof (cases "l = Lf")
      case True
      then show ?thesis using s False zH a0 p Z nl by (auto simp: rb_erase_augmented_def Let_def child_fields node_at_def d_def)
    next
      case l: False
      then have "r = Lf" "d = RbL" "s = l" using s by (auto simp: d_def)
      then show ?thesis using False zH comm a0 p Z nl l by (auto simp: rb_erase_augmented_def Let_def child_fields node_at_def)
    qed
  qed
qed

lemma leftmost_child:
  assumes "tree_at h p a (plug (Nd c Lf y b) ks)" "left_only ks"
  shows "ks = [] \<Longrightarrow> a = y \<and> child RbL h a = 0" "ks \<noteq> [] \<Longrightarrow> child RbL h a \<noteq> 0 \<and> leftmost_under h a (child RbL h a) = Some (up ks, y)"
proof -
  show "ks = [] \<Longrightarrow> a = y \<and> child RbL h a = 0" using assms by simp
  assume ks: "ks \<noteq> []"
  have l: "leftmost_under h p a = Some (up ks, y)" using leftmost_under_ok [OF assms, of p] ks by simp
  have "child RbL h a \<noteq> 0"
  proof
    assume n: "child RbL h a = 0"
    with l have "up ks = p" "a = y" by (simp_all add: leftmost_under.simps child_fields)
    with leftmost_under_ok [OF assms, of "p + 1"] ks n show False by (simp add: leftmost_under.simps child_fields)
  qed
  with l show "child RbL h a \<noteq> 0 \<and> leftmost_under h a (child RbL h a) = Some (up ks, y)"
    by (simp add: leftmost_under.simps [of h p a] child_fields Let_def)
qed

lemma erase_two_children:
  assumes z: "zip_at h x (Nd c l x (plug (Nd cs Lf y b) ks)) k" and l: "l \<noteq> Lf" and lo: "left_only ks"
  shows "\<exists>H a. rb_erase_augmented x h = Inr (if b = Lf \<and> cs then up (ks @ Fr RbR c y l # k) else 0, H) \<and> zip_at H a (blacken b) (ks @ Fr RbR c y l # k)"
proof -
  let ?r = "plug (Nd cs Lf y b) ks" and ?rp = "child RbR h x" and ?lp = "child RbL h x" and ?bp = "child RbR h y"
  have zr: "zip_at h ?rp ?r (Fr RbR c x l # k)" using z by (auto simp: zip_at_def)
  from zip_down [OF this] obtain a where "zip_at h a (Nd cs Lf y b) (ks @ Fr RbR c x l # k)" by blast
  then have zy: "zip_at h y (Nd cs Lf y b) (ks @ Fr RbR c x l # k)" by (auto simp: zip_at_def)
  have seg: "seg_at h y ks x ?rp" using zy by (auto simp: zip_at_def ctx_at_append)
  have Z: "ctx_at h x k" "rb_parent_color h x = up k OR col c" "node_at x" "tree_at h x ?lp l" using z by (auto simp: zip_at_def)
  have Y: "node_at y" "tree_at h y ?bp b" "rb_parent_color h y = up (ks @ Fr RbR c x l # k) OR col cs" using zy by (auto simp: zip_at_def)
  have tr: "tree_at h x ?rp ?r" using z by (auto simp: zip_at_def)
  have D: "distinct (x # y # inorder l @ inorder b @ addrs ks @ addrs k)" using zy by (auto simp: zip_at_def)
  have k0: "0 \<notin> set (addrs ks)" using zero_not_node(2) [of h y "ks @ Fr RbR c x l # k"] zy by (auto simp: zip_at_def)
  have nl: "?lp \<noteq> 0" "?rp \<noteq> 0" using tree_at_null Z(4) l tree_at_null [OF tr] leftmost_child [OF tr lo] by auto
  have yb: "rb_parent_color h y AND 1 \<noteq> 0 \<longleftrightarrow> cs" "?bp = 0 \<longleftrightarrow> b = Lf"
    using Y(3) ctx_at_up [of h y "ks @ Fr RbR c x l # k"] zy tree_at_null [OF Y(2)] by (auto simp: zip_at_def node_parts)
  show ?thesis
  proof (cases "ks = []")
    case True
    then have e: "?rp = y" "child RbL h y = 0" using leftmost_child(1) [OF tr lo] by auto
    have "seg_at h ?bp ks y (child RbR h y)" using True by simp
    from erase_replace_ok [OF Z(1-3) refl Z(4) l Y(1) this Y(2) D k0 refl]
    show ?thesis using True e nl Z(3) yb by (auto simp: rb_erase_augmented_def Let_def child_fields node_at_def)
  next
    case False
    let ?u = "up ks"
    let ?h = "rb_set_parent ?rp y (set_child RbR y ?rp (set_child RbL ?u ?bp h))"
    note lm = leftmost_child(2) [OF tr lo False]
    have m: "?rp \<in> set (addrs ks)" "?u \<in> set (addrs ks)" using seg_end [OF seg False] up_mem [of ks] False k0 by (cases ks rule: up.cases; auto)+
    have D': "x \<noteq> y" "x \<notin> set (addrs ks)" "y \<notin> set (addrs ks)" "x \<notin> set (inorder l)" "y \<notin> set (inorder l)" "y \<notin> set (inorder b)" "y \<notin> set (addrs k)"
      "set (inorder l) \<inter> set (addrs ks) = {}" "set (inorder b) \<inter> set (addrs ks) = {}" "set (addrs ks) \<inter> set (addrs k) = {}" "distinct (addrs ks)" using D by auto
    have f: "?u \<noteq> x" "?u \<noteq> y" "?rp \<noteq> x" "?rp \<noteq> y" "?rp \<notin> set (inorder l)" "?rp \<notin> set (inorder b)" "?rp \<notin> set (addrs k)"
      "?u \<notin> set (inorder l)" "?u \<notin> set (inorder b)" "?u \<notin> set (addrs k)" using m D' by auto
    have X: "ctx_at ?h x k" "rb_parent_color ?h x = up k OR col c" "child RbL ?h x = ?lp" "tree_at ?h x ?lp l" "tree_at ?h y ?bp b" "child RbR ?h y = ?rp"
      using Z Y D' f by (simp_all add: frame_simps rb_set_parent_def)
    have "seg_at ?h ?bp ks y ?rp"
    proof (rule seg_at_move [OF seg False lo D'(11)])
      fix c' assume "rb_parent_color h ?rp = x OR col c'"
      then show "rb_parent_color ?h ?rp = y OR col c'" using Z(3) by (simp add: rb_set_parent_def rb_color_def node_parts or.commute)
    qed (use f D' in \<open>auto simp: rb_set_parent_def\<close>)
    then have "seg_at ?h ?bp ks y (child RbR ?h y)" unfolding X(6) .
    moreover have u: "?u = up (ks @ [Fr RbR c y l])" using False by (simp add: up_append)
    ultimately obtain H where
      H: "erase_replace x y ?u ?bp ?h = (if ?bp = 0 \<and> rb_parent_color ?h y AND 1 \<noteq> 0 then ?u else 0, H)" "zip_at H ?bp (blacken b) (ks @ Fr RbR c y l # k)"
      using erase_replace_ok [OF X(1,2) Z(3) X(3,4) l Y(1) _ X(5) D k0 u] by blast
    have "rb_parent_color ?h y = rb_parent_color h y" using f by (simp add: rb_set_parent_def)
    then have "rb_erase_augmented x h = Inr (if b = Lf \<and> cs then up (ks @ Fr RbR c y l # k) else 0, H)"
      using H(1) lm nl Z(3) yb False by (simp add: rb_erase_augmented_def Let_def child_fields node_at_def up_append)
    then show ?thesis using H(2) by blast
  qed
qed

subsection \<open>Removal keeps the invariant\<close>

lemma ctx_ok_sib: "ctx_ok n k \<Longrightarrow> 1 \<le> n \<Longrightarrow> list_all sib_ok k"
proof (induction k arbitrary: n)
  case (Cons f k)
  obtain d c x s where f: "f = Fr d c x s" by (cases f)
  have s: "s \<noteq> Lf" using Cons(2,3) f by auto
  obtain cs near S far where nd: "s = nd d cs near S far" using nd_exists [OF s] by blast
  have "sib_ok f" using Cons(2,3) f nd by (auto simp: sib_ok_def)
  then show ?case using Cons f by auto
qed simp

lemma er_end_ok:
  assumes t: "invh t" "invc t" "\<not> is_red t" and s: "invh s" "invc s" "\<not> is_red s" "bheight s = bheight t + 1"
    and c: "c \<or> k \<noteq> [] \<and> \<not> red_top k" "ctx_ok (bheight s + (if c then 1 else 0)) k" "is_red (sub d s) \<or> is_red (sub (opp d) s) \<or> \<not> c"
  shows "rb_ok (er_end d c P s t k) \<and> inorder (er_end d c P s t k) = inorder (plug t (Fr d c P s # k))"
proof -
  obtain cs near S far where nd: "s = nd d cs near S far" using nd_exists [of s d] s(4) by (cases s) auto
  have cs: "cs" using s(3) nd by simp
  have h: "bheight near = bheight t" "bheight far = bheight t" "invh near" "invh far" "invc near" "invc far" using s nd cs by auto
  show ?thesis
  proof (cases "is_red far")
    case True
    let ?t = "nd d c (nd d True t P near) S (blacken far)"
    have "rb_ok (plug ?t k)" unfolding rb_ok_plug using t h c nd cs True blacken_inv [of far] by auto
    moreover have "inorder (plug ?t k) = inorder (plug t (Fr d c P s # k))"
      unfolding plug.simps nd by (rule inorder_plug) (simp add: nd_def split: rb_side.splits)
    ultimately show ?thesis using True nd by (simp add: er_end_def)
  next
    case far: False
    show ?thesis
    proof (cases "is_red near")
      case True
      then obtain a N b where near: "near = nd d False a N b" using nd_exists [of near d] by (cases near) fastforce+
      have ab: "\<not> is_red a" "\<not> is_red b" using h(5) near by auto
      let ?t = "nd d c (nd d True t P a) N (nd d True b S far)"
      have "rb_ok (plug ?t k)" unfolding rb_ok_plug using t h c nd cs near ab by auto
      moreover have "inorder (plug ?t k) = inorder (plug t (Fr d c P s # k))"
        unfolding plug.simps nd near by (rule inorder_plug) (simp add: nd_def split: rb_side.splits)
      ultimately show ?thesis using True far nd near ab by (simp add: er_end_def)
    next
      case near: False
      then have "\<not> c" using c(3) far nd by simp
      let ?t = "nd d True t P (nd d False near S far)"
      have "rb_ok (plug ?t k)" unfolding rb_ok_plug using t h c nd cs near far \<open>\<not> c\<close> by auto
      moreover have "inorder (plug ?t k) = inorder (plug t (Fr d c P s # k))"
        unfolding plug.simps nd by (rule inorder_plug) (simp add: nd_def split: rb_side.splits)
      ultimately show ?thesis using near far nd by (simp add: er_end_def)
    qed
  qed
qed

lemma er_fix_ok:
  "invh t \<Longrightarrow> invc t \<Longrightarrow> \<not> is_red t \<Longrightarrow> ctx_ok (bheight t + 1) k \<Longrightarrow> rb_ok (er_fix t k) \<and> inorder (er_fix t k) = inorder (plug t k)"
proof (induction t k rule: er_fix.induct)
  case (1 t)
  then show ?case by (simp add: rb_ok_def)
next
  case (2 t d c P s k)
  have s: "invh s" "invc s" "bheight s = bheight t + 1" "c \<or> \<not> is_red s \<and> k \<noteq> [] \<and> \<not> red_top k" "ctx_ok (bheight t + 1 + (if c then 1 else 0)) k"
    using 2(5) by auto
  obtain cs near S far where nd: "s = nd d cs near S far" using nd_exists [of s d] s(3) by (cases s) auto
  show ?case
  proof (cases "is_red s")
    case True
    then have c: "c" and cs: "\<not> cs" using s(4) nd by auto
    have b: "\<not> is_red near" "\<not> is_red far" "bheight near = bheight t + 1" "bheight far = bheight t + 1" "invh near" "invh far" "invc near" "invc far"
      using s nd cs by auto
    have "rb_ok (er_end d False P near t (Fr d c S far # k)) \<and> inorder (er_end d False P near t (Fr d c S far # k)) = inorder (plug t (Fr d False P near # Fr d c S far # k))"
      by (rule er_end_ok) (use 2 b c s in auto)
    moreover have "inorder (plug t (Fr d False P near # Fr d c S far # k)) = inorder (plug t (Fr d c P s # k))"
      unfolding plug.simps nd by (rule inorder_plug) (simp add: nd_def split: rb_side.splits)
    ultimately show ?thesis using True nd b by simp
  next
    case black: False
    show ?thesis
    proof (cases "c \<and> \<not> is_red (sub d s) \<and> \<not> is_red (sub (opp d) s)")
      case True
      have cs: "cs" using black nd by simp
      let ?t = "nd d True t P (nd d False near S far)"
      have "rb_ok (er_fix ?t k) \<and> inorder (er_fix ?t k) = inorder (plug ?t k)"
        using 2(1) [OF black True] nd by simp (use 2 s nd cs True in auto)
      moreover have "inorder (plug ?t k) = inorder (plug t (Fr d c P s # k))"
        unfolding plug.simps nd by (rule inorder_plug) (simp add: nd_def split: rb_side.splits)
      ultimately show ?thesis using True black nd by simp
    next
      case False
      have "rb_ok (er_end d c P s t k) \<and> inorder (er_end d c P s t k) = inorder (plug t (Fr d c P s # k))"
        by (rule er_end_ok) (use 2 black s False in auto)
      then show ?thesis using False black by auto
    qed
  qed
qed

end
