(* ===== verification/Rbtree_Order.thy ===== *)
theory Rbtree_Order
  imports Rbtree_Erase
begin

text \<open>
  The tree as an ordered sequence of nodes: what insertion, removal and replacement do to it, the walks in order, in
  reverse order and in postorder, the length of a path, and the contract the users of a tree rely on.
\<close>

subsection \<open>Order\<close>

text \<open>The nodes of a tree from side \<open>d\<close> on, and those that come after a subtree.\<close>

definition order :: "rb_side \<Rightarrow> rb_tree \<Rightarrow> u64 list" where
  "order d t = (case d of RbL \<Rightarrow> inorder t | RbR \<Rightarrow> rev (inorder t))"

fun after :: "rb_side \<Rightarrow> rb_frame list \<Rightarrow> u64 list" where
  "after d [] = []"
| "after d (Fr e c x s # k) = (if e = d then x # order d s @ after d k else after d k)"

lemma order_nd: "order d (nd e c t x s) = (if e = d then order d t @ x # order d s else order d s @ x # order d t)"
  by (cases d; cases e; simp add: order_def nd_def)

lemma inorder_nil [simp]: "inorder t = [] \<longleftrightarrow> t = Lf"
  by (cases t) auto

lemma order_simps [simp]: "order d Lf = []" "set (order d t) = set (inorder t)" "order d t = [] \<longleftrightarrow> t = Lf" "rev (order d t) = order (opp d) t"
  by (cases d; simp add: order_def)+

lemma plug_append: "plug t (ks @ k) = plug (plug t ks) k"
  by (induction t ks rule: plug.induct) auto

lemma order_plug: "order d (plug t k) = rev (after (opp d) k) @ order d t @ after d k"
  by (induction t k rule: plug.induct) (auto simp: order_nd)

lemma inorder_plug_after: "inorder (plug t k) = rev (after RbR k) @ inorder t @ after RbL k"
  using order_plug [of RbL t k] by (simp add: order_def)

lemma set_after: "set (addrs k) = set (after RbL k) \<union> set (after RbR k)"
  by (induction k rule: addrs.induct) auto

lemma distinct_plug: "distinct (inorder (plug t k)) \<longleftrightarrow> distinct (inorder t @ addrs k)"
proof (induction t k rule: plug.induct)
  case (2 t d c x s k)
  show ?case unfolding plug.simps 2 by (cases d) (auto simp: nd_def)
qed simp

lemma find_node: "x \<in> set (inorder t) \<Longrightarrow> \<exists>c l r k. t = plug (Nd c l x r) k"
proof (induction t)
  case (Nd c l y r)
  show ?case
  proof (cases "x = y")
    case True
    then show ?thesis by (metis plug.simps(1))
  next
    case False
    have down: "\<exists>c l' r' k'. plug u k = plug (Nd c l' x r') k'" if "\<exists>c l r k. u = plug (Nd c l x r) k" for u k
    proof -
      from that obtain c' l' r' k' where "u = plug (Nd c' l' x r') k'" by blast
      then have "plug u k = plug (Nd c' l' x r') (k' @ k)" by (simp add: plug_append)
      then show ?thesis by blast
    qed
    consider "x \<in> set (inorder l)" | "x \<in> set (inorder r)" using Nd(3) False by auto
    then show ?thesis
    proof cases
      case 1
      then show ?thesis using down [OF Nd(1), of "[Fr RbL c y r]"] by (simp add: nd_def)
    next
      case 2
      then show ?thesis using down [OF Nd(2), of "[Fr RbR c y l]"] by (simp add: nd_def)
    qed
  qed
qed simp

lemma zip_at_plug: "rbtree_at h (plug t k) \<Longrightarrow> \<exists>a. zip_at h a t k"
  using zip_down [of h "rb_node h" t k "[]"] by (simp add: rbtree_at_def zip_at_def)

lemma zip_node: "rbtree_at h (plug (Nd c l x r) k) \<Longrightarrow> zip_at h x (Nd c l x r) k"
  using zip_at_plug [of h "Nd c l x r" k] by (auto simp: zip_at_def)

subsection \<open>Walking the tree\<close>

definition head_or_null :: "u64 list \<Rightarrow> u64" where
  "head_or_null xs = (case xs of [] \<Rightarrow> 0 | x # _ \<Rightarrow> x)"

lemma head_or_null_simps [simp]: "head_or_null [] = 0" "head_or_null (x # xs) = x"
  by (simp_all add: head_or_null_def)

lemma furthest_ok: "tree_at h p a t \<Longrightarrow> t \<noteq> Lf \<Longrightarrow> furthest d h a = Some (head_or_null (order d t))"
proof (induction t arbitrary: p a)
  case (Nd c l x r)
  define u where "u = sub d (Nd c l x r)"
  define v where "v = sub (opp d) (Nd c l x r)"
  have t: "Nd c l x r = nd d c u x v" by (cases d; simp add: u_def v_def nd_def)
  have u: "tree_at h x (child d h x) u" "a = x" using Nd(3) by (cases d; simp add: u_def)+
  show ?case
  proof (cases "u = Lf")
    case True
    then show ?thesis using u by (simp add: furthest.simps t order_nd)
  next
    case False
    have "furthest d h (child d h x) = Some (head_or_null (order d u))"
      using Nd(1,2) u(1) False by (cases d) (auto simp: u_def)
    moreover have "child d h x \<noteq> 0" using u(1) False tree_at_null by blast
    ultimately show ?thesis using u False unfolding t order_nd by (cases "order d u") (auto simp: furthest.simps)
  qed
qed simp

lemma climb_ok: "zip_at h n t k \<Longrightarrow> t \<noteq> Lf \<Longrightarrow> climb (opp d) h n = Some (head_or_null (after d k))"
proof (induction k arbitrary: n t)
  case Nil
  then show ?case using tree_at_parent [of h 0 n t] by (auto simp: climb.simps zip_at_def)
next
  case (Cons f k)
  obtain e c P s where f: "f = Fr e c P s" by (cases f)
  note Z = Cons(2) [unfolded f]
  have par: "rb_parent h n = P" using Z Cons(3) tree_at_parent [of h P n t] by (auto simp: zip_at_def node_at_def)
  have P: "P \<noteq> 0" using Z by (auto simp: zip_at_def node_at_def)
  have "n \<noteq> child (opp e) h P"
    using Z Cons(3) tree_at_mem [of h P n t] tree_at_mem [of h P "child (opp e) h P" s] tree_at_null [of h P n t] tree_at_null [of h P "child (opp e) h P" s]
    by (auto simp: zip_at_def)
  moreover have "n = child e h P" using Z by (auto simp: zip_at_def)
  ultimately have "n = child (opp d) h P \<longleftrightarrow> e = opp d" by (cases d; cases e) auto
  moreover have "climb (opp d) h P = Some (head_or_null (after d k))" by (rule Cons(1) [OF zip_up [OF Z]]) (simp add: nd_def split: rb_side.splits)
  ultimately show ?case using par P unfolding f by (subst climb.simps) auto
qed

lemma not_empty_node:
  assumes "zip_at h x (Nd c l x r) k"
  shows "\<not> RB_EMPTY_NODE h x"
proof
  assume "RB_EMPTY_NODE h x"
  then have e: "up k OR col c = x" and x: "node_at x" and k: "x \<notin> set (addrs k)" and c: "ctx_at h x k"
    using assms by (auto simp: zip_at_def RB_EMPTY_NODE_def)
  have u: "node_at (up k) \<or> up k = 0" using ctx_at_up [OF c] .
  have "x AND - 4 = x" using node_parts(1) [of x False] x by simp
  then have "up k = x" using node_parts(1) [OF u, of c] e by simp
  then show False using k x up_mem [of k] by (auto simp: node_at_def)
qed

lemma split_unique: "distinct (xs @ x # ys) \<Longrightarrow> xs @ x # ys = us @ x # vs \<Longrightarrow> ys = vs"
proof (induction xs arbitrary: us)
  case Nil
  then show ?case by (cases us) auto
next
  case (Cons a xs)
  show ?case
  proof (cases us)
    case Nil
    then show ?thesis using Cons(2,3) by auto
  next
    case (Cons b list)
    then have "xs @ x # ys = list @ x # vs" using Cons.prems(2) by simp
    from Cons.IH [OF _ this] show ?thesis using Cons.prems(1) by simp
  qed
qed

lemma step_ok:
  assumes "rbtree_at h t" "order d t = xs @ x # ys"
  shows "x \<noteq> 0" "\<not> RB_EMPTY_NODE h x"
    "(if child (opp d) h x \<noteq> 0 then returns (furthest d h (child (opp d) h x)) else returns (climb (opp d) h x)) = Inr (head_or_null ys)"
proof -
  have "x \<in> set (inorder t)" using assms(2) order_simps(2) [of d t] by auto
  then obtain c l r k where t: "t = plug (Nd c l x r) k" using find_node by blast
  have z: "zip_at h x (Nd c l x r) k" using zip_node assms(1) t by simp
  then show "x \<noteq> 0" by (auto simp: zip_at_def node_at_def)
  show "\<not> RB_EMPTY_NODE h x" by (rule not_empty_node [OF z])
  define u where "u = sub d (Nd c l x r)"
  define v where "v = sub (opp d) (Nd c l x r)"
  have nd: "Nd c l x r = nd d c u x v" by (cases d; simp add: u_def v_def nd_def)
  have v: "tree_at h x (child (opp d) h x) v" using z by (cases d; simp add: v_def  zip_at_def)
  have "distinct (order d t)" using assms(1) by (cases d; simp add: rbtree_at_def order_def)
  moreover have e: "order d t = (rev (after (opp d) k) @ order d u) @ x # order d v @ after d k"
    unfolding t order_plug nd order_nd by simp
  ultimately have ys: "ys = order d v @ after d k"
    using assms(2) by (metis split_unique)
  show "(if child (opp d) h x \<noteq> 0 then returns (furthest d h (child (opp d) h x)) else returns (climb (opp d) h x)) = Inr (head_or_null ys)"
  proof (cases "v = Lf")
    case True
    then show ?thesis using v ys climb_ok [OF z, of d] by (simp add: returns_def)
  next
    case False
    moreover have "child (opp d) h x \<noteq> 0" using False v tree_at_null by blast
    ultimately show ?thesis using furthest_ok [OF v False, of d] ys by (cases "order d v") (auto simp: returns_def)
  qed
qed

lemma step_next: "rbtree_at h t \<Longrightarrow> inorder t = xs @ x # ys \<Longrightarrow> rb_next h x = Inr (head_or_null ys)"
  using step_ok [of h t RbL xs x ys] by (auto simp: rb_next_def child_fields order_def split: if_splits)

lemma step_prev: "rbtree_at h t \<Longrightarrow> inorder t = xs @ x # ys \<Longrightarrow> rb_prev h x = Inr (head_or_null (rev xs))"
  using step_ok [of h t RbR "rev ys" x "rev xs"] by (auto simp: rb_prev_def child_fields order_def split: if_splits)

lemma first_last:
  assumes "rbtree_at h t"
  shows "rb_first h = Inr (head_or_null (inorder t))" "rb_last h = Inr (head_or_null (rev (inorder t)))"
  using assms furthest_ok [of h 0 "rb_node h" t] tree_at_null [of h 0 "rb_node h" t]
  by (cases "t = Lf"; simp add: rbtree_at_def rb_first_def rb_last_def order_def)+

subsection \<open>Postorder\<close>

fun post :: "rb_tree \<Rightarrow> u64 list" where
  "post Lf = []"
| "post (Nd c l x r) = post l @ post r @ [x]"

fun post_after :: "rb_frame list \<Rightarrow> u64 list" where
  "post_after [] = []"
| "post_after (Fr RbL c x s # k) = post s @ x # post_after k"
| "post_after (Fr RbR c x s # k) = x # post_after k"

lemma post_set [simp]: "set (post t) = set (inorder t)"
  by (induction t) auto

lemma post_nil [simp]: "post t = [] \<longleftrightarrow> t = Lf"
  by (cases t) auto

lemma post_distinct: "distinct (post t) \<longleftrightarrow> distinct (inorder t)"
  by (induction t) auto

lemma post_plug: "\<exists>ps. post (plug t k) = ps @ post t @ post_after k"
proof (induction t k rule: plug.induct)
  case (2 t d c x s k)
  then obtain ps where "post (plug (nd d c t x s) k) = ps @ post (nd d c t x s) @ post_after k" by blast
  then have "post (plug t (Fr d c x s # k)) = (case d of RbL \<Rightarrow> ps | RbR \<Rightarrow> ps @ post s) @ post t @ post_after (Fr d c x s # k)"
    by (cases d) (simp_all add: nd_def)
  then show ?case by blast
qed simp

lemma deepest_ok: "tree_at h p a t \<Longrightarrow> t \<noteq> Lf \<Longrightarrow> rb_left_deepest_node h a = Some (head_or_null (post t))"
proof (induction t arbitrary: p a)
  case (Nd c l x r)
  have lr: "tree_at h x (child RbL h x) l" "tree_at h x (child RbR h x) r" "a = x" using Nd(3) by auto
  show ?case
  proof (cases "l = Lf")
    case False
    then have "child RbL h x \<noteq> 0" using lr(1) tree_at_null by blast
    moreover have "post l \<noteq> []" using False by simp
    ultimately show ?thesis using Nd(1) [OF lr(1) False] lr(3) by (cases "post l") (simp_all add: rb_left_deepest_node.simps [of h x] child_fields)
  next
    case l: True
    show ?thesis
    proof (cases "r = Lf")
      case True
      then show ?thesis using l lr by (simp add: rb_left_deepest_node.simps [of h x] child_fields)
    next
      case False
      then have "child RbR h x \<noteq> 0" using lr(2) tree_at_null by blast
      moreover have "post r \<noteq> []" using False by simp
      ultimately show ?thesis using Nd(2) [OF lr(2) False] lr l by (cases "post r") (simp_all add: rb_left_deepest_node.simps [of h x] child_fields)
    qed
  qed
qed simp

lemma next_postorder_zip:
  assumes z: "zip_at h x (Nd c l x r) k"
  shows "rb_next_postorder h x = Inr (head_or_null (post_after k))"
proof (cases k)
  case Nil
  then show ?thesis using z by (auto simp: zip_at_def rb_next_postorder_def node_at_def rb_parent_def node_parts)
next
  case (Cons f k')
  obtain e cp P s where f: "f = Fr e cp P s" by (cases f)
  note Z = z [unfolded Cons f]
  have x: "x \<noteq> 0" and P: "node_at P" "P \<noteq> 0" using Z by (auto simp: zip_at_def node_at_def)
  have par: "rb_parent h x = P" using Z P by (auto simp: zip_at_def rb_parent_def node_parts)
  have s: "tree_at h P (child (opp e) h P) s" "x = child e h P" using Z by (auto simp: zip_at_def)
  have xs: "x \<noteq> child (opp e) h P" using Z x tree_at_mem [of h P "child (opp e) h P" s] tree_at_null [of h P "child (opp e) h P" s]
    by (auto simp: zip_at_def)
  show ?thesis
  proof (cases e)
    case RbR
    then show ?thesis using x P par xs Cons f by (simp add: rb_next_postorder_def child_fields Let_def)
  next
    case RbL
    show ?thesis
    proof (cases "s = Lf")
      case True
      then show ?thesis using x P par xs s Cons f RbL by (simp add: rb_next_postorder_def child_fields Let_def)
    next
      case False
      then have "child RbR h P \<noteq> 0" "post s \<noteq> []" using s RbL tree_at_null [of h P "child RbR h P" s] by auto
      then show ?thesis using x P par xs s Cons f RbL deepest_ok [OF s(1) False]
        by (cases "post s") (simp_all add: rb_next_postorder_def child_fields Let_def)
    qed
  qed
qed

lemma step_postorder:
  assumes "rbtree_at h t" "post t = xs @ x # ys"
  shows "rb_next_postorder h x = Inr (head_or_null ys)"
proof -
  have "x \<in> set (inorder t)" using assms(2) post_set [of t] by auto
  then obtain c l r k where t: "t = plug (Nd c l x r) k" using find_node by blast
  obtain ps where "post t = ps @ post (Nd c l x r) @ post_after k" using post_plug t by blast
  then have e: "post t = (ps @ post l @ post r) @ x # post_after k" by simp
  have "distinct (post t)" using assms(1) by (simp add: rbtree_at_def post_distinct)
  then have "ys = post_after k" using assms(2) e by (metis split_unique)
  then show ?thesis using next_postorder_zip [OF zip_node] assms(1) t by blast
qed

lemma first_postorder: "rbtree_at h t \<Longrightarrow> rb_first_postorder h = Inr (head_or_null (post t))"
  using deepest_ok [of h 0 "rb_node h" t] tree_at_null [of h 0 "rb_node h" t]
  by (cases "t = Lf") (auto simp: rbtree_at_def rb_first_postorder_def)

subsection \<open>Insertion and removal\<close>

text \<open>The link a search ends at: the root's, or the one of the last node it passed.\<close>

definition link_of :: "rb_frame list \<Rightarrow> rb_link" where
  "link_of k = (case k of [] \<Rightarrow> Root_Link | Fr d c p s # _ \<Rightarrow> Child_Link d p)"

lemma link_node_ok:
  assumes "zip_at h a Lf k" "node_at x" "x \<notin> set (addrs k)"
  shows "\<exists>h'. rb_link_node x (up k) (link_of k) h = Inr h' \<and> zip_at h' x (Nd False Lf x Lf) k"
proof (cases k)
  case Nil
  then show ?thesis using assms by (auto simp: zip_at_def rb_link_node_def link_of_def node_at_def)
next
  case (Cons f k')
  obtain d c p s where f: "f = Fr d c p s" by (cases f)
  show ?thesis using assms unfolding Cons f
    by (auto simp: zip_at_def rb_link_node_def link_of_def node_at_def Let_def frame_simps)
qed

lemma insert_color_ok:
  assumes "zip_at h x (Nd False Lf x Lf) k" "rb_ok (plug Lf k)"
  shows "\<exists>h' t. rb_insert_color x h = Inr h' \<and> rbtree_at h' t \<and> rb_ok t \<and> inorder t = rev (after RbR k) @ x # after RbL k"
proof -
  have k: "ctx_ok 0 k" using assms(2) by (simp add: rb_ok_plug)
  have p: "rb_red_parent h x = up k" "x \<noteq> 0" using assms(1) by (auto simp: zip_at_def rb_red_parent_def node_at_def)
  obtain h' where h': "insert_loop x (up k) h = Some (Inr h')" "rbtree_at h' (ins_fix (Nd False Lf x Lf) k)"
    using insert_loop_ok [OF assms(1)] ctx_ok_top [OF k] by auto
  have "rb_ok (ins_fix (Nd False Lf x Lf) k) \<and> inorder (ins_fix (Nd False Lf x Lf) k) = inorder (plug (Nd False Lf x Lf) k)"
    by (rule ins_fix_ok) (use k in auto)
  then show ?thesis using h' p by (auto simp: rb_insert_color_def inorder_plug_after)
qed

lemma insert_ok:
  assumes "rbtree_at h (plug Lf k)" "rb_ok (plug Lf k)" "node_at x" "x \<notin> set (addrs k)"
  shows "\<exists>h' t. bnd (rb_link_node x (up k) (link_of k) h) (rb_insert_color x) = Inr h' \<and> rbtree_at h' t \<and> rb_ok t \<and>
    inorder t = rev (after RbR k) @ x # after RbL k"
  using zip_at_plug [OF assms(1)] link_node_ok [OF _ assms(3,4)] insert_color_ok [OF _ assms(2)] by fastforce

lemma erase_fix:
  assumes "zip_at H a t k" "ctx_ok (bheight t + (if c then 1 else 0)) k" "invh t" "invc t" "\<not> is_red t" "c \<longrightarrow> t = Lf"
  shows "\<exists>h' t'. (if (if c then up k else 0) \<noteq> 0 then rb_erase_color (if c then up k else 0) H else Inr H) = Inr h' \<and> rbtree_at h' t' \<and> rb_ok t' \<and>
    inorder t' = inorder (plug t k)"
proof (cases "c \<and> k \<noteq> []")
  case True
  then have a: "a = 0" "c" "t = Lf" "k \<noteq> []" using assms(1,6) by (auto simp: zip_at_def)
  have "up k \<noteq> 0" using a assms(1) by (cases k rule: up.cases) (auto simp: zip_at_def node_at_def)
  moreover obtain h' where "erase_loop 0 (up k) H = Some (Inr h')" "rbtree_at h' (er_fix t k)"
    using erase_loop_ok [OF assms(1) ctx_ok_sib [OF assms(2)] a(4)] a by auto
  moreover have "rb_ok (er_fix t k) \<and> inorder (er_fix t k) = inorder (plug t k)"
    by (rule er_fix_ok) (use assms a in auto)
  ultimately show ?thesis using a by (auto simp: rb_erase_color_def)
next
  case False
  have "rb_ok (plug t k)" using assms False by (auto simp: rb_ok_plug)
  moreover have "rbtree_at H (plug t k)" using zip_plug [OF assms(1)] .
  ultimately show ?thesis using False by auto
qed

lemma height_zero: "bheight s = 0 \<Longrightarrow> is_red s \<longleftrightarrow> s \<noteq> Lf"
  by (cases s) (auto split: if_splits)

lemma blacken_paint: "blacken t = paint True t"
  by (cases t) (simp_all add: blacken_def paint_def)

lemma erase_child_fix:
  assumes z: "zip_at H a (paint c s) k" and s: "bheight s = 0" "invh s" "invc s" "c \<or> \<not> is_red s" "ctx_ok (if c then 1 else 0) k"
  shows "\<exists>h' t'. (if (if s = Lf \<and> c then up k else 0) \<noteq> 0 then rb_erase_color (if s = Lf \<and> c then up k else 0) H else Inr H) = Inr h' \<and>
    rbtree_at h' t' \<and> rb_ok t' \<and> inorder t' = rev (after RbR k) @ inorder s @ after RbL k"
proof (cases "s = Lf")
  case True
  then show ?thesis using erase_fix [OF z, of c] s by (cases c) (auto simp: inorder_plug_after)
next
  case False
  then have c: "c" using height_zero s by blast
  have "bheight (blacken s) = 1" "invh (blacken s)" "invc (blacken s)" "\<not> is_red (blacken s)" "inorder (blacken s) = inorder s"
    using False s by (cases s; auto simp: blacken_def split: if_splits)+
  then show ?thesis using erase_fix [OF z, of False] c False s(5) unfolding blacken_paint by (auto simp: inorder_plug_after)
qed

lemma ctx_ok_address: "ctx_ok n (ks @ Fr d c x l # k) = ctx_ok n (ks @ Fr d c y l # k)"
proof (induction ks arbitrary: n)
  case (Cons f ks)
  have r: "red_top (ks @ Fr d c x l # k) = red_top (ks @ Fr d c y l # k)" by (cases ks rule: up.cases) auto
  show ?case by (cases f) (use Cons r in auto)
qed auto

lemma after_left: "left_only ks \<Longrightarrow> after RbR (ks @ k) = after RbR k \<and> after RbL (ks @ k) = after RbL ks @ after RbL k"
  by (induction ks rule: addrs.induct) (auto simp: left_only_def)

lemma after_left_nil: "left_only ks \<Longrightarrow> after RbR ks = []"
  using after_left [of ks "[]"] by simp

lemma erase_ok:
  assumes t: "rbtree_at h t" "rb_ok t" "x \<in> set (inorder t)"
  shows "\<exists>h' t'. rb_erase x h = Inr h' \<and> rbtree_at h' t' \<and> rb_ok t' \<and> inorder t' = remove1 x (inorder t)"
proof -
  obtain c l r k where p: "t = plug (Nd c l x r) k" using find_node [OF t(3)] by blast
  have z: "zip_at h x (Nd c l x r) k" using zip_node t(1) p by simp
  have i: "invh (Nd c l x r)" "invc (Nd c l x r)" "ctx_ok (bheight (Nd c l x r)) k" "red_top k \<or> k = [] \<Longrightarrow> c"
    using t(2) unfolding p rb_ok_plug by auto
  have "distinct (inorder t)" using t(1) by (simp add: rbtree_at_def)
  then have io: "remove1 x (inorder t) = rev (after RbR k) @ inorder l @ inorder r @ after RbL k"
    unfolding p inorder_plug_after by (auto simp: remove1_append)
  show ?thesis
  proof (cases "l = Lf \<or> r = Lf")
    case True
    define s where "s = (if l = Lf then r else l)"
    obtain H a where e: "rb_erase_augmented x h = Inr (if s = Lf \<and> c then up k else 0, H)" "zip_at H a (paint c s) k"
      using erase_only_child [OF z, of s] True by (auto simp: s_def)
    have s: "bheight s = 0" "invh s" "invc s" "c \<or> \<not> is_red s" using i True by (auto simp: s_def)
    have "ctx_ok (if c then 1 else 0) k" using i(1,3) True by auto
    from erase_child_fix [OF e(2) s this] show ?thesis using e(1) True unfolding io by (auto simp: rb_erase_def s_def)
  next
    case False
    obtain cs y b ks where r: "r = plug (Nd cs Lf y b) ks" "left_only ks" using leftmost_exists False by blast
    obtain H a where e: "rb_erase_augmented x h = Inr (if b = Lf \<and> cs then up (ks @ Fr RbR c y l # k) else 0, H)"
      "zip_at H a (blacken b) (ks @ Fr RbR c y l # k)"
      using erase_two_children [OF z [unfolded r(1)] _ r(2)] False by auto
    have "rb_ok (plug (Nd cs Lf y b) (ks @ Fr RbR c x l # k))" using t(2) unfolding p r(1) by (simp add: plug_append nd_def)
    then have b: "invh b" "invc b" "bheight b = 0" "cs \<or> \<not> is_red b" "ctx_ok (if cs then 1 else 0) (ks @ Fr RbR c y l # k)"
      unfolding rb_ok_plug ctx_ok_address [of _ ks RbR c x l k y] by auto
    have "blacken b = paint cs b" using b(4) height_zero [OF b(3)] by (cases cs) (auto simp: blacken_paint)
    from erase_child_fix [OF e(2) [unfolded this] b(3,1,2,4,5)] show ?thesis
      using e(1) r after_left [OF r(2)] after_left_nil [OF r(2)] unfolding io by (auto simp: rb_erase_def inorder_plug_after order_def)
  qed
qed

lemma replace_node_zip:
  assumes z: "zip_at h v (Nd c l v r) k" and n: "node_at new" "new \<notin> set (inorder (Nd c l v r) @ addrs k)"
  shows "\<exists>h'. rb_replace_node v new h = Inr h' \<and> zip_at h' new (Nd c l new r) k"
proof -
  let ?l = "child RbL h v" and ?r = "child RbR h v"
  let ?g = "rb_change_child v new (up k) h"
  let ?H = "reparent ?r new (reparent ?l new ?g)"
  let ?H' = "rb_set_pc new (up k OR col c) (set_child RbL new ?l (set_child RbR new ?r ?H))"
  have c: "ctx_at h v k" "distinct (addrs k)" "v \<notin> set (addrs k)" "v \<noteq> 0" "node_at v" "rb_parent_color h v = up k OR col c"
    "tree_at h v ?l l" "tree_at h v ?r r" "distinct (inorder l)" "distinct (inorder r)" "set (inorder l) \<inter> set (inorder r) = {}"
    "(set (inorder l) \<union> set (inorder r)) \<inter> set (addrs k) = {}" "v \<notin> set (inorder l)" "v \<notin> set (inorder r)"
    "0 \<notin> set (addrs k)"
    using z zero_not_node(2) [of h v k] by (auto simp: zip_at_def node_at_def)
  have m: "?l = 0 \<or> ?l \<in> set (inorder l)" "?r = 0 \<or> ?r \<in> set (inorder r)" "0 \<notin> set (inorder l)" "0 \<notin> set (inorder r)"
    using tree_at_mem [OF c(7)] tree_at_mem [OF c(8)] tree_at_null [OF c(7)] tree_at_null [OF c(8)] zero_not_node(1) [OF c(7)] zero_not_node(1) [OF c(8)] by auto
  have u: "up k \<noteq> v" "up k \<notin> set (inorder l)" "up k \<notin> set (inorder r)" using up_mem [of k] c m by auto
  have par: "rb_parent h v = up k" using ctx_at_up [OF c(1)] c(6) by (simp add: rb_parent_def node_parts)
  have lr: "child d ?g v = child d h v" for d using change_child_other [of v k] u c(4) by simp
  have e: "rb_replace_node v new h = Inr ?H'"
    using n c(4,6,13,14) m lr by (auto simp: rb_replace_node_def Let_def par child_fields node_at_def reparent_def rb_set_parent_def)
  have k: "ctx_at ?g new k" using change_child_ctx [OF c(1)] c by simp
  have tl: "tree_at (reparent ?l new ?g) new ?l l" by (rule reparent_tree [where p = v]) (use c n change_child_tree [OF u(2)] in auto)
  have "tree_at (reparent ?l new ?g) v ?r r" using c change_child_tree [OF u(3)] m by (subst reparent_frame) auto
  then have tr: "tree_at ?H new ?r r" by (rule reparent_tree) (use c n in auto)
  have tl': "tree_at ?H new ?l l" using tl m c by (subst reparent_frame) auto
  have f: "?l \<notin> set (addrs k)" "?r \<notin> set (addrs k)" using m c by auto
  have ck: "ctx_at ?H new k" using k f by (simp add: frame_simps)
  have "zip_at ?H' new (Nd c l new r) k" using tl' tr ck n c by (auto simp: zip_at_def frame_simps)
  then show ?thesis using e by blast
qed

lemma replace_node_ok:
  "rbtree_at h (plug (Nd c l v r) k) \<Longrightarrow> node_at new \<Longrightarrow> new \<notin> set (inorder (Nd c l v r) @ addrs k) \<Longrightarrow>
    \<exists>h'. rb_replace_node v new h = Inr h' \<and> rbtree_at h' (plug (Nd c l new r) k)"
  using replace_node_zip [OF zip_node] zip_plug by blast

subsection \<open>Height\<close>

lemma bheight_size: "invh t \<Longrightarrow> 2 ^ bheight t \<le> length (inorder t) + 1"
proof (induction t)
  case (Nd c l x r)
  then have "2 ^ bheight l \<le> length (inorder l) + 1" "2 ^ bheight l \<le> length (inorder r) + 1" by auto
  then show ?case using Nd(3) by auto
qed simp

lemma path_height:
  "ctx_ok (bheight u) k \<Longrightarrow> length k + (if k \<noteq> [] \<and> \<not> red_top k then 1 else 0) + 2 * bheight u \<le> 2 * bheight (plug u k)"
proof (induction k arbitrary: u)
  case (Cons f k)
  obtain d c x s where f: "f = Fr d c x s" by (cases f)
  have "bheight (nd d c u x s) = bheight u + (if c then 1 else 0)" using Cons(2) f by (cases d) (auto simp: nd_def)
  then show ?case using Cons(1) [of "nd d c u x s"] Cons(2) f by (auto split: if_splits)
qed simp

lemma path_bound:
  assumes "rb_ok (plug u k)"
  shows "2 ^ length k \<le> (length (inorder (plug u k)) + 1)\<^sup>2"
proof -
  have "length k \<le> 2 * bheight (plug u k)" using assms path_height [of u k] by (auto simp: rb_ok_plug)
  then have "(2 :: nat) ^ length k \<le> 2 ^ (2 * bheight (plug u k))" by (rule power_increasing) simp
  also have "\<dots> = (2 ^ bheight (plug u k))\<^sup>2" by (simp add: power_even_eq)
  also have "\<dots> \<le> (length (inorder (plug u k)) + 1)\<^sup>2" using bheight_size [of "plug u k"] assms by (intro power_mono) (auto simp: rb_ok_def)
  finally show ?thesis .
qed

subsection \<open>The contract of a tree of nodes\<close>

text \<open>
  What the users of a tree rely on: a heap holds a sequence of nodes, removing a node takes it out of the
  sequence and the walk meets the nodes in order.
\<close>

locale ordered_nodes =
  fixes holds :: "'h \<Rightarrow> u64 list \<Rightarrow> bool" and erase :: "u64 \<Rightarrow> 'h \<Rightarrow> 'h c_result"
    and first :: "'h \<Rightarrow> u64 c_result" and succ :: "'h \<Rightarrow> u64 \<Rightarrow> u64 c_result"
  assumes holds_nodes: "holds h xs \<Longrightarrow> distinct xs \<and> 0 \<notin> set xs"
    and erase_law: "holds h xs \<Longrightarrow> x \<in> set xs \<Longrightarrow> \<exists>h'. erase x h = Inr h' \<and> holds h' (remove1 x xs)"
    and first_law: "holds h xs \<Longrightarrow> first h = Inr (head_or_null xs)"
    and succ_law: "holds h (xs @ x # ys) \<Longrightarrow> succ h x = Inr (head_or_null ys)"
begin

lemma erase_first: "holds h (x # xs) \<Longrightarrow> \<exists>h'. erase x h = Inr h' \<and> holds h' xs"
  using erase_law [of h "x # xs" x] by simp

lemma first_null: "holds h xs \<Longrightarrow> first h = Inr 0 \<longleftrightarrow> xs = []"
  using first_law [of h xs] holds_nodes [of h xs] by (cases xs) auto

end

definition rb_seq :: "rb_heap \<Rightarrow> u64 list \<Rightarrow> bool" where
  "rb_seq h xs \<longleftrightarrow> (\<exists>t. rbtree_at h t \<and> rb_ok t \<and> inorder t = xs)"

lemma rb_seq_empty: "rb_node h = 0 \<Longrightarrow> rb_seq h []"
  by (auto simp: rb_seq_def rbtree_at_def rb_ok_def intro!: exI [of _ Lf])

interpretation rbt: ordered_nodes rb_seq rb_erase rb_first rb_next
proof
  show "distinct xs \<and> 0 \<notin> set xs" if "rb_seq h xs" for h xs
    using that zero_not_node(1) by (auto simp: rb_seq_def rbtree_at_def)
  show "\<exists>h'. rb_erase x h = Inr h' \<and> rb_seq h' (remove1 x xs)" if "rb_seq h xs" "x \<in> set xs" for h xs x
    using that erase_ok by (fastforce simp: rb_seq_def)
  show "rb_first h = Inr (head_or_null xs)" if "rb_seq h xs" for h xs
    using that first_last(1) by (auto simp: rb_seq_def)
  show "rb_next h x = Inr (head_or_null ys)" if "rb_seq h (xs @ x # ys)" for h xs x ys
    using that step_next by (auto simp: rb_seq_def)
qed

subsection \<open>Properties\<close>

text \<open>
  Claim C7.  Linking a new node at any empty link of a valid red-black tree and rebalancing with \<open>rb_insert_color\<close>
  ends, and gives a valid red-black tree (black root, no red node with a red child, the same number of black nodes
  on every path, every parent word right) whose nodes in order are the old ones with the new one at that link.
\<close>

theorem rb_insert_keeps_order:
  assumes "rbtree_at h (plug Lf k)" "rb_ok (plug Lf k)" "node_at x" "x \<notin> set (inorder (plug Lf k))"
  shows "\<exists>h' t. bnd (rb_link_node x (up k) (link_of k) h) (rb_insert_color x) = Inr h' \<and> rbtree_at h' t \<and> rb_ok t \<and>
    inorder (plug Lf k) = rev (after RbR k) @ after RbL k \<and> inorder t = rev (after RbR k) @ x # after RbL k"
proof -
  have "x \<notin> set (addrs k)" using assms(4) unfolding inorder_plug_after set_after by auto
  from insert_ok [OF assms(1-3) this] show ?thesis by (auto simp: inorder_plug_after)
qed

definition two_nodes :: rb_heap where
  "two_nodes = \<lparr>rb_parent_color = (\<lambda>_. 0)(16 := 1, 8 := 16), rb_right = (\<lambda>_. 0), rb_left = (\<lambda>_. 0)(16 := 8), rb_node = 16\<rparr>"

theorem rb_insert_keeps_order_witness:
  "\<exists>h' t. bnd (rb_link_node 12 8 (Child_Link RbR 8) two_nodes) (rb_insert_color 12) = Inr h' \<and> rbtree_at h' t \<and> rb_ok t \<and> inorder t = [8, 12, 16]"
proof -
  let ?k = "[Fr RbR False 8 Lf, Fr RbL True 16 Lf]"
  have "rbtree_at two_nodes (plug Lf ?k)" "rb_ok (plug Lf ?k)" "node_at 12" "12 \<notin> set (inorder (plug Lf ?k))" by code_simp+
  from rb_insert_keeps_order [OF this] show ?thesis by (auto simp: link_of_def order_def)
qed

text \<open>
  Claim C6.  \<open>rb_erase\<close> of a node of a valid red-black tree ends, and gives a valid red-black tree whose nodes in
  order are the old ones without that node, whatever children the node has.
\<close>

theorem rb_erase_removes:
  assumes "rbtree_at h t" "rb_ok t" "x \<in> set (inorder t)"
  shows "\<exists>h' t'. rb_erase x h = Inr h' \<and> rbtree_at h' t' \<and> rb_ok t' \<and> inorder t' = remove1 x (inorder t)"
  using assms by (rule erase_ok)

theorem rb_erase_removes_witness:
  "\<exists>h' t'. rb_erase 16 two_nodes = Inr h' \<and> rbtree_at h' t' \<and> rb_ok t' \<and> inorder t' = [8]"
proof -
  let ?t = "Nd True (Nd False Lf 8 Lf) 16 Lf"
  have "rbtree_at two_nodes ?t" "rb_ok ?t" "16 \<in> set (inorder ?t)" by code_simp+
  from rb_erase_removes [OF this] show ?thesis by simp
qed

text \<open>
  Claim C27.  The walks end and meet every node once: \<open>rb_first\<close> and \<open>rb_next\<close> go through the nodes in order,
  \<open>rb_last\<close> and \<open>rb_prev\<close> in reverse order, \<open>rb_first_postorder\<close> and \<open>rb_next_postorder\<close> with the children
  before their parent, and each gives NULL at the end.
\<close>

theorem rb_walks:
  assumes "rbtree_at h t"
  shows "rb_first h = Inr (head_or_null (inorder t)) \<and> rb_last h = Inr (head_or_null (rev (inorder t))) \<and>
    rb_first_postorder h = Inr (head_or_null (post t)) \<and>
    (\<forall>xs x ys. inorder t = xs @ x # ys \<longrightarrow> rb_next h x = Inr (head_or_null ys) \<and> rb_prev h x = Inr (head_or_null (rev xs))) \<and>
    (\<forall>xs x ys. post t = xs @ x # ys \<longrightarrow> rb_next_postorder h x = Inr (head_or_null ys))"
  using first_last [OF assms] first_postorder [OF assms] step_next [OF assms] step_prev [OF assms] step_postorder [OF assms] by blast

theorem rb_walks_witness: "rb_first two_nodes = Inr 8 \<and> rb_next two_nodes 8 = Inr 16 \<and> rb_next two_nodes 16 = Inr 0 \<and> rb_next_postorder two_nodes 8 = Inr 16"
proof -
  let ?t = "Nd True (Nd False Lf 8 Lf) 16 Lf"
  have "rbtree_at two_nodes ?t" by code_simp
  note w = rb_walks [OF this]
  have "rb_next two_nodes 8 = Inr 16" using w [THEN conjunct2, THEN conjunct2, THEN conjunct2, THEN conjunct1, rule_format, of "[]" 8 "[16]"] by simp
  moreover have "rb_next two_nodes 16 = Inr 0" using w [THEN conjunct2, THEN conjunct2, THEN conjunct2, THEN conjunct1, rule_format, of "[8]" 16 "[]"] by simp
  moreover have "rb_next_postorder two_nodes 8 = Inr 16" using w [THEN conjunct2, THEN conjunct2, THEN conjunct2, THEN conjunct2, rule_format, of "[]" 8 "[16]"] by simp
  moreover have "rb_first two_nodes = Inr 8" using w by simp
  ultimately show ?thesis by blast
qed

end
