(* ===== verification/Rblist.thy ===== *)
theory Rblist
  imports Rbtree_Order
begin

text \<open>
  \<open>util/rblist.c\<close>: a list kept in a red-black tree and ordered by the callbacks of its owner.  The nodes' data
  live in the owner's memory \<open>'m\<close>, which the callbacks read and change; \<open>'e\<close> is the type of what an entry is made
  from.  \<open>node_new\<close> gives the address 0 when it has no memory.  Once \<open>node_delete\<close> has freed a node, its three words
  hold what \<open>junk\<close> has there, which is arbitrary.
\<close>

subsection \<open>Operations\<close>

definition EEXIST :: int where "EEXIST = 17"

record ('m, 'e) rblist =
  entries :: rb_heap
  nr_entries :: u32
  node_cmp :: "'m \<Rightarrow> u64 \<Rightarrow> 'e \<Rightarrow> u32 c_result"
  node_new :: "'m \<Rightarrow> 'e \<Rightarrow> (u64 \<times> 'm) c_result"
  node_delete :: "'m \<Rightarrow> u64 \<Rightarrow> 'm c_result"
  node_mem :: 'm
  junk :: rb_heap

text \<open>\<open>*p\<close> for a link \<open>p\<close>.\<close>

definition link_get :: "rb_link \<Rightarrow> rb_heap \<Rightarrow> u64" where
  "link_get p h = (case p of Root_Link \<Rightarrow> rb_node h | Child_Link d n \<Rightarrow> child d h n)"

text \<open>The descent of \<open>rblist__add_node\<close> and \<open>__rblist__findnew\<close>: the node it finds, or the link it ends at.\<close>

partial_function (option) search_loop ::
  "('m \<Rightarrow> u64 \<Rightarrow> 'e \<Rightarrow> u32 c_result) \<Rightarrow> 'm \<Rightarrow> rb_heap \<Rightarrow> 'e \<Rightarrow> u64 \<Rightarrow> rb_link \<Rightarrow> (u64 + u64 \<times> rb_link) c_result option" where
  "search_loop cmp m h entry parent p =
     (let n = link_get p h in
      if n = 0 then Some (Inr (Inr (parent, p)))
      else case cmp m n entry of
        Inl er \<Rightarrow> Some (Inl er)
      | Inr rc \<Rightarrow>
          if 0 < sint rc then search_loop cmp m h entry n (Child_Link RbL n)
          else if sint rc < 0 then search_loop cmp m h entry n (Child_Link RbR n)
          else Some (Inr (Inl n)))"

definition rblist_search :: "('m, 'e) rblist \<Rightarrow> 'e \<Rightarrow> (u64 + u64 \<times> rb_link) c_result" where
  "rblist_search l entry = bnd (returns (search_loop (node_cmp l) (node_mem l) (entries l) entry 0 Root_Link)) id"

definition rblist_link :: "('m, 'e) rblist \<Rightarrow> u64 \<Rightarrow> u64 \<Rightarrow> rb_link \<Rightarrow> ('m, 'e) rblist c_result" where
  "rblist_link l new_node parent p =
     bnd (bnd (rb_link_node new_node parent p (entries l)) (rb_insert_color new_node))
       (\<lambda>h. Inr (l\<lparr>entries := h, nr_entries := nr_entries l + 1\<rparr>))"

definition rblist__add_node :: "('m, 'e) rblist \<Rightarrow> 'e \<Rightarrow> (int \<times> ('m, 'e) rblist) c_result" where
  "rblist__add_node l new_entry =
     bnd (rblist_search l new_entry) (\<lambda>r. case r of
         Inl _ \<Rightarrow> Inr (- EEXIST, l)
       | Inr (parent, p) \<Rightarrow>
           bnd (node_new l (node_mem l) new_entry) (\<lambda>(new_node, m).
             if new_node = 0 then Inr (- ENOMEM, l\<lparr>node_mem := m\<rparr>)
             else bnd (rblist_link (l\<lparr>node_mem := m\<rparr>) new_node parent p) (\<lambda>l. Inr (0, l))))"

definition overwrite :: "rb_heap \<Rightarrow> u64 \<Rightarrow> rb_heap \<Rightarrow> rb_heap" where
  "overwrite j n h =
     h\<lparr>rb_parent_color := (rb_parent_color h)(n := rb_parent_color j n), rb_right := (rb_right h)(n := rb_right j n),
       rb_left := (rb_left h)(n := rb_left j n)\<rparr>"

definition rblist__remove_node :: "('m, 'e) rblist \<Rightarrow> u64 \<Rightarrow> ('m, 'e) rblist c_result" where
  "rblist__remove_node l n =
     bnd (rb_erase n (entries l)) (\<lambda>h.
       let l = l\<lparr>entries := h, nr_entries := nr_entries l - 1\<rparr>
       in bnd (node_delete l (node_mem l) n) (\<lambda>m. Inr (l\<lparr>node_mem := m, entries := overwrite (junk l) n (entries l)\<rparr>)))"

definition rblist__findnew_create :: "('m, 'e) rblist \<Rightarrow> 'e \<Rightarrow> bool \<Rightarrow> (u64 \<times> ('m, 'e) rblist) c_result" where
  "rblist__findnew_create l entry create =
     bnd (rblist_search l entry) (\<lambda>r. case r of
         Inl parent \<Rightarrow> Inr (parent, l)
       | Inr (parent, p) \<Rightarrow>
           if create then
             bnd (node_new l (node_mem l) entry) (\<lambda>(new_node, m).
               if new_node = 0 then Inr (0, l\<lparr>node_mem := m\<rparr>)
               else bnd (rblist_link (l\<lparr>node_mem := m\<rparr>) new_node parent p) (\<lambda>l. Inr (new_node, l)))
           else Inr (0, l))"

definition rblist__find :: "('m, 'e) rblist \<Rightarrow> 'e \<Rightarrow> u64 c_result" where
  "rblist__find l entry = bnd (rblist__findnew_create l entry False) (\<lambda>(n, _). Inr n)"

definition rblist__findnew :: "('m, 'e) rblist \<Rightarrow> 'e \<Rightarrow> (u64 \<times> ('m, 'e) rblist) c_result" where
  "rblist__findnew l entry = rblist__findnew_create l entry True"

definition rblist__init :: "('m, 'e) rblist \<Rightarrow> ('m, 'e) rblist" where
  "rblist__init l = l\<lparr>entries := (entries l)\<lparr>rb_node := 0\<rparr>, nr_entries := 0\<rparr>"

partial_function (option) delete_loop :: "('m, 'e) rblist \<Rightarrow> u64 \<Rightarrow> ('m, 'e) rblist c_result option" where
  "delete_loop l pos =
     (if pos = 0 then Some (Inr l)
      else case rb_next (entries l) pos of
        Inl er \<Rightarrow> Some (Inl er)
      | Inr nxt \<Rightarrow>
          (case rblist__remove_node l pos of
             Inl er \<Rightarrow> Some (Inl er)
           | Inr l \<Rightarrow> delete_loop l nxt))"

text \<open>What is left of the list itself, nothing once it is freed, and the owner's memory.\<close>

definition rblist__delete :: "('m, 'e) rblist option \<Rightarrow> 'm \<Rightarrow> (('m, 'e) rblist option \<times> 'm) c_result" where
  "rblist__delete rblist m =
     (case rblist of
        None \<Rightarrow> Inr (None, m)
      | Some l \<Rightarrow> bnd (rb_first (entries l)) (\<lambda>nxt. bnd (bnd (returns (delete_loop l nxt)) id) (\<lambda>l. Inr (None, node_mem l))))"

partial_function (option) entry_loop :: "rb_heap \<Rightarrow> u64 \<Rightarrow> u32 \<Rightarrow> u64 c_result option" where
  "entry_loop h node idx =
     (if node = 0 then Some (Inr 0)
      else if idx = 0 then Some (Inr node)
      else case rb_next h node of Inl er \<Rightarrow> Some (Inl er) | Inr n \<Rightarrow> entry_loop h n (idx - 1))"

definition rblist__entry :: "('m, 'e) rblist \<Rightarrow> u32 \<Rightarrow> u64 c_result" where
  "rblist__entry l idx = bnd (rb_first (entries l)) (\<lambda>n. bnd (returns (entry_loop (entries l) n idx)) id)"

declare search_loop.simps [code] delete_loop.simps [code] entry_loop.simps [code]

definition rblist__empty :: "('m, 'e) rblist \<Rightarrow> bool" where
  "rblist__empty l \<longleftrightarrow> nr_entries l = 0"

definition rblist__nr_entries :: "('m, 'e) rblist \<Rightarrow> u32" where
  "rblist__nr_entries l = nr_entries l"

subsection \<open>Memory of the nodes\<close>

text \<open>
  Nodes by address, and what the coming calls of \<open>malloc\<close> give.  An address that is not aligned or still in use
  is one \<open>malloc\<close> cannot give, and stands for a failure, as does the end of the list.
\<close>

record 'd node_store =
  slots :: "u64 \<rightharpoonup> 'd"
  pool :: "u64 list"

definition malloc_node :: "('d, 'z) node_store_scheme \<Rightarrow> u64 \<times> ('d, 'z) node_store_scheme" where
  "malloc_node m =
     (case pool m of
        [] \<Rightarrow> (0, m)
      | a # as \<Rightarrow> (if node_at a \<and> slots m a = None then a else 0, m\<lparr>pool := as\<rparr>))"

definition free_node :: "u64 \<Rightarrow> ('d, 'z) node_store_scheme \<Rightarrow> ('d, 'z) node_store_scheme c_result" where
  "free_node a m =
     (if a = 0 then Inr m
      else case slots m a of None \<Rightarrow> Inl Wild_Deref | Some _ \<Rightarrow> Inr (m\<lparr>slots := (slots m)(a := None)\<rparr>))"

lemma malloc_node_cases:
  "\<exists>a m'. malloc_node m = (a, m') \<and> slots m' = slots m \<and> (a \<noteq> 0 \<longrightarrow> node_at a \<and> slots m a = None)"
  by (auto simp: malloc_node_def split: list.splits)

text \<open>\<open>malloc\<close> has memory for \<open>n\<close> blocks.\<close>

definition pool_gives :: "nat \<Rightarrow> ('d, 'z) node_store_scheme \<Rightarrow> bool" where
  "pool_gives n m \<longleftrightarrow> n \<le> length (pool m) \<and> distinct (take n (pool m)) \<and> list_all (\<lambda>a. node_at a \<and> slots m a = None) (take n (pool m))"

text \<open>Texts joined with commas, as both parsers read them.\<close>

fun commas :: "u8 list list \<Rightarrow> u8 list" where
  "commas [] = []"
| "commas [x] = x"
| "commas (x # y # xs) = x @ 44 # commas (y # xs)"

lemma hd_commas: "xs \<noteq> [] \<Longrightarrow> commas (x # xs) = x @ 44 # commas xs"
  by (cases xs) auto

subsection \<open>The contract of the callbacks\<close>

text \<open>
  A list holds the nodes \<open>xs\<close>: they are the nodes of its tree in order, their keys rise strictly, they are all the
  nodes of the memory, and their number is recorded.
\<close>

definition list_holds :: "('m \<Rightarrow> u64 set) \<Rightarrow> ('m \<Rightarrow> u64 \<Rightarrow> 'k::linorder) \<Rightarrow> ('m, 'e) rblist \<Rightarrow> u64 list \<Rightarrow> bool" where
  "list_holds live key l xs \<longleftrightarrow>
     rb_seq (entries l) xs \<and> sorted_wrt (<) (map (key (node_mem l)) xs) \<and> set xs = live (node_mem l) \<and>
     nr_entries l = of_nat (length xs)"

definition uses_ops ::
  "('m \<Rightarrow> u64 \<Rightarrow> 'e \<Rightarrow> u32 c_result) \<Rightarrow> ('m \<Rightarrow> 'e \<Rightarrow> (u64 \<times> 'm) c_result) \<Rightarrow> ('m \<Rightarrow> u64 \<Rightarrow> 'm c_result) \<Rightarrow> ('m, 'e) rblist \<Rightarrow> bool" where
  "uses_ops cmp new del l \<longleftrightarrow> node_cmp l = cmp \<and> node_new l = new \<and> node_delete l = del"

text \<open>
  What \<open>rblist.c\<close> asks of its callbacks: every node alive has a key, comparing an entry with a node has the sign of
  comparing their keys, a new node is fresh, aligned and has the entry's key, and deleting a node takes only it
  away.  The conditions \<open>good\<close> on the memory and \<open>fits\<close> on an entry are the owner's.
\<close>

locale node_ops =
  fixes cmp :: "'m \<Rightarrow> u64 \<Rightarrow> 'e \<Rightarrow> u32 c_result" and new :: "'m \<Rightarrow> 'e \<Rightarrow> (u64 \<times> 'm) c_result" and del :: "'m \<Rightarrow> u64 \<Rightarrow> 'm c_result"
    and live :: "'m \<Rightarrow> u64 set" and key :: "'m \<Rightarrow> u64 \<Rightarrow> 'k::linorder" and ekey :: "'m \<Rightarrow> 'e \<Rightarrow> 'k"
    and good :: "'m \<Rightarrow> bool" and fits :: "'m \<Rightarrow> 'e \<Rightarrow> bool"
  assumes cmp_law: "good m \<Longrightarrow> x \<in> live m \<Longrightarrow> fits m e \<Longrightarrow>
      \<exists>w. cmp m x e = Inr w \<and> (0 < sint w \<longleftrightarrow> ekey m e < key m x) \<and> (sint w < 0 \<longleftrightarrow> key m x < ekey m e)"
    and new_law: "good m \<Longrightarrow> fits m e \<Longrightarrow>
      \<exists>n m'. new m e = Inr (n, m') \<and> good m' \<and> (\<forall>x\<in>live m. key m' x = key m x) \<and>
        (if n = 0 then live m' = live m else node_at n \<and> n \<notin> live m \<and> live m' = insert n (live m) \<and> key m' n = ekey m e)"
    and del_law: "good m \<Longrightarrow> x \<in> live m \<Longrightarrow>
      \<exists>m'. del m x = Inr m' \<and> good m' \<and> live m' = live m - {x} \<and> (\<forall>y\<in>live m'. key m' y = key m y)"
begin

lemma search_ok:
  assumes "zip_at h a t k" "set (inorder (plug t k)) \<subseteq> live m" "good m" "fits m e"
    "sorted_wrt (<) (map (key m) (inorder (plug t k)))"
    "\<forall>y\<in>set (after RbR k). key m y < ekey m e" "\<forall>y\<in>set (after RbL k). ekey m e < key m y"
  shows "\<exists>r. search_loop cmp m h e (up k) (link_of k) = Some (Inr r) \<and>
    (case r of Inl x \<Rightarrow> x \<in> set (inorder t) \<and> key m x = ekey m e
     | Inr (p, q) \<Rightarrow> \<exists>k'. p = up k' \<and> q = link_of k' \<and> plug Lf k' = plug t k \<and>
        (\<forall>y\<in>set (after RbR k'). key m y < ekey m e) \<and> (\<forall>y\<in>set (after RbL k'). ekey m e < key m y))"
  using assms
proof (induction t arbitrary: a k)
  case Lf
  have "link_get (link_of k) h = 0" using Lf(1) by (cases k rule: up.cases) (auto simp: zip_at_def link_get_def link_of_def)
  then show ?case using Lf(6,7) by (subst search_loop.simps) (auto intro!: exI [of _ k])
next
  case (Nd c l x r)
  have g: "link_get (link_of k) h = x" using Nd(3) by (cases k rule: up.cases) (auto simp: zip_at_def link_get_def link_of_def)
  have x: "x \<noteq> 0" "x \<in> live m" using Nd(3,4) by (auto simp: zip_at_def node_at_def inorder_plug_after)
  obtain w where w: "cmp m x e = Inr w" "0 < sint w \<longleftrightarrow> ekey m e < key m x" "sint w < 0 \<longleftrightarrow> key m x < ekey m e"
    using cmp_law [OF Nd(5) x(2) Nd(6)] by blast
  have s: "sorted_wrt (<) (map (key m) (inorder l @ x # inorder r))" using Nd(7) by (auto simp: inorder_plug_after sorted_wrt_append)
  have z: "zip_at h (child RbL h x) l (Fr RbL c x r # k)" "zip_at h (child RbR h x) r (Fr RbR c x l # k)" using Nd(3) by (auto simp: zip_at_def)
  consider "ekey m e < key m x" | "key m x < ekey m e" | "key m x = ekey m e" by force
  then show ?case
  proof cases
    case 1
    have "\<forall>y\<in>set (inorder r). ekey m e < key m y" using s 1 by (auto simp: sorted_wrt_append)
    then show ?thesis using Nd(1) [OF z(1)] Nd(4-9) 1 w x g
      by (subst search_loop.simps) (fastforce simp: nd_def link_of_def split: sum.splits)
  next
    case 2
    have "\<forall>y\<in>set (inorder l). key m y < ekey m e" using s 2 by (auto simp: sorted_wrt_append)
    then show ?thesis using Nd(2) [OF z(2)] Nd(4-9) 2 w x g
      by (subst search_loop.simps) (fastforce simp: nd_def link_of_def split: sum.splits)
  next
    case 3
    then show ?thesis using w x g by (subst search_loop.simps) (auto simp: Let_def)
  qed
qed

end

context node_ops
begin

lemma rblist_search_ok:
  assumes l: "list_holds live key l xs" "uses_ops cmp new del l" "good (node_mem l)" "fits (node_mem l) e"
  shows "(\<exists>x\<in>set xs. key (node_mem l) x = ekey (node_mem l) e \<and> rblist_search l e = Inr (Inl x)) \<or>
    (\<exists>k. rblist_search l e = Inr (Inr (up k, link_of k)) \<and> rbtree_at (entries l) (plug Lf k) \<and> rb_ok (plug Lf k) \<and>
      xs = rev (after RbR k) @ after RbL k \<and> (\<forall>y\<in>set (after RbR k). key (node_mem l) y < ekey (node_mem l) e) \<and>
      (\<forall>y\<in>set (after RbL k). ekey (node_mem l) e < key (node_mem l) y))"
proof -
  from l(1) obtain t where t: "rbtree_at (entries l) t" "rb_ok t" "inorder t = xs" "set xs = live (node_mem l)"
    "sorted_wrt (<) (map (key (node_mem l)) xs)" by (auto simp: list_holds_def rb_seq_def)
  obtain a where "zip_at (entries l) a t []" using zip_at_plug [of "entries l" t "[]"] t(1) by auto
  from search_ok [OF this, of "node_mem l" e, unfolded plug.simps up.simps] obtain r where r: "search_loop cmp (node_mem l) (entries l) e 0 Root_Link = Some (Inr r)"
    "case r of Inl x \<Rightarrow> x \<in> set xs \<and> key (node_mem l) x = ekey (node_mem l) e
     | Inr (p, q) \<Rightarrow> \<exists>k'. p = up k' \<and> q = link_of k' \<and> plug Lf k' = t \<and>
        (\<forall>y\<in>set (after RbR k'). key (node_mem l) y < ekey (node_mem l) e) \<and> (\<forall>y\<in>set (after RbL k'). ekey (node_mem l) e < key (node_mem l) y)"
    using t l by (auto simp: link_of_def)
  have s: "rblist_search l e = Inr r" using r(1) l(2) by (simp add: rblist_search_def uses_ops_def)
  show ?thesis
  proof (cases r)
    case (Inl x)
    then show ?thesis using r(2) s by auto
  next
    case (Inr pq)
    then obtain k where "s = s" "pq = (up k, link_of k)" "plug Lf k = t" "\<forall>y\<in>set (after RbR k). key (node_mem l) y < ekey (node_mem l) e"
      "\<forall>y\<in>set (after RbL k). ekey (node_mem l) e < key (node_mem l) y" using r(2) by (cases pq) auto
    then show ?thesis using t s Inr inorder_plug_after [of Lf k] by auto
  qed
qed

text \<open>The link step of a fresh node whose key lies between those of the nodes around the link.\<close>

lemma rblist_link_ok:
  assumes l: "list_holds live key l xs" "rbtree_at (entries l) (plug Lf k)" "rb_ok (plug Lf k)" "xs = rev (after RbR k) @ after RbL k"
    and n: "node_at n" "n \<notin> live (node_mem l)" "live m = insert n (live (node_mem l))" "\<forall>x\<in>live (node_mem l). key m x = key (node_mem l) x"
    and e: "\<forall>y\<in>set (after RbR k). key (node_mem l) y < key m n" "\<forall>y\<in>set (after RbL k). key m n < key (node_mem l) y"
  shows "\<exists>l'. rblist_link (l\<lparr>node_mem := m\<rparr>) n (up k) (link_of k) = Inr l' \<and> list_holds live key l' (rev (after RbR k) @ n # after RbL k) \<and>
    node_mem l' = m \<and> (uses_ops cmp new del l \<longrightarrow> uses_ops cmp new del l')"
proof -
  have x: "set xs = live (node_mem l)" "sorted_wrt (<) (map (key (node_mem l)) xs)" "nr_entries l = of_nat (length xs)" using l(1) by (auto simp: list_holds_def)
  have "n \<notin> set (addrs k)" using n(2) x(1) l(4) by (auto simp: set_after)
  from insert_ok [OF l(2,3) n(1) this] obtain h t where h: "bnd (rb_link_node n (up k) (link_of k) (entries l)) (rb_insert_color n) = Inr h" "rbtree_at h t" "rb_ok t"
    "inorder t = rev (after RbR k) @ n # after RbL k" by blast
  let ?l = "l\<lparr>node_mem := m, entries := h, nr_entries := nr_entries l + 1\<rparr>"
  have m: "map (key m) (rev (after RbR k)) = map (key (node_mem l)) (rev (after RbR k))" "map (key m) (after RbL k) = map (key (node_mem l)) (after RbL k)"
    using n(4) x(1) l(4) by auto
  have "sorted_wrt (<) (map (key m) (rev (after RbR k) @ n # after RbL k))"
    using x(2) e unfolding map_append list.map m l(4) sorted_wrt_append by auto
  then have "list_holds live key ?l (rev (after RbR k) @ n # after RbL k)"
    using h x n l(4) by (auto simp: list_holds_def rb_seq_def)
  then show ?thesis using h(1) by (auto simp: rblist_link_def uses_ops_def)
qed

lemma find_ok:
  assumes l: "list_holds live key l xs" "uses_ops cmp new del l" "good (node_mem l)" "fits (node_mem l) e"
  shows "\<exists>n. rblist__find l e = Inr n \<and>
    (if ekey (node_mem l) e \<in> key (node_mem l) ` set xs then n \<in> set xs \<and> key (node_mem l) n = ekey (node_mem l) e else n = 0)"
  using rblist_search_ok [OF l]
proof (elim disjE bexE exE conjE)
  fix k
  assume "rblist_search l e = Inr (Inr (up k, link_of k))" "xs = rev (after RbR k) @ after RbL k"
    "\<forall>y\<in>set (after RbR k). key (node_mem l) y < ekey (node_mem l) e" "\<forall>y\<in>set (after RbL k). ekey (node_mem l) e < key (node_mem l) y"
  then show ?thesis by (fastforce simp: rblist__find_def rblist__findnew_create_def)
qed (force simp: rblist__find_def rblist__findnew_create_def)

text \<open>What adding an entry gives: the error code of \<open>rblist__add_node\<close> and the node of \<open>rblist__findnew\<close>.\<close>

lemma create_ok:
  assumes l: "list_holds live key l xs" "uses_ops cmp new del l" "good (node_mem l)" "fits (node_mem l) e"
  shows "\<exists>ret n l' ys. rblist__add_node l e = Inr (ret, l') \<and> rblist__findnew l e = Inr (n, l') \<and>
    list_holds live key l' ys \<and> uses_ops cmp new del l' \<and> good (node_mem l') \<and> (\<forall>x\<in>set xs. key (node_mem l') x = key (node_mem l) x) \<and>
    (if ekey (node_mem l) e \<in> key (node_mem l) ` set xs
     then ret = - EEXIST \<and> l' = l \<and> ys = xs \<and> n \<in> set xs \<and> key (node_mem l) n = ekey (node_mem l) e
     else new (node_mem l) e = Inr (n, node_mem l') \<and> (if n = 0 then ret = - ENOMEM \<and> ys = xs
     else ret = 0 \<and> n \<notin> set xs \<and> key (node_mem l') n = ekey (node_mem l) e \<and> (\<exists>us vs. xs = us @ vs \<and> ys = us @ n # vs)))"
  using rblist_search_ok [OF l]
proof (elim disjE bexE exE conjE)
  fix x
  assume "x \<in> set xs" "key (node_mem l) x = ekey (node_mem l) e" "rblist_search l e = Inr (Inl x)"
  then show ?thesis using l by (force simp: rblist__add_node_def rblist__findnew_def rblist__findnew_create_def)
next
  fix k
  let ?m = "node_mem l"
  assume s: "rblist_search l e = Inr (Inr (up k, link_of k))" "rbtree_at (entries l) (plug Lf k)" "rb_ok (plug Lf k)" and xs: "xs = rev (after RbR k) @ after RbL k"
    and o: "\<forall>y\<in>set (after RbR k). key ?m y < ekey ?m e" "\<forall>y\<in>set (after RbL k). ekey ?m e < key ?m y"
  have ne: "ekey ?m e \<notin> key ?m ` set xs" using o xs by fastforce
  have lv: "set xs = live ?m" using l(1) by (simp add: list_holds_def)
  obtain n m where m: "new ?m e = Inr (n, m)" "good m" "\<forall>x\<in>live ?m. key m x = key ?m x"
    "if n = 0 then live m = live ?m else node_at n \<and> n \<notin> live ?m \<and> live m = insert n (live ?m) \<and> key m n = ekey ?m e" using new_law [OF l(3,4)] by blast
  have nn: "node_new l ?m e = Inr (n, m)" using m(1) l(2) by (simp add: uses_ops_def)
  show ?thesis
  proof (cases "n = 0")
    case True
    have e: "map (key m) xs = map (key ?m) xs" using m(3) lv by auto
    have "sorted_wrt (<) (map (key m) xs)" using l(1) unfolding e list_holds_def by blast
    then have "list_holds live key (l\<lparr>node_mem := m\<rparr>) xs" using l(1) m(4) True by (simp add: list_holds_def)
    then show ?thesis using s nn True m l ne lv by (auto simp: rblist__add_node_def rblist__findnew_def rblist__findnew_create_def uses_ops_def)
  next
    case False
    then have n: "node_at n" "n \<notin> live ?m" "live m = insert n (live ?m)" "key m n = ekey ?m e" using m(4) by auto
    from rblist_link_ok [OF l(1) s(2,3) xs n(1-3) m(3)] o n(4) obtain l' where
      l': "rblist_link (l\<lparr>node_mem := m\<rparr>) n (up k) (link_of k) = Inr l'" "list_holds live key l' (rev (after RbR k) @ n # after RbL k)" "node_mem l' = m" "uses_ops cmp new del l'"
      using l(2) by auto
    show ?thesis
      by (intro exI [of _ 0] exI [of _ n] exI [of _ l'] exI [of _ "rev (after RbR k) @ n # after RbL k"])
        (use s nn False m l' ne lv n xs in \<open>auto simp: rblist__add_node_def rblist__findnew_def rblist__findnew_create_def\<close>)
  qed
qed

end

text \<open>The contents of a node outside the tree do not matter.\<close>

lemma overwrite_seq:
  assumes "rb_seq h xs" "n \<notin> set xs"
  shows "rb_seq (overwrite j n h) xs"
proof -
  obtain t where t: "rbtree_at h t" "rb_ok t" "inorder t = xs" using assms(1) by (auto simp: rb_seq_def)
  have "tree_at (overwrite j n h) p a t = tree_at h p a t" for p a
    by (rule tree_at_cong) (use assms(2) t(3) in \<open>auto simp: overwrite_def child_def split: rb_side.splits\<close>)
  then have "rbtree_at (overwrite j n h) t" using t(1) by (simp add: rbtree_at_def) (simp add: overwrite_def)
  then show ?thesis using t by (auto simp: rb_seq_def)
qed

context node_ops
begin

lemma remove_ok:
  assumes l: "list_holds live key l xs" "uses_ops cmp new del l" "good (node_mem l)" "x \<in> set xs"
  shows "\<exists>l'. rblist__remove_node l x = Inr l' \<and> list_holds live key l' (remove1 x xs) \<and> uses_ops cmp new del l' \<and> good (node_mem l') \<and>
    (\<forall>y\<in>set xs - {x}. key (node_mem l') y = key (node_mem l) y)"
proof -
  let ?m = "node_mem l"
  have q: "rb_seq (entries l) xs" and srt: "sorted_wrt (<) (map (key ?m) xs)" and lv: "set xs = live ?m" and nr: "nr_entries l = of_nat (length xs)"
    using l(1) by (auto simp: list_holds_def)
  have d: "distinct xs" using rbt.holds_nodes [OF q] by blast
  obtain h where h: "rb_erase x (entries l) = Inr h" "rb_seq h (remove1 x xs)" using rbt.erase_law [OF q l(4)] by blast
  obtain m where m: "del ?m x = Inr m" "good m" "live m = live ?m - {x}" "\<forall>y\<in>live m. key m y = key ?m y" using del_law [OF l(3)] l(4) lv by blast
  obtain us vs where xs: "xs = us @ x # vs" using l(4) by (meson split_list)
  have r: "remove1 x xs = us @ vs" using xs d by (simp add: remove1_append)
  have e: "map (key m) (us @ vs) = map (key ?m) (us @ vs)" using m(3,4) lv d unfolding xs by auto
  have "sorted_wrt (<) (map (key m) (remove1 x xs))" using srt unfolding r e unfolding xs by (simp add: sorted_wrt_append)
  moreover have "nr_entries l - 1 = of_nat (length (remove1 x xs))" unfolding r nr unfolding xs by simp
  moreover have "set (remove1 x xs) = live m" using m(3) lv d by simp
  moreover have "x \<notin> set (remove1 x xs)" using d by simp
  then have "rb_seq (overwrite (junk l) x h) (remove1 x xs)" by (rule overwrite_seq [OF h(2)])
  ultimately have "list_holds live key (l\<lparr>entries := overwrite (junk l) x h, nr_entries := nr_entries l - 1, node_mem := m\<rparr>) (remove1 x xs)"
    by (simp add: list_holds_def)
  moreover have "rblist__remove_node l x = Inr (l\<lparr>entries := overwrite (junk l) x h, nr_entries := nr_entries l - 1, node_mem := m\<rparr>)"
    using h(1) m(1) l(2) by (simp add: rblist__remove_node_def uses_ops_def Let_def)
  ultimately show ?thesis using m l(2) lv by (simp add: uses_ops_def)
qed

lemma delete_loop_ok:
  assumes "list_holds live key l xs" "uses_ops cmp new del l" "good (node_mem l)"
  shows "\<exists>l'. delete_loop l (head_or_null xs) = Some (Inr l') \<and> list_holds live key l' [] \<and> good (node_mem l')"
  using assms
proof (induction xs arbitrary: l)
  case Nil
  then show ?case by (simp add: delete_loop.simps)
next
  case (Cons x xs)
  have q: "rb_seq (entries l) ([] @ x # xs)" using Cons(2) by (simp add: list_holds_def)
  have x: "x \<noteq> 0" using rbt.holds_nodes [OF q] by auto
  obtain l' where l': "rblist__remove_node l x = Inr l'" "list_holds live key l' xs" "uses_ops cmp new del l'" "good (node_mem l')"
    using remove_ok [OF Cons(2-4), of x] by auto
  show ?case using Cons(1) [OF l'(2-4)] x l'(1) rbt.succ_law [OF q] by (simp add: delete_loop.simps [of l x])
qed

lemma delete_ok:
  assumes "list_holds live key l xs" "uses_ops cmp new del l" "good (node_mem l)"
  shows "\<exists>m'. rblist__delete (Some l) m = Inr (None, m') \<and> live m' = {} \<and> good m'"
proof -
  have "rb_first (entries l) = Inr (head_or_null xs)" using assms(1) rbt.first_law by (simp add: list_holds_def)
  then show ?thesis using delete_loop_ok [OF assms] by (auto simp: rblist__delete_def list_holds_def)
qed

end

lemma entry_loop_ok:
  "rb_seq h (us @ xs) \<Longrightarrow> entry_loop h (head_or_null xs) idx = Some (Inr (if unat idx < length xs then xs ! unat idx else 0))"
proof (induction xs arbitrary: us idx)
  case Nil
  then show ?case by (simp add: entry_loop.simps)
next
  case (Cons x xs)
  have x: "x \<noteq> 0" using rbt.holds_nodes [OF Cons(2)] by auto
  have i: "idx \<noteq> 0 \<Longrightarrow> unat idx = Suc (unat (idx - 1))" by (metis Suc_pred' unat_gt_0 unat_minus_one)
  show ?case using Cons(1) [of "us @ [x]" "idx - 1"] Cons(2) rbt.succ_law [OF Cons(2)] x i
    by (cases "idx = 0") (auto simp: entry_loop.simps [of h x])
qed

lemma entry_ok:
  assumes "list_holds live key l xs"
  shows "rblist__entry l idx = Inr (if unat idx < length xs then xs ! unat idx else 0)"
  using assms entry_loop_ok [of "entries l" "[]" xs idx] rbt.first_law [of "entries l" xs] by (simp add: rblist__entry_def list_holds_def)

lemma init_ok: "live (node_mem l) = {} \<Longrightarrow> list_holds live key (rblist__init l) []"
  by (simp add: list_holds_def rblist__init_def rb_seq_empty)

end
