(* ===== verification/Strlist.thy ===== *)
theory Strlist
  imports Rblist "HOL-Library.List_Lexorder"
begin

text \<open>
  \<open>util/strlist.c\<close>: lists of strings on top of \<open>rblist.c\<close>, filled from comma-separated text and from files.  The
  callers' strings live in a byte memory, so that a list made with \<open>dont_dupstr\<close> shares them with the caller; a
  string a node has duplicated is its own and is kept as bytes.
\<close>

subsection \<open>Strings\<close>

partial_function (option) c_str :: "(u64 \<Rightarrow> u8) \<Rightarrow> u64 \<Rightarrow> u8 list option" where
  "c_str c a = (if c a = 0 then Some [] else Option.bind (c_str c (a + 1)) (\<lambda>s. Some (c a # s)))"

partial_function (option) strchr :: "(u64 \<Rightarrow> u8) \<Rightarrow> u64 \<Rightarrow> u8 \<Rightarrow> u64 option" where
  "strchr c a ch = (if c a = ch then Some a else if c a = 0 then Some 0 else strchr c (a + 1) ch)"

declare c_str.simps [code] strchr.simps [code]

fun strcmp :: "u8 list \<Rightarrow> u8 list \<Rightarrow> u32" where
  "strcmp [] [] = 0"
| "strcmp [] (b # bs) = - ucast b"
| "strcmp (a # as) [] = ucast a"
| "strcmp (a # as) (b # bs) = (if a = b then strcmp as bs else ucast a - ucast b)"

fun put_string :: "u64 \<Rightarrow> u8 list \<Rightarrow> (u64 \<Rightarrow> u8) \<Rightarrow> u64 \<Rightarrow> u8" where
  "put_string a [] c = c"
| "put_string a (b # bs) c = put_string (a + 1) bs (c(a := b))"

text \<open>\<open>fgets\<close> with room for \<open>n\<close> bytes and the NUL: up to the end of the line, with the bytes left in the file.\<close>

fun fgets :: "nat \<Rightarrow> u8 list \<Rightarrow> u8 list \<times> u8 list" where
  "fgets 0 bs = ([], bs)"
| "fgets (Suc n) [] = ([], [])"
| "fgets (Suc n) (b # bs) = (if b = 10 then ([b], bs) else let (l, r) = fgets n bs in (b # l, r))"

lemma fgets_append: "fst (fgets n bs) @ snd (fgets n bs) = bs"
  by (induction n bs rule: fgets.induct) (auto simp: case_prod_beta Let_def)

subsection \<open>Operations\<close>

datatype str_ref = Own "u8 list" | At u64

record str_mem = "str_ref node_store" +
  chars :: "u64 \<Rightarrow> u8"
  dupstr :: bool
  file_only :: bool

type_synonym strlist = "(str_mem, u64) rblist"

record strlist_config =
  dont_dupstr :: bool
  cfg_file_only :: bool
  dirname :: "u8 list option"

definition str_bytes :: "str_mem \<Rightarrow> str_ref \<Rightarrow> u8 list c_result" where
  "str_bytes m r = (case r of Own s \<Rightarrow> Inr s | At a \<Rightarrow> returns (c_str (chars m) a))"

text \<open>An allocation that is not a node: whether it succeeds.\<close>

definition malloc_bytes :: "str_mem \<Rightarrow> bool \<times> str_mem" where
  "malloc_bytes m = (case pool m of [] \<Rightarrow> (False, m) | a # as \<Rightarrow> (a \<noteq> 0, m\<lparr>pool := as\<rparr>))"

definition strlist__node_new :: "str_mem \<Rightarrow> u64 \<Rightarrow> (u64 \<times> str_mem) c_result" where
  "strlist__node_new m entry =
     (let (snode, m) = malloc_node m in
      if snode = 0 then Inr (0, m)
      else if dupstr m then
        bnd (returns (c_str (chars m) entry)) (\<lambda>s.
          let (ok, m) = malloc_bytes m in
          if ok then Inr (snode, m\<lparr>slots := (slots m)(snode \<mapsto> Own s)\<rparr>) else Inr (0, m))
      else Inr (snode, m\<lparr>slots := (slots m)(snode \<mapsto> At entry)\<rparr>))"

text \<open>Freeing a string that no \<open>strdup\<close> gave is an error.\<close>

definition str_node__delete :: "u64 \<Rightarrow> bool \<Rightarrow> str_mem \<Rightarrow> str_mem c_result" where
  "str_node__delete snode dup m =
     (case slots m snode of
        None \<Rightarrow> Inl Wild_Deref
      | Some (Own s) \<Rightarrow> free_node snode m
      | Some (At a) \<Rightarrow> if dup \<and> a \<noteq> 0 then Inl Wild_Deref else free_node snode m)"

definition strlist__node_delete :: "str_mem \<Rightarrow> u64 \<Rightarrow> str_mem c_result" where
  "strlist__node_delete m snode = str_node__delete snode (dupstr m) m"

definition strlist__node_cmp :: "str_mem \<Rightarrow> u64 \<Rightarrow> u64 \<Rightarrow> u32 c_result" where
  "strlist__node_cmp m snode entry =
     (case slots m snode of
        None \<Rightarrow> Inl Wild_Deref
      | Some r \<Rightarrow> bnd (str_bytes m r) (\<lambda>s. bnd (returns (c_str (chars m) entry)) (\<lambda>str. Inr (strcmp s str))))"

definition strlist__add :: "strlist \<Rightarrow> u64 \<Rightarrow> (int \<times> strlist) c_result" where
  "strlist__add slist new_entry = rblist__add_node slist new_entry"

definition poke :: "u64 \<Rightarrow> u8 list \<Rightarrow> strlist \<Rightarrow> strlist" where
  "poke a bs slist = slist\<lparr>node_mem := (node_mem slist)\<lparr>chars := put_string a bs (chars (node_mem slist))\<rparr>\<rparr>"

text \<open>
  The files: what opening a file gives, an error number or its bytes, and whether a path can be accessed.  The array
  \<open>entry\<close> of \<open>strlist__load\<close> is at the address \<open>buf\<close>.
\<close>

record fsys =
  fs_open :: "u8 list \<Rightarrow> int + u8 list"
  fs_access :: "u8 list \<Rightarrow> bool"

function load_loop :: "u64 \<Rightarrow> strlist \<Rightarrow> u8 list \<Rightarrow> (int \<times> strlist) c_result" where
  "load_loop buf slist data =
     (let (line, rest) = fgets 1023 data in
      if line = [] then Inr (0, slist)
      else let slist = poke buf (line @ [0]) slist; len = length (takeWhile (\<lambda>b. b \<noteq> 0) line) in
        if len = 0 then load_loop buf slist rest
        else let slist = poke (buf + of_nat (len - 1)) [0] slist in
          bnd (strlist__add slist buf) (\<lambda>(err, slist).
            if err \<noteq> 0 then Inr (err, slist) else load_loop buf slist rest))"
  by pat_completeness auto
termination
proof (relation "measure (\<lambda>(_, _, data). length data)")
  have "line \<noteq> [] \<Longrightarrow> (line, rest) = fgets 1023 data \<Longrightarrow> length rest < length data" for line rest and data :: "u8 list"
    using fgets_append [of 1023 data] by (cases "fgets 1023 data") auto
  then show "x = fgets 1023 data \<Longrightarrow> (line, rest) = x \<Longrightarrow> line \<noteq> [] \<Longrightarrow> xa = poke buf (line @ [0]) slist \<Longrightarrow>
      xb = length (takeWhile (\<lambda>b. b \<noteq> 0) line) \<Longrightarrow> xb = 0 \<Longrightarrow> ((buf, xa, rest), buf, slist, data) \<in> measure (\<lambda>(_, _, data). length data)"
    "x = fgets 1023 data \<Longrightarrow> (line, rest) = x \<Longrightarrow> line \<noteq> [] \<Longrightarrow> xa = poke buf (line @ [0]) slist \<Longrightarrow>
      xb = length (takeWhile (\<lambda>b. b \<noteq> 0) line) \<Longrightarrow> xb \<noteq> 0 \<Longrightarrow> xc = poke (buf + word_of_nat (xb - 1)) [0] xa \<Longrightarrow>
      strlist__add xc buf = Inr xd \<Longrightarrow> (xe, y) = xd \<Longrightarrow> \<not> xe \<noteq> 0 \<Longrightarrow> ((buf, y, rest), buf, slist, data) \<in> measure (\<lambda>(_, _, data). length data)"
    for x line rest xa xb xc xd xe y buf slist and data :: "u8 list" by auto
qed simp

definition strlist__load :: "fsys \<Rightarrow> u64 \<Rightarrow> strlist \<Rightarrow> u8 list \<Rightarrow> (int \<times> strlist) c_result" where
  "strlist__load fs buf slist filename =
     (case fs_open fs filename of Inl errno \<Rightarrow> Inr (- errno, slist) | Inr data \<Rightarrow> load_loop buf slist data)"

definition file_url :: "u8 list" where
  "file_url = [102, 105, 108, 101, 58, 47, 47]"

definition strlist__parse_list_entry :: "fsys \<Rightarrow> u64 \<Rightarrow> strlist \<Rightarrow> u64 \<Rightarrow> u8 list option \<Rightarrow> (int \<times> strlist) c_result" where
  "strlist__parse_list_entry fs buf slist s subst_dir =
     bnd (returns (c_str (chars (node_mem slist)) s)) (\<lambda>str.
       if take 7 str = file_url then strlist__load fs buf slist (drop 7 str)
       else case subst_dir of
         None \<Rightarrow> strlist__add slist s
       | Some dir \<Rightarrow>
           let (ok, m) = malloc_bytes (node_mem slist); slist = slist\<lparr>node_mem := m\<rparr>; subst = dir @ 47 # str in
           if \<not> ok then Inr (- ENOMEM, slist)
           else if fs_access fs subst then strlist__load fs buf slist subst
           else if file_only m then Inr (- ENOENT, slist)
           else strlist__add slist s)"

partial_function (option) strlist__parse_list :: "fsys \<Rightarrow> u64 \<Rightarrow> strlist \<Rightarrow> u64 \<Rightarrow> u8 list option \<Rightarrow> (int \<times> strlist) c_result option" where
  "strlist__parse_list fs buf slist s subst_dir =
     Option.bind (strchr (chars (node_mem slist)) s 44) (\<lambda>sep.
       if sep \<noteq> 0 then
         (case strlist__parse_list_entry fs buf (poke sep [0] slist) s subst_dir of
            Inl er \<Rightarrow> Some (Inl er)
          | Inr (err, slist) \<Rightarrow>
              let slist = poke sep [44] slist in
              if err \<noteq> 0 then Some (Inr (err, slist)) else strlist__parse_list fs buf slist (sep + 1) subst_dir)
       else if chars (node_mem slist) s \<noteq> 0 then Some (strlist__parse_list_entry fs buf slist s subst_dir)
       else Some (Inr (0, slist)))"

declare strlist__parse_list.simps [code]

definition strlist__remove :: "strlist \<Rightarrow> u64 \<Rightarrow> strlist c_result" where
  "strlist__remove slist snode = rblist__remove_node slist snode"

definition strlist__find :: "strlist \<Rightarrow> u64 \<Rightarrow> u64 c_result" where
  "strlist__find slist entry = rblist__find slist entry"

text \<open>\<open>ok\<close> tells whether \<open>malloc\<close> gives the list itself; \<open>h\<close> is what memory holds where a node is not allocated.\<close>

definition strlist__new ::
  "bool \<Rightarrow> rb_heap \<Rightarrow> str_mem \<Rightarrow> fsys \<Rightarrow> u64 \<Rightarrow> u64 \<Rightarrow> strlist_config option \<Rightarrow> (strlist option \<times> str_mem) c_result" where
  "strlist__new ok h m fs buf list config =
     (if \<not> ok then Inr (None, m)
      else let (dup, fo, dir) = (case config of None \<Rightarrow> (True, False, None) | Some c \<Rightarrow> (\<not> dont_dupstr c, cfg_file_only c, dirname c));
               m = m\<lparr>dupstr := dup, file_only := fo\<rparr>;
               slist = rblist__init \<lparr>entries = h, nr_entries = 0, node_cmp = strlist__node_cmp, node_new = strlist__node_new,
                                     node_delete = strlist__node_delete, node_mem = m, junk = h\<rparr>
           in if list = 0 then Inr (Some slist, m)
              else bnd (bnd (returns (strlist__parse_list fs buf slist list dir)) id) (\<lambda>(err, slist).
                if err \<noteq> 0 then Inr (None, node_mem slist) else Inr (Some slist, node_mem slist)))"

definition strlist__delete :: "strlist option \<Rightarrow> str_mem \<Rightarrow> (strlist option \<times> str_mem) c_result" where
  "strlist__delete slist m = (if slist \<noteq> None then rblist__delete slist m else Inr (slist, m))"

definition strlist__entry :: "strlist \<Rightarrow> u32 \<Rightarrow> u64 c_result" where
  "strlist__entry slist idx = rblist__entry slist idx"

definition strlist__has_entry :: "strlist \<Rightarrow> u64 \<Rightarrow> bool c_result" where
  "strlist__has_entry slist entry = bnd (strlist__find slist entry) (\<lambda>n. Inr (n \<noteq> 0))"

definition strlist__empty :: "strlist \<Rightarrow> bool" where
  "strlist__empty slist = rblist__empty slist"

definition strlist__nr_entries :: "strlist \<Rightarrow> u32" where
  "strlist__nr_entries slist = rblist__nr_entries slist"

definition strlist__first :: "strlist \<Rightarrow> u64 c_result" where
  "strlist__first slist = rb_first (entries slist)"

definition strlist__next :: "strlist \<Rightarrow> u64 \<Rightarrow> u64 c_result" where
  "strlist__next slist sn = (if sn = 0 then Inr 0 else rb_next (entries slist) sn)"

subsection \<open>Comparing strings\<close>

lemma sint_byte_diff: "sint (ucast (a :: u8) - ucast (b :: u8) :: u32) = uint a - uint b"
proof -
  have "uint a < 256" "uint b < 256" "0 \<le> uint a" "0 \<le> uint b" using uint_bounded [of a] uint_bounded [of b] by auto
  moreover have "sint (ucast a :: u32) = uint a" "sint (ucast b :: u32) = uint b"
    using calculation order_trans [OF _ uint_ge_0, of "- 2147483648"] by (simp_all add: sint_uint uint_up_ucast is_up signed_take_bit_int_eq_self_iff)
  moreover have "- 2147483648 \<le> uint a - uint b" "uint a - uint b < 2147483648" using calculation by linarith+
  ultimately show ?thesis by (simp add: sint_word_ariths signed_take_bit_int_eq_self_iff)
qed

lemma strcmp_sign:
  "0 \<notin> set as \<Longrightarrow> 0 \<notin> set bs \<Longrightarrow> (0 < sint (strcmp as bs) \<longleftrightarrow> bs < as) \<and> (sint (strcmp as bs) < 0 \<longleftrightarrow> as < bs)"
proof (induction as bs rule: strcmp.induct)
  case (2 b bs)
  have "0 < uint b" using 2 uint_ge_0 [of b] by (auto simp: order_less_le uint_0_iff)
  then show ?case using sint_byte_diff [of 0 b] by simp
next
  case (3 a as)
  have "0 < uint a" using 3 uint_ge_0 [of a] by (auto simp: order_less_le uint_0_iff)
  then show ?case using sint_byte_diff [of a 0] by simp
next
  case (4 a as b bs)
  then show ?case using sint_byte_diff [of a b] by (auto simp: word_less_def)
qed simp

lemma c_str_nonzero: "c_str c a = Some s \<Longrightarrow> 0 \<notin> set s"
proof (induction s arbitrary: a)
  case (Cons b s)
  from Cons(2) have "c a \<noteq> 0 \<and> c_str c (a + 1) = Some s \<and> b = c a" by (subst (asm) c_str.simps) (auto split: if_splits bind_splits)
  then show ?case using Cons(1) by auto
qed simp

subsection \<open>The list as a sorted set of strings\<close>

definition str_live :: "str_mem \<Rightarrow> u64 set" where
  "str_live m = dom (slots m)"

definition str_key :: "str_mem \<Rightarrow> u64 \<Rightarrow> u8 list" where
  "str_key m x = (case slots m x of None \<Rightarrow> [] | Some r \<Rightarrow> (case str_bytes m r of Inl _ \<Rightarrow> [] | Inr s \<Rightarrow> s))"

definition str_ekey :: "str_mem \<Rightarrow> u64 \<Rightarrow> u8 list" where
  "str_ekey m e = (case c_str (chars m) e of None \<Rightarrow> [] | Some s \<Rightarrow> s)"

definition ref_good :: "str_mem \<Rightarrow> str_ref \<Rightarrow> bool" where
  "ref_good m r \<longleftrightarrow> (case r of Own s \<Rightarrow> dupstr m \<and> 0 \<notin> set s | At a \<Rightarrow> \<not> dupstr m \<and> c_str (chars m) a \<noteq> None)"

definition str_good :: "str_mem \<Rightarrow> bool" where
  "str_good m \<longleftrightarrow> slots m 0 = None \<and> (\<forall>r\<in>ran (slots m). ref_good m r)"

definition str_fits :: "str_mem \<Rightarrow> u64 \<Rightarrow> bool" where
  "str_fits m e \<longleftrightarrow> c_str (chars m) e \<noteq> None"

lemma ref_good_bytes: "ref_good m r \<Longrightarrow> \<exists>s. str_bytes m r = Inr s \<and> 0 \<notin> set s"
  by (cases r) (auto simp: ref_good_def str_bytes_def c_str_nonzero)

text \<open>Memories that agree on the caller's strings and on \<open>dupstr\<close> read a string alike.\<close>

lemma str_mem_same:
  assumes "chars m' = chars m" "dupstr m' = dupstr m"
  shows "str_bytes m' r = str_bytes m r" "ref_good m' r = ref_good m r"
  using assms by (cases r; simp add: str_bytes_def ref_good_def)+

lemma strdup_node_ok:
  assumes "dupstr m" "c_str (chars m) e = Some s"
  shows "\<exists>n m'. strlist__node_new m e = Inr (n, m') \<and> chars m' = chars m \<and> dupstr m' = dupstr m \<and> file_only m' = file_only m \<and>
    (if n = 0 then slots m' = slots m else node_at n \<and> slots m n = None \<and> slots m' = (slots m)(n \<mapsto> Own s))"
proof -
  obtain a m1 where a: "malloc_node m = (a, m1)" by fastforce
  then have x: "chars m1 = chars m" "dupstr m1 = dupstr m" "file_only m1 = file_only m" "slots m1 = slots m" "a \<noteq> 0 \<longrightarrow> node_at a \<and> slots m a = None"
    by (auto simp: malloc_node_def split: list.splits if_splits)
  obtain b m2 where b: "malloc_bytes m1 = (b, m2)" by fastforce
  then have y: "chars m2 = chars m" "dupstr m2 = dupstr m" "file_only m2 = file_only m" "slots m2 = slots m"
    using x by (auto simp: malloc_bytes_def split: list.splits)
  show ?thesis using a b x y assms by (cases "a = 0"; cases b) (simp_all add: strlist__node_new_def)
qed

lemma share_node_ok:
  assumes "\<not> dupstr m"
  shows "\<exists>n m'. strlist__node_new m e = Inr (n, m') \<and> chars m' = chars m \<and> dupstr m' = dupstr m \<and> file_only m' = file_only m \<and>
    (if n = 0 then slots m' = slots m else node_at n \<and> slots m n = None \<and> slots m' = (slots m)(n \<mapsto> At e))"
proof -
  obtain a m1 where a: "malloc_node m = (a, m1)" by fastforce
  then have x: "chars m1 = chars m" "dupstr m1 = dupstr m" "file_only m1 = file_only m" "slots m1 = slots m" "a \<noteq> 0 \<longrightarrow> node_at a \<and> slots m a = None"
    by (auto simp: malloc_node_def split: list.splits if_splits)
  show ?thesis using a x assms by (cases "a = 0") (simp_all add: strlist__node_new_def)
qed

lemma node_new_ok:
  assumes "str_fits m e"
  shows "\<exists>n m'. strlist__node_new m e = Inr (n, m') \<and> chars m' = chars m \<and> dupstr m' = dupstr m \<and> file_only m' = file_only m \<and>
    (if n = 0 then slots m' = slots m else node_at n \<and> slots m n = None \<and>
       (\<exists>r. slots m' = (slots m)(n \<mapsto> r) \<and> ref_good m r \<and> str_bytes m r = Inr (str_ekey m e)))"
proof -
  obtain s where s: "c_str (chars m) e = Some s" "0 \<notin> set s" using assms c_str_nonzero by (auto simp: str_fits_def)
  show ?thesis
  proof (cases "dupstr m")
    case True
    then have "ref_good m (Own s)" "str_bytes m (Own s) = Inr (str_ekey m e)" using s by (simp_all add: ref_good_def str_bytes_def str_ekey_def)
    then show ?thesis using strdup_node_ok [OF True s(1)] by metis
  next
    case False
    then have "ref_good m (At e)" "str_bytes m (At e) = Inr (str_ekey m e)" using s by (simp_all add: ref_good_def str_bytes_def str_ekey_def)
    then show ?thesis using share_node_ok [OF False, of e] by metis
  qed
qed

interpretation sl: node_ops strlist__node_cmp strlist__node_new strlist__node_delete str_live str_key str_ekey str_good str_fits
proof
  fix m e x
  assume m: "str_good m" "x \<in> str_live m" "str_fits m e"
  then obtain r where r: "slots m x = Some r" "ref_good m r" by (auto simp: str_live_def str_good_def ran_def)
  obtain s where s: "str_bytes m r = Inr s" "0 \<notin> set s" using ref_good_bytes [OF r(2)] by blast
  obtain str where str: "c_str (chars m) e = Some str" "0 \<notin> set str" using m(3) c_str_nonzero by (auto simp: str_fits_def)
  show "\<exists>w. strlist__node_cmp m x e = Inr w \<and> (0 < sint w) = (str_ekey m e < str_key m x) \<and> (sint w < 0) = (str_key m x < str_ekey m e)"
    using r s str strcmp_sign [OF s(2) str(2)] by (simp add: strlist__node_cmp_def str_key_def str_ekey_def)
next
  fix m e
  assume m: "str_good m" "str_fits m e"
  obtain n m' where n: "strlist__node_new m e = Inr (n, m')" "chars m' = chars m" "dupstr m' = dupstr m"
    "if n = 0 then slots m' = slots m else node_at n \<and> slots m n = None \<and> (\<exists>r. slots m' = (slots m)(n \<mapsto> r) \<and> ref_good m r \<and> str_bytes m r = Inr (str_ekey m e))"
    using node_new_ok [OF m(2)] by blast
  note same = str_mem_same [OF n(2,3)]
  show "\<exists>n m'. strlist__node_new m e = Inr (n, m') \<and> str_good m' \<and> (\<forall>x\<in>str_live m. str_key m' x = str_key m x) \<and>
      (if n = 0 then str_live m' = str_live m else node_at n \<and> n \<notin> str_live m \<and> str_live m' = insert n (str_live m) \<and> str_key m' n = str_ekey m e)"
    using n(1,4) m same by (cases "n = 0") (force simp: str_good_def str_live_def str_key_def node_at_def ran_def split: if_splits)+
next
  fix m x
  assume m: "str_good m" "x \<in> str_live m"
  then obtain r where r: "slots m x = Some r" "ref_good m r" by (auto simp: str_live_def str_good_def ran_def)
  let ?m = "m\<lparr>slots := (slots m)(x := None)\<rparr>"
  have d: "strlist__node_delete m x = Inr ?m" using r m by (cases r) (auto simp: strlist__node_delete_def str_node__delete_def free_node_def ref_good_def str_good_def)
  have "str_bytes ?m r = str_bytes m r" "ref_good ?m r = ref_good m r" for r by (cases r; simp add: str_bytes_def ref_good_def)+
  then show "\<exists>m'. strlist__node_delete m x = Inr m' \<and> str_good m' \<and> str_live m' = str_live m - {x} \<and> (\<forall>y\<in>str_live m'. str_key m' y = str_key m y)"
    using d m by (auto simp: str_live_def str_key_def str_good_def ran_def)
qed

subsection \<open>Strings in memory\<close>

lemma c_str_Cons: "c_str c a = Some (b # s) \<longleftrightarrow> c a = b \<and> b \<noteq> 0 \<and> c_str c (a + 1) = Some s"
  by (subst c_str.simps) (auto split: bind_splits)

lemma c_str_Nil: "c_str c a = Some [] \<longleftrightarrow> c a = 0"
  by (subst c_str.simps) (auto split: bind_splits)

lemma c_str_append: "c_str c a = Some (p @ q) \<Longrightarrow> c_str c (a + of_nat (length p)) = Some q"
proof (induction p arbitrary: a)
  case (Cons b p)
  then show ?case using Cons(1) [of "a + 1"] by (simp add: c_str_Cons add.assoc)
qed simp

lemma word_step: "n < 2 ^ 64 \<Longrightarrow> 0 < n \<Longrightarrow> (a :: u64) \<noteq> a + of_nat n"
  by (simp add: word_of_nat_eq_0_iff dvd_imp_le nat_dvd_not_less)

lemma c_str_cut: "c_str c a = Some (p @ b # q) \<Longrightarrow> length p < 2 ^ 64 \<Longrightarrow> c_str (c(a + of_nat (length p) := 0)) a = Some p"
proof (induction p arbitrary: a)
  case (Cons x p)
  define c' where "c' = c(a + of_nat (length (x # p)) := 0)"
  have "c_str (c(a + 1 + of_nat (length p) := 0)) (a + 1) = Some p" by (rule Cons(1)) (use Cons(2,3) in \<open>auto simp: c_str_Cons\<close>)
  then have "c_str c' (a + 1) = Some p" by (simp add: c'_def add.assoc)
  moreover have "a \<noteq> a + of_nat (length (x # p))" using Cons(3) by (intro word_step) auto
  then have "c' a = x \<and> x \<noteq> 0" using Cons(2) by (simp add: c'_def c_str_Cons)
  ultimately show ?case unfolding c'_def [symmetric] by (simp add: c_str_Cons)
qed (simp add: c_str_Nil)

lemma strchr_found: "c_str c a = Some (p @ ch # q) \<Longrightarrow> ch \<notin> set p \<Longrightarrow> strchr c a ch = Some (a + of_nat (length p))"
  by (induction p arbitrary: a) (auto simp: c_str_Cons strchr.simps add.assoc)

lemma strchr_none: "c_str c a = Some p \<Longrightarrow> ch \<notin> set p \<Longrightarrow> ch \<noteq> 0 \<Longrightarrow> strchr c a ch = Some 0"
proof (induction p arbitrary: a)
  case Nil
  then show ?case by (subst strchr.simps) (auto simp: c_str_Nil)
next
  case (Cons b p)
  then show ?case by (subst strchr.simps) (auto simp: c_str_Cons)
qed

lemma put_string_other: "length bs + n < 2 ^ 64 \<Longrightarrow> 0 < n \<Longrightarrow> put_string (a + of_nat n) bs c a = c a"
proof (induction bs arbitrary: n c)
  case (Cons b bs)
  have "a \<noteq> a + of_nat n" using Cons(2,3) by (intro word_step) auto
  moreover have "put_string (a + of_nat (Suc n)) bs (c(a + of_nat n := b)) a = (c(a + of_nat n := b)) a" by (rule Cons(1)) (use Cons(2) in auto)
  ultimately show ?case by (simp add: add.assoc add.commute [of 1])
qed simp

lemma c_str_put: "0 \<notin> set s \<Longrightarrow> length (s @ 0 # r) < 2 ^ 64 \<Longrightarrow> c_str (put_string a (s @ 0 # r) c) a = Some s"
proof (induction s arbitrary: a c)
  case Nil
  then show ?case using put_string_other [of r 1 a "c(a := 0)"] by (simp add: c_str_Nil)
next
  case (Cons b s)
  have "put_string (a + of_nat 1) (s @ 0 # r) (c(a := b)) a = (c(a := b)) a" by (rule put_string_other) (use Cons(3) in auto)
  moreover have "c_str (put_string (a + 1) (s @ 0 # r) (c(a := b))) (a + 1) = Some s" by (rule Cons(1)) (use Cons(2,3) in auto)
  ultimately show ?case using Cons(2) by (simp add: c_str_Cons)
qed

subsection \<open>Adding\<close>

definition str_list :: "strlist \<Rightarrow> u64 list \<Rightarrow> bool" where
  "str_list l xs \<longleftrightarrow> list_holds str_live str_key l xs \<and> uses_ops strlist__node_cmp strlist__node_new strlist__node_delete l \<and> str_good (node_mem l)"

lemma str_create:
  assumes "str_list l xs" "str_fits (node_mem l) e"
  shows "\<exists>ret n l' ys. strlist__add l e = Inr (ret, l') \<and> str_list l' ys \<and> (\<forall>x\<in>set xs. str_key (node_mem l') x = str_key (node_mem l) x) \<and>
    chars (node_mem l') = chars (node_mem l) \<and> dupstr (node_mem l') = dupstr (node_mem l) \<and>
    (if str_ekey (node_mem l) e \<in> str_key (node_mem l) ` set xs then ret = - EEXIST \<and> l' = l \<and> ys = xs
     else strlist__node_new (node_mem l) e = Inr (n, node_mem l') \<and>
       (if n = 0 then ret = - ENOMEM \<and> ys = xs
        else ret = 0 \<and> str_key (node_mem l') n = str_ekey (node_mem l) e \<and> set ys = insert n (set xs)))"
proof -
  from assms(1) have l: "list_holds str_live str_key l xs" "uses_ops strlist__node_cmp strlist__node_new strlist__node_delete l" "str_good (node_mem l)"
    by (auto simp: str_list_def)
  obtain ret n l' ys where r: "rblist__add_node l e = Inr (ret, l')" "list_holds str_live str_key l' ys" "uses_ops strlist__node_cmp strlist__node_new strlist__node_delete l'"
    "str_good (node_mem l')" "\<forall>x\<in>set xs. str_key (node_mem l') x = str_key (node_mem l) x"
    "if str_ekey (node_mem l) e \<in> str_key (node_mem l) ` set xs then ret = - EEXIST \<and> l' = l \<and> ys = xs
     else strlist__node_new (node_mem l) e = Inr (n, node_mem l') \<and> (if n = 0 then ret = - ENOMEM \<and> ys = xs
       else ret = 0 \<and> str_key (node_mem l') n = str_ekey (node_mem l) e \<and> (\<exists>us vs. xs = us @ vs \<and> ys = us @ n # vs))"
    using sl.create_ok [OF l assms(2)] by metis
  have c: "chars (node_mem l') = chars (node_mem l) \<and> dupstr (node_mem l') = dupstr (node_mem l)"
  proof (cases "str_ekey (node_mem l) e \<in> str_key (node_mem l) ` set xs")
    case False
    then show ?thesis using r(6) node_new_ok [OF assms(2)] by auto
  qed (use r(6) in simp)
  show ?thesis
    by (intro exI [of _ ret] exI [of _ n] exI [of _ l'] exI [of _ ys]) (use r c in \<open>auto simp: strlist__add_def str_list_def\<close>)
qed

text \<open>Changing the callers' strings leaves a list of duplicated strings as it is.\<close>

lemma poke_list:
  assumes "str_list l xs" "dupstr (node_mem l)"
  shows "str_list (poke a bs l) xs" "x \<in> set xs \<Longrightarrow> str_key (node_mem (poke a bs l)) x = str_key (node_mem l) x" "dupstr (node_mem (poke a bs l))"
    "pool (node_mem (poke a bs l)) = pool (node_mem l)" "slots (node_mem (poke a bs l)) = slots (node_mem l)"
    "chars (node_mem (poke a bs l)) = put_string a bs (chars (node_mem l))"
proof -
  let ?m = "(node_mem l)\<lparr>chars := put_string a bs (chars (node_mem l))\<rparr>"
  have g: "ref_good (node_mem l) r \<Longrightarrow> ref_good ?m r \<and> str_bytes ?m r = str_bytes (node_mem l) r" for r
    using assms(2) by (cases r) (auto simp: ref_good_def str_bytes_def)
  have k: "x \<in> str_live (node_mem l) \<Longrightarrow> str_key ?m x = str_key (node_mem l) x" for x
    using assms(1) g by (auto simp: str_list_def str_good_def str_live_def str_key_def ran_def)
  have "map (str_key ?m) xs = map (str_key (node_mem l)) xs" using assms(1) k by (auto simp: str_list_def list_holds_def)
  then have "list_holds str_live str_key (poke a bs l) xs" using assms(1) unfolding str_list_def list_holds_def
    by (simp add: poke_def str_live_def del: map_eq_conv)
  then show "str_list (poke a bs l) xs" using assms(1) g by (auto simp: str_list_def str_good_def poke_def uses_ops_def ran_def)
  show "x \<in> set xs \<Longrightarrow> str_key (node_mem (poke a bs l)) x = str_key (node_mem l) x" using k assms(1) by (simp add: poke_def str_list_def list_holds_def)
qed (use assms in \<open>simp_all add: poke_def\<close>)

text \<open>A list that duplicates its strings and holds the nodes \<open>xs\<close>, with the strings as keys.\<close>

definition dup_list :: "strlist \<Rightarrow> u64 list \<Rightarrow> bool" where
  "dup_list l xs \<longleftrightarrow> str_list l xs \<and> dupstr (node_mem l)"

definition strings :: "strlist \<Rightarrow> u64 list \<Rightarrow> u8 list set" where
  "strings l xs = str_key (node_mem l) ` set xs"

lemma dup_poke:
  assumes "dup_list l xs"
  shows "dup_list (poke a bs l) xs" "strings (poke a bs l) xs = strings l xs" "pool_gives n (node_mem (poke a bs l)) = pool_gives n (node_mem l)"
    "chars (node_mem (poke a bs l)) = put_string a bs (chars (node_mem l))"
proof -
  have "str_list l xs" "dupstr (node_mem l)" using assms by (auto simp: dup_list_def)
  note p = poke_list [OF this, where a = a and bs = bs]
  show "dup_list (poke a bs l) xs" using p by (simp add: dup_list_def)
  show "strings (poke a bs l) xs = strings l xs" unfolding strings_def using p(2) by (rule image_cong [OF refl])
  show "pool_gives n (node_mem (poke a bs l)) = pool_gives n (node_mem l)" using p(4,5) by (simp add: pool_gives_def)
  show "chars (node_mem (poke a bs l)) = put_string a bs (chars (node_mem l))" using p(6) .
qed

lemma pool_two:
  assumes "pool_gives (Suc (Suc n)) m" "dupstr m" "strlist__node_new m e = Inr (x, m')" "c_str (chars m) e \<noteq> None"
  shows "x \<noteq> 0" "pool_gives n m'"
proof -
  obtain a b r where p: "pool m = a # b # r" using assms(1) by (cases "pool m"; cases "tl (pool m)") (auto simp: pool_gives_def)
  then have a: "a \<noteq> 0" "b \<noteq> 0" "node_at a" "slots m a = None" using assms(1) by (auto simp: pool_gives_def node_at_def)
  obtain s where "c_str (chars m) e = Some s" using assms(4) by blast
  then have "x = a" "pool m' = r" "slots m' = (slots m)(a \<mapsto> Own s)"
    using a assms(2,3) p by (auto simp: strlist__node_new_def malloc_node_def malloc_bytes_def)
  then show "x \<noteq> 0" "pool_gives n m'" using a assms(1) p by (auto simp: pool_gives_def list_all_iff)
qed

lemma pool_two_any:
  assumes "pool_gives 2 m" "strlist__node_new m e = Inr (x, m')" "str_fits m e"
  shows "x \<noteq> 0"
proof (cases "dupstr m")
  case True
  then show ?thesis using pool_two(1) [of 0 m e x m'] assms by (simp add: numeral_2_eq_2 str_fits_def)
next
  case False
  obtain a as where "pool m = a # as" using assms(1) by (cases "pool m") (auto simp: pool_gives_def)
  then show ?thesis using assms(1,2) False by (auto simp: pool_gives_def numeral_2_eq_2 strlist__node_new_def malloc_node_def node_at_def)
qed

lemma str_add_ok:
  assumes l: "dup_list l xs" and e: "c_str (chars (node_mem l)) e = Some s" and p: "pool_gives (Suc (Suc n)) (node_mem l)"
  shows "if s \<in> strings l xs then strlist__add l e = Inr (- EEXIST, l)
    else \<exists>l' ys. strlist__add l e = Inr (0, l') \<and> dup_list l' ys \<and> strings l' ys = insert s (strings l xs) \<and>
      chars (node_mem l') = chars (node_mem l) \<and> pool_gives n (node_mem l')"
proof -
  have k: "str_ekey (node_mem l) e = s" "str_fits (node_mem l) e" using e by (simp_all add: str_ekey_def str_fits_def)
  obtain ret x l' ys where r: "strlist__add l e = Inr (ret, l')" "str_list l' ys" "\<forall>x\<in>set xs. str_key (node_mem l') x = str_key (node_mem l) x"
    "chars (node_mem l') = chars (node_mem l)" "dupstr (node_mem l') = dupstr (node_mem l)"
    "if s \<in> strings l xs then ret = - EEXIST \<and> l' = l
     else strlist__node_new (node_mem l) e = Inr (x, node_mem l') \<and>
       (if x = 0 then ret = - ENOMEM \<and> ys = xs else ret = 0 \<and> str_key (node_mem l') x = s \<and> set ys = insert x (set xs))"
    using str_create [of l xs e] l k unfolding dup_list_def strings_def by metis
  show ?thesis
  proof (cases "s \<in> strings l xs")
    case False
    then have x: "x \<noteq> 0" "pool_gives n (node_mem l')" using pool_two [OF p] r(6) l e by (auto simp: dup_list_def)
    then have y: "ret = 0" "str_key (node_mem l') x = s" "set ys = insert x (set xs)" using r(6) False by auto
    have "str_key (node_mem l') ` set xs = strings l xs" unfolding strings_def using r(3) by (intro image_cong) auto
    then have "strings l' ys = insert s (strings l xs)" using y by (simp add: strings_def)
    then show ?thesis using False r(1,2,4,5) y(1) x l unfolding dup_list_def by auto
  qed (use r in auto)
qed

text \<open>A text no entry of which names a file.\<close>

definition plain_entry :: "u8 list \<Rightarrow> bool" where
  "plain_entry p \<longleftrightarrow> 44 \<notin> set p \<and> take 7 p \<noteq> file_url"

lemma parse_entry:
  "c_str (chars (node_mem l)) a = Some p \<Longrightarrow> plain_entry p \<Longrightarrow> strlist__parse_list_entry fs buf l a None = strlist__add l a"
  by (simp add: strlist__parse_list_entry_def plain_entry_def)

text \<open>The entries before the first one that is in \<open>S\<close> or that repeats an earlier one.\<close>

fun fresh_prefix :: "'a set \<Rightarrow> 'a list \<Rightarrow> 'a list" where
  "fresh_prefix S [] = []"
| "fresh_prefix S (p # ps) = (if p \<in> S then [] else p # fresh_prefix (insert p S) ps)"

lemma fresh_prefix_all: "distinct ps \<Longrightarrow> set ps \<inter> S = {} \<Longrightarrow> fresh_prefix S ps = ps"
  by (induction ps arbitrary: S) auto

lemma fresh_prefix_distinct: "distinct (fresh_prefix S ps) \<and> set (fresh_prefix S ps) \<inter> S = {}"
  by (induction S ps rule: fresh_prefix.induct) auto

lemma parse_strings:
  assumes "\<forall>p\<in>set ps. plain_entry p" "ps \<noteq> []" "last ps \<noteq> []" "dup_list l xs" "c_str (chars (node_mem l)) a = Some (commas ps)"
    "a \<noteq> 0" "unat a + length (commas ps) < 2 ^ 64" "pool_gives (2 * length ps) (node_mem l)"
  shows "\<exists>ret l' ys. strlist__parse_list fs buf l a None = Some (Inr (ret, l')) \<and> dup_list l' ys \<and> chars (node_mem l') = chars (node_mem l) \<and>
    strings l' ys = set (fresh_prefix (strings l xs) ps) \<union> strings l xs \<and>
    ret = (if distinct ps \<and> set ps \<inter> strings l xs = {} then 0 else - EEXIST)"
  using assms
proof (induction ps arbitrary: l xs a)
  case (Cons p ps)
  let ?c = "chars (node_mem l)"
  have pl: "plain_entry p" "44 \<notin> set p" using Cons(2) by (auto simp: plain_entry_def)
  show ?case
  proof (cases "ps = []")
    case True
    then have s: "c_str ?c a = Some p" "p \<noteq> []" using Cons(4,6) by auto
    then have z: "?c a \<noteq> 0" by (cases p) (auto simp: c_str_Cons)
    have "strlist__parse_list fs buf l a None = Some (strlist__add l a)"
      using strchr_none [OF s(1) pl(2)] z parse_entry [OF s(1) pl(1)] by (subst strlist__parse_list.simps) simp
    then have a: "if p \<in> strings l xs then strlist__parse_list fs buf l a None = Some (Inr (- EEXIST, l))
      else \<exists>l' ys. strlist__parse_list fs buf l a None = Some (Inr (0, l')) \<and> dup_list l' ys \<and> strings l' ys = insert p (strings l xs) \<and> chars (node_mem l') = ?c"
      using str_add_ok [OF Cons(5) s(1), of 0] Cons(9) True by (auto simp: numeral_2_eq_2 split: if_splits)
    show ?thesis
    proof (cases "p \<in> strings l xs")
      case True
      then show ?thesis using a True \<open>ps = []\<close> Cons(5) by auto
    next
      case False
      then obtain l' ys where "strlist__parse_list fs buf l a None = Some (Inr (0, l'))" "dup_list l' ys" "strings l' ys = insert p (strings l xs)" "chars (node_mem l') = ?c"
        using a by auto
      then show ?thesis using False \<open>ps = []\<close> by (intro exI [of _ 0] exI [of _ l'] exI [of _ ys]) auto
    qed
  next
    case ne: False
    define sep where "sep = a + of_nat (length p)"
    define l0 where "l0 = poke sep [0] l"
    have s: "c_str ?c a = Some (p @ 44 # commas ps)" using Cons(6) ne by (simp add: hd_commas)
    have len: "unat a + length p + 1 + length (commas ps) < 2 ^ 64" using Cons(8) ne by (simp add: hd_commas)
    have us: "unat sep = unat a + length p" using len unfolding sep_def by (simp add: unat_word_ariths unat_of_nat)
    then have sep: "sep \<noteq> 0" "unat (sep + 1) = unat sep + 1" "sep + 1 \<noteq> 0" using Cons(7) len by (auto simp: unat_word_ariths unat_eq_zero [symmetric] simp del: unat_eq_zero)
    have c0: "chars (node_mem l0) = ?c(sep := 0)" and l0: "dup_list l0 xs" "strings l0 xs = strings l xs" "pool_gives n (node_mem l0) = pool_gives n (node_mem l)" for n
      using dup_poke [OF Cons(5), where a = sep and bs = "[0]"] by (simp_all add: l0_def)
    have cut: "c_str (chars (node_mem l0)) a = Some p" unfolding c0 sep_def by (rule c_str_cut [OF s]) (use len in auto)
    have tail: "c_str ?c (sep + 1) = Some (commas ps)" "?c sep = 44"
      using c_str_append [of ?c a p "44 # commas ps"] s by (auto simp: sep_def c_str_Cons)
    have step: "strlist__parse_list fs buf l a None = (case strlist__add l0 a of Inl er \<Rightarrow> Some (Inl er) | Inr (err, l1) \<Rightarrow>
        if err \<noteq> 0 then Some (Inr (err, poke sep [44] l1)) else strlist__parse_list fs buf (poke sep [44] l1) (sep + 1) None)"
      using strchr_found [OF s pl(2)] sep(1) parse_entry [OF cut pl(1)] unfolding sep_def [symmetric] l0_def
      by (subst strlist__parse_list.simps) (simp add: Let_def split: sum.splits prod.splits)
    have bk: "chars (node_mem l1) = chars (node_mem l0) \<Longrightarrow> put_string sep [44] (chars (node_mem l1)) = ?c" for l1
      using tail(2) c0 by (auto simp: fun_eq_iff)
    have add: "if p \<in> strings l xs then strlist__add l0 a = Inr (- EEXIST, l0)
      else \<exists>l' ys. strlist__add l0 a = Inr (0, l') \<and> dup_list l' ys \<and> strings l' ys = insert p (strings l xs) \<and>
        chars (node_mem l') = chars (node_mem l0) \<and> pool_gives (2 * length ps) (node_mem l')"
      using str_add_ok [OF l0(1) cut, of "2 * length ps", unfolded l0(2)] Cons(9) l0(3) by simp
    show ?thesis
    proof (cases "p \<in> strings l xs")
      case True
      then have "strlist__parse_list fs buf l a None = Some (Inr (- EEXIST, poke sep [44] l0))" using step add by (simp add: EEXIST_def)
      then show ?thesis using True dup_poke [OF l0(1), where a = sep and bs = "[44]"] l0(2) bk [of l0] by auto
    next
      case False
      then obtain l1 ys where l1: "strlist__add l0 a = Inr (0, l1)" "dup_list l1 ys" "strings l1 ys = insert p (strings l xs)"
        "chars (node_mem l1) = chars (node_mem l0)" "pool_gives (2 * length ps) (node_mem l1)" using add by auto
      let ?l = "poke sep [44] l1"
      note k = dup_poke [OF l1(2), where a = sep and bs = "[44]"]
      have ch: "chars (node_mem ?l) = ?c" using k(4) bk [OF l1(4)] by simp
      have tl: "c_str (chars (node_mem ?l)) (sep + 1) = Some (commas ps)" unfolding ch by (rule tail(1))
      have "\<exists>ret l' zs. strlist__parse_list fs buf ?l (sep + 1) None = Some (Inr (ret, l')) \<and> dup_list l' zs \<and> chars (node_mem l') = chars (node_mem ?l) \<and>
        strings l' zs = set (fresh_prefix (strings ?l ys) ps) \<union> strings ?l ys \<and>
        ret = (if distinct ps \<and> set ps \<inter> strings ?l ys = {} then 0 else - EEXIST)"
        by (rule Cons(1)) (use Cons(2,4) ne k(1,3) tl sep us len l1(5) in auto)
      then obtain ret l' zs where r: "strlist__parse_list fs buf ?l (sep + 1) None = Some (Inr (ret, l'))" "dup_list l' zs" "chars (node_mem l') = ?c"
        "strings l' zs = set (fresh_prefix (insert p (strings l xs)) ps) \<union> insert p (strings l xs)"
        "ret = (if distinct ps \<and> set ps \<inter> insert p (strings l xs) = {} then 0 else - EEXIST)"
        unfolding k(2) l1(3) ch by blast
      have "strlist__parse_list fs buf l a None = Some (Inr (ret, l'))" using step l1(1) r(1) by simp
      then show ?thesis using r(2-5) False by (intro exI [of _ ret] exI [of _ l'] exI [of _ zs]) auto
    qed
  qed
qed simp

subsection \<open>Loading\<close>

lemma fgets_line: "10 \<notin> set s \<Longrightarrow> length s < n \<Longrightarrow> fgets n (s @ 10 # r) = (s @ [10], r)"
  by (induction n "s @ 10 # r" arbitrary: s rule: fgets.induct) (auto simp: Cons_eq_append_conv split: prod.splits)

lemma fgets_rest: "10 \<notin> set t \<Longrightarrow> length t \<le> n \<Longrightarrow> fgets n t = (t, [])"
  by (induction n t rule: fgets.induct) auto

lemma load_step:
  assumes "fgets 1023 data = (s @ [b], rest)" "0 \<notin> set (s @ [b])" "length s < 1023" "dup_list l xs"
  shows "\<exists>l0. load_loop buf l data = bnd (strlist__add l0 buf) (\<lambda>(err, l). if err \<noteq> 0 then Inr (err, l) else load_loop buf l rest) \<and>
    dup_list l0 xs \<and> strings l0 xs = strings l xs \<and> (\<forall>n. pool_gives n (node_mem l0) = pool_gives n (node_mem l)) \<and> c_str (chars (node_mem l0)) buf = Some s"
proof -
  let ?l = "poke buf ((s @ [b]) @ [0]) l"
  let ?k = "poke (buf + of_nat (length s)) [0] ?l"
  note p = dup_poke [OF assms(4), where a = buf and bs = "(s @ [b]) @ [0]"]
  note q = dup_poke [OF p(1), where a = "buf + of_nat (length s)" and bs = "[0]"]
  have t: "takeWhile (\<lambda>b. b \<noteq> 0) (s @ [b]) = s @ [b]" using assms(2) by (auto simp: takeWhile_eq_all_conv)
  have "c_str (chars (node_mem ?l)) buf = Some (s @ [b])" unfolding p(4) using assms(2,3) c_str_put [of "s @ [b]" "[]" buf] by simp
  then have "c_str (chars (node_mem ?k)) buf = Some s"
    using c_str_cut [of "chars (node_mem ?l)" buf s b "[]"] assms(3) unfolding q(4) by simp
  moreover have "load_loop buf l data = bnd (strlist__add ?k buf) (\<lambda>(err, l). if err \<noteq> 0 then Inr (err, l) else load_loop buf l rest)"
    using assms(1) t by (subst load_loop.simps) (simp add: Let_def)
  ultimately show ?thesis using p q by (intro exI [of _ ?k]) auto
qed

lemma load_add:
  assumes "fgets 1023 data = (s @ [b], rest)" "0 \<notin> set (s @ [b])" "length s < 1023" "dup_list l xs" "pool_gives (Suc (Suc n)) (node_mem l)"
  shows "\<exists>l' ys. dup_list l' ys \<and> strings l' ys = insert s (strings l xs) \<and>
    (if s \<in> strings l xs then load_loop buf l data = Inr (- EEXIST, l') else load_loop buf l data = load_loop buf l' rest \<and> pool_gives n (node_mem l'))"
proof -
  obtain l0 where l0: "load_loop buf l data = bnd (strlist__add l0 buf) (\<lambda>(err, l). if err \<noteq> 0 then Inr (err, l) else load_loop buf l rest)"
    "dup_list l0 xs" "strings l0 xs = strings l xs" "\<And>n. pool_gives n (node_mem l0) = pool_gives n (node_mem l)" "c_str (chars (node_mem l0)) buf = Some s"
    using load_step [OF assms(1-4)] by blast
  note a = str_add_ok [OF l0(2,5), of n, unfolded l0(3,4), OF assms(5)]
  show ?thesis
  proof (cases "s \<in> strings l xs")
    case True
    then show ?thesis using a l0(1-3) by (intro exI [of _ l0] exI [of _ xs]) (auto simp: EEXIST_def)
  next
    case False
    then obtain l' ys where "strlist__add l0 buf = Inr (0, l')" "dup_list l' ys" "strings l' ys = insert s (strings l xs)" "pool_gives n (node_mem l')" using a by auto
    then show ?thesis using False l0(1) by (intro exI [of _ l'] exI [of _ ys]) simp
  qed
qed

text \<open>The strings a file gives: its lines, and what is left of a last line without a newline when its last byte is cut.\<close>

definition file_strings :: "u8 list list \<Rightarrow> u8 list \<Rightarrow> u8 list list" where
  "file_strings ls t = ls @ (if t = [] then [] else [butlast t])"

definition file_data :: "u8 list list \<Rightarrow> u8 list \<Rightarrow> u8 list" where
  "file_data ls t = concat (map (\<lambda>s. s @ [10]) ls) @ t"

lemma load_strings:
  assumes "\<forall>s\<in>set ls. 0 \<notin> set s \<and> 10 \<notin> set s \<and> length s < 1023" "0 \<notin> set t" "10 \<notin> set t" "length t \<le> 1023"
    "dup_list l xs" "pool_gives (2 * length (file_strings ls t)) (node_mem l)"
  shows "\<exists>ret l' ys. load_loop buf l (file_data ls t) = Inr (ret, l') \<and> dup_list l' ys \<and>
    strings l' ys = set (fresh_prefix (strings l xs) (file_strings ls t)) \<union> strings l xs \<and>
    ret = (if distinct (file_strings ls t) \<and> set (file_strings ls t) \<inter> strings l xs = {} then 0 else - EEXIST)"
  using assms
proof (induction ls arbitrary: l xs)
  case Nil
  show ?case
  proof (cases "t = []")
    case True
    then show ?thesis using Nil by (subst load_loop.simps) (auto simp: file_data_def file_strings_def numeral_eq_Suc intro!: exI [of _ l] exI [of _ xs])
  next
    case False
    have t: "t = butlast t @ [last t]" using False by simp
    have f: "fgets 1023 (file_data [] t) = (butlast t @ [last t], [])" using fgets_rest [of t 1023] Nil t by (simp add: file_data_def)
    have b: "length t - Suc 0 < 1023" using Nil(4) False by (cases t) auto
    have e: "load_loop buf k [] = Inr (0, k)" for k by (subst load_loop.simps) (simp add: numeral_eq_Suc)
    obtain l' ys where "dup_list l' ys" "strings l' ys = insert (butlast t) (strings l xs)"
      "if butlast t \<in> strings l xs then load_loop buf l (file_data [] t) = Inr (- EEXIST, l') else load_loop buf l (file_data [] t) = load_loop buf l' []"
      using load_add [OF f, of l xs 0 buf] b t Nil False by (auto simp: file_strings_def numeral_2_eq_2 split: if_splits)
    then show ?thesis using False e by (intro exI [of _ "if butlast t \<in> strings l xs then - EEXIST else 0"] exI [of _ l'] exI [of _ ys]) (auto simp: file_strings_def)
  qed
next
  case (Cons s ls)
  have f: "fgets 1023 (file_data (s # ls) t) = (s @ [10], file_data ls t)" using fgets_line [of s 1023 "file_data ls t"] Cons(2) by (simp add: file_data_def)
  obtain l1 ys where l1: "dup_list l1 ys" "strings l1 ys = insert s (strings l xs)"
    "if s \<in> strings l xs then load_loop buf l (file_data (s # ls) t) = Inr (- EEXIST, l1)
     else load_loop buf l (file_data (s # ls) t) = load_loop buf l1 (file_data ls t) \<and> pool_gives (2 * length (file_strings ls t)) (node_mem l1)"
    using load_add [OF f, of l xs "2 * length (file_strings ls t)" buf] Cons by (auto simp: file_strings_def split: if_splits)
  show ?case
  proof (cases "s \<in> strings l xs")
    case True
    then show ?thesis using l1 by (intro exI [of _ "- EEXIST"] exI [of _ l1] exI [of _ ys]) (auto simp: file_strings_def)
  next
    case False
    then obtain ret l' zs where r: "load_loop buf l1 (file_data ls t) = Inr (ret, l')" "dup_list l' zs"
      "strings l' zs = set (fresh_prefix (strings l1 ys) (file_strings ls t)) \<union> strings l1 ys"
      "ret = (if distinct (file_strings ls t) \<and> set (file_strings ls t) \<inter> strings l1 ys = {} then 0 else - EEXIST)"
      using Cons(1) [OF _ Cons(3-5) l1(1)] Cons(2) l1(3) by auto
    then show ?thesis using False l1(2,3) by (intro exI [of _ ret] exI [of _ l'] exI [of _ zs]) (auto simp: file_strings_def)
  qed
qed

subsection \<open>Properties\<close>

text \<open>
  Claim C13.  \<open>strlist__add\<close> puts a string into the sorted set of strings of a list: it returns 0 and the list holds
  the string as well, or \<open>-EEXIST\<close> with the list unchanged when it was there, or \<open>-ENOMEM\<close> with the same
  strings, which only happens when \<open>malloc\<close> cannot give the node and its string.  Unless memory ran out \<open>strlist__find\<close> then gives a node with that string, and \<open>strlist__nr_entries\<close>
  counts the strings.
\<close>

theorem strlist_add_then_find:
  assumes "str_list l xs" "str_fits (node_mem l) e"
  shows "\<exists>ret l' ys. strlist__add l e = Inr (ret, l') \<and> str_list l' ys \<and> strlist__nr_entries l' = of_nat (length ys) \<and>
    (if str_ekey (node_mem l) e \<in> strings l xs then ret = - EEXIST \<and> l' = l \<and> ys = xs
     else ret = 0 \<and> strings l' ys = insert (str_ekey (node_mem l) e) (strings l xs) \<and> length ys = length xs + 1 \<or>
          ret = - ENOMEM \<and> strings l' ys = strings l xs \<and> ys = xs) \<and>
    (pool_gives 2 (node_mem l) \<longrightarrow> ret \<noteq> - ENOMEM) \<and>
    (ret \<noteq> - ENOMEM \<longrightarrow> (\<exists>n. strlist__find l' e = Inr n \<and> n \<in> set ys \<and> str_key (node_mem l') n = str_ekey (node_mem l) e))"
proof -
  let ?k = "str_ekey (node_mem l) e"
  obtain ret n l' ys where r: "strlist__add l e = Inr (ret, l')" "str_list l' ys" "\<forall>x\<in>set xs. str_key (node_mem l') x = str_key (node_mem l) x"
    "chars (node_mem l') = chars (node_mem l)"
    "if ?k \<in> strings l xs then ret = - EEXIST \<and> l' = l \<and> ys = xs
     else if n = 0 then ret = - ENOMEM \<and> ys = xs else ret = 0 \<and> str_key (node_mem l') n = ?k \<and> set ys = insert n (set xs)"
    "?k \<notin> strings l xs \<longrightarrow> strlist__node_new (node_mem l) e = Inr (n, node_mem l')"
    using str_create [OF assms] unfolding strings_def by metis
  have mm: "pool_gives 2 (node_mem l) \<longrightarrow> ret \<noteq> - ENOMEM"
    using r(5,6) pool_two_any [OF _ _ assms(2)] by (auto simp: ENOMEM_def EEXIST_def split: if_splits)
  have h: "list_holds str_live str_key l' ys" "uses_ops strlist__node_cmp strlist__node_new strlist__node_delete l'" "str_good (node_mem l')" using r(2) by (auto simp: str_list_def)
  have k: "str_ekey (node_mem l') e = ?k" "str_fits (node_mem l') e" using r(4) assms(2) by (simp_all add: str_ekey_def str_fits_def)
  have old: "str_key (node_mem l') ` set xs = strings l xs" unfolding strings_def using r(3) by (intro image_cong) auto
  have f: "?k \<in> strings l' ys \<Longrightarrow> \<exists>n. strlist__find l' e = Inr n \<and> n \<in> set ys \<and> str_key (node_mem l') n = ?k"
    using sl.find_ok [OF h k(2)] unfolding k(1) strings_def strlist__find_def by auto
  have d: "distinct ys" "distinct xs" using r(2) assms(1) rbt.holds_nodes by (auto simp: str_list_def list_holds_def)
  have nn: "n \<in> set xs \<Longrightarrow> str_key (node_mem l') n \<in> strings l xs" using old by auto
  have e: "ret \<noteq> - ENOMEM \<longrightarrow> ?k \<in> strings l' ys" and s: "ret = 0 \<Longrightarrow> ?k \<notin> strings l xs \<Longrightarrow> strings l' ys = insert ?k (strings l xs) \<and> length ys = length xs + 1"
    using r(5) old d nn by (auto simp: strings_def EEXIST_def ENOMEM_def distinct_card [symmetric] card_insert_if split: if_splits)
  show ?thesis
    by (intro exI [of _ ret] exI [of _ l'] exI [of _ ys])
      (use r(1-5) h(1) e f s old mm in \<open>auto simp: strlist__nr_entries_def rblist__nr_entries_def list_holds_def strings_def EEXIST_def ENOMEM_def split: if_splits\<close>)
qed

lemma new_parse:
  assumes "\<forall>p\<in>set ps. plain_entry p" "ps \<noteq> []" "last ps \<noteq> []" "slots m = Map.empty" "c_str (chars m) a = Some (commas ps)"
    "a \<noteq> 0" "unat a + length (commas ps) < 2 ^ 64" "pool_gives (2 * length ps) m"
  shows "\<exists>l xs. dup_list l xs \<and> chars (node_mem l) = chars m \<and>
    strings l xs = set (fresh_prefix {} ps) \<and>
    strlist__new True h m fs buf a None = Inr (if distinct ps then Some l else None, node_mem l)"
proof -
  let ?m = "m\<lparr>dupstr := True, file_only := False\<rparr>"
  let ?l = "rblist__init \<lparr>entries = h, nr_entries = 0, node_cmp = strlist__node_cmp, node_new = strlist__node_new, node_delete = strlist__node_delete, node_mem = ?m, junk = h\<rparr>"
  have l: "dup_list ?l []" "strings ?l [] = {}" "node_mem ?l = ?m" using assms(4)
    by (simp_all add: dup_list_def str_list_def list_holds_def rblist__init_def rb_seq_empty uses_ops_def str_live_def str_good_def strings_def)
  have p: "pool_gives (2 * length ps) (node_mem ?l)" using assms(8) l(3) by (simp add: pool_gives_def)
  obtain ret l' ys where r: "strlist__parse_list fs buf ?l a None = Some (Inr (ret, l'))" "dup_list l' ys" "chars (node_mem l') = chars m"
    "strings l' ys = set (fresh_prefix {} ps)" "ret = (if distinct ps then 0 else - EEXIST)"
    using parse_strings [OF assms(1-3) l(1) _ assms(6,7) p, of fs buf] assms(5) l(2,3) by auto
  then show ?thesis using assms(6)
    by (intro exI [of _ l'] exI [of _ ys]) (auto simp: strlist__new_def Let_def EEXIST_def)
qed

text \<open>
  Claim C12.  \<open>strlist__new\<close> on a text of entries joined with commas gives, when the entries are distinct and there is
  memory, a list with exactly these strings in byte order, and leaves the text as it was.  No entry starts with
  \<^verbatim>\<open>file://\<close>, the last one is not empty, and there is no configuration: the strings are duplicated and
  no directory is given.
\<close>

theorem strlist_new_splits:
  assumes "\<forall>p\<in>set ps. plain_entry p" "ps \<noteq> []" "last ps \<noteq> []" "distinct ps" "slots m = Map.empty" "c_str (chars m) a = Some (commas ps)"
    "a \<noteq> 0" "unat a + length (commas ps) < 2 ^ 64" "pool_gives (2 * length ps) m"
  shows "\<exists>l xs. strlist__new True h m fs buf a None = Inr (Some l, node_mem l) \<and> list_holds str_live str_key l xs \<and>
    map (str_key (node_mem l)) xs = sort ps \<and> chars (node_mem l) = chars m"
proof -
  obtain l xs where l: "dup_list l xs" "chars (node_mem l) = chars m" "strlist__new True h m fs buf a None = Inr (Some l, node_mem l)" "strings l xs = set ps"
    using new_parse [OF assms(1-3,5-9), of h fs buf] assms(4) by (auto simp: fresh_prefix_all)
  have o: "list_holds str_live str_key l xs" "sorted_wrt (<) (map (str_key (node_mem l)) xs)" using l(1) by (auto simp: dup_list_def str_list_def list_holds_def)
  have "map (str_key (node_mem l)) xs = sort ps"
    using assms(4) o(2) l(4) by (intro sorted_distinct_set_unique) (auto simp: strict_sorted_iff strings_def)
  then show ?thesis using l o(1) by blast
qed

text \<open>A memory with the text \<open>b,a\<close> at the address 100, and a file system without files.\<close>

definition text_mem :: "u8 list \<Rightarrow> str_mem" where
  "text_mem s = \<lparr>slots = Map.empty, pool = [8, 16, 24, 32, 40, 48], chars = put_string 100 (s @ [0]) (\<lambda>_. 0), dupstr = True, file_only = False\<rparr>"

definition no_files :: fsys where
  "no_files = \<lparr>fs_open = (\<lambda>_. Inl ENOENT), fs_access = (\<lambda>_. False)\<rparr>"

lemma text_mem_str: "0 \<notin> set s \<Longrightarrow> length s < 100 \<Longrightarrow> c_str (chars (text_mem s)) 100 = Some s"
  using c_str_put [of s "[]" 100 "\<lambda>_. 0"] by (simp add: text_mem_def)

theorem strlist_new_splits_witness:
  "\<exists>l xs. strlist__new True two_nodes (text_mem [98, 44, 97]) no_files 500 100 None = Inr (Some l, node_mem l) \<and>
    list_holds str_live str_key l xs \<and> map (str_key (node_mem l)) xs = [[97], [98]] \<and> chars (node_mem l) = chars (text_mem [98, 44, 97])"
proof -
  have c: "commas [[98], [97]] = [98, 44, 97]" by simp
  have "c_str (chars (text_mem [98, 44, 97])) 100 = Some (commas [[98], [97]])" unfolding c by (rule text_mem_str) simp_all
  moreover have "pool_gives (2 * length [[98] :: u8 list, [97]]) (text_mem [98, 44, 97])" by code_simp
  moreover have "\<forall>p\<in>set [[98], [97]]. plain_entry p" by (simp add: plain_entry_def file_url_def)
  moreover have "sort [[98], [97]] = [[97] :: u8 list, [98]]" by (simp add: sort_key_def)
  ultimately show ?thesis using strlist_new_splits [of "[[98], [97]]" "text_mem [98, 44, 97]" 100 two_nodes no_files 500] by (simp add: text_mem_def)
qed

text \<open>
  Claim C39.  When an entry of the text is there twice \<open>strlist__new\<close> returns NULL and frees only the list: of the
  entries before the first repeated one each has a node that stays allocated, and no other node is.  As in the property of
  distinct entries no entry starts with \<^verbatim>\<open>file://\<close>, the last one is not empty, there is no
  configuration (the strings are duplicated and no directory is given), and there is memory.
\<close>

theorem strlist_new_leaks:
  assumes "\<forall>p\<in>set ps. plain_entry p" "ps \<noteq> []" "last ps \<noteq> []" "\<not> distinct ps" "slots m = Map.empty" "c_str (chars m) a = Some (commas ps)"
    "a \<noteq> 0" "unat a + length (commas ps) < 2 ^ 64" "pool_gives (2 * length ps) m"
  shows "\<exists>m'. strlist__new True h m fs buf a None = Inr (None, m') \<and> slots m' \<noteq> Map.empty \<and>
    bij_betw (str_key m') (dom (slots m')) (set (fresh_prefix {} ps))"
proof -
  obtain l xs where l: "dup_list l xs" "strlist__new True h m fs buf a None = Inr (None, node_mem l)" "strings l xs = set (fresh_prefix {} ps)"
    using new_parse [OF assms(1-3,5-9), of h fs buf] assms(4) by auto
  have d: "dom (slots (node_mem l)) = set xs" "distinct (map (str_key (node_mem l)) xs)"
    using l(1) by (auto simp: dup_list_def str_list_def list_holds_def str_live_def strict_sorted_iff)
  then have "bij_betw (str_key (node_mem l)) (dom (slots (node_mem l))) (set (fresh_prefix {} ps))"
    using l(3) by (simp add: bij_betw_def strings_def distinct_map)
  moreover have "set (fresh_prefix {} ps) \<noteq> {}" using assms(2) by (cases ps) auto
  ultimately show ?thesis using l(2) by (auto simp: bij_betw_def)
qed

theorem strlist_new_leaks_witness:
  "\<exists>m'. strlist__new True two_nodes (text_mem [97, 44, 97]) no_files 500 100 None = Inr (None, m') \<and>
     slots m' \<noteq> Map.empty \<and> str_key m' ` dom (slots m') = {[97]}"
proof -
  have c: "commas [[97], [97]] = [97, 44, 97]" by simp
  have "c_str (chars (text_mem [97, 44, 97])) 100 = Some (commas [[97], [97]])" unfolding c by (rule text_mem_str) simp_all
  moreover have "pool_gives (2 * length [[97] :: u8 list, [97]]) (text_mem [97, 44, 97])" by code_simp
  moreover have "\<forall>p\<in>set [[97], [97]]. plain_entry p" by (simp add: plain_entry_def file_url_def)
  ultimately show ?thesis using strlist_new_leaks [of "[[97], [97]]" "text_mem [97, 44, 97]" 100 two_nodes no_files 500]
    by (auto simp: text_mem_def bij_betw_def)
qed

text \<open>
  Claim C30.  \<open>strlist__load\<close> on a list that duplicates its strings reads a file line by line, given memory, lines
  shorter than 1023 bytes without a NUL and a piece of at most 1023 bytes behind the last newline.  It returns 0 with every line
  added when the lines are distinct and none was in the list; otherwise it returns \<open>-EEXIST\<close> with exactly the lines
  before the first such line added.  Of a piece without a newline all but the last byte counts as the line.
\<close>

theorem strlist_load_lines:
  assumes "fs_open fs filename = Inr (file_data ls t)" "\<forall>s\<in>set ls. 0 \<notin> set s \<and> 10 \<notin> set s \<and> length s < 1023"
    "0 \<notin> set t" "10 \<notin> set t" "length t \<le> 1023" "dup_list l xs" "pool_gives (2 * length (file_strings ls t)) (node_mem l)"
  shows "\<exists>ret l' ys. strlist__load fs buf l filename = Inr (ret, l') \<and> dup_list l' ys \<and>
    (if distinct (file_strings ls t) \<and> set (file_strings ls t) \<inter> strings l xs = {}
     then ret = 0 \<and> strings l' ys = set ls \<union> (if t = [] then {} else {butlast t}) \<union> strings l xs
     else ret = - EEXIST \<and> strings l' ys = set (fresh_prefix (strings l xs) (file_strings ls t)) \<union> strings l xs)"
proof -
  obtain ret l' ys where r: "load_loop buf l (file_data ls t) = Inr (ret, l')" "dup_list l' ys"
    "strings l' ys = set (fresh_prefix (strings l xs) (file_strings ls t)) \<union> strings l xs"
    "ret = (if distinct (file_strings ls t) \<and> set (file_strings ls t) \<inter> strings l xs = {} then 0 else - EEXIST)"
    using load_strings [OF assms(2-7), of buf] by blast
  moreover have "set (file_strings ls t) = set ls \<union> (if t = [] then {} else {butlast t})" by (auto simp: file_strings_def)
  ultimately show ?thesis using assms(1) fresh_prefix_all [of "file_strings ls t" "strings l xs"]
    by (intro exI [of _ ret] exI [of _ l'] exI [of _ ys]) (auto simp: strlist__load_def)
qed

text \<open>
  Claim C29.  In a list of strings \<open>strlist__entry\<close> gives the node with the string at that place of the byte order,
  and NULL past the end; \<open>strlist__delete\<close> returns with every node and the list freed, whatever the memory of a node
  holds once the node is freed.
\<close>

theorem strlist_entry_and_delete:
  assumes "str_list l xs"
  shows "sorted_wrt (<) (map (str_key (node_mem l)) xs) \<and>
    strlist__entry l idx = Inr (if unat idx < length xs then xs ! unat idx else 0) \<and>
    (\<exists>m'. strlist__delete (Some l) m = Inr (None, m') \<and> slots m' = Map.empty)"
proof -
  have h: "list_holds str_live str_key l xs" "uses_ops strlist__node_cmp strlist__node_new strlist__node_delete l" "str_good (node_mem l)" using assms by (auto simp: str_list_def)
  show ?thesis using h(1) entry_ok [OF h(1), of idx] sl.delete_ok [OF h, of m]
    by (auto simp: strlist__entry_def strlist__delete_def str_live_def list_holds_def)
qed

definition no_strings :: "u8 list \<Rightarrow> strlist" where
  "no_strings s = rblist__init \<lparr>entries = two_nodes, nr_entries = 0, node_cmp = strlist__node_cmp, node_new = strlist__node_new,
     node_delete = strlist__node_delete, node_mem = text_mem s, junk = two_nodes\<rparr>"

lemma no_strings_empty: "dup_list (no_strings s) []" "strings (no_strings s) [] = {}" "node_mem (no_strings s) = text_mem s"
  by (simp_all add: dup_list_def str_list_def list_holds_def no_strings_def rblist__init_def rb_seq_empty uses_ops_def str_live_def str_good_def strings_def text_mem_def)

theorem strlist_add_then_find_witness:
  "\<exists>l' ys. strlist__add (no_strings [97]) 100 = Inr (0, l') \<and> str_list l' ys \<and> strings l' ys = {[97]} \<and>
     (\<exists>n. strlist__find l' 100 = Inr n \<and> n \<in> set ys \<and> str_key (node_mem l') n = [97])"
proof -
  have c: "c_str (chars (text_mem [97])) 100 = Some [97]" by (rule text_mem_str) simp_all
  have "str_list (no_strings [97]) []" "str_fits (node_mem (no_strings [97])) 100" "str_ekey (node_mem (no_strings [97])) 100 = [97]"
    using no_strings_empty [of "[97]"] c by (simp_all add: dup_list_def str_fits_def str_ekey_def)
  moreover have "pool_gives 2 (node_mem (no_strings [97]))" unfolding no_strings_empty by code_simp
  ultimately show ?thesis using strlist_add_then_find [of "no_strings [97]" "[]" 100] no_strings_empty(2) [of "[97]"] by auto
qed

text \<open>A file with the line \<open>ab\<close> and the bytes \<open>cd\<close> behind it.\<close>

definition one_file :: fsys where
  "one_file = \<lparr>fs_open = (\<lambda>_. Inr [97, 98, 10, 99, 100]), fs_access = (\<lambda>_. True)\<rparr>"

theorem strlist_load_lines_witness:
  "\<exists>l' ys. strlist__load one_file 500 (no_strings []) [102] = Inr (0, l') \<and> dup_list l' ys \<and> strings l' ys = {[97, 98], [99]}"
proof -
  have "fs_open one_file [102] = Inr (file_data [[97, 98]] [99, 100])" by (simp add: one_file_def file_data_def)
  moreover have "pool_gives (2 * length (file_strings [[97, 98]] [99, 100])) (node_mem (no_strings []))" unfolding no_strings_empty by code_simp
  ultimately show ?thesis using strlist_load_lines [of one_file "[102]" "[[97, 98]]" "[99, 100]" "no_strings []" "[]" 500] no_strings_empty [of "[]"]
    by (auto simp: file_strings_def insert_commute)
qed

theorem strlist_entry_and_delete_witness:
  "\<exists>l xs. strlist__new True two_nodes (text_mem [98, 44, 97]) no_files 500 100 None = Inr (Some l, node_mem l) \<and> xs \<noteq> [] \<and>
     strlist__entry l 0 = Inr (hd xs) \<and> (\<exists>m'. strlist__delete (Some l) (node_mem l) = Inr (None, m') \<and> slots m' = Map.empty)"
proof -
  have c: "commas [[98], [97]] = [98, 44, 97]" by simp
  have "c_str (chars (text_mem [98, 44, 97])) 100 = Some (commas [[98], [97]])" unfolding c by (rule text_mem_str) simp_all
  moreover have "pool_gives (2 * length [[98] :: u8 list, [97]]) (text_mem [98, 44, 97])" by code_simp
  moreover have "\<forall>p\<in>set [[98], [97]]. plain_entry p" by (simp add: plain_entry_def file_url_def)
  ultimately obtain l xs where l: "strlist__new True two_nodes (text_mem [98, 44, 97]) no_files 500 100 None = Inr (Some l, node_mem l)"
    "dup_list l xs" "strings l xs = set [[98], [97]]"
    using new_parse [of "[[98], [97]]" "text_mem [98, 44, 97]" 100 two_nodes no_files 500] by (auto simp: text_mem_def)
  then have "str_list l xs" "xs \<noteq> []" by (auto simp: dup_list_def strings_def)
  then show ?thesis using l(1) strlist_entry_and_delete [of l xs 0 "node_mem l"] by (auto simp: hd_conv_nth)
qed

end
