(* ===== verification/Intlist.thy ===== *)
theory Intlist
  imports Rblist
begin

text \<open>
  \<open>util/intlist.c\<close>: lists of \<open>int\<close> on top of \<open>rblist.c\<close>.  An entry is passed to the callbacks as a pointer that
  carries the integer.
\<close>

subsection \<open>Operations\<close>

record int_node =
  in_i :: u32
  in_priv :: u64

type_synonym int_mem = "int_node node_store"
type_synonym intlist = "(int_mem, u64) rblist"

definition intlist__node_new :: "int_mem \<Rightarrow> u64 \<Rightarrow> (u64 \<times> int_mem) c_result" where
  "intlist__node_new m entry =
     (let (node, m) = malloc_node m in
      if node \<noteq> 0 then Inr (node, m\<lparr>slots := (slots m)(node \<mapsto> \<lparr>in_i = ucast entry, in_priv = 0\<rparr>)\<rparr>) else Inr (0, m))"

definition intlist__node_delete :: "int_mem \<Rightarrow> u64 \<Rightarrow> int_mem c_result" where
  "intlist__node_delete m node = free_node node m"

text \<open>The comparison subtracts two \<open>int\<close>; a difference that is no \<open>int\<close> is undefined behaviour.\<close>

definition in_int :: "int \<Rightarrow> bool" where
  "in_int v \<longleftrightarrow> - (2 ^ 31) \<le> v \<and> v < 2 ^ 31"

definition intlist__node_cmp :: "int_mem \<Rightarrow> u64 \<Rightarrow> u64 \<Rightarrow> u32 c_result" where
  "intlist__node_cmp m node entry =
     (case slots m node of
        None \<Rightarrow> Inl Wild_Deref
      | Some nod \<Rightarrow>
          let d = sint (in_i nod) - sint (ucast entry :: u32)
          in if in_int d then Inr (word_of_int d) else Inl Int_Overflow)"

definition intlist__add :: "intlist \<Rightarrow> u32 \<Rightarrow> (int \<times> intlist) c_result" where
  "intlist__add ilist i = rblist__add_node ilist (scast i)"

definition intlist__remove :: "intlist \<Rightarrow> u64 \<Rightarrow> intlist c_result" where
  "intlist__remove ilist node = rblist__remove_node ilist node"

definition intlist__findnew_create :: "intlist option \<Rightarrow> u32 \<Rightarrow> bool \<Rightarrow> (u64 \<times> intlist option) c_result" where
  "intlist__findnew_create ilist i create =
     (case ilist of
        None \<Rightarrow> Inr (0, None)
      | Some l \<Rightarrow>
          if create then bnd (rblist__findnew l (scast i)) (\<lambda>(n, l). Inr (n, Some l))
          else bnd (rblist__find l (scast i)) (\<lambda>n. Inr (n, Some l)))"

definition intlist__find :: "intlist option \<Rightarrow> u32 \<Rightarrow> u64 c_result" where
  "intlist__find ilist i = bnd (intlist__findnew_create ilist i False) (\<lambda>(n, _). Inr n)"

definition intlist__findnew :: "intlist option \<Rightarrow> u32 \<Rightarrow> (u64 \<times> intlist option) c_result" where
  "intlist__findnew ilist i = intlist__findnew_create ilist i True"

definition intlist__has_entry :: "intlist option \<Rightarrow> u32 \<Rightarrow> bool c_result" where
  "intlist__has_entry ilist i = bnd (intlist__find ilist i) (\<lambda>n. Inr (n \<noteq> 0))"

definition intlist__entry :: "intlist \<Rightarrow> u32 \<Rightarrow> u64 c_result" where
  "intlist__entry ilist idx = rblist__entry ilist idx"

definition intlist__empty :: "intlist \<Rightarrow> bool" where
  "intlist__empty ilist = rblist__empty ilist"

definition intlist__nr_entries :: "intlist \<Rightarrow> u32" where
  "intlist__nr_entries ilist = rblist__nr_entries ilist"

definition intlist__first :: "intlist \<Rightarrow> u64 c_result" where
  "intlist__first ilist = rb_first (entries ilist)"

definition intlist__next :: "intlist \<Rightarrow> u64 \<Rightarrow> u64 c_result" where
  "intlist__next ilist n = (if n = 0 then Inr 0 else rb_next (entries ilist) n)"

text \<open>
  \<open>strtol\<close> in base 10 on the bytes up to the NUL: white space, a sign, digits; the value is cut to the range of
  \<open>long\<close>.  With no digits the value is 0 and nothing is consumed.
\<close>

definition isspace :: "u8 \<Rightarrow> bool" where
  "isspace c \<longleftrightarrow> c = 32 \<or> 9 \<le> c \<and> c \<le> 13"

definition isdigit :: "u8 \<Rightarrow> bool" where
  "isdigit c \<longleftrightarrow> 48 \<le> c \<and> c \<le> 57"

definition digits_value :: "u8 list \<Rightarrow> int" where
  "digits_value ds = fold (\<lambda>d v. 10 * v + (uint d - 48)) ds 0"

definition strtol :: "u8 list \<Rightarrow> int \<times> u8 list" where
  "strtol s =
     (let r = dropWhile isspace s;
          (neg, r) = (case r of [] \<Rightarrow> (False, r) | c # r' \<Rightarrow> if c = 45 then (True, r') else if c = 43 then (False, r') else (False, r));
          ds = takeWhile isdigit r; v = digits_value ds
      in if ds = [] then (0, s)
         else (max (- (2 ^ 63)) (min (2 ^ 63 - 1) (if neg then - v else v)), dropWhile isdigit r))"

lemma strtol_shorter: "length (snd (strtol s)) \<le> length s"
proof -
  have "length (dropWhile isdigit (dropWhile isspace s)) \<le> length s" for s using length_dropWhile_le order_trans by blast
  moreover have "dropWhile isspace s = c # r \<Longrightarrow> length (dropWhile isdigit r) \<le> length s" for c r
    using length_dropWhile_le [of isspace s] length_dropWhile_le [of isdigit r] by simp
  ultimately show ?thesis by (auto simp: strtol_def Let_def split: list.splits)
qed

lemma strtol_tl: "(v, sep) = strtol s \<Longrightarrow> sep \<noteq> [] \<Longrightarrow> length (tl sep) < length s"
  using strtol_shorter [of s] by (cases sep) (auto dest: sym)

function intlist__parse_list :: "intlist \<Rightarrow> u8 list \<Rightarrow> (int \<times> intlist) c_result" where
  "intlist__parse_list ilist s =
     (let (v, sep) = strtol s in
      if sep \<noteq> [] \<and> hd sep \<noteq> 44 then Inr (- EINVAL, ilist)
      else bnd (intlist__add ilist (word_of_int v)) (\<lambda>(err, ilist).
        if err \<noteq> 0 then Inr (err, ilist)
        else if sep \<noteq> [] then intlist__parse_list ilist (tl sep)
        else Inr (err, ilist)))"
  by pat_completeness auto
termination
  by (relation "measure (\<lambda>(_, s). length s)") (auto dest: strtol_tl)

definition intlist__delete :: "intlist option \<Rightarrow> int_mem \<Rightarrow> (intlist option \<times> int_mem) c_result" where
  "intlist__delete ilist m = (if ilist \<noteq> None then rblist__delete ilist m else Inr (ilist, m))"

text \<open>\<open>ok\<close> tells whether \<open>malloc\<close> gives the list itself; \<open>h\<close> is what memory holds where a node is not allocated.\<close>

definition intlist__new :: "bool \<Rightarrow> rb_heap \<Rightarrow> int_mem \<Rightarrow> u8 list option \<Rightarrow> (intlist option \<times> int_mem) c_result" where
  "intlist__new ok h m slist =
     (if \<not> ok then Inr (None, m)
      else let l = rblist__init \<lparr>entries = h, nr_entries = 0, node_cmp = intlist__node_cmp, node_new = intlist__node_new,
                                 node_delete = intlist__node_delete, node_mem = m, junk = h\<rparr>
           in case slist of
                None \<Rightarrow> Inr (Some l, m)
              | Some s \<Rightarrow> bnd (intlist__parse_list l s) (\<lambda>(err, l).
                  if err \<noteq> 0 then bnd (intlist__delete (Some l) m) (\<lambda>(_, m). Inr (None, m))
                  else Inr (Some l, node_mem l)))"

lemma int_pointer [simp]: "(ucast (scast (i :: u32) :: u64) :: u32) = i"
proof (rule bit_word_eqI)
  fix n
  assume "n < LENGTH(32)"
  then show "bit (ucast (scast i :: u64) :: u32) n = bit i n" by (cases "n = 31") (simp_all add: bit_simps min_def)
qed

subsection \<open>The list as a sorted set of integers\<close>

text \<open>The keys are the integers; an entry fits if its difference to each of them is an \<open>int\<close>.\<close>

definition int_live :: "int_mem \<Rightarrow> u64 set" where
  "int_live m = dom (slots m)"

definition int_key :: "int_mem \<Rightarrow> u64 \<Rightarrow> int" where
  "int_key m x = (case slots m x of None \<Rightarrow> 0 | Some nod \<Rightarrow> sint (in_i nod))"

definition int_ekey :: "int_mem \<Rightarrow> u64 \<Rightarrow> int" where
  "int_ekey m e = sint (ucast e :: u32)"

definition int_good :: "int_mem \<Rightarrow> bool" where
  "int_good m \<longleftrightarrow> slots m 0 = None"

definition int_fits :: "int_mem \<Rightarrow> u64 \<Rightarrow> bool" where
  "int_fits m e \<longleftrightarrow> (\<forall>x\<in>dom (slots m). in_int (int_key m x - int_ekey m e))"

lemma in_int_word: "in_int v \<Longrightarrow> sint (word_of_int v :: u32) = v"
  by (simp add: in_int_def sint_sbintrunc' signed_take_bit_int_eq_self)

interpretation il: node_ops intlist__node_cmp intlist__node_new intlist__node_delete int_live int_key int_ekey int_good int_fits
proof
  fix m e x
  assume m: "int_good m" "x \<in> int_live m" "int_fits m e"
  then obtain nod where n: "slots m x = Some nod" by (auto simp: int_live_def)
  then have "in_int (sint (in_i nod) - sint (ucast e :: u32))" using m by (auto simp: int_fits_def int_key_def int_ekey_def dest!: bspec)
  then show "\<exists>w. intlist__node_cmp m x e = Inr w \<and> (0 < sint w) = (int_ekey m e < int_key m x) \<and> (sint w < 0) = (int_key m x < int_ekey m e)"
    using n in_int_word [of "sint (in_i nod) - sint (ucast e :: u32)"] by (simp add: intlist__node_cmp_def int_key_def int_ekey_def)
next
  fix m e
  assume m: "int_good m" "int_fits m e"
  obtain n m' where "malloc_node m = (n, m')" "slots m' = slots m" "n \<noteq> 0 \<longrightarrow> node_at n \<and> slots m n = None" using malloc_node_cases [of m] by blast
  then show "\<exists>n m'. intlist__node_new m e = Inr (n, m') \<and> int_good m' \<and> (\<forall>x\<in>int_live m. int_key m' x = int_key m x) \<and>
      (if n = 0 then int_live m' = int_live m else node_at n \<and> n \<notin> int_live m \<and> int_live m' = insert n (int_live m) \<and> int_key m' n = int_ekey m e)"
    using m by (auto simp: intlist__node_new_def int_live_def int_key_def int_ekey_def int_good_def node_at_def)
next
  fix m x
  assume m: "int_good m" "x \<in> int_live m"
  then show "\<exists>m'. intlist__node_delete m x = Inr m' \<and> int_good m' \<and> int_live m' = int_live m - {x} \<and> (\<forall>y\<in>int_live m'. int_key m' y = int_key m y)"
    by (auto simp: intlist__node_delete_def free_node_def int_live_def int_key_def int_good_def)
qed

subsection \<open>Printing and reading back\<close>

fun show_nat :: "nat \<Rightarrow> u8 list" where
  "show_nat n = (if n < 10 then [of_nat (48 + n)] else show_nat (n div 10) @ [of_nat (48 + n mod 10)])"

declare show_nat.simps [simp del]

definition show_int :: "int \<Rightarrow> u8 list" where
  "show_int v = (if v < 0 then 45 # show_nat (nat (- v)) else show_nat (nat v))"

lemma digit: "n < 10 \<Longrightarrow> isdigit (of_nat (48 + n)) \<and> uint (of_nat (48 + n) :: u8) = 48 + int n"
proof -
  assume n: "n < 10"
  then have u: "unat (of_nat (48 + n) :: u8) = 48 + n" by (simp only: unat_of_nat) simp
  have "isdigit (of_nat (48 + n))" unfolding isdigit_def word_le_nat_alt u using n by simp
  then show ?thesis using u by (simp only: uint_nat u) simp
qed

lemma show_nat_digits: "list_all isdigit (show_nat n) \<and> show_nat n \<noteq> []"
  by (induction n rule: show_nat.induct) (subst (1 2) show_nat.simps, auto simp: digit simp del: of_nat_add)

lemma digits_value_snoc [simp]: "digits_value (ds @ [d]) = 10 * digits_value ds + (uint d - 48)" "digits_value [] = 0"
  by (simp_all add: digits_value_def)

lemma show_nat_value: "digits_value (show_nat n) = int n"
proof (induction n rule: show_nat.induct)
  case (1 n)
  show ?case
  proof (cases "n < 10")
    case True
    then show ?thesis using digits_value_snoc(1) [of "[]" "of_nat (48 + n)"] digit [OF True] by (simp add: show_nat.simps [of n] del: of_nat_add)
  next
    case False
    have "digits_value (show_nat n) = 10 * int (n div 10) + int (n mod 10)"
      using False 1 digit [of "n mod 10"] by (simp add: show_nat.simps [of n] del: of_nat_add)
    then show ?thesis by (metis mult_div_mod_eq of_nat_add of_nat_mult of_nat_numeral)
  qed
qed

lemma digit_not_sign: "isdigit c \<Longrightarrow> \<not> isspace c \<and> c \<noteq> 45 \<and> c \<noteq> 43 \<and> c \<noteq> 44"
proof -
  assume "isdigit c"
  then have "48 \<le> c" by (simp add: isdigit_def)
  moreover have "\<not> c \<le> 13"
  proof
    assume "c \<le> 13"
    then have "48 \<le> (13 :: u8)" using \<open>48 \<le> c\<close> order_trans by blast
    then show False by simp
  qed
  ultimately have "\<not> c \<le> 13" "c \<noteq> 32" "c \<noteq> 45" "c \<noteq> 43" "c \<noteq> 44" by auto
  then show ?thesis by (simp add: isspace_def)
qed

lemma takeWhile_digits:
  "list_all isdigit ds \<Longrightarrow> r = [] \<or> \<not> isdigit (hd r) \<Longrightarrow> takeWhile isdigit (ds @ r) = ds \<and> dropWhile isdigit (ds @ r) = r"
  by (induction ds) (auto simp: takeWhile_eq_Nil_iff dropWhile_eq_self_iff)

lemma strtol_digits:
  assumes "r = [] \<or> \<not> isdigit (hd r)"
  shows "strtol (show_nat n @ r) = (min (2 ^ 63 - 1) (int n), r)" "strtol (45 # show_nat n @ r) = (max (- (2 ^ 63)) (- int n), r)"
proof -
  note d = show_nat_digits [of n]
  note w = takeWhile_digits [OF d [THEN conjunct1] assms] show_nat_value [of n] d
  obtain c ds where n: "show_nat n = c # ds" "isdigit c" using d by (cases "show_nat n") auto
  show "strtol (45 # show_nat n @ r) = (max (- (2 ^ 63)) (- int n), r)"
    using w by (simp add: strtol_def isspace_def Let_def)
  have "(case show_nat n @ r of [] \<Rightarrow> (False, show_nat n @ r) | c # r' \<Rightarrow> if c = 45 then (True, r') else if c = 43 then (False, r') else (False, show_nat n @ r)) = (False, show_nat n @ r)"
    using n digit_not_sign [OF n(2)] by simp
  moreover have "dropWhile isspace (show_nat n @ r) = show_nat n @ r" using n digit_not_sign [OF n(2)] by simp
  ultimately show "strtol (show_nat n @ r) = (min (2 ^ 63 - 1) (int n), r)"
    using w by (simp add: strtol_def Let_def)
qed

lemma strtol_show:
  assumes "- (2 ^ 63) \<le> v" "v < 2 ^ 63" "r = [] \<or> \<not> isdigit (hd r)"
  shows "strtol (show_int v @ r) = (v, r)"
  using assms strtol_digits [OF assms(3), of "nat v"] strtol_digits [OF assms(3), of "nat (- v)"] by (simp add: show_int_def)

subsection \<open>Filling a list\<close>

definition int_list :: "intlist \<Rightarrow> u64 list \<Rightarrow> bool" where
  "int_list l xs \<longleftrightarrow> list_holds int_live int_key l xs \<and> uses_ops intlist__node_cmp intlist__node_new intlist__node_delete l \<and> int_good (node_mem l)"

lemma pool_gives_Suc:
  assumes "pool_gives (Suc n) m" "intlist__node_new m e = Inr (x, m')"
  shows "x \<noteq> 0" "pool_gives n m'"
  using assms by (auto simp: pool_gives_def intlist__node_new_def malloc_node_def node_at_def list_all_iff Let_def split: list.splits if_splits)

lemma int_add_ok:
  assumes "int_list l xs" "in_int v" "pool_gives (Suc n) (node_mem l)" "\<forall>w \<in> int_key (node_mem l) ` set xs. in_int (w - v)"
  shows "if v \<in> int_key (node_mem l) ` set xs then intlist__add l (word_of_int v) = Inr (- EEXIST, l)
    else \<exists>l' ys. intlist__add l (word_of_int v) = Inr (0, l') \<and> int_list l' ys \<and> int_key (node_mem l') ` set ys = insert v (int_key (node_mem l) ` set xs) \<and>
      pool_gives n (node_mem l')"
proof -
  let ?e = "scast (word_of_int v :: u32) :: u64"
  have e: "int_ekey (node_mem l) ?e = v" using in_int_word [OF assms(2)] by (simp add: int_ekey_def)
  moreover have "dom (slots (node_mem l)) = set xs" using assms(1) by (simp add: int_list_def list_holds_def int_live_def)
  ultimately have f: "int_fits (node_mem l) ?e" using assms(4) by (simp add: int_fits_def)
  obtain ret x l' ys where r: "rblist__add_node l ?e = Inr (ret, l')" "list_holds int_live int_key l' ys" "uses_ops intlist__node_cmp intlist__node_new intlist__node_delete l'"
    "int_good (node_mem l')" "\<forall>y\<in>set xs. int_key (node_mem l') y = int_key (node_mem l) y"
    "if v \<in> int_key (node_mem l) ` set xs then ret = - EEXIST \<and> l' = l
     else intlist__node_new (node_mem l) ?e = Inr (x, node_mem l') \<and> (if x = 0 then ret = - ENOMEM \<and> ys = xs
       else ret = 0 \<and> int_key (node_mem l') x = v \<and> (\<exists>us vs. xs = us @ vs \<and> ys = us @ x # vs))"
    using il.create_ok [of l xs ?e] assms(1) f e unfolding int_list_def by metis
  show ?thesis
  proof (cases "v \<in> int_key (node_mem l) ` set xs")
    case False
    then have x: "x \<noteq> 0" "pool_gives n (node_mem l')" using pool_gives_Suc [OF assms(3)] r(6) by auto
    then have y: "ret = 0" "int_key (node_mem l') x = v" "set ys = insert x (set xs)" using r(6) False by auto
    have "int_key (node_mem l') ` set xs = int_key (node_mem l) ` set xs" using r(5) by (intro image_cong) auto
    then have "int_key (node_mem l') ` set ys = insert v (int_key (node_mem l) ` set xs)" using y by simp
    moreover have "int_list l' ys" using r by (simp add: int_list_def)
    ultimately show ?thesis using False r(1) y(1) x unfolding intlist__add_def by auto
  qed (use r in \<open>auto simp: intlist__add_def\<close>)
qed

lemma parse_commas:
  assumes "vs \<noteq> []" "\<forall>v\<in>set vs. in_int v" "int_list l xs" "pool_gives (length vs) (node_mem l)"
    "\<forall>v \<in> int_key (node_mem l) ` set xs \<union> set vs. \<forall>w \<in> set vs. in_int (v - w)"
  shows "\<exists>ret l' ys. intlist__parse_list l (commas (map show_int vs)) = Inr (ret, l') \<and> int_list l' ys \<and>
    (if distinct vs \<and> set vs \<inter> int_key (node_mem l) ` set xs = {} then ret = 0 \<and> int_key (node_mem l') ` set ys = set vs \<union> int_key (node_mem l) ` set xs
     else ret = - EEXIST)"
  using assms
proof (induction vs arbitrary: l xs)
  case (Cons v vs)
  let ?r = "if vs = [] then [] else 44 # commas (map show_int vs)"
  have c: "commas (map show_int (v # vs)) = show_int v @ ?r" by (simp add: hd_commas)
  have v: "in_int v" "\<forall>w \<in> int_key (node_mem l) ` set xs. in_int (w - v)" using Cons(3,6) by auto
  have "\<not> isdigit 44" by (simp add: isdigit_def)
  then have s: "strtol (show_int v @ ?r) = (v, ?r)" using v by (intro strtol_show) (auto simp: in_int_def)
  note a = int_add_ok [OF Cons(4) v(1) _ v(2), of "length vs"]
  show ?case
  proof (cases "v \<in> int_key (node_mem l) ` set xs")
    case True
    then have "intlist__parse_list l (show_int v @ ?r) = Inr (- EEXIST, l)" using a Cons(5) s by (subst intlist__parse_list.simps) (auto simp: EEXIST_def)
    then show ?thesis using True Cons(4) unfolding c by auto
  next
    case False
    then obtain l1 ys where l1: "intlist__add l (word_of_int v) = Inr (0, l1)" "int_list l1 ys" "int_key (node_mem l1) ` set ys = insert v (int_key (node_mem l) ` set xs)"
      "pool_gives (length vs) (node_mem l1)" using a Cons(5) by auto
    have p: "intlist__parse_list l (show_int v @ ?r) = (if vs = [] then Inr (0, l1) else intlist__parse_list l1 (commas (map show_int vs)))"
      using s l1(1) by (subst intlist__parse_list.simps) auto
    show ?thesis
    proof (cases "vs = []")
      case True
      then show ?thesis using p l1 False unfolding c by auto
    next
      case ne: False
      from Cons(1) [OF this _ l1(2,4)] Cons(3,6) obtain ret l' zs where "intlist__parse_list l1 (commas (map show_int vs)) = Inr (ret, l')" "int_list l' zs"
        "if distinct vs \<and> set vs \<inter> insert v (int_key (node_mem l) ` set xs) = {} then ret = 0 \<and> int_key (node_mem l') ` set zs = set vs \<union> insert v (int_key (node_mem l) ` set xs)
         else ret = - EEXIST" unfolding l1(3) by auto
      then show ?thesis using p ne False unfolding c by (intro exI [of _ ret] exI [of _ l'] exI [of _ zs]) auto
    qed
  qed
qed simp

text \<open>
  Claim C28.  \<open>intlist__new\<close> on the decimal numbers of a list of \<open>int\<close> whose differences are again \<open>int\<close>, joined with
  commas, gives a list with exactly these integers in rising order when they are distinct and there is memory for them,
  and otherwise returns NULL with every node freed.
\<close>

theorem intlist_new_reads_numbers:
  assumes "vs \<noteq> []" "\<forall>v\<in>set vs. in_int v \<and> (\<forall>w\<in>set vs. in_int (v - w))" "slots m = Map.empty" "pool_gives (length vs) m"
  shows "\<exists>res m'. intlist__new True h m (Some (commas (map show_int vs))) = Inr (res, m') \<and>
    (if distinct vs then \<exists>l xs. res = Some l \<and> node_mem l = m' \<and> list_holds int_live int_key l xs \<and> map (int_key m') xs = sort vs
     else res = None \<and> slots m' = Map.empty)"
proof -
  let ?l = "rblist__init \<lparr>entries = h, nr_entries = 0, node_cmp = intlist__node_cmp, node_new = intlist__node_new, node_delete = intlist__node_delete, node_mem = m, junk = h\<rparr>"
  have l: "int_list ?l []" "node_mem ?l = m" using assms(3) by (simp_all add: int_list_def list_holds_def rblist__init_def rb_seq_empty uses_ops_def int_live_def int_good_def)
  obtain ret l' ys where p: "intlist__parse_list ?l (commas (map show_int vs)) = Inr (ret, l')" "int_list l' ys"
    "if distinct vs then ret = 0 \<and> int_key (node_mem l') ` set ys = set vs else ret = - EEXIST"
    using parse_commas [OF assms(1) _ l(1)] assms(2,4) l(2) by auto
  show ?thesis
  proof (cases "distinct vs")
    case True
    have "sorted_wrt (<) (map (int_key (node_mem l')) ys)" using p(2) by (simp add: int_list_def list_holds_def)
    then have "map (int_key (node_mem l')) ys = sort vs"
      using True p(3) by (intro sorted_distinct_set_unique) (auto simp: strict_sorted_iff)
    then show ?thesis using p True by (auto simp: intlist__new_def Let_def int_list_def)
  next
    case False
    obtain m' where "rblist__delete (Some l') m = Inr (None, m')" "int_live m' = {}" using il.delete_ok [of l' ys m] p(2) by (auto simp: int_list_def)
    then show ?thesis using p(1,3) False by (auto simp: intlist__new_def Let_def intlist__delete_def EEXIST_def int_live_def)
  qed
qed

definition int_start :: int_mem where
  "int_start = \<lparr>slots = Map.empty, pool = [8, 16, 24, 32, 40, 48, 56, 64]\<rparr>"

theorem intlist_new_reads_numbers_witness:
  "\<exists>res m'. intlist__new True two_nodes int_start (Some [52, 44, 45, 50, 44, 49, 55]) = Inr (res, m') \<and>
     (\<exists>l xs. res = Some l \<and> node_mem l = m' \<and> list_holds int_live int_key l xs \<and> map (int_key m') xs = [-2, 4, 17])"
proof -
  have "commas (map show_int [4, -2, 17]) = [52, 44, 45, 50, 44, 49, 55]" by code_simp
  moreover have "slots int_start = Map.empty" by (simp add: int_start_def)
  moreover have "pool_gives (Suc (Suc (Suc 0))) int_start" by code_simp
  ultimately show ?thesis using intlist_new_reads_numbers [of "[4, -2, 17]" int_start two_nodes] by (simp add: in_int_def)
qed

subsection \<open>Integers far apart\<close>

text \<open>The first comparison of a search is with the root; when no difference is an \<open>int\<close> it is undefined.\<close>

lemma far_search:
  fixes i :: u32
  assumes "int_list l xs" "xs \<noteq> []" "\<forall>x\<in>set xs. \<not> in_int (int_key (node_mem l) x - sint i)"
  shows "rblist_search l (scast i) = Inl Int_Overflow"
proof -
  obtain t where t: "rbtree_at (entries l) t" "inorder t = xs" using assms(1) by (auto simp: int_list_def list_holds_def rb_seq_def)
  then obtain c a x b where x: "t = Nd c a x b" using assms(2) by (cases t) auto
  then have n: "rb_node (entries l) = x" "x \<noteq> 0" "x \<in> set xs" using t by (auto simp: rbtree_at_def node_at_def)
  then have "x \<in> dom (slots (node_mem l))" using assms(1) by (simp add: int_list_def list_holds_def int_live_def)
  then have "intlist__node_cmp (node_mem l) x (scast i) = Inl Int_Overflow"
    using assms(3) n(3) by (auto simp: intlist__node_cmp_def int_key_def Let_def dest!: bspec)
  moreover have "node_cmp l = intlist__node_cmp" using assms(1) by (simp add: int_list_def uses_ops_def)
  ultimately show ?thesis using n by (simp add: rblist_search_def search_loop.simps [where p = Root_Link] link_get_def)
qed

text \<open>
  Claim C40.  The comparison of \<open>intlist.c\<close> subtracts two \<open>int\<close> without a check: with memory for a node,
  \<open>intlist__new\<close> on a text of decimal numbers runs into a signed overflow whenever the difference of the first two is not
  an \<open>int\<close>, although both numbers are.
\<close>

theorem far_integers_overflow:
  assumes "in_int v" "in_int w" "\<not> in_int (v - w)" "slots m = Map.empty" "pool_gives 1 m"
  shows "intlist__new True h m (Some (commas (map show_int (v # w # vs)))) = Inl Int_Overflow"
proof -
  let ?l = "rblist__init \<lparr>entries = h, nr_entries = 0, node_cmp = intlist__node_cmp, node_new = intlist__node_new, node_delete = intlist__node_delete, node_mem = m, junk = h\<rparr>"
  let ?r = "if vs = [] then [] else 44 # commas (map show_int vs)"
  have l: "int_list ?l []" "node_mem ?l = m" using assms(4) by (simp_all add: int_list_def list_holds_def rblist__init_def rb_seq_empty uses_ops_def int_live_def int_good_def)
  have "pool_gives (Suc 0) (node_mem ?l)" using assms(5) l(2) by simp
  from int_add_ok [OF l(1) assms(1) this] obtain l1 ys where
    l1: "intlist__add ?l (word_of_int v) = Inr (0, l1)" "int_list l1 ys" "int_key (node_mem l1) ` set ys = {v}" by auto
  have "ys \<noteq> []" "\<forall>x\<in>set ys. int_key (node_mem l1) x = v" using l1(3) by auto
  then have o: "intlist__add l1 (word_of_int w) = Inl Int_Overflow"
    using far_search [OF l1(2), of "word_of_int w"] assms(3) in_int_word [OF assms(2)] by (simp add: intlist__add_def rblist__add_node_def)
  have d: "\<not> isdigit 44" by (simp add: isdigit_def)
  have c: "commas (map show_int (v # w # vs)) = show_int v @ 44 # show_int w @ ?r" by (simp add: hd_commas)
  have s: "strtol (show_int v @ 44 # show_int w @ ?r) = (v, 44 # show_int w @ ?r)" "strtol (show_int w @ ?r) = (w, ?r)"
    using assms(1,2) d by (intro strtol_show; auto simp: in_int_def)+
  have "intlist__parse_list l1 (show_int w @ ?r) = Inl Int_Overflow" using s(2) o by (subst intlist__parse_list.simps) auto
  then have "intlist__parse_list ?l (show_int v @ 44 # show_int w @ ?r) = Inl Int_Overflow"
    using s(1) l1(1) by (subst intlist__parse_list.simps) simp
  then show ?thesis unfolding c by (simp add: intlist__new_def Let_def)
qed

theorem far_integers_overflow_witness:
  "intlist__new True two_nodes int_start (Some (commas (map show_int [2000000000, - 2000000000]))) = Inl Int_Overflow"
proof -
  have "pool_gives 1 int_start" by code_simp
  then show ?thesis using far_integers_overflow [of 2000000000 "- 2000000000" int_start two_nodes "[]"] by (simp add: in_int_def int_start_def)
qed

end
