(* ===== verification/Spec2Isabelle.thy ===== *)
theory Spec2Isabelle
  imports Ordered_Events Auxtrace_Queues Mmap_Ring Intel_PT_Pkt Bitops Evsel_Sample Kbuffer Insn_X86 Strlist Intlist
begin

text \<open>
  \<^bold>\<open>perf\<close>: a verification development for the Linux profiler under \<^verbatim>\<open>src/tools/perf\<close> and the libraries
  it is built on, \<^verbatim>\<open>src/tools/lib\<close> and \<^verbatim>\<open>src/tools/include\<close>.

  \<^bold>\<open>The program.\<close>  The kernel writes events into ring buffers mapped into perf.  \<^verbatim>\<open>perf record\<close> copies the
  rings into a file; the other tools read events one by one from a ring or from the file, take the samples
  apart, put the events of the cpus into time order and hand them to a tool.  Hardware traces (AUX area) come
  as large buffers beside the events: they are kept in queues by cpu or thread, a heap picks the queue whose
  trace is earliest, and the Intel PT decoder reads packets from it and walks the instructions of the traced
  program along them.  Pages of the kernel's function tracer are read by the trace event library.  Most tables of
  perf, from symbols to the lists of names and thread ids on the command line, are kept in red-black trees.

  \<^bold>\<open>Conventions.\<close>  C integers are words of their width (\<open>u8\<close> to \<open>u64\<close>), or natural numbers and integers
  where the code keeps them in range and the theory says so.  A function that can run into undefined behaviour
  (an access out of bounds, a null or unset pointer, a bad shift, a signed overflow) or need not return has a result in
  \<open>c_result\<close>: \<open>Inl\<close> names the defect, \<open>Inr\<close> has the returned value and the state after the call.  Error
  codes the code returns are values inside \<open>Inr\<close>.  Loops are recursive functions with a termination proof, or
  \<open>partial_function (option)\<close> where the code need not end; \<open>None\<close> is then the defect \<open>Diverges\<close>.  The host is
  little-endian with 64-bit pointers; where the code depends on the size of \<open>long\<close> (\<open>Auxtrace_Queues\<close>,
  \<open>Bitops\<close>) the 32-bit case is modelled beside it.  Allocation, \<open>realloc\<close>, files and callbacks are parameters.

  \<^item> \<open>Perf_Prelude\<close>: \<open>c_result\<close> with its bind, arrays with bounds, \<open>memcpy\<close>, lists sorted by a key, words.
  \<^item> \<open>C_Bytes\<close>: little-endian words in byte lists, \<open>snprintf\<close> with \<open>%d\<close>, \<open>%x\<close> and \<open>%s\<close>.
  \<^item> \<open>Linux_List\<close>: \<^verbatim>\<open>linux/list.h\<close> on a pointer heap.  \<open>ring h head xs\<close> says that the links from \<open>head\<close>
    run through \<open>xs\<close> and back; every operation is shown to act on \<open>xs\<close> as on a sequence, and to leave rings it
    shares no cell with alone.  The locale \<open>entry_lists\<close> is the contract clients rely on, interpreted on these
    operations.
  \<^item> \<open>Ordered_Events\<close>: \<^verbatim>\<open>util/ordered-events.c\<close>.  The record \<open>ordered_events\<close> has the lists at pointer
    level and the memory of the slots; \<open>ordered_events__queue\<close>, \<open>ordered_events__flush\<close>, \<open>ordered_events__free\<close>
    and the functions under them are as in the file.  \<open>oe_inv\<close> is the invariant, kept by all of them;
    \<open>oe_run\<close> are the call sequences with a callback that accepts every event, \<open>pass_run\<close> those of passes over the rings,
    each ending with a round flush.  A flush that the callback cuts short can leave \<open>last\<close> on a slot of the cache
    (\<open>cut_flush_keeps_last\<close>).  Shown: delivery in time order under the assumption on passes documented in \<^verbatim>\<open>session.c\<close>, nothing
    lost or delivered twice, and that the searches and the release end; also two paths that use a pointer that
    was never set.
  \<^item> \<open>Auxtrace_Heap\<close>: the heap of \<^verbatim>\<open>util/auxtrace.c\<close> and its client \<open>intel_pt_process_queues\<close> of
    \<^verbatim>\<open>util/intel-pt.c\<close>.  Sifting keeps the heap order around a hole (\<open>hole_up\<close>, \<open>hole_down\<close>); the locale
    \<open>ordinal_queue\<close> is the contract of a queue by ordinal, in which draining in order is proved once.  The
    decoder of a queue is a parameter with the contract \<open>decoder_ok\<close>, instantiated by a replay of time stamps.
  \<^item> \<open>Auxtrace_Queues\<close>: the queues of \<^verbatim>\<open>util/auxtrace.c\<close>, from the event to the split, copied or mapped
    buffer and its release.  \<open>qs_inv\<close> is the invariant; \<open>aq_run\<close> the runs; the abstract view of a run is the list
    of accepted events, which the queues refine.  Mappings, data and buffers given back are recorded in
    order (\<open>am_released\<close>).
  \<^item> \<open>Mmap_Ring\<close>: \<open>perf_mmap__read\<close> and its relatives in \<^verbatim>\<open>util/evlist.c\<close>, and \<open>record__mmap_read\<close> of
    \<^verbatim>\<open>builtin-record.c\<close>.  \<open>ring_bytes\<close> is the abstract view, the bytes between two positions of the endless
    stream the ring shows a window of; reader and writer are shown to refine it, in both directions of writing.
  \<^item> \<open>Evsel_Sample\<close>: parsing, sizing and synthesizing samples in \<^verbatim>\<open>util/evsel.c\<close> and \<open>perf_evlist__event2id\<close>.
    \<open>sample_layout\<close> describes the bytes of a sample.  Writing emits the layout (\<open>emits\<close>), reading bytes that have
    the layout gives the sample back (\<open>same_fixed\<close>, \<open>same_variable\<close>), and for arbitrary bytes every step stays in
    the event (\<open>step_safe\<close>).  The id sample of other events is read backwards (\<open>backs\<close>).
  \<^item> \<open>Kbuffer\<close>: \<^verbatim>\<open>lib/traceevent/kbuffer-parse.c\<close>.  \<open>kpage\<close> builds a page from records in either byte order;
    reading it gives the records back.
  \<^item> \<open>Intel_PT_Pkt\<close>: \<^verbatim>\<open>intel-pt-pkt-decoder.c\<close>, with \<open>encode\<close> as reference of the packet formats.
  \<^item> \<open>Insn_X86\<close>: \<^verbatim>\<open>inat.h\<close>, \<^verbatim>\<open>inat.c\<close>, \<^verbatim>\<open>insn.h\<close>, \<^verbatim>\<open>insn.c\<close> and \<^verbatim>\<open>intel-pt-insn-decoder.c\<close>.  The decoder is
    a state monad with early exit (\<open>im_bind\<close>); \<open>im_ok\<close> are its Hoare triples and \<open>keeps\<close> the steps that stay in
    the buffer, with their rules in \<open>keeps_rules\<close>.  The attribute tables are a parameter; \<open>inat_tables_ok\<close> states
    what the opcode map guarantees of escapes.
  \<^item> \<open>Bitops\<close>: \<^verbatim>\<open>lib/hweight.c\<close>, \<^verbatim>\<open>lib/find_bit.c\<close>, \<^verbatim>\<open>lib/bitmap.c\<close> and the headers they come with; words as
    lists of bit fields (\<open>fields\<close>) for the parallel counts, bitmaps as sets of bits (\<open>bmbit\<close>).

  \<^item> \<open>Rbtree\<close>, \<open>Rbtree_Insert\<close>, \<open>Rbtree_Erase\<close>, \<open>Rbtree_Order\<close>: \<^verbatim>\<open>lib/rbtree.c\<close>, \<^verbatim>\<open>linux/rbtree.h\<close> and
    \<^verbatim>\<open>rbtree_augmented.h\<close> on a heap of node words.  \<open>rbtree_at h t\<close> relates the heap to a tree, \<open>zip_at\<close> to a
    subtree and the way up from it.  The loops are shown to end and to follow the functions \<open>ins_fix\<close> and \<open>er_fix\<close>
    on trees, which keep \<open>rb_ok\<close> (colours and black heights) and the nodes in order.  \<open>path_bound\<close> bounds the
    length of a path.  The locale \<open>ordered_nodes\<close> is the contract of the users, interpreted on these operations.
  \<^item> \<open>Rblist\<close>, \<open>Strlist\<close>, \<open>Intlist\<close>: \<^verbatim>\<open>util/rblist.c\<close>, \<^verbatim>\<open>util/strlist.c\<close> and \<^verbatim>\<open>util/intlist.c\<close>.  The locale
    \<open>node_ops\<close> states what \<^verbatim>\<open>rblist.c\<close> asks of its callbacks; searching, adding, removing and deleting are proved
    once in it, and it is interpreted on the callbacks of both kinds of lists.  A list is a sorted set of
    strings or of integers, as long as the difference of two integers is an \<open>int\<close>; where it is not the comparison
    overflows.  The words of a node that is freed are overwritten with arbitrary ones.  The parsers of
    comma-separated texts and of files are shown to give the entries.

  \<^bold>\<open>Fuel.\<close>  \<open>escape_loop\<close> of \<open>Insn_X86\<close> has fuel 17: every round takes a byte and an instruction has at most
  fifteen; with tables as the opcode map makes them two rounds are the most, and it is shown that the fuel does
  not run out.  \<open>set_bits_from\<close> of \<open>Bitops\<close> has one unit for each bit of the bitmap and one for the end, and is
  shown to return.

  \<^bold>\<open>What is not modelled.\<close>  Code that is mostly system calls, terminal output or calls of libraries outside the
  sources (option handling and the commands, the user interfaces, opening and mapping counters, the perf.data
  header, ELF and DWARF reading, unwinding, BPF, scripting); generated parsers and what rests on them (event
  selection, the attribute tables of the instruction decoder); the object graph of the traced machine (threads,
  maps, symbols, histograms); the control flow decoder of Intel PT between the packets and the queues; the format
  language of trace events; trees with augmented data.  Big-endian hosts, \<open>hlist\<close>, printing of bitmaps and the text output
  of the modelled components beyond the packet and instruction descriptions are left out as well.
\<close>

end
